(* ===== verification/Prelude.thy ===== *)
theory Prelude
  imports "HOL-Library.Word" "HOL-Library.Code_Target_Nat"
begin

text \<open>
  Shared vocabulary of the development: the C integer types, the result type of code that
  may call \<^verbatim>\<open>abort()\<close>, the scan loop that every victim selector of the
  program is an instance of, and sums of 64-bit byte counts.
\<close>

section \<open>Machine integers\<close>

type_synonym u8 = "8 word"
type_synonym u32 = "32 word"
type_synonym u64 = "64 word"

text \<open>
  Byte counts, sequence numbers and statistics are \<open>u64\<close>, pin counts are \<open>u32\<close>.
  Chunk indices and queue positions are natural numbers, with the 32-bit wrap-around
  written out (\<open>wrap32\<close>) where the code computes with them. The sentinel
  \<^verbatim>\<open>CHUNK_NONE\<close> (\<^verbatim>\<open>UINT32_MAX\<close>, never a valid index, since a
  table has at most \<^verbatim>\<open>UINT32_MAX\<close> entries) is the value \<open>None\<close>.
\<close>

definition UINT32_MAX :: nat where "UINT32_MAX = 4294967295"
definition UINT64_MAX :: u64 where "UINT64_MAX = 18446744073709551615"
definition INT64_MAX :: int where "INT64_MAX = 9223372036854775807"
definition RESIDCTL_ALIGN :: u64 where "RESIDCTL_ALIGN = 4096"

definition wrap32 :: "nat \<Rightarrow> nat" where
  "wrap32 n = n mod 4294967296"

definition int32_cast :: "nat \<Rightarrow> int" where
  "int32_cast n = (if n mod 4294967296 < 2147483648 then int (n mod 4294967296)
                   else int (n mod 4294967296) - 4294967296)"

lemma wrap32_id [simp]: "n < 4294967296 \<Longrightarrow> wrap32 n = n"
  by (simp add: wrap32_def)

lemma wrap32_less [simp]: "wrap32 n < 4294967296"
  by (simp add: wrap32_def)

lemma int32_cast_small: "n < 2147483648 \<Longrightarrow> int32_cast n = int n"
  by (simp add: int32_cast_def)

lemma int32_cast_nonneg: "0 \<le> int32_cast n \<Longrightarrow> n < 4294967296 \<Longrightarrow> nat (int32_cast n) = n"
  by (auto simp: int32_cast_def split: if_splits)

section \<open>Results\<close>

text \<open>
  The program has no exceptions: a broken invariant prints a message and calls
  \<^verbatim>\<open>abort()\<close>. Each such site is a constructor, and a function that can
  reach one returns a sum.
\<close>

datatype failure =
    Stat_unreadable          \<comment> \<open>budget.c: memory.stat cannot be read\<close>
  | Stat_no_shmem            \<comment> \<open>budget.c: no shmem field\<close>
  | Reconcile_below          \<comment> \<open>I-7: fewer bytes than the confirmed floor\<close>
  | Reconcile_above          \<comment> \<open>I-7: more bytes than confirmed and in flight\<close>
  | Evict_not_resident       \<comment> \<open>I-4\<close>
  | Evict_pinned             \<comment> \<open>I-4\<close>
  | Evict_punch_failed
  | Policy_trace_full
  | Fetch_trace_full
  | Trace_write_failed
  | Fetch_misaligned
  | Fetch_pread_failed
  | Fetch_unexpected_eof
  | Fetch_incomplete_script  \<comment> \<open>the modelled list of system-call results ran out\<close>
  | Continue_failed
  | Continue_short           \<comment> \<open>I-5\<close>
  | Demand_queue_full
  | Demand_not_fetching      \<comment> \<open>I-6\<close>
  | Left_fetching
  | Prefetch_out_of_range
  | Null_policy              \<comment> \<open>prefetch_pool.c: r->policy is dereferenced unchecked\<close>
  | Null_pool                \<comment> \<open>pager.c: the pool handle is dereferenced unchecked\<close>
  | No_covering_chunk
  | Poll_failed
  | Uffd_read_failed
  | Uffd_short_read
  | Uffd_unexpected_event
  | Startup_failed string

definition rbind :: "'e + 'a \<Rightarrow> ('a \<Rightarrow> 'e + 'b) \<Rightarrow> 'e + 'b" where
  "rbind m f = (case m of Inl e \<Rightarrow> Inl e | Inr x \<Rightarrow> f x)"

lemma rbind_simps [simp]:
  "rbind (Inl e) f = Inl e"
  "rbind (Inr x) f = f x"
  by (simp_all add: rbind_def)

lemma rbind_Inr_iff: "rbind m f = Inr y \<longleftrightarrow> (\<exists>x. m = Inr x \<and> f x = Inr y)"
  by (cases m) simp_all

lemma rbind_Inl_iff: "rbind m f = Inl e \<longleftrightarrow> m = Inl e \<or> (\<exists>x. m = Inr x \<and> f x = Inl e)"
  by (cases m) auto

lemma rbind_cong [fundef_cong]:
  "m = m' \<Longrightarrow> (\<And>x. m' = Inr x \<Longrightarrow> f x = g x) \<Longrightarrow> rbind m f = rbind m' g"
  by (cases m') simp_all

lemma not_islE: "\<not> isl m \<Longrightarrow> (\<And>y. m = Inr y \<Longrightarrow> P) \<Longrightarrow> P"
  by (cases m) auto

section \<open>First-match loops\<close>

text \<open>
  A loop \<^verbatim>\<open>for (k = 0; k < n; k++) if (P(k)) return ...;\<close> is \<open>List.find P [0..<n]\<close>.
\<close>

lemma find_upt_Some_iff:
  "List.find P [0..<n] = Some k \<longleftrightarrow> k < n \<and> P k \<and> (\<forall>j<k. \<not> P j)"
  by (auto simp: find_Some_iff)

lemma find_upt_None_iff: "List.find P [0..<n] = None \<longleftrightarrow> (\<forall>k<n. \<not> P k)"
  by (auto simp: find_None_iff)

lemma upt_split:
  assumes "[0..<n] = as @ i # bs"
  shows "i < n" and "as = [0..<i]" and "bs = [Suc i..<n]"
proof -
  have len: "n = length as + Suc (length bs)" using arg_cong[OF assms, of length] by simp
  have i: "i = length as"
    using arg_cong[OF assms, of "\<lambda>l. l ! length as"] nth_upt[of 0 "length as" n] len
    by (simp del: upt_Suc)
  with len show "i < n" by simp
  show "as = [0..<i]"
    using arg_cong[OF assms, of "take (length as)"] i len by (simp add: take_upt)
  show "bs = [Suc i..<n]"
    using arg_cong[OF assms, of "drop (Suc (length as))"] i by simp
qed

section \<open>Repeated lists\<close>

lemma nth_concat_replicate:
  "j < p * length xs \<Longrightarrow> concat (replicate p xs) ! j = xs ! (j mod length xs)"
proof (induction p arbitrary: j)
  case 0
  then show ?case by simp
next
  case (Suc p)
  show ?case
  proof (cases "j < length xs")
    case True
    then show ?thesis by (simp add: nth_append)
  next
    case False
    then have "concat (replicate p xs) ! (j - length xs) = xs ! ((j - length xs) mod length xs)"
      using Suc by simp
    then show ?thesis using False by (simp add: nth_append le_mod_geq)
  qed
qed

lemma concat_replicate_upt: "concat (replicate p [0..<n]) = map (\<lambda>s. s mod n) [0..<p * n]"
  by (cases "n = 0") (simp_all add: list_eq_iff_nth_eq length_concat sum_list_replicate nth_concat_replicate)

section \<open>The best-so-far scan\<close>

text \<open>
  Every victim selector of the program is the same loop over candidates in a fixed order:
  skip the ineligible ones, take the first eligible one, replace it when a later one has a
  strictly better key (\<^verbatim>\<open>if (best == CHUNK_NONE || d > best_dist)\<close>). The
  order \<open>better\<close> is the comparison the selector uses.
\<close>

fun pick :: "('k \<Rightarrow> 'k \<Rightarrow> bool) \<Rightarrow> ('i \<Rightarrow> bool) \<Rightarrow> ('i \<Rightarrow> 'k) \<Rightarrow> 'i list
    \<Rightarrow> ('i \<times> 'k) option \<Rightarrow> ('i \<times> 'k) option" where
  "pick better elig key [] best = best"
| "pick better elig key (i # xs) best =
     (if \<not> elig i then pick better elig key xs best
      else case best of
        None \<Rightarrow> pick better elig key xs (Some (i, key i))
      | Some (b, bk) \<Rightarrow>
          if better (key i) bk then pick better elig key xs (Some (i, key i))
          else pick better elig key xs best)"

lemma pick_append:
  "pick better elig key (xs @ ys) best =
     pick better elig key ys (pick better elig key xs best)"
  by (induction xs arbitrary: best) (auto split: option.splits)

lemma pick_cong:
  "(\<And>x. x \<in> set xs \<Longrightarrow> elig x = elig' x) \<Longrightarrow>
   (\<And>x. x \<in> set xs \<Longrightarrow> elig x \<Longrightarrow> key x = key' x) \<Longrightarrow>
   pick better elig key xs best = pick better elig' key' xs best"
proof (induction xs arbitrary: best)
  case Nil
  then show ?case by simp
next
  case (Cons x xs)
  then show ?case by (auto split: option.splits)
qed

text \<open>The contract of the scan, for any strict total comparison.\<close>

locale pick_order =
  fixes better :: "'k \<Rightarrow> 'k \<Rightarrow> bool"
  assumes irrefl: "\<not> better k k"
    and trans: "better a b \<Longrightarrow> better b c \<Longrightarrow> better a c"
    and total: "\<not> better a b \<Longrightarrow> \<not> better b a \<Longrightarrow> a = b"
begin

lemma pick_spec:
  "case pick better elig key xs None of
     None \<Rightarrow> \<forall>x\<in>set xs. \<not> elig x
   | Some (b, k) \<Rightarrow> k = key b \<and> elig b \<and>
       (\<exists>ys zs. xs = ys @ b # zs \<and> (\<forall>y\<in>set ys. elig y \<longrightarrow> better (key b) (key y))
                 \<and> (\<forall>z\<in>set zs. elig z \<longrightarrow> \<not> better (key z) (key b)))"
proof (induction xs rule: rev_induct)
  case Nil
  then show ?case by simp
next
  case (snoc x xs)
  show ?case
  proof (cases "pick better elig key xs None")
    case None
    with snoc have none: "\<forall>y\<in>set xs. \<not> elig y" by simp
    show ?thesis
    proof (cases "elig x")
      case True
      have "\<exists>us vs. xs @ [x] = us @ x # vs \<and> (\<forall>y\<in>set us. elig y \<longrightarrow> better (key x) (key y))
              \<and> (\<forall>z\<in>set vs. elig z \<longrightarrow> \<not> better (key z) (key x))"
        using none by (intro exI[of _ xs] exI[of _ "[]"]) auto
      with True None show ?thesis by (simp add: pick_append)
    next
      case False
      with None none show ?thesis by (simp add: pick_append)
    qed
  next
    case (Some bk)
    obtain b k where bk: "bk = (b, k)" by (cases bk)
    from snoc Some bk obtain ys zs where k: "k = key b" and eb: "elig b"
      and xs: "xs = ys @ b # zs"
      and before: "\<forall>y\<in>set ys. elig y \<longrightarrow> better (key b) (key y)"
      and after: "\<forall>z\<in>set zs. elig z \<longrightarrow> \<not> better (key z) (key b)"
      by auto
    show ?thesis
    proof (cases "elig x \<and> better (key x) k")
      case True
      then have new: "pick better elig key (xs @ [x]) None = Some (x, key x)"
        using Some bk by (simp add: pick_append)
      have old: "better (key x) (key y)" if "y \<in> set xs" "elig y" for y
      proof -
        from that(1) xs consider "y = b" | "y \<in> set ys" | "y \<in> set zs" by auto
        then show ?thesis
        proof cases
          case 1
          then show ?thesis using True k by simp
        next
          case 2
          then show ?thesis using True k before that(2) trans by blast
        next
          case 3
          then have nb: "\<not> better (key y) (key b)" using after that(2) by blast
          show ?thesis
          proof (cases "better (key b) (key y)")
            case bt: True
            then show ?thesis using True k trans by blast
          next
            case False
            then have "key y = key b" using nb total by blast
            then show ?thesis using True k by simp
          qed
        qed
      qed
      have "\<exists>us vs. xs @ [x] = us @ x # vs \<and> (\<forall>y\<in>set us. elig y \<longrightarrow> better (key x) (key y))
              \<and> (\<forall>z\<in>set vs. elig z \<longrightarrow> \<not> better (key z) (key x))"
        using old by (intro exI[of _ xs] exI[of _ "[]"]) auto
      then show ?thesis using new True by simp
    next
      case False
      then have new: "pick better elig key (xs @ [x]) None = Some (b, k)"
        using Some bk by (auto simp: pick_append)
      have "\<exists>us vs. xs @ [x] = us @ b # vs \<and> (\<forall>y\<in>set us. elig y \<longrightarrow> better (key b) (key y))
              \<and> (\<forall>z\<in>set vs. elig z \<longrightarrow> \<not> better (key z) (key b))"
        using xs before after False k
        by (intro exI[of _ ys] exI[of _ "zs @ [x]"]) auto
      then show ?thesis using new k eb by simp
    qed
  qed
qed

text \<open>Over the indices of a table: the first index whose key nothing beats.\<close>

lemma pick_upt:
  assumes "pick better elig key [0..<n] None = Some (b, k)"
  shows "b < n \<and> elig b \<and> k = key b
    \<and> (\<forall>j<b. elig j \<longrightarrow> better (key b) (key j))
    \<and> (\<forall>j<n. elig j \<longrightarrow> \<not> better (key j) (key b))"
proof -
  from assms pick_spec [where elig = elig and key = key and xs = "[0..<n]"] obtain ys zs where
    k: "k = key b" and eb: "elig b" and xs: "[0..<n] = ys @ b # zs"
    and before: "\<forall>y\<in>set ys. elig y \<longrightarrow> better (key b) (key y)"
    and after: "\<forall>z\<in>set zs. elig z \<longrightarrow> \<not> better (key z) (key b)"
    by auto
  note sp = upt_split[OF xs]
  have lo: "\<forall>j<b. elig j \<longrightarrow> better (key b) (key j)" using before sp(2) by simp
  have "\<not> better (key j) (key b)" if "j < n" "elig j" for j
  proof (rule linorder_cases[of j b])
    assume "j < b"
    then show ?thesis using lo that(2) irrefl trans by blast
  next
    assume "j = b"
    then show ?thesis using irrefl by simp
  next
    assume "b < j"
    then show ?thesis using after sp(3) that by simp
  qed
  with lo k eb sp(1) show ?thesis by simp
qed

lemma pick_None_iff: "pick better elig key xs None = None \<longleftrightarrow> (\<forall>x\<in>set xs. \<not> elig x)"
  using pick_spec [where elig = elig and key = key and xs = xs] by (auto split: option.splits)

lemma pick_SomeD:
  assumes "pick better elig key xs None = Some (b, k)"
  shows "b \<in> set xs" "elig b" "k = key b"
    and "x \<in> set xs \<Longrightarrow> elig x \<Longrightarrow> \<not> better (key x) (key b)"
proof -
  from assms pick_spec [where elig = elig and key = key and xs = xs] obtain ys zs where
    k: "k = key b" and eb: "elig b" and xs: "xs = ys @ b # zs"
    and before: "\<forall>y\<in>set ys. elig y \<longrightarrow> better (key b) (key y)"
    and after: "\<forall>z\<in>set zs. elig z \<longrightarrow> \<not> better (key z) (key b)"
    by auto
  show "b \<in> set xs" "elig b" "k = key b" using xs eb k by auto
  show "\<not> better (key x) (key b)" if "x \<in> set xs" "elig x" for x
  proof -
    from that(1) xs consider "x = b" | "x \<in> set ys" | "x \<in> set zs" by auto
    then show ?thesis
    proof cases
      case 1
      then show ?thesis using irrefl by simp
    next
      case 2
      then show ?thesis using before that(2) irrefl trans by blast
    next
      case 3
      then show ?thesis using after that(2) by blast
    qed
  qed
qed

end

interpretation u64_less: pick_order "(<) :: u64 \<Rightarrow> u64 \<Rightarrow> bool"
  by unfold_locales auto

interpretation nat_greater: pick_order "(>) :: nat \<Rightarrow> nat \<Rightarrow> bool"
  by unfold_locales auto

interpretation int_greater: pick_order "(>) :: int \<Rightarrow> int \<Rightarrow> bool"
  by unfold_locales auto

section \<open>Sums of machine words\<close>

lemma u64_bound: "unat (v :: u64) < 18446744073709551616"
  using unsigned_less [of v, where 'a = nat] by simp

lemma u32_bound: "unat (v :: u32) < 4294967296"
  using unsigned_less [of v, where 'a = nat] by simp

lemma unat_sum_mod:
  fixes f :: "'i \<Rightarrow> 'w::len word"
  shows "unat (\<Sum>i\<in>S. f i) = (\<Sum>i\<in>S. unat (f i)) mod 2 ^ LENGTH('w)"
proof (induction S rule: infinite_finite_induct)
  case (infinite S)
  then show ?case by simp
next
  case empty
  then show ?case by simp
next
  case (insert x S)
  then show ?case by (simp add: unat_word_ariths mod_add_right_eq)
qed

lemma unat_sum_exact:
  fixes f :: "'i \<Rightarrow> u64"
  assumes "(\<Sum>i\<in>S. unat (f i)) < 2 ^ 64"
  shows "unat (\<Sum>i\<in>S. f i) = (\<Sum>i\<in>S. unat (f i))"
  using assms by (simp add: unat_sum_mod)

lemma unat_add_exact:
  fixes a b :: u64
  assumes "unat a + unat b < 2 ^ 64"
  shows "unat (a + b) = unat a + unat b"
  using assms by (simp add: unat_word_ariths)

end
