(* ===== verification/Trace.thy ===== *)
theory Trace
  imports Prelude
begin

text \<open>
  Trace files (\<^verbatim>\<open>trace.c\<close>, \<^verbatim>\<open>trace.h\<close>) and the two in-memory diagnostic
  traces (\<^verbatim>\<open>fetch_trace.c\<close>, \<^verbatim>\<open>policy_trace.c\<close>). A trace file is the list of
  bytes written so far: an 8-byte packed header, then 24-byte packed records, in the byte order of
  the target (little endian). \<^verbatim>\<open>write(2)\<close> may be interrupted or write fewer bytes than
  asked; its results are a script that \<open>write_all\<close> consumes. The lemmas give the exact file
  contents after any completed sequence of calls, and the header and record round trips the
  offline solver relies on.
\<close>

section \<open>Little-endian fields\<close>

fun le_bytes :: "nat \<Rightarrow> nat \<Rightarrow> u8 list" where
  "le_bytes 0 x = []"
| "le_bytes (Suc n) x = word_of_nat (x mod 256) # le_bytes n (x div 256)"

fun le_val :: "u8 list \<Rightarrow> nat" where
  "le_val [] = 0"
| "le_val (b # bs) = unat b + 256 * le_val bs"

lemma length_le_bytes [simp]: "length (le_bytes n x) = n"
  by (induction n arbitrary: x) auto

lemma le_val_le_bytes: "x < 256 ^ n \<Longrightarrow> le_val (le_bytes n x) = x"
proof (induction n arbitrary: x)
  case 0
  then show ?case by simp
next
  case (Suc n)
  then have "x div 256 < 256 ^ n" by (simp add: less_mult_imp_div_less)
  then show ?case using Suc.IH by (simp add: unat_of_nat)
qed

lemma le_val_u64 [simp]: "le_val (le_bytes 8 (unat (x :: u64))) = unat x"
  using unsigned_less [of x] by (intro le_val_le_bytes) simp

lemma le_val_u32 [simp]: "le_val (le_bytes 4 (unat (x :: u32))) = unat x"
  using unsigned_less [of x] by (intro le_val_le_bytes) simp

section \<open>Trace files\<close>

definition TRACE_MAGIC :: "u8 list" where "TRACE_MAGIC = [0x52, 0x54, 0x52, 0x43]"
definition TRACE_TYPE_REFERENCE :: u8 where "TRACE_TYPE_REFERENCE = 0"
definition TRACE_TYPE_FAULT :: u8 where "TRACE_TYPE_FAULT = 1"
definition TRACE_FORMAT_VERSION :: u8 where "TRACE_FORMAT_VERSION = 2"
definition TRACE_FAULT_MISSING :: u8 where "TRACE_FAULT_MISSING = 0"
definition TRACE_FAULT_MINOR :: u8 where "TRACE_FAULT_MINOR = 1"
definition TRACE_NA :: u8 where "TRACE_NA = 0xFF"

record trace_header =
  magic :: "u8 list"
  hdr_type :: u8
  version :: u8

record trace_record =
  tr_seq :: u64
  timestamp_ns :: u64
  chunk_id :: u32
  fault_type :: u8
  was_prefetched :: u8

definition header_bytes :: "trace_header \<Rightarrow> u8 list" where
  "header_bytes h = magic h @ [hdr_type h, version h] @ [0, 0]"

definition record_bytes :: "trace_record \<Rightarrow> u8 list" where
  "record_bytes rec =
     le_bytes 8 (unat (tr_seq rec)) @ le_bytes 8 (unat (timestamp_ns rec)) @
     le_bytes 4 (unat (chunk_id rec)) @ [fault_type rec, was_prefetched rec] @ [0, 0]"

lemma length_record_bytes [simp]: "length (record_bytes rec) = 24"
  by (simp add: record_bytes_def)

record trace =
  trace_file :: "u8 list"
  trace_type :: u8
  records_written :: u64

text \<open>
  One \<^verbatim>\<open>write(2)\<close>: interrupted, failed, or some bytes written (never more than asked).
\<close>

datatype write_result = W_eintr | W_error | W_bytes nat

datatype write_failure = Write_failed | Write_script_ended

fun write_all :: "write_result list \<Rightarrow> u8 list \<Rightarrow> u8 list \<Rightarrow> write_failure + u8 list" where
  "write_all ws buf [] = Inr buf"
| "write_all [] buf (b # bs) = Inl Write_script_ended"
| "write_all (W_eintr # ws) buf (b # bs) = write_all ws buf (b # bs)"
| "write_all (W_error # ws) buf (b # bs) = Inl Write_failed"
| "write_all (W_bytes n # ws) buf (b # bs) =
     write_all ws (buf @ take n (b # bs)) (drop n (b # bs))"

lemma write_all_appends: "write_all ws buf bs = Inr out \<Longrightarrow> out = buf @ bs"
proof (induction ws buf bs rule: write_all.induct)
  case (5 n ws buf b bs)
  then have "out = (buf @ take n (b # bs)) @ drop n (b # bs)" by simp
  then show ?case by (metis append.assoc append_take_drop_id)
qed auto

definition trace_open :: "write_result list \<Rightarrow> u8 \<Rightarrow> write_failure + trace" where
  "trace_open ws ty =
     (let hdr = \<lparr>magic = TRACE_MAGIC, hdr_type = ty, version = TRACE_FORMAT_VERSION\<rparr>
      in rbind (write_all ws [] (header_bytes hdr)) (\<lambda>f.
           Inr \<lparr>trace_file = f, trace_type = ty, records_written = 0\<rparr>))"

definition trace_record_call ::
  "write_result list \<Rightarrow> u64 \<Rightarrow> trace \<Rightarrow> u64 \<Rightarrow> u32 \<Rightarrow> u8 \<Rightarrow> u8 \<Rightarrow> write_failure + trace" where
  "trace_record_call ws now t sq cid ft wp =
     (let rec = \<lparr>tr_seq = sq, timestamp_ns = now, chunk_id = cid, fault_type = ft,
                 was_prefetched = wp\<rparr>
      in rbind (write_all ws (trace_file t) (record_bytes rec)) (\<lambda>f.
           Inr (t\<lparr>trace_file := f, records_written := records_written t + 1\<rparr>)))"

text \<open>\<^verbatim>\<open>trace_read_header\<close>: the type on success and the bytes left to read.\<close>

definition trace_read_header :: "u8 list \<Rightarrow> (u8 \<times> u8 list) option" where
  "trace_read_header f =
     (if length f < 8 then None
      else if take 4 f \<noteq> TRACE_MAGIC then None
      else if f ! 5 \<noteq> TRACE_FORMAT_VERSION then None
      else Some (f ! 4, drop 8 f))"

definition parse_record :: "u8 list \<Rightarrow> trace_record" where
  "parse_record b =
     \<lparr>tr_seq = word_of_nat (le_val (take 8 b)),
      timestamp_ns = word_of_nat (le_val (take 8 (drop 8 b))),
      chunk_id = word_of_nat (le_val (take 4 (drop 16 b))),
      fault_type = b ! 20, was_prefetched = b ! 21\<rparr>"

lemma parse_record_bytes: "parse_record (record_bytes rec) = rec"
  by (cases rec) (simp add: parse_record_def record_bytes_def nth_append)

section \<open>What the solver reads back\<close>

text \<open>
  \<^verbatim>\<open>load_reference_string\<close> of \<^verbatim>\<open>belady_main.c\<close>: the header decides whether
  the file may be solver input at all; then whole records are read until a short read.
\<close>

datatype solver_failure = Bad_header | Is_fault_trace | Unknown_trace_type

fun read_records :: "nat \<Rightarrow> u8 list \<Rightarrow> u32 list" where
  "read_records 0 f = []"
| "read_records (Suc fuel) f =
     (if length f < 24 then []
      else chunk_id (parse_record (take 24 f)) # read_records fuel (drop 24 f))"

definition load_reference_string :: "u8 list \<Rightarrow> solver_failure + u32 list" where
  "load_reference_string f =
     (case trace_read_header f of
        None \<Rightarrow> Inl Bad_header
      | Some (ty, rest) \<Rightarrow>
          if ty = TRACE_TYPE_FAULT then Inl Is_fault_trace
          else if ty \<noteq> TRACE_TYPE_REFERENCE then Inl Unknown_trace_type
          else Inr (read_records (length rest) rest))"

lemma read_records_concat:
  "length recs \<le> fuel \<Longrightarrow>
   read_records fuel (concat (map record_bytes recs)) = map chunk_id recs"
proof (induction recs arbitrary: fuel)
  case Nil
  then show ?case by (cases fuel) auto
next
  case (Cons a recs)
  then obtain k where "fuel = Suc k" "length recs \<le> k" by (cases fuel) auto
  with Cons.IH show ?case by (simp add: parse_record_bytes)
qed

text \<open>A whole run of the recorder: open, then one call per reference.\<close>

fun record_all :: "(write_result list \<times> u64) list \<Rightarrow> trace \<Rightarrow> trace_record list \<Rightarrow> write_failure + trace"
where
  "record_all env t [] = Inr t"
| "record_all [] t (rec # recs) = Inl Write_script_ended"
| "record_all ((ws, now) # env) t (rec # recs) =
     rbind (trace_record_call ws now t (tr_seq rec) (chunk_id rec) (fault_type rec)
             (was_prefetched rec)) (\<lambda>t'. record_all env t' recs)"

lemma trace_open_file:
  "trace_open ws ty = Inr t \<Longrightarrow>
   trace_file t = TRACE_MAGIC @ [ty, TRACE_FORMAT_VERSION, 0, 0] \<and> records_written t = 0"
  by (auto simp: trace_open_def rbind_Inr_iff header_bytes_def dest: write_all_appends)

lemma trace_record_file:
  "trace_record_call ws now t sq cid ft wp = Inr t' \<Longrightarrow>
   trace_file t' = trace_file t @ record_bytes \<lparr>tr_seq = sq, timestamp_ns = now, chunk_id = cid,
      fault_type = ft, was_prefetched = wp\<rparr>
   \<and> trace_type t' = trace_type t \<and> records_written t' = records_written t + 1"
  by (auto simp: trace_record_call_def rbind_Inr_iff dest: write_all_appends)

lemma record_all_file:
  "record_all env t recs = Inr t' \<Longrightarrow>
   \<exists>recs'. trace_file t' = trace_file t @ concat (map record_bytes recs') \<and>
      map chunk_id recs' = map chunk_id recs \<and>
      records_written t' = records_written t + of_nat (length recs)"
proof (induction env t recs rule: record_all.induct)
  case (1 env t)
  then show ?case by auto
next
  case (3 ws now env t rec recs)
  then obtain t1 where t1: "trace_record_call ws now t (tr_seq rec) (chunk_id rec) (fault_type rec)
      (was_prefetched rec) = Inr t1" and rest: "record_all env t1 recs = Inr t'"
    by (auto simp: rbind_Inr_iff)
  from "3.IH"[OF t1 rest] obtain recs' where
    f: "trace_file t' = trace_file t1 @ concat (map record_bytes recs')"
    and ids: "map chunk_id recs' = map chunk_id recs"
    and n: "records_written t' = records_written t1 + of_nat (length recs)" by blast
  let ?r = "\<lparr>tr_seq = tr_seq rec, timestamp_ns = now, chunk_id = chunk_id rec,
      fault_type = fault_type rec, was_prefetched = was_prefetched rec\<rparr>"
  from f trace_record_file[OF t1]
  have "trace_file t' = trace_file t @ concat (map record_bytes (?r # recs'))" by simp
  moreover have "map chunk_id (?r # recs') = map chunk_id (rec # recs)" using ids by simp
  moreover have "records_written t' = records_written t + of_nat (length (rec # recs))"
    using n trace_record_file[OF t1] by simp
  ultimately show ?case by blast
qed auto

lemma record_all_type: "record_all env t recs = Inr t' \<Longrightarrow> trace_type t' = trace_type t"
  by (induction env t recs rule: record_all.induct)
    (auto simp: rbind_Inr_iff dest: trace_record_file)

lemma read_header_of_open:
  "trace_read_header ((TRACE_MAGIC @ [ty, TRACE_FORMAT_VERSION, 0, 0]) @ rest) = Some (ty, rest)"
  by (simp add: trace_read_header_def TRACE_MAGIC_def TRACE_FORMAT_VERSION_def)

lemma length_concat_records: "length (concat (map record_bytes recs)) = 24 * length recs"
  by (induction recs) auto

lemma load_of_records:
  assumes "trace_open ws TRACE_TYPE_REFERENCE = Inr t"
  shows "load_reference_string (trace_file t @ concat (map record_bytes recs)) = Inr (map chunk_id recs)"
proof -
  have f: "trace_file t @ concat (map record_bytes recs)
      = (TRACE_MAGIC @ [TRACE_TYPE_REFERENCE, TRACE_FORMAT_VERSION, 0, 0]) @ concat (map record_bytes recs)"
    using trace_open_file[OF assms] by simp
  have "read_records (24 * length recs) (concat (map record_bytes recs)) = map chunk_id recs"
    by (rule read_records_concat) simp
  then show ?thesis
    unfolding load_reference_string_def f read_header_of_open
    by (simp add: length_concat_records TRACE_TYPE_REFERENCE_def TRACE_TYPE_FAULT_def)
qed

text \<open>
  C24. A trace the workload wrote as a reference trace is read back by the offline solver
  as exactly the chunk ids it recorded, in order, however the writes were split or interrupted.
\<close>

theorem reference_trace_roundtrip:
  assumes "trace_open ws TRACE_TYPE_REFERENCE = Inr t" and "record_all env t recs = Inr t'"
  shows "load_reference_string (trace_file t') = Inr (map chunk_id recs)"
  using record_all_file[OF assms(2)] load_of_records[OF assms(1)] by metis

definition demo_script :: "write_result list" where
  "demo_script = [W_eintr, W_bytes 5, W_bytes 3, W_bytes 24]"

definition demo_record :: "u32 \<Rightarrow> trace_record" where
  "demo_record c = \<lparr>tr_seq = 1, timestamp_ns = 0, chunk_id = c, fault_type = TRACE_NA,
                    was_prefetched = TRACE_NA\<rparr>"

lemma demo_reference_run:
  "(case trace_open demo_script TRACE_TYPE_REFERENCE of Inl e \<Rightarrow> False
    | Inr t \<Rightarrow> \<not> isl (record_all [(demo_script, 7), ([W_bytes 24], 9)] t
                   [demo_record 4, demo_record 2]))"
  by code_simp

theorem reference_trace_roundtrip_witness:
  "\<exists>t t'. trace_open demo_script TRACE_TYPE_REFERENCE = Inr t
     \<and> record_all [(demo_script, 7), ([W_bytes 24], 9)] t [demo_record 4, demo_record 2] = Inr t'
     \<and> load_reference_string (trace_file t') = Inr [4, 2]"
proof -
  from demo_reference_run obtain t where t: "trace_open demo_script TRACE_TYPE_REFERENCE = Inr t"
    and "\<not> isl (record_all [(demo_script, 7), ([W_bytes 24], 9)] t [demo_record 4, demo_record 2])"
    by (cases "trace_open demo_script TRACE_TYPE_REFERENCE") auto
  from this(2) obtain t' where t': "record_all [(demo_script, 7), ([W_bytes 24], 9)] t [demo_record 4, demo_record 2] = Inr t'"
    by (rule not_islE)
  show ?thesis
    using t t' reference_trace_roundtrip[OF t t'] by (auto simp: demo_record_def)
qed

text \<open>
  A trace the pager wrote as a fault trace is always refused by the offline solver,
  whatever was recorded in it.
\<close>

lemma fault_trace_refused:
  assumes "trace_open ws TRACE_TYPE_FAULT = Inr t" and "record_all env t recs = Inr t'"
  shows "load_reference_string (trace_file t') = Inl Is_fault_trace"
proof -
  from trace_open_file[OF assms(1)] record_all_file[OF assms(2)] obtain recs' where
    f: "trace_file t' = (TRACE_MAGIC @ [TRACE_TYPE_FAULT, TRACE_FORMAT_VERSION, 0, 0])
          @ concat (map record_bytes recs')"
    by auto
  show ?thesis
    by (simp add: load_reference_string_def f read_header_of_open del: append_assoc)
qed

lemma demo_fault_run:
  "(case trace_open demo_script TRACE_TYPE_FAULT of Inl e \<Rightarrow> False
    | Inr t \<Rightarrow> \<not> isl (record_all [(demo_script, 7)] t [demo_record 4]))"
  by code_simp

lemma fault_trace_refused_witness:
  "\<exists>t t'. trace_open demo_script TRACE_TYPE_FAULT = Inr t
     \<and> record_all [(demo_script, 7)] t [demo_record 4] = Inr t'
     \<and> load_reference_string (trace_file t') = Inl Is_fault_trace"
proof -
  from demo_fault_run obtain t where t: "trace_open demo_script TRACE_TYPE_FAULT = Inr t"
    and "\<not> isl (record_all [(demo_script, 7)] t [demo_record 4])"
    by (cases "trace_open demo_script TRACE_TYPE_FAULT") auto
  from this(2) obtain t' where t': "record_all [(demo_script, 7)] t [demo_record 4] = Inr t'"
    by (rule not_islE)
  show ?thesis
    using t t' fault_trace_refused[OF t t'] by blast
qed

section \<open>Diagnostic traces\<close>

text \<open>
  Both are arrays allocated once with a fixed capacity; a slot is reserved with the next sequence
  number, and a reservation past the capacity aborts. The model keeps the used prefix of the array
  (its length is the \<^verbatim>\<open>count\<close> field).
\<close>

record fetch_trace_record =
  ft_seq :: u64
  ft_chunk_id :: nat
  ft_was_prefetch :: bool
  t_handler_entry_ns :: u64
  t_read_start_ns :: u64
  t_read_end_ns :: u64
  t_continue_end_ns :: u64
  t_handler_exit_ns :: u64
  ft_bytes_read :: u64
  t_dispatch_entry_ns :: u64
  t_dispatch_enqueue_ns :: u64

definition blank_fetch_record :: fetch_trace_record where
  "blank_fetch_record = \<lparr>ft_seq = 0, ft_chunk_id = 0, ft_was_prefetch = False,
     t_handler_entry_ns = 0, t_read_start_ns = 0, t_read_end_ns = 0, t_continue_end_ns = 0,
     t_handler_exit_ns = 0, ft_bytes_read = 0, t_dispatch_entry_ns = 0,
     t_dispatch_enqueue_ns = 0\<rparr>"

record fetch_trace =
  ft_records :: "fetch_trace_record list"
  ft_capacity :: nat
  ft_next_seq :: u64

definition fetch_trace_open :: "nat \<Rightarrow> fetch_trace" where
  "fetch_trace_open cap = \<lparr>ft_records = [], ft_capacity = cap, ft_next_seq = 1\<rparr>"

text \<open>\<^verbatim>\<open>fetch_trace_reserve\<close> returns the slot; the caller fills it.\<close>

definition fetch_trace_reserve :: "fetch_trace \<Rightarrow> failure + (nat \<times> fetch_trace)" where
  "fetch_trace_reserve ft =
     (if length (ft_records ft) \<ge> ft_capacity ft then Inl Fetch_trace_full
      else Inr (length (ft_records ft),
                ft\<lparr>ft_records := ft_records ft @ [blank_fetch_record\<lparr>ft_seq := ft_next_seq ft\<rparr>],
                   ft_next_seq := ft_next_seq ft + 1\<rparr>))"

record policy_trace_record =
  pt_seq :: u64
  victim_chunk :: nat
  cursor_chunk :: "nat option"
  victim_next_use_distance :: int
  n_resident :: nat
  resident_set_bitmap_lo :: u32
  resident_set_bitmap_hi :: u32

record policy_trace =
  pt_records :: "policy_trace_record list"
  pt_capacity :: nat
  pt_next_seq :: u64

definition blank_policy_record :: policy_trace_record where
  "blank_policy_record = \<lparr>pt_seq = 0, victim_chunk = 0, cursor_chunk = Some 0,
     victim_next_use_distance = 0, n_resident = 0, resident_set_bitmap_lo = 0,
     resident_set_bitmap_hi = 0\<rparr>"

definition policy_trace_open :: "nat \<Rightarrow> policy_trace" where
  "policy_trace_open cap = \<lparr>pt_records = [], pt_capacity = cap, pt_next_seq = 1\<rparr>"

definition policy_trace_reserve :: "policy_trace \<Rightarrow> failure + (nat \<times> policy_trace)" where
  "policy_trace_reserve pt =
     (if length (pt_records pt) \<ge> pt_capacity pt then Inl Policy_trace_full
      else Inr (length (pt_records pt),
                pt\<lparr>pt_records := pt_records pt @ [blank_policy_record\<lparr>pt_seq := pt_next_seq pt\<rparr>],
                   pt_next_seq := pt_next_seq pt + 1\<rparr>))"

end
