(* ===== verification/Metrics.thy ===== *)
theory Metrics
  imports Prelude
begin

text \<open>
  The handler-latency histogram (\<^verbatim>\<open>metrics.c\<close>, \<^verbatim>\<open>metrics.h\<close>): power-of-two
  buckets over nanoseconds. \<open>latency_hist_record\<close> runs under the histogram's own mutex, so one
  call is one atomic update. The lemmas say which bucket a sample lands in, that the bucket counts
  and the total always agree, and what the reported percentile bounds.
\<close>

definition METRICS_LATENCY_BUCKETS :: nat where "METRICS_LATENCY_BUCKETS = 48"

text \<open>The loop \<^verbatim>\<open>while (v > 1) { v >>= 1; b++; }\<close>.\<close>

function bucket_loop :: "u64 \<Rightarrow> nat \<Rightarrow> nat" where
  "bucket_loop v b = (if v > 1 then bucket_loop (drop_bit 1 v) (b + 1) else b)"
  by pat_completeness auto
termination
  by (relation "measure (\<lambda>(v, b). unat v)") (auto simp: unat_drop_bit_eq drop_bit_nat_def word_less_nat_alt)

declare bucket_loop.simps [simp del]

definition bucket_for :: "u64 \<Rightarrow> nat" where
  "bucket_for ns =
     (if ns = 0 then 0
      else let b = bucket_loop ns 0
           in if b \<ge> METRICS_LATENCY_BUCKETS then METRICS_LATENCY_BUCKETS - 1 else b)"

record latency_hist =
  bucket_counts :: "u64 list"
  hist_count :: u64
  sum_ns :: u64
  min_ns :: u64
  max_ns :: u64

record metrics =
  handler_latency :: latency_hist
  queue_depth_high_water :: nat

definition latency_hist_init :: latency_hist where
  "latency_hist_init = \<lparr>bucket_counts = replicate METRICS_LATENCY_BUCKETS 0, hist_count = 0,
     sum_ns = 0, min_ns = UINT64_MAX, max_ns = 0\<rparr>"

definition latency_hist_record :: "latency_hist \<Rightarrow> u64 \<Rightarrow> latency_hist" where
  "latency_hist_record h ns =
     (let b = bucket_for ns
      in h\<lparr>bucket_counts := (bucket_counts h)[b := bucket_counts h ! b + 1],
           hist_count := hist_count h + 1,
           sum_ns := sum_ns h + ns,
           min_ns := (if ns < min_ns h then ns else min_ns h),
           max_ns := (if ns > max_ns h then ns else max_ns h)\<rparr>)"

text \<open>
  The percentile loop. The floating-point product \<^verbatim>\<open>(uint64_t)(p * (double)h->count)\<close> is
  the argument \<open>raw_target\<close>; everything after that conversion is integer arithmetic.
\<close>

fun percentile_loop :: "u64 list \<Rightarrow> u64 \<Rightarrow> nat \<Rightarrow> u64 \<Rightarrow> u64 \<Rightarrow> u64" where
  "percentile_loop [] cum b target mx = mx"
| "percentile_loop (x # xs) cum b target mx =
     (if cum + x \<ge> target
      then (if b = 0 then 1 else push_bit (b + 1) 1 - 1)
      else percentile_loop xs (cum + x) (b + 1) target mx)"

definition latency_hist_percentile_ns :: "latency_hist \<Rightarrow> u64 \<Rightarrow> u64" where
  "latency_hist_percentile_ns h raw_target =
     (if hist_count h = 0 then 0
      else let target = (if raw_target = 0 then 1 else raw_target)
           in percentile_loop (bucket_counts h) 0 0 target (max_ns h))"

definition metrics_init :: metrics where
  "metrics_init = \<lparr>handler_latency = latency_hist_init, queue_depth_high_water = 0\<rparr>"

section \<open>Buckets\<close>

lemma bucket_loop_bounds:
  "v \<noteq> 0 \<Longrightarrow> b \<le> bucket_loop v b \<and>
     2 ^ (bucket_loop v b - b) \<le> unat v \<and> unat v < 2 ^ Suc (bucket_loop v b - b)"
proof (induction v b rule: bucket_loop.induct)
  case (1 v b)
  show ?case
  proof (cases "v > 1")
    case True
    let ?w = "drop_bit 1 v"
    have half: "unat ?w = unat v div 2"
      by (simp add: unat_drop_bit_eq drop_bit_nat_def)
    have "unat v > 1" using True by (simp add: word_less_nat_alt)
    then have "?w \<noteq> 0" using half by (auto simp: unat_eq_0 dest: arg_cong[where f = unat])
    note IH = "1.IH"[OF True this, unfolded half]
    define k where "k = bucket_loop ?w (b + 1)"
    have le: "b + 1 \<le> k" and lo: "2 ^ (k - (b + 1)) \<le> unat v div 2"
      and hi: "unat v div 2 < 2 ^ Suc (k - (b + 1))"
      using IH unfolding k_def by blast+
    from le have "k - b = Suc (k - (b + 1))" by simp
    moreover from lo have "2 ^ Suc (k - (b + 1)) \<le> unat v" by simp
    moreover from hi have "unat v < 2 ^ Suc (Suc (k - (b + 1)))" by simp
    moreover have "bucket_loop v b = k" using True by (simp add: bucket_loop.simps[of v b] k_def)
    ultimately show ?thesis using le by simp
  next
    case False
    with "1.prems" have "unat v = 1"
      by (metis gr0I le_neq_trans less_one not_le unat_1 unat_gt_0 word_le_nat_alt word_less_nat_alt)
    with False show ?thesis by (simp add: bucket_loop.simps[of v b])
  qed
qed

lemma bucket_for_less [simp]: "bucket_for ns < METRICS_LATENCY_BUCKETS"
  by (simp add: bucket_for_def METRICS_LATENCY_BUCKETS_def Let_def)

text \<open>
  A latency sample lands in the bucket of its binary logarithm, clipped to the last
  bucket: below the last bucket the bucket's edges enclose it.
\<close>

lemma bucket_for_encloses:
  assumes "0 < ns" and "unat ns < 2 ^ 47"
  shows "2 ^ bucket_for ns \<le> unat ns \<and> unat ns < 2 ^ Suc (bucket_for ns)"
proof -
  from assms(1) have nz: "ns \<noteq> 0" by auto
  note bnd = bucket_loop_bounds[OF nz, of 0]
  have "bucket_loop ns 0 < 47"
  proof (rule ccontr)
    assume "\<not> bucket_loop ns 0 < 47"
    then have "(2::nat) ^ 47 \<le> 2 ^ bucket_loop ns 0" by (intro power_increasing) auto
    with bnd assms(2) show False by simp
  qed
  with bnd nz show ?thesis by (simp add: bucket_for_def METRICS_LATENCY_BUCKETS_def)
qed

lemma bucket_for_encloses_witness:
  "0 < (1000 :: u64) \<and> unat (1000 :: u64) < 2 ^ 47
     \<and> 2 ^ bucket_for 1000 \<le> unat (1000 :: u64) \<and> unat (1000 :: u64) < 2 ^ Suc (bucket_for 1000)"
proof -
  have a: "0 < (1000 :: u64)" and b: "unat (1000 :: u64) < 2 ^ 47" by simp_all
  show ?thesis using a b bucket_for_encloses[OF a b] by blast
qed

section \<open>Histogram contents\<close>

definition hist_of :: "u64 list \<Rightarrow> latency_hist" where
  "hist_of samples = fold (\<lambda>ns h. latency_hist_record h ns) samples latency_hist_init"

definition in_bucket :: "u64 list \<Rightarrow> nat \<Rightarrow> nat" where
  "in_bucket samples b = length (filter (\<lambda>ns. bucket_for ns = b) samples)"

lemma hist_of_snoc: "hist_of (xs @ [x]) = latency_hist_record (hist_of xs) x"
  by (simp add: hist_of_def)

lemma length_bucket_counts [simp]: "length (bucket_counts (hist_of xs)) = METRICS_LATENCY_BUCKETS"
  by (induction xs rule: rev_induct)
    (simp_all add: hist_of_snoc latency_hist_record_def Let_def,
     simp add: hist_of_def latency_hist_init_def)

lemma bucket_counts_hist_of:
  "b < METRICS_LATENCY_BUCKETS \<Longrightarrow> bucket_counts (hist_of xs) ! b = of_nat (in_bucket xs b)"
proof (induction xs rule: rev_induct)
  case Nil
  then show ?case by (simp add: hist_of_def latency_hist_init_def in_bucket_def)
next
  case (snoc x xs)
  then show ?case
    by (simp add: hist_of_snoc latency_hist_record_def Let_def in_bucket_def nth_list_update)
qed

lemma hist_count_hist_of: "hist_count (hist_of xs) = of_nat (length xs)"
  by (induction xs rule: rev_induct)
    (simp_all add: hist_of_snoc latency_hist_record_def Let_def,
     simp add: hist_of_def latency_hist_init_def)

lemma bucket_counts_eq:
  "bucket_counts (hist_of xs) = map (\<lambda>b. of_nat (in_bucket xs b)) [0..<METRICS_LATENCY_BUCKETS]"
  by (rule nth_equalityI) (simp_all add: bucket_counts_hist_of)

lemma sum_in_bucket:
  "(\<Sum>b<n. in_bucket xs b) = length (filter (\<lambda>ns. bucket_for ns < n) xs)"
proof (induction xs)
  case Nil
  then show ?case by (simp add: in_bucket_def)
next
  case (Cons x xs)
  have "in_bucket (x # xs) b = in_bucket xs b + (if b = bucket_for x then 1 else 0)" for b
    by (simp add: in_bucket_def)
  then have "(\<Sum>b<n. in_bucket (x # xs) b)
      = (\<Sum>b<n. in_bucket xs b) + (\<Sum>b<n. if b = bucket_for x then 1 else 0)"
    by (simp add: sum.distrib)
  also have "(\<Sum>b<n. if b = bucket_for x then 1 else 0) = (if bucket_for x < n then 1 else (0::nat))"
    by (subst sum.delta) auto
  finally show ?case using Cons.IH by simp
qed

definition bucket_edge :: "nat \<Rightarrow> u64" where
  "bucket_edge b = (if b = 0 then 1 else push_bit (b + 1) 1 - 1)"

lemma percentile_loop_finds:
  assumes "acc + (\<Sum>i<k. c (j + i)) < 2 ^ 64" and "acc < unat target"
    and "unat target \<le> acc + (\<Sum>i<k. c (j + i))"
  shows "\<exists>i<k. percentile_loop (map (\<lambda>i. of_nat (c i)) [j..<j + k]) (of_nat acc) j target mx
             = bucket_edge (j + i)
          \<and> unat target \<le> acc + (\<Sum>m<Suc i. c (j + m)) \<and> acc + (\<Sum>m<i. c (j + m)) < unat target"
  using assms
proof (induction k arbitrary: j acc)
  case 0
  then show ?case by simp
next
  case (Suc k)
  have shift: "(\<Sum>i<Suc n. c (j + i)) = c j + (\<Sum>i<n. c (Suc j + i))" for n
    by (subst sum.lessThan_Suc_shift) simp
  have upt: "[j..<j + Suc k] = j # [Suc j..<Suc j + k]" by (simp add: upt_conv_Cons)
  have small: "acc + c j < 2 ^ 64" using Suc.prems(1) unfolding shift by simp
  have wsum: "of_nat acc + of_nat (c j) = (of_nat (acc + c j) :: u64)" by simp
  have cmp: "((of_nat (acc + c j) :: u64) \<ge> target) = (unat target \<le> acc + c j)"
    using small by (simp add: word_le_nat_alt unat_of_nat del: of_nat_add)
  show ?case
  proof (cases "unat target \<le> acc + c j")
    case True
    then show ?thesis
      using Suc.prems(2) unfolding upt
      by (intro exI[of _ 0]) (simp add: wsum cmp bucket_edge_def del: of_nat_add upt_Suc)
  next
    case False
    with Suc.prems have "acc + c j < unat target"
      "acc + c j + (\<Sum>i<k. c (Suc j + i)) < 2 ^ 64"
      "unat target \<le> acc + c j + (\<Sum>i<k. c (Suc j + i))"
      unfolding shift by simp_all
    from Suc.IH[OF this(2,1,3)] obtain i where i: "i < k"
      "percentile_loop (map (\<lambda>i. of_nat (c i)) [Suc j..<Suc j + k]) (of_nat (acc + c j)) (Suc j) target mx
        = bucket_edge (Suc j + i)"
      "unat target \<le> acc + c j + (\<Sum>m<Suc i. c (Suc j + m))"
      "acc + c j + (\<Sum>m<i. c (Suc j + m)) < unat target" by blast
    have "percentile_loop (map (\<lambda>i. of_nat (c i)) [j..<j + Suc k]) (of_nat acc) j target mx
        = bucket_edge (j + Suc i)"
      using i(2) False cmp unfolding upt by (simp add: wsum del: of_nat_add upt_Suc)
    then show ?thesis using i(1,3,4)
      by (intro exI[of _ "Suc i"]) (simp only: shift add.assoc, simp)
  qed
qed

text \<open>
  The reported percentile is the upper edge of the first bucket at which the cumulative
  count reaches the target rank: at least that many recorded samples lie in buckets up to it, and
  fewer in the buckets strictly below.
\<close>

lemma percentile_is_bucket_edge:
  assumes "length samples < 2 ^ 64" and "0 < raw" and "unat raw \<le> length samples"
  shows "\<exists>b < METRICS_LATENCY_BUCKETS.
           latency_hist_percentile_ns (hist_of samples) raw = bucket_edge b
         \<and> unat raw \<le> length (filter (\<lambda>ns. bucket_for ns \<le> b) samples)
         \<and> length (filter (\<lambda>ns. bucket_for ns < b) samples) < unat raw"
proof -
  let ?c = "in_bucket samples"
  have total: "(\<Sum>i<METRICS_LATENCY_BUCKETS. ?c i) = length samples"
    by (simp add: sum_in_bucket)
  have pos: "0 < unat raw" using assms(2) by (simp add: word_less_nat_alt)
  from percentile_loop_finds[where acc = 0 and k = METRICS_LATENCY_BUCKETS and c = ?c and j = 0
      and target = raw and mx = "max_ns (hist_of samples)"]
    assms(1,3) pos obtain b where b: "b < METRICS_LATENCY_BUCKETS"
      "percentile_loop (bucket_counts (hist_of samples)) 0 0 raw (max_ns (hist_of samples)) = bucket_edge b"
      "unat raw \<le> (\<Sum>m<Suc b. ?c m)" "(\<Sum>m<b. ?c m) < unat raw"
    by (auto simp: total bucket_counts_eq)
  have "hist_count (hist_of samples) \<noteq> 0"
    using assms(1,3) pos by (auto simp: hist_count_hist_of word_of_nat_eq_0_iff dest: dvd_imp_le)
  then have "latency_hist_percentile_ns (hist_of samples) raw = bucket_edge b"
    using b(2) assms(2) by (auto simp: latency_hist_percentile_ns_def)
  then show ?thesis
    using b(1,3,4) by (auto simp: sum_in_bucket less_Suc_eq_le simp del: sum.lessThan_Suc)
qed

lemma percentile_is_bucket_edge_witness:
  "length [3, 5, 900 :: u64] < 2 ^ 64 \<and> 0 < (2 :: u64) \<and> unat (2 :: u64) \<le> length [3, 5, 900 :: u64]
   \<and> (\<exists>b < METRICS_LATENCY_BUCKETS.
        latency_hist_percentile_ns (hist_of [3, 5, 900]) 2 = bucket_edge b)"
proof -
  have a: "length [3, 5, 900 :: u64] < 2 ^ 64" and b: "0 < (2 :: u64)"
    and c: "unat (2 :: u64) \<le> length [3, 5, 900 :: u64]" by simp_all
  show ?thesis using a b c percentile_is_bucket_edge[OF a b c] by blast
qed

end
