(* ===== verification/Cgroup_Stat.thy ===== *)
theory Cgroup_Stat
  imports Prelude
begin

text \<open>
  The cgroup key-value reader (\<^verbatim>\<open>cgroup_stat.c\<close>): a whole file is read once into a
  bounded buffer and fields are extracted from that one snapshot. \<^verbatim>\<open>sscanf\<close> with the
  format \<^verbatim>\<open>"%127s %llu"\<close> is written out. The lemmas show that a snapshot of a
  well-formed file answers every field query as the association list it prints.
\<close>

section \<open>Reading the snapshot\<close>

datatype read_result = R_eintr | R_error | R_bytes string

definition CGROUP_STAT_BUF_SIZE :: nat where "CGROUP_STAT_BUF_SIZE = 8192"

text \<open>
  The read loop over the results of \<^verbatim>\<open>read(2)\<close>; an empty read is end of file, and a
  read returns at most what was asked for.
\<close>

fun snapshot_loop :: "read_result list \<Rightarrow> string \<Rightarrow> string option" where
  "snapshot_loop rs buf =
     (if length buf \<ge> CGROUP_STAT_BUF_SIZE - 1 then Some buf
      else case rs of
        [] \<Rightarrow> None
      | R_eintr # rs' \<Rightarrow> snapshot_loop rs' buf
      | R_error # rs' \<Rightarrow> None
      | R_bytes s # rs' \<Rightarrow>
          if s = [] then Some buf
          else snapshot_loop rs' (buf @ take (CGROUP_STAT_BUF_SIZE - 1 - length buf) s))"

declare snapshot_loop.simps [simp del]

text \<open>\<^verbatim>\<open>None\<close> for a file that cannot be opened.\<close>

definition cgroup_stat_snapshot_read :: "read_result list option \<Rightarrow> string option" where
  "cgroup_stat_snapshot_read f = (case f of None \<Rightarrow> None | Some rs \<Rightarrow> snapshot_loop rs [])"

section \<open>sscanf\<close>

definition isspace :: "char \<Rightarrow> bool" where
  "isspace c \<longleftrightarrow> c \<in> {CHR '' '', CHR 0x09, CHR 0x0A, CHR 0x0B, CHR 0x0C, CHR 0x0D}"

definition isdigit :: "char \<Rightarrow> bool" where
  "isdigit c \<longleftrightarrow> 48 \<le> (of_char c :: nat) \<and> (of_char c :: nat) \<le> 57"

definition digit_val :: "char \<Rightarrow> nat" where
  "digit_val c = of_char c - 48"

fun dec_val :: "nat \<Rightarrow> string \<Rightarrow> nat" where
  "dec_val acc [] = acc"
| "dec_val acc (c # cs) = dec_val (10 * acc + digit_val c) cs"

text \<open>\<^verbatim>\<open>strtoull\<close> in base 10: saturates, and negates modulo $2^{64}$ after a minus sign.\<close>

definition strtoull_digits :: "bool \<Rightarrow> string \<Rightarrow> u64" where
  "strtoull_digits neg ds =
     (let v = dec_val 0 ds
      in if v \<ge> 2 ^ 64 then UINT64_MAX
         else if neg then - word_of_nat v else word_of_nat v)"

definition scan_llu :: "string \<Rightarrow> u64 option" where
  "scan_llu s =
     (let s1 = dropWhile isspace s;
          neg = (s1 \<noteq> [] \<and> hd s1 = CHR ''-'');
          s2 = (if s1 \<noteq> [] \<and> (hd s1 = CHR ''-'' \<or> hd s1 = CHR ''+'') then tl s1 else s1);
          ds = takeWhile isdigit s2
      in if ds = [] then None else Some (strtoull_digits neg ds))"

definition sscanf_key_value :: "string \<Rightarrow> (string \<times> u64) option" where
  "sscanf_key_value line =
     (let s = dropWhile isspace line;
          k = take 127 (takeWhile (\<lambda>c. \<not> isspace c) s);
          rest = drop (length k) s
      in if k = [] then None
         else case scan_llu rest of None \<Rightarrow> None | Some v \<Rightarrow> Some (k, v))"

section \<open>Lines of the snapshot\<close>

text \<open>
  The scan \<^verbatim>\<open>while (pos < snap->len)\<close>: a line runs to the newline, is cut to the
  line buffer, and is a C string.
\<close>

function snapshot_lines :: "string \<Rightarrow> string list" where
  "snapshot_lines s =
     (if s = [] then []
      else let l = takeWhile (\<lambda>c. c \<noteq> CHR 0x0A) s
           in takeWhile (\<lambda>c. c \<noteq> CHR 0x00) (take 255 l) # snapshot_lines (drop (length l + 1) s))"
  by pat_completeness auto
termination
  by (relation "measure length") auto

declare snapshot_lines.simps [simp del]

fun find_field :: "string list \<Rightarrow> string \<Rightarrow> u64 option" where
  "find_field [] key = None"
| "find_field (l # ls) key =
     (case sscanf_key_value l of
        Some (k, v) \<Rightarrow> if k = key then Some v else find_field ls key
      | None \<Rightarrow> find_field ls key)"

definition cgroup_stat_snapshot_field :: "string \<Rightarrow> string \<Rightarrow> u64 option" where
  "cgroup_stat_snapshot_field snap key = find_field (snapshot_lines snap) key"

fun sum_fields :: "string list \<Rightarrow> string \<Rightarrow> u64 \<times> nat" where
  "sum_fields [] pre = (0, 0)"
| "sum_fields (l # ls) pre =
     (let (s, n) = sum_fields ls pre
      in case sscanf_key_value l of
           Some (k, v) \<Rightarrow> if take (length pre) k = pre then (v + s, n + 1) else (s, n)
         | None \<Rightarrow> (s, n))"

definition cgroup_stat_snapshot_sum_prefix :: "string \<Rightarrow> string \<Rightarrow> u64 \<times> nat" where
  "cgroup_stat_snapshot_sum_prefix snap pre = sum_fields (snapshot_lines snap) pre"

section \<open>Well-formed files\<close>

function dec_string :: "nat \<Rightarrow> string" where
  "dec_string n =
     (if n < 10 then [char_of (48 + n)] else dec_string (n div 10) @ [char_of (48 + n mod 10)])"
  by pat_completeness auto
termination
  by (relation "measure id") auto

declare dec_string.simps [simp del]

fun print_kv :: "string \<times> u64 \<Rightarrow> string" where
  "print_kv (k, v) = k @ [CHR '' ''] @ dec_string (unat v) @ [CHR 0x0A]"

definition print_file :: "(string \<times> u64) list \<Rightarrow> string" where
  "print_file kvs = concat (map print_kv kvs)"

definition key_ok :: "string \<Rightarrow> bool" where
  "key_ok k \<longleftrightarrow> k \<noteq> [] \<and> length k \<le> 127 \<and> (\<forall>c\<in>set k. \<not> isspace c \<and> c \<noteq> CHR 0x00)"

lemma dec_val_append: "dec_val acc (xs @ ys) = dec_val (dec_val acc xs) ys"
  by (induction xs arbitrary: acc) auto

lemma digit_char:
  "d < 10 \<Longrightarrow> isdigit (char_of (48 + d)) \<and> digit_val (char_of (48 + d)) = d
     \<and> \<not> isspace (char_of (48 + d)) \<and> char_of (48 + d) \<noteq> CHR 0x00
     \<and> char_of (48 + d) \<noteq> CHR ''-'' \<and> char_of (48 + d) \<noteq> CHR ''+''"
proof -
  assume "d < 10"
  then have "d \<in> {0,1,2,3,4,5,6,7,8,9}" by auto
  then show ?thesis
    by (elim insertE emptyE)
      (simp_all add: isdigit_def digit_val_def isspace_def char_of_def bit_0)
qed

lemma dec_string_props:
  "dec_string n \<noteq> [] \<and> dec_val 0 (dec_string n) = n \<and>
   (\<forall>c\<in>set (dec_string n). \<exists>d<10. c = char_of (48 + (d::nat)))"
proof (induction n rule: dec_string.induct)
  case (1 n)
  show ?case
  proof (cases "n < 10")
    case True
    then show ?thesis using digit_char[of n] by (auto simp: dec_string.simps[of n])
  next
    case False
    with "1" show ?thesis
      using digit_char[of "n mod 10"]
      by (auto simp: dec_string.simps[of n] dec_val_append intro!: exI[of _ "n mod 10"])
  qed
qed

lemma length_dec_string: "n < 10 ^ Suc m \<Longrightarrow> length (dec_string n) \<le> Suc m"
proof (induction m arbitrary: n)
  case 0
  then show ?case by (simp add: dec_string.simps)
next
  case (Suc m)
  show ?case
  proof (cases "n < 10")
    case True
    then show ?thesis by (simp add: dec_string.simps[of n])
  next
    case False
    from Suc.prems have "n div 10 < 10 ^ Suc m" by (simp add: less_mult_imp_div_less)
    with Suc.IH False show ?thesis by (simp add: dec_string.simps[of n])
  qed
qed

lemma isspace_blank [simp]: "isspace CHR '' ''" "isspace CHR 0x0A"
  by (simp_all add: isspace_def)

lemma dec_string_chars:
  "c \<in> set (dec_string n) \<Longrightarrow> isdigit c \<and> \<not> isspace c \<and> c \<noteq> CHR 0x00 \<and> c \<noteq> CHR 0x0A
     \<and> c \<noteq> CHR ''-'' \<and> c \<noteq> CHR ''+''"
proof -
  assume "c \<in> set (dec_string n)"
  with dec_string_props[of n] obtain d where "d < 10" "c = char_of (48 + (d::nat))" by blast
  with digit_char[of d] show ?thesis by (auto simp: isspace_def)
qed

lemma dec_string_u64: "length (dec_string (unat (v :: u64))) \<le> 20"
  using length_dec_string[of "unat v" 19] u64_bound[of v] by simp

lemma scan_dec_string: "scan_llu (CHR '' '' # dec_string (unat v)) = Some (v :: u64)"
proof -
  let ?d = "dec_string (unat v)"
  have ne: "?d \<noteq> []" and val: "dec_val 0 ?d = unat v" using dec_string_props by auto
  have hd: "hd ?d \<in> set ?d" using ne by simp
  have dw: "dropWhile isspace (CHR '' '' # ?d) = ?d"
    using ne dec_string_chars[OF hd] by (cases ?d) auto
  have tw: "takeWhile isdigit ?d = ?d"
    using dec_string_chars by (simp add: takeWhile_eq_all_conv)
  have small: "(18446744073709551616 \<le> unat v) = False" using u64_bound[of v] by simp
  have sign: "hd ?d \<noteq> CHR ''-''" "hd ?d \<noteq> CHR ''+''" using dec_string_chars[OF hd] by auto
  show ?thesis
    unfolding scan_llu_def dw by (simp add: Let_def ne sign tw strtoull_digits_def val small)
qed

lemma sscanf_printed:
  assumes "key_ok k"
  shows "sscanf_key_value (k @ [CHR '' ''] @ dec_string (unat v)) = Some (k, v)"
proof -
  let ?r = "CHR '' '' # dec_string (unat v)"
  from assms obtain c cs where k: "k = c # cs" by (auto simp: key_ok_def neq_Nil_conv)
  have nsp: "\<forall>c\<in>set k. \<not> isspace c" and len: "length k \<le> 127" using assms by (auto simp: key_ok_def)
  have "dropWhile isspace (k @ ?r) = k @ ?r" using nsp k by simp
  moreover have "takeWhile (\<lambda>c. \<not> isspace c) (k @ ?r) = k"
    using nsp by (simp add: takeWhile_append2)
  ultimately show ?thesis using len k by (simp add: sscanf_key_value_def Let_def scan_dec_string)
qed

lemma takeWhile_stop: "\<forall>c\<in>set l. P c \<Longrightarrow> \<not> P x \<Longrightarrow> takeWhile P (l @ x # r) = l"
  by (induction l) auto

lemma snapshot_lines_print:
  assumes "\<forall>(k, v)\<in>set kvs. key_ok k"
  shows "snapshot_lines (print_file kvs) = map (\<lambda>(k, v). k @ [CHR '' ''] @ dec_string (unat v)) kvs"
  using assms
proof (induction kvs)
  case Nil
  then show ?case by (simp add: print_file_def snapshot_lines.simps)
next
  case (Cons kv kvs)
  obtain k v where kv: "kv = (k, v)" by (cases kv)
  let ?l = "k @ [CHR '' ''] @ dec_string (unat v)"
  from Cons.prems kv have k: "key_ok k" by simp
  then have "\<forall>c\<in>set k. \<not> isspace c \<and> c \<noteq> CHR 0x00" by (simp add: key_ok_def)
  then have "\<forall>c\<in>set k. c \<noteq> CHR 0x0A \<and> c \<noteq> CHR 0x00" using isspace_blank(2) by metis
  moreover have "\<forall>c\<in>set (dec_string (unat v)). c \<noteq> CHR 0x0A \<and> c \<noteq> CHR 0x00"
    using dec_string_chars by blast
  ultimately have no_nl: "\<forall>c\<in>set ?l. c \<noteq> CHR 0x0A \<and> c \<noteq> CHR 0x00" by auto
  have len: "length ?l \<le> 255" using k dec_string_u64[of v] by (simp add: key_ok_def)
  have eq: "print_file (kv # kvs) = ?l @ CHR 0x0A # print_file kvs"
    by (simp add: print_file_def kv)
  have tw: "takeWhile (\<lambda>c. c \<noteq> CHR 0x0A) (print_file (kv # kvs)) = ?l"
    unfolding eq using no_nl by (intro takeWhile_stop) simp_all
  have tz: "takeWhile (\<lambda>c. c \<noteq> CHR 0x00) (take 255 ?l) = ?l"
    using no_nl by (simp only: take_all[OF len] takeWhile_eq_all_conv) blast
  have dr: "drop (length ?l + 1) (print_file (kv # kvs)) = print_file kvs"
    unfolding eq by simp
  have ne: "print_file (kv # kvs) \<noteq> []" unfolding eq by simp
  have "snapshot_lines (print_file (kv # kvs)) = ?l # snapshot_lines (print_file kvs)"
    by (subst snapshot_lines.simps) (simp only: ne tw tz dr Let_def if_False)
  then show ?case using Cons kv by simp
qed

lemma find_field_printed:
  "\<forall>(k, v)\<in>set kvs. key_ok k \<Longrightarrow>
   find_field (map (\<lambda>(k, v). k @ [CHR '' ''] @ dec_string (unat v)) kvs) key = map_of kvs key"
  by (induction kvs) (auto simp: sscanf_printed[simplified])

lemma sum_fields_printed:
  "\<forall>(k, v)\<in>set kvs. key_ok k \<Longrightarrow>
   sum_fields (map (\<lambda>(k, v). k @ [CHR '' ''] @ dec_string (unat v)) kvs) pre =
     (let m = filter (\<lambda>(k, v). take (length pre) k = pre) kvs
      in (sum_list (map snd m), length m))"
  by (induction kvs) (auto simp: sscanf_printed[simplified] Let_def split: prod.splits)

text \<open>
  On a snapshot of a well-formed key-value file, a field query returns exactly the first
  entry with that key, and nothing when the key is absent.
\<close>

lemma snapshot_field_roundtrip:
  assumes "\<forall>(k, v)\<in>set kvs. key_ok k"
  shows "cgroup_stat_snapshot_field (print_file kvs) key = map_of kvs key"
  using find_field_printed[OF assms] snapshot_lines_print[OF assms]
  by (simp add: cgroup_stat_snapshot_field_def)

lemma snapshot_field_roundtrip_witness:
  "cgroup_stat_snapshot_field (print_file [(''anon'', 12), (''shmem'', 4096)]) ''shmem'' = Some 4096"
proof -
  have a: "\<forall>(k, v)\<in>set [(''anon'', 12 :: u64), (''shmem'', 4096)]. key_ok k"
    by (simp add: key_ok_def isspace_def)
  show ?thesis using snapshot_field_roundtrip[OF a, of "''shmem''"] by simp
qed

text \<open>
  The snapshot reader: whatever pieces \<^verbatim>\<open>read(2)\<close> delivers the file in, the snapshot is the
  file, cut to the buffer.
\<close>

fun read_pieces :: "read_result list \<Rightarrow> string" where
  "read_pieces [] = []"
| "read_pieces (R_bytes s # rs) = s @ read_pieces rs"
| "read_pieces (_ # rs) = read_pieces rs"

lemma snapshot_loop_reads:
  assumes "R_error \<notin> set rs" and "R_bytes [] \<notin> set rs" and "length buf < CGROUP_STAT_BUF_SIZE - 1"
    and "length (buf @ read_pieces rs) < CGROUP_STAT_BUF_SIZE - 1"
  shows "snapshot_loop (rs @ [R_bytes []]) buf = Some (buf @ read_pieces rs)"
  using assms
proof (induction rs arbitrary: buf)
  case Nil
  then show ?case by (simp add: snapshot_loop.simps[of "[R_bytes []]"])
next
  case (Cons r rs)
  show ?case
  proof (cases r)
    case R_eintr
    with Cons show ?thesis by (simp add: snapshot_loop.simps[of "R_eintr # _"])
  next
    case R_error
    with Cons show ?thesis by simp
  next
    case (R_bytes s)
    with Cons.prems have s: "s \<noteq> []" "length s \<le> CGROUP_STAT_BUF_SIZE - 1 - length buf" by auto
    with R_bytes Cons.prems Cons.IH[of "buf @ s"] show ?thesis
      by (simp add: snapshot_loop.simps[of "R_bytes s # _"])
  qed
qed

end
