(* ===== verification/Chunks.thy ===== *)
theory Chunks
  imports Prelude
begin

text \<open>
  The chunk table (\<^verbatim>\<open>chunk_t\<close> of \<^verbatim>\<open>region.h\<close>, its two builders in
  \<^verbatim>\<open>region.c\<close> and the lookup of \<^verbatim>\<open>pager.c\<close>). A table is well formed when its
  chunks tile the region from 0 to its length; the builders produce such tables or fail, and the
  binary search finds the one chunk that covers an offset.
\<close>

section \<open>The chunk record\<close>

datatype chunk_state = CHUNK_ABSENT | CHUNK_FETCHING | CHUNK_RESIDENT

text \<open>
  The mutex and the condition variable of \<^verbatim>\<open>chunk_t\<close> are not data: a definition below
  that the code runs under \<^verbatim>\<open>c->lock\<close> is one critical section of the model.
\<close>

record chunk =
  file_off :: u64
  region_off :: u64
  len :: u64
  layer_id :: u32
  state :: chunk_state
  last_fault_seq :: u64
  pin :: u32
  diag_dispatch_entry_ns :: u64
  diag_dispatch_enqueue_ns :: u64
  fetching_since_ns :: u64
  decline_until_ns :: u64

record chunk_spec =
  spec_file_off :: u64
  spec_region_off :: u64
  spec_len :: u64
  spec_layer_id :: u32

text \<open>A chunk fresh from \<^verbatim>\<open>calloc\<close> with its geometry filled in.\<close>

definition new_chunk :: "u64 \<Rightarrow> u64 \<Rightarrow> u64 \<Rightarrow> u32 \<Rightarrow> chunk" where
  "new_chunk fo ro l lid =
     \<lparr>file_off = fo, region_off = ro, len = l, layer_id = lid, state = CHUNK_ABSENT,
      last_fault_seq = 0, pin = 0, diag_dispatch_entry_ns = 0, diag_dispatch_enqueue_ns = 0,
      fetching_since_ns = 0, decline_until_ns = 0\<rparr>"

lemma new_chunk_sel [simp]:
  "file_off (new_chunk fo ro l lid) = fo" "region_off (new_chunk fo ro l lid) = ro"
  "len (new_chunk fo ro l lid) = l" "layer_id (new_chunk fo ro l lid) = lid"
  "state (new_chunk fo ro l lid) = CHUNK_ABSENT" "pin (new_chunk fo ro l lid) = 0"
  "fetching_since_ns (new_chunk fo ro l lid) = 0"
  by (simp_all add: new_chunk_def)

section \<open>Tiling\<close>

fun tiles :: "nat \<Rightarrow> chunk list \<Rightarrow> nat \<Rightarrow> bool" where
  "tiles off [] e \<longleftrightarrow> off = e"
| "tiles off (c # cs) e \<longleftrightarrow>
     unat (region_off c) = off \<and> len c \<noteq> 0 \<and> file_off c = region_off c
     \<and> tiles (off + unat (len c)) cs e"

lemma tiles_end: "tiles off cs e \<Longrightarrow> e = off + (\<Sum>j<length cs. unat (len (cs ! j)))"
proof (induction cs arbitrary: off)
  case Nil
  then show ?case by simp
next
  case (Cons c cs)
  then have "tiles (off + unat (len c)) cs e" by simp
  from Cons.IH[OF this] show ?case
    by (simp add: sum.lessThan_Suc_shift del: sum.lessThan_Suc)
qed

lemma tiles_nth:
  "tiles off cs e \<Longrightarrow> i < length cs \<Longrightarrow>
   unat (region_off (cs ! i)) = off + (\<Sum>j<i. unat (len (cs ! j)))
   \<and> len (cs ! i) \<noteq> 0 \<and> file_off (cs ! i) = region_off (cs ! i)"
proof (induction cs arbitrary: off i)
  case Nil
  then show ?case by simp
next
  case (Cons c cs)
  show ?case
  proof (cases i)
    case 0
    with Cons.prems show ?thesis by simp
  next
    case (Suc k)
    with Cons.prems have "tiles (off + unat (len c)) cs e" "k < length cs" by auto
    from Cons.IH[OF this] Suc show ?thesis
      by (simp add: sum.lessThan_Suc_shift del: sum.lessThan_Suc)
  qed
qed

lemma sum_lens_mono:
  fixes f :: "nat \<Rightarrow> nat"
  assumes "i < j"
  shows "(\<Sum>k<i. f k) + f i \<le> (\<Sum>k<j. f k)"
proof -
  have "(\<Sum>k<i. f k) + f i = (\<Sum>k<Suc i. f k)" by simp
  also have "\<dots> \<le> (\<Sum>k<j. f k)" using assms by (intro sum_mono2) auto
  finally show ?thesis .
qed

lemma tiles_before:
  "tiles off cs e \<Longrightarrow> i < j \<Longrightarrow> j < length cs \<Longrightarrow>
   unat (region_off (cs ! i)) + unat (len (cs ! i)) \<le> unat (region_off (cs ! j))"
  using tiles_nth[of off cs e i] tiles_nth[of off cs e j]
    sum_lens_mono[of i j "\<lambda>k. unat (len (cs ! k))"] by simp

lemma tiles_within:
  "tiles off cs e \<Longrightarrow> i < length cs \<Longrightarrow>
   unat (region_off (cs ! i)) + unat (len (cs ! i)) \<le> e"
  using tiles_nth[of off cs e i] tiles_end[of off cs e]
    sum_lens_mono[of i "length cs" "\<lambda>k. unat (len (cs ! k))"] by simp

text \<open>The bytes of a set of chunks, as the program adds them up and exactly.\<close>

definition bytes_of :: "chunk list \<Rightarrow> nat set \<Rightarrow> u64" where
  "bytes_of cs S = (\<Sum>i\<in>S. len (cs ! i))"

definition nbytes_of :: "chunk list \<Rightarrow> nat set \<Rightarrow> nat" where
  "nbytes_of cs S = (\<Sum>i\<in>S. unat (len (cs ! i)))"

lemma bytes_of_empty [simp]: "bytes_of cs {} = 0" "nbytes_of cs {} = 0"
  by (simp_all add: bytes_of_def nbytes_of_def)

lemma bytes_of_insert:
  "finite S \<Longrightarrow> i \<notin> S \<Longrightarrow> bytes_of cs (insert i S) = len (cs ! i) + bytes_of cs S"
  by (simp add: bytes_of_def)

lemma nbytes_of_insert:
  "finite S \<Longrightarrow> i \<notin> S \<Longrightarrow> nbytes_of cs (insert i S) = unat (len (cs ! i)) + nbytes_of cs S"
  by (simp add: nbytes_of_def)

lemma bytes_of_remove:
  "finite S \<Longrightarrow> i \<in> S \<Longrightarrow> bytes_of cs (S - {i}) = bytes_of cs S - len (cs ! i)"
  by (simp add: bytes_of_def sum_diff1)

lemma nbytes_of_union:
  "finite S \<Longrightarrow> finite T \<Longrightarrow> S \<inter> T = {} \<Longrightarrow> nbytes_of cs (S \<union> T) = nbytes_of cs S + nbytes_of cs T"
  by (simp add: nbytes_of_def sum.union_disjoint)

lemma nbytes_of_mono:
  "finite T \<Longrightarrow> S \<subseteq> T \<Longrightarrow> nbytes_of cs S \<le> nbytes_of cs T"
  by (simp add: nbytes_of_def sum_mono2)

lemma nbytes_of_le_region:
  assumes "tiles 0 cs e" and "S \<subseteq> {..<length cs}"
  shows "nbytes_of cs S \<le> e"
  using nbytes_of_mono[of "{..<length cs}" S cs] assms tiles_end[OF assms(1)]
  by (simp add: nbytes_of_def)

lemma unat_bytes_of:
  assumes "tiles 0 cs e" and "e < 2 ^ 64" and "S \<subseteq> {..<length cs}"
  shows "unat (bytes_of cs S) = nbytes_of cs S"
  using nbytes_of_le_region[OF assms(1,3)] assms(2) unat_sum_exact[of "\<lambda>i. len (cs ! i)" S]
  by (simp add: bytes_of_def nbytes_of_def)

text \<open>Geometry is never written after startup; updates of the other fields keep it.\<close>

definition geom :: "chunk \<Rightarrow> u64 \<times> u64 \<times> u64" where
  "geom c = (file_off c, region_off c, len c)"

definition same_geometry :: "chunk list \<Rightarrow> chunk list \<Rightarrow> bool" where
  "same_geometry cs ds \<longleftrightarrow> map geom cs = map geom ds"

lemma same_geometry_refl [simp]: "same_geometry cs cs"
  by (simp add: same_geometry_def)

lemma same_geometry_trans: "same_geometry a b \<Longrightarrow> same_geometry b c \<Longrightarrow> same_geometry a c"
  by (simp add: same_geometry_def)

lemma same_geometry_length: "same_geometry cs ds \<Longrightarrow> length cs = length ds"
  by (metis length_map same_geometry_def)

lemma same_geometry_nth:
  "same_geometry cs ds \<Longrightarrow> i < length cs \<Longrightarrow> geom (cs ! i) = geom (ds ! i)"
  unfolding same_geometry_def by (metis length_map nth_map)

lemma same_geometry_update:
  "geom c = geom (cs ! i) \<Longrightarrow> same_geometry cs (cs[i := c])"
  unfolding same_geometry_def by (metis list_update_beyond list_update_id map_update not_le nth_map)

lemma same_geometry_tiles: "same_geometry cs ds \<Longrightarrow> tiles off cs e \<longleftrightarrow> tiles off ds e"
proof (induction cs arbitrary: off ds)
  case Nil
  then show ?case by (simp add: same_geometry_def)
next
  case (Cons c cs)
  then obtain d ds' where ds: "ds = d # ds'" by (cases ds) (auto simp: same_geometry_def)
  with Cons.prems have hd: "geom c = geom d" and tl: "same_geometry cs ds'"
    by (auto simp: same_geometry_def)
  from Cons.IH[OF tl] ds hd show ?case by (simp add: geom_def)
qed

lemma same_geometry_len: "same_geometry cs ds \<Longrightarrow> i < length cs \<Longrightarrow> len (cs ! i) = len (ds ! i)"
  by (drule (1) same_geometry_nth) (simp add: geom_def)

lemma same_geometry_bytes:
  "same_geometry cs ds \<Longrightarrow> S \<subseteq> {..<length cs} \<Longrightarrow> bytes_of cs S = bytes_of ds S"
  "same_geometry cs ds \<Longrightarrow> S \<subseteq> {..<length cs} \<Longrightarrow> nbytes_of cs S = nbytes_of ds S"
  unfolding bytes_of_def nbytes_of_def
  by (intro sum.cong; use same_geometry_len in auto)+

section \<open>Building the table\<close>

definition round_chunk_size :: "u64 \<Rightarrow> u64" where
  "round_chunk_size cs =
     (if cs mod RESIDCTL_ALIGN \<noteq> 0 then (cs div RESIDCTL_ALIGN + 1) * RESIDCTL_ALIGN else cs)"

definition uniform_chunk :: "u64 \<Rightarrow> u64 \<Rightarrow> nat \<Rightarrow> chunk" where
  "uniform_chunk rlen csz i =
     (let off = word_of_nat i * csz;
          l = (if off + csz > rlen then rlen - off else csz)
      in new_chunk off off l (word_of_nat i))"

definition build_chunk_table :: "u64 \<Rightarrow> u64 \<Rightarrow> failure + chunk list" where
  "build_chunk_table rlen requested =
     (let csz = round_chunk_size requested
      in if csz = 0 then Inl (Startup_failed ''chunk_size rounds to 0'')
         else let n = (rlen + csz - 1) div csz
              in if n = 0 \<or> unat n > UINT32_MAX
                 then Inl (Startup_failed ''computed chunk count out of range'')
                 else Inr (map (uniform_chunk rlen csz) [0..<unat n]))"

text \<open>The loop over the explicit specification, with its checks in the order of the code.\<close>

fun explicit_loop :: "chunk_spec list \<Rightarrow> u64 \<Rightarrow> chunk list \<Rightarrow> failure + (chunk list \<times> u64)" where
  "explicit_loop [] expect_off acc = Inr (acc, expect_off)"
| "explicit_loop (s # ss) expect_off acc =
     (if spec_region_off s \<noteq> expect_off then Inl (Startup_failed ''specs must tile contiguously'')
      else if spec_file_off s \<noteq> spec_region_off s then Inl (Startup_failed ''file_off != region_off'')
      else if spec_len s = 0 then Inl (Startup_failed ''chunk has len 0'')
      else if spec_region_off s mod RESIDCTL_ALIGN \<noteq> 0
        then Inl (Startup_failed ''region_off not 4096-aligned'')
      else if ss \<noteq> [] \<and> spec_len s mod RESIDCTL_ALIGN \<noteq> 0
        then Inl (Startup_failed ''len not 4096-aligned'')
      else explicit_loop ss (expect_off + spec_len s)
             (acc @ [new_chunk (spec_file_off s) (spec_region_off s) (spec_len s) (spec_layer_id s)]))"

definition build_chunk_table_explicit :: "u64 \<Rightarrow> chunk_spec list \<Rightarrow> failure + chunk list" where
  "build_chunk_table_explicit rlen specs =
     (if specs = [] \<or> length specs > UINT32_MAX
      then Inl (Startup_failed ''explicit chunk count out of range'')
      else rbind (explicit_loop specs 0 []) (\<lambda>(cs, covered).
             if covered \<noteq> rlen then Inl (Startup_failed ''explicit chunks do not cover region_len'')
             else Inr cs))"

section \<open>Lookup\<close>

function lookup_loop :: "chunk list \<Rightarrow> u64 \<Rightarrow> nat \<Rightarrow> nat \<Rightarrow> nat option" where
  "lookup_loop cs rel lo hi =
     (if lo < hi then
        let mid = lo + (hi - lo) div 2; c = cs ! mid
        in if rel < region_off c then lookup_loop cs rel lo mid
           else if rel \<ge> region_off c + len c then lookup_loop cs rel (mid + 1) hi
           else Some mid
      else None)"
  by pat_completeness auto
termination
  by (relation "measure (\<lambda>(cs, rel, lo, hi). hi - lo)") auto

declare lookup_loop.simps [simp del]

definition pager_lookup :: "chunk list \<Rightarrow> u64 \<Rightarrow> nat option" where
  "pager_lookup cs rel = (if cs = [] then None else lookup_loop cs rel 0 (length cs))"

definition covers :: "chunk \<Rightarrow> u64 \<Rightarrow> bool" where
  "covers c rel \<longleftrightarrow> unat (region_off c) \<le> unat rel \<and> unat rel < unat (region_off c) + unat (len c)"

section \<open>Lookup finds the covering chunk\<close>

lemma tiles_add:
  assumes "tiles 0 cs (unat (L :: u64))" and "i < length cs"
  shows "unat (region_off (cs ! i) + len (cs ! i)) = unat (region_off (cs ! i)) + unat (len (cs ! i))"
  using tiles_within[OF assms] u64_bound[of L] by (intro unat_add_exact) simp

lemma tiles_cover:
  "tiles off cs e \<Longrightarrow> off \<le> r \<Longrightarrow> r < e \<Longrightarrow>
   \<exists>i<length cs. unat (region_off (cs ! i)) \<le> r \<and> r < unat (region_off (cs ! i)) + unat (len (cs ! i))"
proof (induction cs arbitrary: off)
  case Nil
  then show ?case by simp
next
  case (Cons c cs)
  show ?case
  proof (cases "r < off + unat (len c)")
    case True
    with Cons.prems show ?thesis by (intro exI[of _ 0]) auto
  next
    case False
    with Cons.prems Cons.IH[of "off + unat (len c)"] obtain i where "i < length cs"
      "unat (region_off (cs ! i)) \<le> r" "r < unat (region_off (cs ! i)) + unat (len (cs ! i))"
      by auto
    then show ?thesis by (intro exI[of _ "Suc i"]) auto
  qed
qed

lemma covers_iff:
  assumes "tiles 0 cs (unat (L :: u64))" and "i < length cs"
  shows "covers (cs ! i) rel \<longleftrightarrow>
         \<not> rel < region_off (cs ! i) \<and> \<not> region_off (cs ! i) + len (cs ! i) \<le> rel"
  using tiles_add[OF assms] by (auto simp: covers_def word_le_nat_alt word_less_nat_alt)

lemma covers_unique:
  assumes "tiles 0 cs e" and "i < length cs" "j < length cs"
    and "covers (cs ! i) rel" "covers (cs ! j) rel"
  shows "i = j"
proof (rule linorder_cases[of i j])
  assume "i < j"
  from tiles_before[OF assms(1) this] assms show ?thesis by (auto simp: covers_def)
next
  assume "j < i"
  from tiles_before[OF assms(1) this] assms show ?thesis by (auto simp: covers_def)
qed

lemma lookup_loop_unfold:
  assumes "lo < hi" and "mid = lo + (hi - lo) div 2"
  shows "lookup_loop cs rel lo hi =
    (if rel < region_off (cs ! mid) then lookup_loop cs rel lo mid
     else if rel \<ge> region_off (cs ! mid) + len (cs ! mid) then lookup_loop cs rel (mid + 1) hi
     else Some mid)"
  using assms by (subst lookup_loop.simps) (simp add: Let_def)

text \<open>The binary search keeps the covering chunk inside its window.\<close>

lemma lookup_loop_finds:
  "tiles 0 cs (unat (L :: u64)) \<Longrightarrow> i < length cs \<Longrightarrow> covers (cs ! i) rel \<Longrightarrow>
   lo \<le> i \<Longrightarrow> i < hi \<Longrightarrow> hi \<le> length cs \<Longrightarrow> lookup_loop cs rel lo hi = Some i"
proof (induction cs rel lo hi rule: lookup_loop.induct)
  case (1 cs rel lo hi)
  define mid where "mid = lo + (hi - lo) div 2"
  from 1 have lh: "lo < hi" by simp
  then have mid: "mid < hi" "lo \<le> mid" by (auto simp: mid_def)
  with 1 have ml: "mid < length cs" by simp
  note unf = lookup_loop_unfold[OF lh mid_def, of cs rel]
  have cov: "unat (region_off (cs ! i)) \<le> unat rel"
    "unat rel < unat (region_off (cs ! i)) + unat (len (cs ! i))"
    using 1 by (auto simp: covers_def)
  note before = tiles_before[OF "1.prems"(1)]
  consider (lt) "rel < region_off (cs ! mid)"
    | (ge) "\<not> rel < region_off (cs ! mid)" "rel \<ge> region_off (cs ! mid) + len (cs ! mid)"
    | (hit) "\<not> rel < region_off (cs ! mid)" "\<not> rel \<ge> region_off (cs ! mid) + len (cs ! mid)"
    by blast
  then show ?case
  proof cases
    case lt
    have "i < mid"
    proof (rule ccontr)
      assume "\<not> i < mid"
      then have "mid = i \<or> mid < i" by auto
      then have "unat (region_off (cs ! mid)) \<le> unat rel" using before[of mid i] 1 cov by auto
      with lt show False by (simp add: word_less_nat_alt)
    qed
    then show ?thesis using "1.IH"(1)[OF lh mid_def refl lt] 1 unf mid lt by simp
  next
    case ge
    have "mid < i"
    proof (rule ccontr)
      assume "\<not> mid < i"
      then have "mid = i \<or> i < mid" by auto
      then have "unat rel < unat (region_off (cs ! mid)) + unat (len (cs ! mid))"
        using before[of i mid] ml cov by auto
      with ge(2) show False
        using tiles_add[OF "1.prems"(1) ml] by (simp add: word_le_nat_alt)
    qed
    then show ?thesis using "1.IH"(2)[OF lh mid_def refl ge] 1 unf mid ge by simp
  next
    case hit
    then have "covers (cs ! mid) rel" using covers_iff[OF "1.prems"(1) ml] by simp
    then have "mid = i" using covers_unique[OF "1.prems"(1) ml] 1 by blast
    then show ?thesis using hit unf by simp
  qed
qed

lemma lookup_loop_sound:
  "tiles 0 cs (unat (L :: u64)) \<Longrightarrow> hi \<le> length cs \<Longrightarrow> lookup_loop cs rel lo hi = Some i \<Longrightarrow>
   i < length cs \<and> covers (cs ! i) rel"
proof (induction cs rel lo hi rule: lookup_loop.induct)
  case (1 cs rel lo hi)
  define mid where "mid = lo + (hi - lo) div 2"
  show ?case
  proof (cases "lo < hi")
    case True
    then have mid: "mid < hi" by (auto simp: mid_def)
    with "1.prems"(2) have ml: "mid < length cs" by simp
    note unf = lookup_loop_unfold[OF True mid_def, of cs rel]
    consider (lt) "rel < region_off (cs ! mid)"
      | (ge) "\<not> rel < region_off (cs ! mid)" "rel \<ge> region_off (cs ! mid) + len (cs ! mid)"
      | (hit) "\<not> rel < region_off (cs ! mid)" "\<not> rel \<ge> region_off (cs ! mid) + len (cs ! mid)"
      by blast
    then show ?thesis
    proof cases
      case lt
      then show ?thesis using "1.IH"(1)[OF True mid_def refl lt] "1.prems" unf mid by simp
    next
      case ge
      then show ?thesis using "1.IH"(2)[OF True mid_def refl ge] "1.prems" unf by simp
    next
      case hit
      then have "i = mid" using unf "1.prems" by simp
      then show ?thesis using hit ml covers_iff[OF "1.prems"(1) ml] by simp
    qed
  next
    case False
    with "1.prems" show ?thesis by (simp add: lookup_loop.simps[of cs rel lo hi])
  qed
qed

lemma pager_lookup_iff:
  assumes "tiles 0 cs (unat (L :: u64))"
  shows "(pager_lookup cs rel = Some i \<longleftrightarrow> i < length cs \<and> covers (cs ! i) rel)
       \<and> (pager_lookup cs rel = None \<longleftrightarrow> L \<le> rel)"
proof -
  have sound: "pager_lookup cs rel = Some j \<Longrightarrow> j < length cs \<and> covers (cs ! j) rel" for j
    using lookup_loop_sound[OF assms order_refl] by (auto simp: pager_lookup_def split: if_splits)
  have complete: "j < length cs \<Longrightarrow> covers (cs ! j) rel \<Longrightarrow> pager_lookup cs rel = Some j" for j
    using lookup_loop_finds[OF assms, of j rel 0 "length cs"] by (auto simp: pager_lookup_def)
  have inside: "\<exists>j<length cs. covers (cs ! j) rel" if "unat rel < unat L"
    using tiles_cover[OF assms, of "unat rel"] that by (auto simp: covers_def)
  have outside: "unat rel < unat L" if "j < length cs" "covers (cs ! j) rel" for j
    using tiles_within[OF assms that(1)] that(2) by (simp add: covers_def)
  show ?thesis
    using sound complete inside outside
    by (metis option.exhaust option.distinct(1) word_le_nat_alt not_le)
qed

text \<open>
  C19. On a table that tiles the region, \<^verbatim>\<open>pager_lookup\<close> returns chunk \<open>i\<close> exactly when
  \<open>i\<close> is the chunk whose byte range contains the offset, and it returns nothing exactly for the
  offsets at or past the end of the region: no fault inside the region is ever missed and none is
  attributed to the wrong chunk.
\<close>

theorem pager_lookup_exact:
  assumes "tiles 0 cs (unat (L :: u64))"
  shows "(pager_lookup cs rel = Some i \<longleftrightarrow> i < length cs \<and> covers (cs ! i) rel)
       \<and> (pager_lookup cs rel = None \<longleftrightarrow> L \<le> rel)"
  using assms by (rule pager_lookup_iff)

theorem pager_lookup_exact_witness:
  "pager_lookup [new_chunk 0 0 4096 0, new_chunk 4096 4096 100 1] 4196 = None
   \<and> pager_lookup [new_chunk 0 0 4096 0, new_chunk 4096 4096 100 1] 4195 = Some 1"
proof -
  let ?cs = "[new_chunk 0 0 4096 0, new_chunk 4096 4096 100 1]"
  have "tiles 0 ?cs (unat (4196 :: u64))" by (simp add: new_chunk_def)
  note E = pager_lookup_exact[OF this]
  have "covers (?cs ! 1) 4195" by (simp add: covers_def new_chunk_def)
  then show ?thesis using E[of 4195 1] E[of 4196 0] by simp
qed

section \<open>The builders produce a tiling\<close>

lemma unat_uniform_offset:
  assumes "i * unat csz < 2 ^ 64"
  shows "unat (word_of_nat i * (csz :: u64)) = i * unat csz"
proof (cases "csz = 0")
  case False
  then have "1 \<le> unat csz" by (simp add: unat_gt_0 Suc_leI)
  then have "i \<le> i * unat csz" by simp
  with assms have "i < 2 ^ 64" by linarith
  with assms show ?thesis by (simp add: unat_word_ariths unat_of_nat)
qed simp

lemma uniform_chunk_values:
  assumes "i * unat csz < unat rlen" and "unat rlen + unat csz \<le> 2 ^ 64" and "csz \<noteq> 0"
  shows "unat (region_off (uniform_chunk rlen csz i)) = i * unat csz"
    and "unat (len (uniform_chunk rlen csz i)) = min (unat csz) (unat rlen - i * unat csz)"
    and "file_off (uniform_chunk rlen csz i) = region_off (uniform_chunk rlen csz i)"
proof -
  let ?o = "word_of_nat i * csz"
  have o: "unat ?o = i * unat csz"
    using assms u64_bound[of rlen] by (intro unat_uniform_offset) simp
  have a: "unat (?o + csz) = i * unat csz + unat csz"
    using assms o by (subst unat_add_exact) simp_all
  have d: "unat (rlen - ?o) = unat rlen - i * unat csz"
    using assms o by (subst unat_sub) (simp_all add: word_le_nat_alt)
  show "unat (region_off (uniform_chunk rlen csz i)) = i * unat csz"
    "file_off (uniform_chunk rlen csz i) = region_off (uniform_chunk rlen csz i)"
    using o by (simp_all add: uniform_chunk_def Let_def)
  show "unat (len (uniform_chunk rlen csz i)) = min (unat csz) (unat rlen - i * unat csz)"
    using a d by (auto simp: uniform_chunk_def Let_def word_less_nat_alt)
qed

text \<open>
  When the rounded-up count overflows 64 bits it comes out as 0 and the builder refuses, so a
  table that is built has the exact count.
\<close>

lemma chunk_count_exact:
  assumes "(csz :: u64) \<noteq> 0" and "n = (rlen + csz - 1) div csz" and "n \<noteq> 0"
  shows "unat rlen + unat csz \<le> 2 ^ 64" and "unat rlen \<le> unat n * unat csz"
    and "(unat n - 1) * unat csz < unat rlen" and "0 < unat rlen"
proof -
  have C: "0 < unat csz" using assms(1) by (simp add: unat_gt_0)
  have "unat (csz - 1) = unat csz - 1" using assms(1) by (rule unat_minus_one)
  then have t: "unat (rlen + csz - 1) = (unat rlen + (unat csz - 1)) mod 2 ^ 64"
    by (simp add: unat_word_ariths(1) flip: add_diff_eq)
  have n: "unat n = unat (rlen + csz - 1) div unat csz" using assms(2) by (simp add: unat_div)
  have npos: "0 < unat n" using assms(3) by (simp add: unat_gt_0)
  show R: "unat rlen + unat csz \<le> 2 ^ 64"
  proof (rule ccontr)
    assume big: "\<not> ?thesis"
    define k where "k = unat rlen + (unat csz - 1) - 2 ^ 64"
    have k: "unat rlen + (unat csz - 1) = k + 2 ^ 64" and "k < unat csz"
      using big C u64_bound[of rlen] u64_bound[of csz] by (simp_all add: k_def)
    moreover have "k < 2 ^ 64" using \<open>k < unat csz\<close> u64_bound[of csz] by simp
    ultimately have "unat (rlen + csz - 1) < unat csz" using t by (simp only: k mod_add_self2) simp
    with n npos show False by simp
  qed
  have m: "unat (rlen + csz - 1) = unat rlen + unat csz - 1"
    using t R C by (simp add: mod_if)
  with n have nn: "unat n = (unat rlen + unat csz - 1) div unat csz" by simp
  show "0 < unat rlen" using nn npos C by (cases "unat rlen = 0") auto
  show "unat rlen \<le> unat n * unat csz"
  proof -
    have "unat n * unat csz + (unat rlen + unat csz - 1) mod unat csz = unat rlen + unat csz - 1"
      unfolding nn by (rule div_mult_mod_eq)
    moreover have "(unat rlen + unat csz - 1) mod unat csz < unat csz" using C by simp
    ultimately show ?thesis by linarith
  qed
  have "unat n * unat csz \<le> unat rlen + unat csz - 1"
    using nn div_times_less_eq_dividend by simp
  moreover have "unat csz \<le> unat n * unat csz" using npos by simp
  ultimately show "(unat n - 1) * unat csz < unat rlen"
    using C unfolding diff_mult_distrib by linarith
qed

lemma uniform_tiles:
  assumes "csz \<noteq> 0" and "unat rlen + unat csz \<le> 2 ^ 64"
    and "unat rlen \<le> n * unat csz" and "(n - 1) * unat csz < unat rlen"
  shows "i \<le> n \<Longrightarrow>
    tiles (min (i * unat csz) (unat rlen)) (map (uniform_chunk rlen csz) [i..<n]) (unat rlen)"
proof (induction i rule: inc_induct)
  case base
  then show ?case using assms(3) by simp
next
  case (step i)
  have "i \<le> n - 1" using \<open>i < n\<close> by simp
  then have "i * unat csz \<le> (n - 1) * unat csz" by (rule mult_right_mono) simp
  then have lt: "i * unat csz < unat rlen" using assms(4) by linarith
  note v = uniform_chunk_values[OF lt assms(2,1)]
  have C: "0 < unat csz" using assms(1) by (simp add: unat_gt_0)
  have "0 < unat (len (uniform_chunk rlen csz i))" using v(2) lt C by simp
  then have l: "len (uniform_chunk rlen csz i) \<noteq> 0" by auto
  have "min (i * unat csz) (unat rlen) = i * unat csz" using lt by simp
  moreover have "i * unat csz + unat (len (uniform_chunk rlen csz i)) =
      min (Suc i * unat csz) (unat rlen)" using v(2) lt by simp
  ultimately show ?case using step v(1,3) l by (simp add: upt_conv_Cons)
qed

text \<open>What every table of the program satisfies at startup.\<close>

definition fresh_table :: "chunk list \<Rightarrow> bool" where
  "fresh_table cs \<longleftrightarrow> cs \<noteq> [] \<and> length cs \<le> UINT32_MAX \<and>
     (\<forall>c\<in>set cs. state c = CHUNK_ABSENT \<and> pin c = 0 \<and> unat (region_off c) mod 4096 = 0)"

lemma dvd_4096_mod: "(4096 :: nat) dvd n \<Longrightarrow> 4096 dvd n mod 18446744073709551616"
  by (rule dvd_mod) simp_all

lemma round_chunk_size_aligned: "4096 dvd unat (round_chunk_size requested)"
proof (cases "requested mod RESIDCTL_ALIGN = 0")
  case True
  then have "unat (requested mod RESIDCTL_ALIGN) = 0" by simp
  then have "unat requested mod 4096 = 0" by (simp add: unat_mod RESIDCTL_ALIGN_def)
  with True show ?thesis by (auto simp: round_chunk_size_def)
next
  case False
  have "unat (round_chunk_size requested) =
      (unat (requested div RESIDCTL_ALIGN + 1) * 4096) mod 18446744073709551616"
    using False unfolding round_chunk_size_def RESIDCTL_ALIGN_def
    by (simp only: if_True if_False simp_thms not_False_eq_True unat_word_ariths(2)) simp
  then show ?thesis using dvd_4096_mod[OF dvd_triv_right] by metis
qed

lemma build_chunk_table_ok:
  assumes "build_chunk_table rlen requested = Inr cs"
  shows "tiles 0 cs (unat rlen) \<and> fresh_table cs"
proof -
  define csz where "csz = round_chunk_size requested"
  define n where "n = (rlen + csz - 1) div csz"
  from assms have c0: "csz \<noteq> 0" and n0: "n \<noteq> 0" and nmax: "unat n \<le> UINT32_MAX"
    and cs: "cs = map (uniform_chunk rlen csz) [0..<unat n]"
    by (auto simp: build_chunk_table_def csz_def n_def Let_def split: if_splits)
  note ex = chunk_count_exact[OF c0 n_def n0]
  have "tiles 0 cs (unat rlen)"
    using uniform_tiles[OF c0 ex(1,2,3), of 0] cs by simp
  moreover have "unat (region_off (uniform_chunk rlen csz i)) mod 4096 = 0" if "i < unat n" for i
  proof -
    have "i * unat csz \<le> (unat n - 1) * unat csz" using that by (intro mult_right_mono) auto
    then have "i * unat csz < unat rlen" using ex(3) by linarith
    from uniform_chunk_values(1)[OF this ex(1) c0] round_chunk_size_aligned[of requested]
    show ?thesis by (simp add: csz_def)
  qed
  then have "fresh_table cs"
    using n0 nmax cs by (auto simp: fresh_table_def uniform_chunk_def Let_def unat_gt_0)
  ultimately show ?thesis by simp
qed

text \<open>
  C20. Whatever region length and chunk size are requested, \<^verbatim>\<open>build_chunk_table\<close> either
  refuses or builds a table whose chunks tile the region exactly, from 0 to its length with no gap
  and no overlap, file offset equal to region offset, every offset 4096-aligned, all ABSENT and unpinned and at
  most \<^verbatim>\<open>UINT32_MAX\<close> of them; no 64-bit overflow of the sizes escapes its checks.
\<close>

theorem build_chunk_table_tiles:
  assumes "build_chunk_table rlen requested = Inr cs"
  shows "tiles 0 cs (unat rlen) \<and> fresh_table cs"
  using assms by (rule build_chunk_table_ok)

theorem build_chunk_table_tiles_witness:
  "\<exists>cs. build_chunk_table 10000 5000 = Inr cs \<and> tiles 0 cs 10000 \<and> length cs = 2"
proof -
  have ok: "\<not> isl (build_chunk_table 10000 5000)" by code_simp
  have l: "map_sum id length (build_chunk_table 10000 5000) = Inr 2" by code_simp
  from ok obtain cs where cs: "build_chunk_table 10000 5000 = Inr cs" by (rule not_islE)
  with l have "length cs = 2" by simp
  then show ?thesis using cs build_chunk_table_tiles[OF cs] by simp
qed

definition chunk_of_spec :: "chunk_spec \<Rightarrow> chunk" where
  "chunk_of_spec s = new_chunk (spec_file_off s) (spec_region_off s) (spec_len s) (spec_layer_id s)"

lemma explicit_loop_aligned:
  "explicit_loop ss off acc = Inr (cs, e) \<Longrightarrow> \<forall>s\<in>set ss. unat (spec_region_off s) mod 4096 = 0"
proof (induction ss off acc rule: explicit_loop.induct)
  case (1 off acc)
  then show ?case by simp
next
  case (2 s ss off acc)
  then have "spec_region_off s mod RESIDCTL_ALIGN = 0" by (auto split: if_splits)
  then have "unat (spec_region_off s mod RESIDCTL_ALIGN) = 0" by simp
  then have "unat (spec_region_off s) mod 4096 = 0" by (simp add: unat_mod RESIDCTL_ALIGN_def)
  with 2 show ?case by (auto split: if_splits)
qed

lemma explicit_loop_tiles:
  "explicit_loop ss off acc = Inr (cs, e) \<Longrightarrow>
   unat off + (\<Sum>s\<leftarrow>ss. unat (spec_len s)) < 2 ^ 64 \<Longrightarrow>
   cs = acc @ map chunk_of_spec ss \<and> tiles (unat off) (map chunk_of_spec ss) (unat e)"
proof (induction ss off acc rule: explicit_loop.induct)
  case (1 off acc)
  then show ?case by simp
next
  case (2 s ss off acc)
  from 2(2) have g: "spec_region_off s = off" "spec_file_off s = off" "spec_len s \<noteq> 0"
    and rec: "explicit_loop ss (off + spec_len s) (acc @ [chunk_of_spec s]) = Inr (cs, e)"
    by (auto simp: chunk_of_spec_def split: if_splits)
  have add: "unat (off + spec_len s) = unat off + unat (spec_len s)"
    using 2(3) by (intro unat_add_exact) simp
  have "cs = (acc @ [chunk_of_spec s]) @ map chunk_of_spec ss \<and>
        tiles (unat (off + spec_len s)) (map chunk_of_spec ss) (unat e)"
    using 2(1)[folded chunk_of_spec_def] 2(2,3) g rec add by (auto simp flip: chunk_of_spec_def split: if_splits)
  then show ?case using g add by (auto simp: chunk_of_spec_def[of s])
qed

lemma build_chunk_table_explicit_ok:
  assumes "build_chunk_table_explicit rlen specs = Inr cs"
    and "(\<Sum>s\<leftarrow>specs. unat (spec_len s)) < 2 ^ 64"
  shows "tiles 0 cs (unat rlen) \<and> fresh_table cs"
proof -
  from assms(1) obtain e where ne: "specs \<noteq> []" "length specs \<le> UINT32_MAX"
    and el: "explicit_loop specs 0 [] = Inr (cs, e)" and e: "e = rlen"
    by (auto simp: build_chunk_table_explicit_def rbind_Inr_iff split: if_splits)
  from explicit_loop_tiles[OF el] assms(2)
  have "cs = map chunk_of_spec specs" "tiles 0 (map chunk_of_spec specs) (unat e)" by auto
  with ne e explicit_loop_aligned[OF el] show ?thesis
    by (auto simp: fresh_table_def chunk_of_spec_def)
qed

text \<open>
  An explicit table (the one built from a model file's tensor layout) that
  \<^verbatim>\<open>build_chunk_table_explicit\<close> accepts tiles the region exactly and is fresh, provided
  the specified lengths do not sum past 64 bits.
\<close>

lemma build_chunk_table_explicit_tiles:
  assumes "build_chunk_table_explicit rlen specs = Inr cs"
    and "(\<Sum>s\<leftarrow>specs. unat (spec_len s)) < 2 ^ 64"
  shows "tiles 0 cs (unat rlen) \<and> fresh_table cs"
  using assms by (rule build_chunk_table_explicit_ok)

definition mk_spec :: "u64 \<Rightarrow> u64 \<Rightarrow> u32 \<Rightarrow> chunk_spec" where
  "mk_spec off l lid = \<lparr>spec_file_off = off, spec_region_off = off, spec_len = l, spec_layer_id = lid\<rparr>"

lemma build_chunk_table_explicit_tiles_witness:
  "\<exists>cs. build_chunk_table_explicit 12388 [mk_spec 0 4096 0, mk_spec 4096 8192 1, mk_spec 12288 100 1]
          = Inr cs \<and> tiles 0 cs 12388"
proof -
  let ?specs = "[mk_spec 0 4096 0, mk_spec 4096 8192 1, mk_spec 12288 100 1]"
  have ok: "\<not> isl (build_chunk_table_explicit 12388 ?specs)" by code_simp
  then obtain cs where cs: "build_chunk_table_explicit 12388 ?specs = Inr cs" by (rule not_islE)
  have "(\<Sum>s\<leftarrow>?specs. unat (spec_len s)) < 2 ^ 64" by (simp add: mk_spec_def)
  from build_chunk_table_explicit_tiles[OF cs this] cs show ?thesis by simp
qed

text \<open>
  Without the bound the check is not enough: the running offset is a 64-bit sum, so a second chunk
  that runs past the end of the address space brings it back to the region length, and a table
  whose chunks do not tile the region is accepted.
\<close>

lemma explicit_table_wraps:
  "\<exists>cs. build_chunk_table_explicit 4096
           [mk_spec 0 18446744073709547520 0, mk_spec 18446744073709547520 8192 1] = Inr cs \<and> \<not> tiles 0 cs 4096"
proof -
  let ?specs = "[mk_spec 0 18446744073709547520 0, mk_spec 18446744073709547520 8192 1]"
  have ok: "\<not> isl (build_chunk_table_explicit 4096 ?specs)" by code_simp
  then obtain cs where cs: "build_chunk_table_explicit 4096 ?specs = Inr cs" by (rule not_islE)
  have l: "map_sum id (\<lambda>cs. map len cs) (build_chunk_table_explicit 4096 ?specs) = Inr [18446744073709547520, 8192]"
    by code_simp
  with cs have "map len cs = [18446744073709547520, 8192]" by simp
  then have "\<not> tiles 0 cs 4096" by (auto simp: Cons_eq_map_conv map_eq_Cons_conv)
  with cs show ?thesis by blast
qed

end
