(* ===== verification/Policy.thy ===== *)
theory Policy
  imports Chunks
begin

text \<open>
  The three policies of \<^verbatim>\<open>policy.c\<close>. The vtable \<^verbatim>\<open>policy_t\<close> with its private state is
  the datatype \<open>policy\<close>, a call through a function pointer a case distinction; a pointer to a chunk
  is its index (\<^verbatim>\<open>chunk_index\<close>), and a hook that is \<^verbatim>\<open>NULL\<close> or empty leaves the
  state unchanged. The contract of \<^verbatim>\<open>select_victim\<close> is the locale \<open>victim_selector\<close>,
  interpreted on every selector.
\<close>

section \<open>State\<close>

record lo_learned_state =
  ln_chunks :: nat
  last_fetched :: "nat option"
  successor :: "nat option list"

record lo_declared_state =
  dn_chunks :: nat
  seq :: "nat list"
  pos :: int
  next_in_seq :: "nat option list"

datatype policy =
    Lru
  | Layer_order_learned lo_learned_state
  | Layer_order_declared lo_declared_state

text \<open>The two globals of \<^verbatim>\<open>policy.c\<close>, set once at startup.\<close>

record policy_flags =
  g_lo_protect_current :: bool
  g_lo_signal_pre :: bool

definition policy_flags_default :: policy_flags where
  "policy_flags_default = \<lparr>g_lo_protect_current = True, g_lo_signal_pre = False\<rparr>"

definition lo_learned_init :: "nat \<Rightarrow> lo_learned_state" where
  "lo_learned_init n = \<lparr>ln_chunks = n, last_fetched = None, successor = replicate n None\<rparr>"

definition policy_layer_order_learned_create :: "nat \<Rightarrow> policy" where
  "policy_layer_order_learned_create n = Layer_order_learned (lo_learned_init n)"

definition lo_declared_init :: "nat \<Rightarrow> lo_declared_state" where
  "lo_declared_init n = \<lparr>dn_chunks = n, seq = [], pos = - 1, next_in_seq = replicate n None\<rparr>"

definition policy_layer_order_declared_create :: "nat \<Rightarrow> policy" where
  "policy_layer_order_declared_create n = Layer_order_declared (lo_declared_init n)"

definition evictable :: "chunk list \<Rightarrow> nat \<Rightarrow> bool" where
  "evictable cs i \<longleftrightarrow> state (cs ! i) = CHUNK_RESIDENT \<and> pin (cs ! i) = 0"

section \<open>lru\<close>

definition lru_select_victim :: "chunk list \<Rightarrow> nat option" where
  "lru_select_victim cs =
     map_option fst
       (pick (<) (evictable cs) (\<lambda>i. last_fault_seq (cs ! i)) [0..<length cs] None)"

section \<open>layer-order, learned\<close>

definition lo_learned_on_fault :: "lo_learned_state \<Rightarrow> nat \<Rightarrow> lo_learned_state" where
  "lo_learned_on_fault st idx =
     st\<lparr>successor := (case last_fetched st of
                        None \<Rightarrow> successor st
                      | Some l \<Rightarrow> (successor st)[l := Some idx]),
        last_fetched := Some idx\<rparr>"

definition lo_learned_predict_next :: "lo_learned_state \<Rightarrow> nat \<Rightarrow> int" where
  "lo_learned_predict_next st idx =
     (case successor st ! idx of None \<Rightarrow> - 1 | Some next \<Rightarrow> int32_cast next)"

fun dist_walk :: "nat option list \<Rightarrow> nat \<Rightarrow> nat \<Rightarrow> nat \<Rightarrow> nat list \<Rightarrow> nat list" where
  "dist_walk succs 0 node d dist = dist"
| "dist_walk succs (Suc hops) node d dist =
     (case succs ! node of
        None \<Rightarrow> dist
      | Some next \<Rightarrow>
          if dist ! next \<noteq> UINT32_MAX then dist
          else dist_walk succs hops next (wrap32 (d + 1)) (dist[next := d]))"

definition lo_learned_compute_dist :: "lo_learned_state \<Rightarrow> nat list" where
  "lo_learned_compute_dist st =
     (let dist = replicate (ln_chunks st) UINT32_MAX
      in case last_fetched st of
           None \<Rightarrow> dist
         | Some l \<Rightarrow> dist_walk (successor st) (ln_chunks st) l 1 dist)"

definition lo_learned_select_victim :: "lo_learned_state \<Rightarrow> chunk list \<Rightarrow> nat option" where
  "lo_learned_select_victim st cs =
     (let dist = lo_learned_compute_dist st
      in map_option fst (pick (>) (evictable cs) (\<lambda>i. dist ! i) [0..<length cs] None))"

definition lo_learned_next_use_distance :: "lo_learned_state \<Rightarrow> nat \<Rightarrow> int" where
  "lo_learned_next_use_distance st idx =
     (let d = lo_learned_compute_dist st ! idx
      in if d = UINT32_MAX then INT64_MAX else int d)"

section \<open>layer-order, declared\<close>

definition seq_base :: "lo_declared_state \<Rightarrow> nat" where
  "seq_base st = (if pos st < 0 then 0 else nat (pos st))"

definition lo_declared_dist :: "policy_flags \<Rightarrow> lo_declared_state \<Rightarrow> nat \<Rightarrow> int" where
  "lo_declared_dist fl st x =
     (let n = length (seq st); base = seq_base st
      in if n = 0 then INT64_MAX
         else if g_lo_protect_current fl \<and> seq st ! (base mod n) = x then 0
         else if g_lo_protect_current fl \<and> base > 0 \<and> seq st ! ((base - 1) mod n) = x then 0
         else let d0 = (if g_lo_signal_pre fl then 0 else 1)
              in case List.find (\<lambda>k. seq st ! ((base + (d0 + k)) mod n) = x) [0..<n] of
                   None \<Rightarrow> INT64_MAX
                 | Some k \<Rightarrow> int (d0 + k))"

definition lo_declared_on_access :: "lo_declared_state \<Rightarrow> nat \<Rightarrow> lo_declared_state" where
  "lo_declared_on_access st idx =
     (let n = length (seq st); start = (if pos st < 0 then 0 else nat (pos st + 1))
      in if n = 0 then st
         else case List.find (\<lambda>k. seq st ! ((start + k) mod n) = idx) [0..<n] of
                None \<Rightarrow> st
              | Some k \<Rightarrow> st\<lparr>pos := int ((start + k) mod n)\<rparr>)"

definition lo_declared_predict_next :: "lo_declared_state \<Rightarrow> nat \<Rightarrow> int" where
  "lo_declared_predict_next st idx =
     (if idx \<ge> dn_chunks st then - 1
      else case next_in_seq st ! idx of None \<Rightarrow> - 1 | Some nxt \<Rightarrow> int32_cast nxt)"

definition lo_declared_select_victim ::
  "policy_flags \<Rightarrow> lo_declared_state \<Rightarrow> chunk list \<Rightarrow> nat option" where
  "lo_declared_select_victim fl st cs =
     map_option fst (pick (>) (evictable cs) (lo_declared_dist fl st) [0..<length cs] None)"

definition lo_declared_trace_cursor :: "lo_declared_state \<Rightarrow> nat option" where
  "lo_declared_trace_cursor st =
     (if pos st < 0 \<or> seq st = [] then None else Some (seq st ! nat (pos st)))"

definition lo_declared_declare_sequence :: "lo_declared_state \<Rightarrow> nat list \<Rightarrow> lo_declared_state" where
  "lo_declared_declare_sequence st ids =
     (let n = length ids
      in st\<lparr>seq := ids, pos := - 1,
            next_in_seq :=
              foldl (\<lambda>nis p. let x = ids ! p
                             in if x < dn_chunks st then nis[x := Some (ids ! (wrap32 (p + 1) mod n))]
                                else nis)
                    (replicate (dn_chunks st) None) [0..<n]\<rparr>)"

section \<open>Calls through the vtable\<close>

fun policy_on_fault :: "policy \<Rightarrow> nat \<Rightarrow> policy" where
  "policy_on_fault Lru idx = Lru"
| "policy_on_fault (Layer_order_learned st) idx = Layer_order_learned (lo_learned_on_fault st idx)"
| "policy_on_fault (Layer_order_declared st) idx = Layer_order_declared st"

fun policy_select_victim :: "policy_flags \<Rightarrow> policy \<Rightarrow> chunk list \<Rightarrow> nat option" where
  "policy_select_victim fl Lru cs = lru_select_victim cs"
| "policy_select_victim fl (Layer_order_learned st) cs = lo_learned_select_victim st cs"
| "policy_select_victim fl (Layer_order_declared st) cs = lo_declared_select_victim fl st cs"

fun policy_predict_next :: "policy \<Rightarrow> nat \<Rightarrow> int" where
  "policy_predict_next Lru idx = - 1"
| "policy_predict_next (Layer_order_learned st) idx = lo_learned_predict_next st idx"
| "policy_predict_next (Layer_order_declared st) idx = lo_declared_predict_next st idx"

fun policy_next_use_distance :: "policy_flags \<Rightarrow> policy \<Rightarrow> nat \<Rightarrow> int" where
  "policy_next_use_distance fl Lru idx = INT64_MAX"
| "policy_next_use_distance fl (Layer_order_learned st) idx = lo_learned_next_use_distance st idx"
| "policy_next_use_distance fl (Layer_order_declared st) idx = lo_declared_dist fl st idx"

fun policy_trace_cursor :: "policy \<Rightarrow> nat option" where
  "policy_trace_cursor Lru = None"
| "policy_trace_cursor (Layer_order_learned st) = last_fetched st"
| "policy_trace_cursor (Layer_order_declared st) = lo_declared_trace_cursor st"

fun policy_on_access :: "policy \<Rightarrow> nat \<Rightarrow> policy" where
  "policy_on_access Lru idx = Lru"
| "policy_on_access (Layer_order_learned st) idx = Layer_order_learned st"
| "policy_on_access (Layer_order_declared st) idx = Layer_order_declared (lo_declared_on_access st idx)"

fun policy_declare_sequence :: "policy option \<Rightarrow> nat list \<Rightarrow> policy option" where
  "policy_declare_sequence (Some (Layer_order_declared st)) ids =
     Some (Layer_order_declared (lo_declared_declare_sequence st ids))"
| "policy_declare_sequence p ids = p"

section \<open>The contract of a victim selector\<close>

text \<open>
  A selector returns an evictable chunk of the table whenever there is one: it never offers a
  chunk that is pinned or not RESIDENT (I-4), and it never gives up too early.
\<close>

locale victim_selector =
  fixes select :: "chunk list \<Rightarrow> nat option"
  assumes select_sound: "select cs = Some i \<Longrightarrow> i < length cs \<and> evictable cs i"
    and select_complete: "select cs = None \<Longrightarrow> i < length cs \<Longrightarrow> \<not> evictable cs i"
begin

lemma select_None_iff: "select cs = None \<longleftrightarrow> (\<forall>i<length cs. \<not> evictable cs i)"
  using select_sound select_complete by (metis option.exhaust)

lemma select_succeeds: "i < length cs \<Longrightarrow> evictable cs i \<Longrightarrow> \<exists>j. select cs = Some j \<and> evictable cs j"
  using select_sound select_complete by (metis option.exhaust)

end

text \<open>Every selector of the program is a best-so-far scan, so one lemma discharges the laws.\<close>

lemma pick_selector:
  assumes "pick_order better"
  shows "map_option fst (pick better (evictable cs) key [0..<length cs] None) = Some i \<Longrightarrow>
           i < length cs \<and> evictable cs i"
    and "map_option fst (pick better (evictable cs) key [0..<length cs] None) = None \<Longrightarrow>
           j < length cs \<Longrightarrow> \<not> evictable cs j"
  using pick_order.pick_SomeD(1,2)[OF assms, of "evictable cs" key "[0..<length cs]"]
    pick_order.pick_None_iff[OF assms, of "evictable cs" key "[0..<length cs]"] by auto

interpretation lru: victim_selector lru_select_victim
  by unfold_locales
    (use pick_selector[OF u64_less.pick_order_axioms] in \<open>simp_all add: lru_select_victim_def\<close>)

interpretation learned: victim_selector "lo_learned_select_victim st" for st
  by unfold_locales
    (use pick_selector[OF nat_greater.pick_order_axioms] in
      \<open>simp_all add: lo_learned_select_victim_def Let_def\<close>)

interpretation declared: victim_selector "lo_declared_select_victim fl st" for fl st
  by unfold_locales
    (use pick_selector[OF int_greater.pick_order_axioms] in
      \<open>simp_all add: lo_declared_select_victim_def\<close>)

interpretation selector: victim_selector "policy_select_victim fl p" for fl p
proof unfold_locales
  show "policy_select_victim fl p cs = Some i \<Longrightarrow> i < length cs \<and> evictable cs i" for cs i
    using lru.select_sound learned.select_sound declared.select_sound by (cases p) auto
  show "policy_select_victim fl p cs = None \<Longrightarrow> i < length cs \<Longrightarrow> \<not> evictable cs i" for cs i
    using lru.select_complete learned.select_complete declared.select_complete by (cases p) auto
qed

section \<open>What lru evicts\<close>

text \<open>
  The control policy evicts the evictable chunk with the smallest fault sequence number, the
  lowest index among equals, and finds one whenever any chunk is RESIDENT and unpinned.
\<close>

lemma lru_victim_is_oldest:
  "case lru_select_victim cs of
     None \<Rightarrow> \<forall>i<length cs. \<not> evictable cs i
   | Some v \<Rightarrow> v < length cs \<and> evictable cs v
       \<and> (\<forall>i<length cs. evictable cs i \<longrightarrow> last_fault_seq (cs ! v) \<le> last_fault_seq (cs ! i))
       \<and> (\<forall>i<v. evictable cs i \<longrightarrow> last_fault_seq (cs ! v) < last_fault_seq (cs ! i))"
proof (cases "lru_select_victim cs")
  case None
  then show ?thesis using lru.select_complete by simp
next
  case (Some v)
  then obtain k where "pick (<) (evictable cs) (\<lambda>i. last_fault_seq (cs ! i)) [0..<length cs] None
      = Some (v, k)" by (auto simp: lru_select_victim_def)
  from u64_less.pick_upt[OF this] Some show ?thesis by (simp add: not_less)
qed

lemma lru_victim_is_oldest_witness:
  "lru_select_victim
     [(new_chunk 0 0 4096 0)\<lparr>state := CHUNK_RESIDENT, last_fault_seq := 7\<rparr>,
      (new_chunk 4096 4096 4096 1)\<lparr>state := CHUNK_RESIDENT, last_fault_seq := 3\<rparr>,
      (new_chunk 8192 8192 4096 2)\<lparr>state := CHUNK_RESIDENT, last_fault_seq := 1, pin := 1\<rparr>] = Some 1"
proof -
  let ?cs = "[(new_chunk 0 0 4096 0)\<lparr>state := CHUNK_RESIDENT, last_fault_seq := 7\<rparr>,
      (new_chunk 4096 4096 4096 1)\<lparr>state := CHUNK_RESIDENT, last_fault_seq := 3\<rparr>,
      (new_chunk 8192 8192 4096 2)\<lparr>state := CHUNK_RESIDENT, last_fault_seq := 1, pin := 1\<rparr>]"
  have "lru_select_victim ?cs = Some 1" by code_simp
  with lru_victim_is_oldest[of ?cs] show ?thesis by simp
qed

section \<open>What the learned distance is\<close>

text \<open>The chunk reached by following the learned successors \<open>d\<close> times.\<close>

fun follow :: "nat option list \<Rightarrow> nat \<Rightarrow> nat \<Rightarrow> nat option" where
  "follow succs 0 i = Some i"
| "follow succs (Suc d) i =
     (case follow succs d i of None \<Rightarrow> None | Some j \<Rightarrow> succs ! j)"

definition learned_wf :: "lo_learned_state \<Rightarrow> bool" where
  "learned_wf st \<longleftrightarrow> length (successor st) = ln_chunks st \<and> ln_chunks st < UINT32_MAX
     \<and> (\<forall>s\<in>set (successor st). \<forall>j. s = Some j \<longrightarrow> j < ln_chunks st)
     \<and> (\<forall>l. last_fetched st = Some l \<longrightarrow> l < ln_chunks st)"

definition follows_at :: "lo_learned_state \<Rightarrow> nat \<Rightarrow> nat \<Rightarrow> bool" where
  "follows_at st d i \<longleftrightarrow> (\<exists>l. last_fetched st = Some l \<and> 0 < d \<and> follow (successor st) d l = Some i)"

lemma learned_wf_create: "n < UINT32_MAX \<Longrightarrow> learned_wf (lo_learned_init n)"
  by (simp add: learned_wf_def lo_learned_init_def)

lemma learned_wf_on_fault:
  "learned_wf st \<Longrightarrow> idx < ln_chunks st \<Longrightarrow> learned_wf (lo_learned_on_fault st idx)"
  by (auto simp: learned_wf_def lo_learned_on_fault_def split: option.splits
      dest: set_update_subset_insert[THEN subsetD])

lemma follow_bound:
  assumes "\<forall>s\<in>set succs. \<forall>j. s = Some j \<longrightarrow> j < length succs" and "l < length succs"
  shows "follow succs d l = Some i \<Longrightarrow> i < length succs"
proof (induction d arbitrary: i)
  case 0
  then show ?case using assms by simp
next
  case (Suc d)
  then obtain j where j: "follow succs d l = Some j" "succs ! j = Some i"
    by (auto split: option.splits)
  from Suc.IH[OF j(1)] have "succs ! j \<in> set succs" by simp
  with j(2) assms(1) show ?case by auto
qed

lemma follow_add: "follow succs (a + b) l =
    (case follow succs a l of None \<Rightarrow> None | Some j \<Rightarrow> follow succs b j)"
proof (induction b)
  case 0
  then show ?case by (simp split: option.splits)
next
  case (Suc b)
  then show ?case by (simp split: option.splits)
qed

text \<open>First time the walk meets \<open>i\<close>.\<close>

definition first_at :: "nat option list \<Rightarrow> nat \<Rightarrow> nat \<Rightarrow> nat \<Rightarrow> bool" where
  "first_at succs l i m \<longleftrightarrow> 0 < m \<and> follow succs m l = Some i
     \<and> (\<forall>e. 0 < e \<and> e < m \<longrightarrow> follow succs e l \<noteq> Some i)"

definition walked :: "nat option list \<Rightarrow> nat \<Rightarrow> nat \<Rightarrow> nat list \<Rightarrow> bool" where
  "walked succs l d dist \<longleftrightarrow> length dist = length succs
     \<and> (\<forall>i<length succs.
          if dist ! i = UINT32_MAX then \<forall>e. 0 < e \<and> e < d \<longrightarrow> follow succs e l \<noteq> Some i
          else first_at succs l i (dist ! i) \<and> dist ! i < d)
     \<and> card {i. i < length succs \<and> dist ! i \<noteq> UINT32_MAX} = d - 1"

definition walk_done :: "nat option list \<Rightarrow> nat \<Rightarrow> nat list \<Rightarrow> bool" where
  "walk_done succs l dist \<longleftrightarrow> length dist = length succs
     \<and> (\<forall>i<length succs.
          if dist ! i = UINT32_MAX then \<forall>e. 0 < e \<longrightarrow> follow succs e l \<noteq> Some i
          else first_at succs l i (dist ! i))"

lemma follow_stops: "follow succs d l = None \<Longrightarrow> d \<le> e \<Longrightarrow> follow succs e l = None"
  using follow_add[of succs d "e - d" l] by simp

text \<open>Once the walk returns to a chunk it met before, it only meets chunks it has met.\<close>

lemma follow_cycle:
  assumes "follow succs d l = follow succs e l" "0 < e" "e < d"
  shows "0 < t \<Longrightarrow> \<exists>u. 0 < u \<and> u < d \<and> follow succs u l = follow succs t l"
proof (induction t rule: less_induct)
  case (less t)
  show ?case
  proof (cases "t < d")
    case True
    with less show ?thesis by blast
  next
    case False
    have "follow succs t l = follow succs (e + (t - d)) l"
      using follow_add[of succs d "t - d" l] follow_add[of succs e "t - d" l] False assms(1) by simp
    moreover have "e + (t - d) < t" using False assms(3) by simp
    ultimately show ?thesis using less.IH[of "e + (t - d)"] assms(2) by auto
  qed
qed

lemma walked_step:
  assumes w: "walked succs l d dist" and d: "0 < d" "d < UINT32_MAX"
    and at: "follow succs d l = Some nx" and nx: "nx < length succs" "dist ! nx = UINT32_MAX"
  shows "walked succs l (Suc d) (dist[nx := d])"
proof -
  from w have len: "length dist = length succs" by (simp add: walked_def)
  have unmet: "\<forall>e. 0 < e \<and> e < d \<longrightarrow> follow succs e l \<noteq> Some nx"
    using w nx by (simp add: walked_def)
  have "{i. i < length succs \<and> dist[nx := d] ! i \<noteq> UINT32_MAX}
      = insert nx {i. i < length succs \<and> dist ! i \<noteq> UINT32_MAX}"
    using nx d len by (auto simp: nth_list_update)
  then have card: "card {i. i < length succs \<and> dist[nx := d] ! i \<noteq> UINT32_MAX} = d"
    using w nx d by (simp add: walked_def)
  have "if dist[nx := d] ! i = UINT32_MAX
        then \<forall>e. 0 < e \<and> e < Suc d \<longrightarrow> follow succs e l \<noteq> Some i
        else first_at succs l i (dist[nx := d] ! i) \<and> dist[nx := d] ! i < Suc d"
    if i: "i < length succs" for i
  proof (cases "i = nx")
    case True
    then show ?thesis using d at unmet len nx by (auto simp: first_at_def)
  next
    case False
    then show ?thesis using w i at by (auto simp: walked_def less_Suc_eq)
  qed
  with card len show ?thesis by (simp add: walked_def)
qed

lemma dist_walk_done:
  assumes bound: "\<forall>s\<in>set succs. \<forall>j. s = Some j \<longrightarrow> j < length succs"
    and l: "l < length succs" and n: "length succs < UINT32_MAX"
  shows "walked succs l d dist \<Longrightarrow> 0 < d \<Longrightarrow> follow succs (d - 1) l = Some node \<Longrightarrow>
    hops + (d - 1) = length succs \<Longrightarrow> walk_done succs l (dist_walk succs hops node d dist)"
proof (induction hops arbitrary: node d dist)
  case 0
  have "{i. i < length succs \<and> dist ! i \<noteq> UINT32_MAX} = {..<length succs}"
    using 0 by (intro card_subset_eq) (auto simp: walked_def)
  then have "\<forall>i<length succs. dist ! i \<noteq> UINT32_MAX" by blast
  with 0 show ?case by (auto simp: walked_def walk_done_def)
next
  case (Suc hops)
  have step: "follow succs d l = succs ! node"
    using Suc.prems(2,3) by (cases d) auto
  have marked: "walk_done succs l dist"
    if met: "\<And>i e. 0 < e \<Longrightarrow> follow succs e l = Some i \<Longrightarrow> \<exists>u. 0 < u \<and> u < d \<and> follow succs u l = Some i"
  proof -
    have "first_at succs l i (dist ! i)" if "i < length succs" "dist ! i \<noteq> UINT32_MAX" for i
      using Suc.prems(1) that by (simp add: walked_def)
    moreover have "follow succs e l \<noteq> Some i"
      if i: "i < length succs" "dist ! i = UINT32_MAX" and e: "0 < e" for i e
    proof
      assume "follow succs e l = Some i"
      with that obtain u where "0 < u" "u < d" "follow succs u l = Some i"
        using met by blast
      with Suc.prems(1) i show False by (simp add: walked_def)
    qed
    ultimately show ?thesis using Suc.prems(1) by (simp add: walked_def walk_done_def)
  qed
  show ?case
  proof (cases "succs ! node")
    case None
    have "walk_done succs l dist"
    proof (rule marked)
      fix i e assume e: "0 < e" "follow succs e l = Some i"
      have "e < d"
      proof (rule ccontr)
        assume "\<not> e < d"
        then have "follow succs e l = None" using follow_stops[of succs d l e] step None by simp
        with e show False by simp
      qed
      with e show "\<exists>u. 0 < u \<and> u < d \<and> follow succs u l = Some i" by blast
    qed
    with None show ?thesis by simp
  next
    case (Some nx)
    have nb: "nx < length succs" using follow_bound[OF bound l, of d] step Some by simp
    show ?thesis
    proof (cases "dist ! nx = UINT32_MAX")
      case False
      then have f: "first_at succs l nx (dist ! nx)" and lt: "dist ! nx < d"
        using Suc.prems(1) nb by (auto simp: walked_def)
      have "walk_done succs l dist"
      proof (rule marked)
        have cyc: "follow succs d l = follow succs (dist ! nx) l" "0 < dist ! nx"
          using f step Some by (simp_all add: first_at_def)
        fix i e assume "0 < e" "follow succs e l = Some i"
        then show "\<exists>u. 0 < u \<and> u < d \<and> follow succs u l = Some i"
          using follow_cycle[OF cyc lt, of e] by simp
      qed
      with Some False show ?thesis by simp
    next
      case True
      have d: "d < UINT32_MAX" "wrap32 (d + 1) = Suc d"
        using Suc.prems(2,4) n by (auto simp: UINT32_MAX_def)
      have "walk_done succs l (dist_walk succs hops nx (Suc d) (dist[nx := d]))"
        using walked_step[OF Suc.prems(1,2) d(1) _ nb True] step Some Suc.prems(4) Suc.prems(2)
        by (intro Suc.IH) auto
      with Some True d(2) show ?thesis by simp
    qed
  qed
qed

text \<open>
  The learned policy's distance of a chunk is the number of successor steps from the most
  recently fetched chunk to its first visit, and unknown (\<^verbatim>\<open>INT64_MAX\<close>) exactly when the
  learned chain never visits it; the walk's cut-off at \<^verbatim>\<open>n_chunks\<close> hops or at the first
  closed cycle loses nothing.
\<close>

lemma lo_learned_distance_exact:
  assumes "learned_wf st" and "i < ln_chunks st"
  shows "lo_learned_next_use_distance st i = INT64_MAX \<and> (\<forall>d. \<not> follows_at st d i)
       \<or> (\<exists>d. lo_learned_next_use_distance st i = int d \<and> follows_at st d i
            \<and> (\<forall>e<d. \<not> follows_at st e i))"
proof (cases "last_fetched st")
  case None
  with assms(2) have "lo_learned_next_use_distance st i = INT64_MAX"
    by (simp add: lo_learned_next_use_distance_def lo_learned_compute_dist_def)
  with None show ?thesis by (simp add: follows_at_def)
next
  case (Some l)
  let ?dist = "lo_learned_compute_dist st"
  have len: "length (successor st) = ln_chunks st" using assms(1) by (simp add: learned_wf_def)
  have start: "walked (successor st) l 1 (replicate (ln_chunks st) UINT32_MAX)"
    using len by (auto simp: walked_def)
  have "walk_done (successor st) l
      (dist_walk (successor st) (ln_chunks st) l 1 (replicate (ln_chunks st) UINT32_MAX))"
    using assms(1) Some len by (intro dist_walk_done start) (auto simp: learned_wf_def)
  then have wd: "walk_done (successor st) l ?dist"
    using Some by (simp add: lo_learned_compute_dist_def Let_def)
  show ?thesis
  proof (cases "?dist ! i = UINT32_MAX")
    case True
    then show ?thesis using wd assms(2) len Some
      by (auto simp: walk_done_def follows_at_def lo_learned_next_use_distance_def Let_def)
  next
    case False
    then have "first_at (successor st) l i (?dist ! i)" using wd assms(2) len by (auto simp: walk_done_def)
    then show ?thesis using False Some
      by (auto simp: first_at_def follows_at_def lo_learned_next_use_distance_def Let_def)
  qed
qed

definition demo_learned :: lo_learned_state where
  "demo_learned = foldl lo_learned_on_fault (lo_learned_init 4) [0, 2, 1, 0]"

lemma demo_learned_wf: "learned_wf demo_learned \<and> ln_chunks demo_learned = 4"
proof -
  have w: "learned_wf (foldl lo_learned_on_fault st is) \<and> ln_chunks (foldl lo_learned_on_fault st is) = ln_chunks st"
    if "learned_wf st" "\<forall>i\<in>set is. i < ln_chunks st" for st "is"
    using that
  proof (induction "is" arbitrary: st)
    case (Cons i "is")
    have "ln_chunks (lo_learned_on_fault st i) = ln_chunks st" by (simp add: lo_learned_on_fault_def)
    with Cons learned_wf_on_fault[of st i] show ?case by simp
  qed simp
  show ?thesis unfolding demo_learned_def
    using w[OF learned_wf_create[of 4], of "[0, 2, 1, 0]"] by (simp add: UINT32_MAX_def lo_learned_init_def)
qed

lemma lo_learned_distance_exact_witness:
  "lo_learned_next_use_distance demo_learned 1 = 2 \<and> follows_at demo_learned 2 1"
proof -
  have v: "lo_learned_next_use_distance demo_learned 1 = 2" by code_simp
  have "INT64_MAX \<noteq> 2" by (simp add: INT64_MAX_def)
  with v lo_learned_distance_exact[of demo_learned 1] demo_learned_wf show ?thesis by auto
qed

section \<open>The declared order\<close>

text \<open>
  The workload's reference string is the declared pass repeated for ever; \<open>consumed ids st t\<close> is
  the policy after the workload has announced its first \<open>t\<close> references in that order.
\<close>

definition ref_at :: "nat list \<Rightarrow> nat \<Rightarrow> nat" where
  "ref_at ids i = ids ! (i mod length ids)"

definition consumed :: "nat list \<Rightarrow> lo_declared_state \<Rightarrow> nat \<Rightarrow> lo_declared_state" where
  "consumed ids st t =
     foldl lo_declared_on_access (lo_declared_declare_sequence st ids) (map (ref_at ids) [0..<t])"

lemma consumed_Suc: "consumed ids st (Suc t) = lo_declared_on_access (consumed ids st t) (ref_at ids t)"
  by (simp add: consumed_def)

lemma on_access_hit:
  assumes "seq st \<noteq> []" and "seq st ! (m mod length (seq st)) = x"
    and "m = (if pos st < 0 then 0 else nat (pos st + 1))"
  shows "lo_declared_on_access st x = st\<lparr>pos := int (m mod length (seq st))\<rparr>"
proof -
  have "List.find (\<lambda>k. seq st ! ((m + k) mod length (seq st)) = x) [0..<length (seq st)] = Some 0"
    using assms(1,2) by (subst find_upt_Some_iff) simp
  then show ?thesis using assms(1,3) by (simp add: lo_declared_on_access_def Let_def)
qed

lemma seq_on_access [simp]: "seq (lo_declared_on_access st x) = seq st"
  by (auto simp: lo_declared_on_access_def Let_def split: option.splits)

lemma consumed_seq [simp]: "seq (consumed ids st t) = ids"
proof (induction t)
  case 0
  then show ?case by (simp add: consumed_def lo_declared_declare_sequence_def Let_def)
next
  case (Suc t)
  then show ?case by (simp add: consumed_Suc)
qed

lemma declared_position:
  assumes "ids \<noteq> []"
  shows "pos (consumed ids st t) = (if t = 0 then - 1 else int ((t - 1) mod length ids))"
proof (induction t)
  case 0
  then show ?case by (simp add: consumed_def lo_declared_declare_sequence_def Let_def)
next
  case (Suc t)
  let ?st = "consumed ids st t" and ?m = "if t = 0 then 0 else (t - 1) mod length ids + 1"
  have m: "?m mod length ids = t mod length ids"
    using assms by (cases t) (auto simp: mod_Suc)
  have "lo_declared_on_access ?st (ref_at ids t) = ?st\<lparr>pos := int (?m mod length (seq ?st))\<rparr>"
    using assms Suc m by (intro on_access_hit) (auto simp: ref_at_def)
  then show ?case using m by (simp add: consumed_Suc)
qed

text \<open>
  The consumption position tracks the workload: after \<open>t\<close> references announced in the
  declared order (through any number of passes, repeated chunks included) the position is that of
  reference \<open>t - 1\<close>, and it is -1 before the first.
\<close>

lemma declared_position_tracks:
  assumes "ids \<noteq> []"
  shows "pos (consumed ids st t) = (if t = 0 then - 1 else int ((t - 1) mod length ids))"
  using assms by (rule declared_position)

lemma declared_position_tracks_witness:
  "pos (consumed [3, 1, 3, 0] (lo_declared_init 4) 6) = 1"
  using declared_position_tracks[of "[3, 1, 3, 0]" "lo_declared_init 4" 6] by simp

lemma mod_shift_cover:
  fixes b n x d0 :: nat
  assumes "x < n"
  obtains k where "k < n" "(b + (d0 + k)) mod n = x"
proof -
  define k where "k = (x + (n - (b + d0) mod n)) mod n"
  have n: "0 < n" using assms by simp
  have "(b + (d0 + k)) mod n = ((b + d0) + (x + (n - (b + d0) mod n))) mod n"
    by (simp only: k_def mod_add_right_eq add.assoc[symmetric])
  also have "\<dots> = ((b + d0) mod n + (x + (n - (b + d0) mod n))) mod n"
    by (simp only: mod_add_left_eq)
  also have "(b + d0) mod n + (x + (n - (b + d0) mod n)) = x + n"
    using mod_less_divisor[OF n, of "b + d0"] by simp
  finally have "(b + (d0 + k)) mod n = x" using assms by simp
  moreover have "k < n" using n by (simp add: k_def)
  ultimately show thesis using that by blast
qed

lemma declared_distance:
  assumes "ids \<noteq> []" and "0 < t" and "\<not> g_lo_protect_current fl"
    and "d0 = (if g_lo_signal_pre fl then 0 else 1)"
  shows "lo_declared_dist fl (consumed ids st t) x = INT64_MAX \<and> x \<notin> set ids
       \<or> (\<exists>d. lo_declared_dist fl (consumed ids st t) x = int d
            \<and> d0 \<le> d \<and> d < d0 + length ids \<and> ref_at ids (t - 1 + d) = x
            \<and> (\<forall>e. d0 \<le> e \<and> e < d \<longrightarrow> ref_at ids (t - 1 + e) \<noteq> x))"
proof -
  let ?n = "length ids" and ?b = "(t - 1) mod length ids"
  let ?P = "\<lambda>k. ids ! ((?b + (d0 + k)) mod ?n) = x"
  have n: "0 < ?n" using assms(1) by simp
  have base: "seq_base (consumed ids st t) = ?b"
    using declared_position[OF assms(1), of st t] assms(2) by (simp add: seq_base_def)
  have D: "lo_declared_dist fl (consumed ids st t) x =
      (case List.find ?P [0..<?n] of None \<Rightarrow> INT64_MAX | Some k \<Rightarrow> int (d0 + k))"
    by (cases "g_lo_signal_pre fl")
      (use assms base n in \<open>simp_all add: lo_declared_dist_def Let_def split: option.split\<close>)
  have R: "ref_at ids (t - 1 + e) = ids ! ((?b + e) mod ?n)" for e
    by (simp add: ref_at_def mod_add_left_eq)
  show ?thesis
  proof (cases "List.find ?P [0..<?n]")
    case None
    then have none: "\<forall>k<?n. \<not> ?P k" by (simp add: find_upt_None_iff)
    have "x \<notin> set ids"
    proof
      assume "x \<in> set ids"
      then obtain q where q: "q < ?n" "ids ! q = x" by (auto simp: in_set_conv_nth)
      obtain k where "k < ?n" "(?b + (d0 + k)) mod ?n = q" using mod_shift_cover[OF q(1)] by blast
      with none q show False by auto
    qed
    with D None show ?thesis by simp
  next
    case (Some k)
    then have k: "k < ?n" "?P k" "\<forall>j<k. \<not> ?P j" by (auto simp: find_upt_Some_iff)
    have "ref_at ids (t - 1 + e) \<noteq> x" if "d0 \<le> e" "e < d0 + k" for e
    proof -
      have "e = d0 + (e - d0)" "e - d0 < k" using that by auto
      then show ?thesis using k(3) R[of e] by metis
    qed
    then have "\<forall>e. d0 \<le> e \<and> e < d0 + k \<longrightarrow> ref_at ids (t - 1 + e) \<noteq> x" by blast
    moreover have "ref_at ids (t - 1 + (d0 + k)) = x" using k(2) R[of "d0 + k"] by simp
    ultimately show ?thesis
      using D Some k(1) by (intro disjI2 exI[of _ "d0 + k"]) simp
  qed
qed

text \<open>
  With the heuristic off, the declared policy's distance is the exact next use: when the
  workload has announced \<open>t\<close> references in order, the distance of a chunk is the least \<open>d\<close> (from 1
  when the signal follows the read, from 0 when it precedes it) such that reference \<open>t - 1 + d\<close> of
  the endless string is that chunk, and it is \<^verbatim>\<open>INT64_MAX\<close> exactly for a chunk that is
  never referenced.
\<close>

lemma declared_distance_is_next_use:
  assumes "ids \<noteq> []" and "0 < t" and "\<not> g_lo_protect_current fl"
    and "d0 = (if g_lo_signal_pre fl then 0 else 1)"
  shows "lo_declared_dist fl (consumed ids st t) x = INT64_MAX \<and> x \<notin> set ids
       \<or> (\<exists>d. lo_declared_dist fl (consumed ids st t) x = int d
            \<and> d0 \<le> d \<and> d < d0 + length ids \<and> ref_at ids (t - 1 + d) = x
            \<and> (\<forall>e. d0 \<le> e \<and> e < d \<longrightarrow> ref_at ids (t - 1 + e) \<noteq> x))"
  using assms by (rule declared_distance)

definition exact_flags :: policy_flags where
  "exact_flags = \<lparr>g_lo_protect_current = False, g_lo_signal_pre = False\<rparr>"

lemma declared_distance_is_next_use_witness:
  "lo_declared_dist exact_flags (consumed [3, 1, 3, 0] (lo_declared_init 4) 6) 0 = 2
   \<and> ref_at [3, 1, 3, 0] 7 = 0"
proof -
  have v: "lo_declared_dist exact_flags (consumed [3, 1, 3, 0] (lo_declared_init 4) 6) 0 = 2"
    by code_simp
  with declared_distance_is_next_use[of "[3, 1, 3, 0]" 6 exact_flags 1 "lo_declared_init 4" 0]
  show ?thesis by (simp add: exact_flags_def)
qed


definition resident_chunk :: "nat \<Rightarrow> chunk" where
  "resident_chunk i = (new_chunk (of_nat i * 4096) (of_nat i * 4096) 4096 (of_nat i))
     \<lparr>state := CHUNK_RESIDENT\<rparr>"


text \<open>
  With the protection heuristic on, the chunk at the consumption position and the one just
  before it are evicted only when nothing else can be: if the victim is one of the two, every
  evictable chunk has distance 0 as well.
\<close>

lemma protected_chunks_last:
  assumes "g_lo_protect_current fl" and "seq st \<noteq> []" and "0 \<le> pos st"
    and "pos st < int (length (seq st))"
    and "v = seq st ! nat (pos st) \<or> 0 < pos st \<and> v = seq st ! (nat (pos st) - 1)"
    and "lo_declared_select_victim fl st cs = Some v"
    and "j < length cs" and "evictable cs j"
  shows "lo_declared_dist fl st j = 0"
proof -
  let ?dist = "lo_declared_dist fl st"
  have b: "nat (pos st) < length (seq st)" using assms(3,4) by simp
  have "?dist v = 0"
    using assms(1-3,5) b by (auto simp: lo_declared_dist_def seq_base_def Let_def)
  moreover from assms(6) obtain k where pk:
    "pick (>) (evictable cs) ?dist [0..<length cs] None = Some (v, k)"
    by (auto simp: lo_declared_select_victim_def)
  ultimately have "?dist j \<le> 0" using int_greater.pick_upt[OF pk] assms(7,8) by (simp add: not_less)
  moreover have "0 \<le> ?dist j"
    by (auto simp: lo_declared_dist_def Let_def INT64_MAX_def split: option.split)
  ultimately show ?thesis by simp
qed

lemma protected_chunks_last_witness:
  "lo_declared_select_victim policy_flags_default (consumed [0, 1, 2] (lo_declared_init 3) 2)
     (map resident_chunk [0, 1]) = Some 0
   \<and> lo_declared_dist policy_flags_default (consumed [0, 1, 2] (lo_declared_init 3) 2) 1 = 0"
proof -
  let ?st = "consumed [0, 1, 2] (lo_declared_init 3) 2"
  have v: "lo_declared_select_victim policy_flags_default ?st (map resident_chunk [0, 1]) = Some 0"
    by code_simp
  have e: "evictable (map resident_chunk [0, 1]) 1" by code_simp
  have p: "pos ?st = 1" by code_simp
  have "lo_declared_dist policy_flags_default ?st 1 = 0"
    by (rule protected_chunks_last[of _ _ 0 "map resident_chunk [0, 1]"])
      (use v e p in \<open>simp_all add: policy_flags_default_def\<close>)
  with v show ?thesis by simp
qed

section \<open>The prediction after a declaration\<close>

lemma declare_fold:
  fixes m :: nat
  assumes "x < N"
  shows "(let nis = foldl (\<lambda>nis p. let y = ids ! p in if y < N then nis[y := Some (g p)] else nis)
                   (replicate N None) [0..<m]
          in length nis = N \<and>
             (case nis ! x of
                None \<Rightarrow> \<forall>p<m. ids ! p \<noteq> x
              | Some z \<Rightarrow> \<exists>p<m. ids ! p = x \<and> (\<forall>q<m. p < q \<longrightarrow> ids ! q \<noteq> x) \<and> z = g p))"
proof (induction m)
  case 0
  then show ?case using assms by (simp add: Let_def)
next
  case (Suc m)
  show ?case
  proof (cases "ids ! m = x")
    case True
    with Suc assms show ?thesis by (auto simp: Let_def intro: exI[of _ m])
  next
    case False
    with Suc assms show ?thesis
      by (auto simp: Let_def nth_list_update less_Suc_eq split: option.splits)
  qed
qed

text \<open>
  After a sequence is declared, the policy predicts for a chunk the reference that follows the
  chunk's last occurrence in the pass, wrapping from the end of the pass to its start, and predicts
  nothing exactly for chunks outside the pass.
\<close>

lemma declared_prediction:
  assumes "x < dn_chunks st" and "length ids \<le> UINT32_MAX" and "\<forall>y\<in>set ids. y < 2147483648"
  shows "let r = lo_declared_predict_next (lo_declared_declare_sequence st ids) x
         in r = - 1 \<and> x \<notin> set ids
          \<or> (\<exists>p<length ids. ids ! p = x \<and> (\<forall>q<length ids. p < q \<longrightarrow> ids ! q \<noteq> x)
               \<and> r = int (ids ! ((p + 1) mod length ids)))"
proof -
  let ?g = "\<lambda>p. ids ! (wrap32 (p + 1) mod length ids)"
  let ?nis = "next_in_seq (lo_declared_declare_sequence st ids)"
  have nis: "?nis = foldl (\<lambda>nis p. let y = ids ! p in if y < dn_chunks st then nis[y := Some (?g p)] else nis)
      (replicate (dn_chunks st) None) [0..<length ids]"
    by (simp add: lo_declared_declare_sequence_def Let_def)
  have dn: "dn_chunks (lo_declared_declare_sequence st ids) = dn_chunks st"
    by (simp add: lo_declared_declare_sequence_def Let_def)
  note f = declare_fold[OF assms(1), of ids ?g "length ids", unfolded Let_def nis[unfolded Let_def, symmetric]]
  show ?thesis
  proof (cases "?nis ! x")
    case None
    then have "x \<notin> set ids" using f by (auto simp: in_set_conv_nth)
    then show ?thesis using None assms(1) dn by (simp add: lo_declared_predict_next_def)
  next
    case (Some z)
    with f obtain p where p: "p < length ids" "ids ! p = x"
      "\<forall>q<length ids. p < q \<longrightarrow> ids ! q \<noteq> x" "z = ?g p" by auto
    have "wrap32 (p + 1) = p + 1" using p(1) assms(2) by (simp add: UINT32_MAX_def)
    moreover have "(p + 1) mod length ids < length ids"
      using p(1) by (metis mod_less_divisor not_less_zero not_gr_zero)
    ultimately have "int32_cast z = int (ids ! ((p + 1) mod length ids))"
      using p(4) assms(3) nth_mem by (simp add: int32_cast_small)
    then show ?thesis using Some assms(1) dn p(1-3) by (auto simp: lo_declared_predict_next_def)
  qed
qed

lemma declared_prediction_witness:
  "lo_declared_predict_next (lo_declared_declare_sequence (lo_declared_init 4) [0, 2, 0, 1]) 0 = 1
   \<and> (\<exists>p<4. [0, 2, 0, 1] ! p = (0 :: nat) \<and> [0, 2, 0, 1] ! ((p + 1) mod 4) = (1 :: nat))"
proof -
  have v: "lo_declared_predict_next (lo_declared_declare_sequence (lo_declared_init 4) [0, 2, 0, 1]) 0 = 1"
    by code_simp
  have "0 < dn_chunks (lo_declared_init 4)" by (simp add: lo_declared_init_def)
  moreover have l: "length [0, 2, 0, 1 :: nat] = 4" by simp
  ultimately have "(1 :: int) = - 1 \<or> (\<exists>p<4. [0, 2, 0, 1] ! p = (0 :: nat)
      \<and> (1 :: int) = int ([0, 2, 0, 1] ! ((p + 1) mod 4)))"
    using declared_prediction[of 0 "lo_declared_init 4" "[0, 2, 0, 1]", unfolded Let_def v l]
    by (fastforce simp: UINT32_MAX_def simp del: nth_Cons_numeral)
  then obtain p where "p < 4" "[0, 2, 0, 1] ! p = (0 :: nat)"
    "(1 :: int) = int ([0, 2, 0, 1] ! ((p + 1) mod 4))"
    by auto
  then show ?thesis using v by (metis of_nat_1_eq_iff)
qed

text \<open>
  Before the first announcement the position is -1, and the scan of the post-consumption mode then
  starts one past it: the first chunk of the pass, which is needed next, is ranked a whole cycle
  away.
\<close>

lemma declared_start_off_by_one:
  "lo_declared_dist exact_flags (consumed [0, 1, 2] (lo_declared_init 3) 0) 0 = 3
   \<and> lo_declared_dist exact_flags (consumed [0, 1, 2] (lo_declared_init 3) 0) 1 = 1"
  by code_simp

end
