(* ===== verification/Ring.thy ===== *)
theory Ring
  imports Prelude
begin

text \<open>
  The ring buffers of the program: the demand and prefetch queues of
  \<^verbatim>\<open>prefetch_pool.c\<close> and the retention FIFO of \<^verbatim>\<open>budget.c\<close> are all a
  \<^verbatim>\<open>uint32_t\<close> array with a capacity, a head and a length, indexed by
  \<^verbatim>\<open>(head + i) % cap\<close>. The contract (a bounded FIFO of chunk indices) is the locale
  \<open>bounded_fifo\<close>; the array code is an interpretation of it, through the list of its live slots.
\<close>

section \<open>The array\<close>

record ring =
  rbuf :: "nat list"
  rcap :: nat
  rhead :: nat
  rlen :: nat

definition ring_new :: "nat \<Rightarrow> ring" where
  "ring_new cap = \<lparr>rbuf = replicate cap 0, rcap = cap, rhead = 0, rlen = 0\<rparr>"

text \<open>The slot of the \<open>i\<close>-th element; the sum is a 32-bit one.\<close>

definition ring_pos :: "ring \<Rightarrow> nat \<Rightarrow> nat" where
  "ring_pos q i = wrap32 (rhead q + i) mod rcap q"

definition ring_get :: "ring \<Rightarrow> nat \<Rightarrow> nat" where
  "ring_get q i = rbuf q ! ring_pos q i"

definition ring_push :: "ring \<Rightarrow> nat \<Rightarrow> ring" where
  "ring_push q x = q\<lparr>rbuf := (rbuf q)[ring_pos q (rlen q) := x], rlen := rlen q + 1\<rparr>"

definition ring_front :: "ring \<Rightarrow> nat" where
  "ring_front q = rbuf q ! rhead q"

definition ring_pop :: "ring \<Rightarrow> ring" where
  "ring_pop q = q\<lparr>rhead := ring_pos q 1, rlen := rlen q - 1\<rparr>"

text \<open>The removal of the \<open>i\<close>-th element: the tail is shifted down one slot at a time.\<close>

function ring_shift :: "ring \<Rightarrow> nat \<Rightarrow> ring" where
  "ring_shift q j =
     (if j + 1 < rlen q
      then ring_shift (q\<lparr>rbuf := (rbuf q)[ring_pos q j := ring_get q (j + 1)]\<rparr>) (j + 1)
      else q)"
  by pat_completeness auto
termination
  by (relation "measure (\<lambda>(q, j). rlen q - j)") auto

declare ring_shift.simps [simp del]

fun ring_find :: "ring \<Rightarrow> nat \<Rightarrow> nat list \<Rightarrow> nat option" where
  "ring_find q x [] = None"
| "ring_find q x (i # is) = (if ring_get q i = x then Some i else ring_find q x is)"

definition ring_remove :: "ring \<Rightarrow> nat \<Rightarrow> ring option" where
  "ring_remove q x =
     (case ring_find q x [0..<rlen q] of
        None \<Rightarrow> None
      | Some i \<Rightarrow> (let s = ring_shift q i in Some (s\<lparr>rlen := rlen q - 1\<rparr>)))"

section \<open>The list it stands for\<close>

definition ring_list :: "ring \<Rightarrow> nat list" where
  "ring_list q = map (ring_get q) [0..<rlen q]"

text \<open>
  A capacity above \<open>2 ^ 31\<close> would let the 32-bit sum \<^verbatim>\<open>head + len\<close> wrap to a wrong slot.
\<close>

definition ring_wf :: "ring \<Rightarrow> bool" where
  "ring_wf q \<longleftrightarrow> length (rbuf q) = rcap q \<and> 0 < rcap q \<and> rcap q \<le> 2147483648
                \<and> rhead q < rcap q \<and> rlen q \<le> rcap q"

lemma length_ring_list [simp]: "length (ring_list q) = rlen q"
  by (simp add: ring_list_def)

lemma ring_wf_new: "0 < cap \<Longrightarrow> cap \<le> 2147483648 \<Longrightarrow> ring_wf (ring_new cap)"
  by (simp add: ring_wf_def ring_new_def)

lemma ring_list_new [simp]: "ring_list (ring_new cap) = []"
  by (simp add: ring_list_def ring_new_def)

lemma ring_pos_exact: "ring_wf q \<Longrightarrow> i \<le> rcap q \<Longrightarrow> ring_pos q i = (rhead q + i) mod rcap q"
  by (simp add: ring_pos_def ring_wf_def)

lemma ring_pos_less: "ring_wf q \<Longrightarrow> ring_pos q i < rcap q"
  by (simp add: ring_pos_def ring_wf_def)

lemma mod_add_inj:
  fixes h i j n :: nat
  assumes "i < n" "j < n" "(h + i) mod n = (h + j) mod n"
  shows "i = j"
proof -
  have le: "a = b" if "a \<le> b" "b < n" "(h + a) mod n = (h + b) mod n" for a b :: nat
  proof -
    have "n dvd (h + b) - (h + a)"
      using that mod_eq_dvd_iff_nat[of "h + a" "h + b" n] by simp
    then have "n dvd b - a" by simp
    moreover have "b - a < n" using that(2) by simp
    ultimately have "b - a = 0" using nat_dvd_not_less by blast
    with that(1) show ?thesis by simp
  qed
  show ?thesis using le[of i j] le[of j i] assms by (cases "i \<le> j") auto
qed

lemma ring_pos_inj:
  assumes "ring_wf q" "i < rcap q" "j < rcap q" "ring_pos q i = ring_pos q j"
  shows "i = j"
  using assms mod_add_inj[of i "rcap q" j "rhead q"] by (simp add: ring_pos_exact)

lemma ring_push_props:
  assumes "ring_wf q" "rlen q < rcap q"
  shows "ring_wf (ring_push q x)" and "ring_list (ring_push q x) = ring_list q @ [x]"
proof -
  show "ring_wf (ring_push q x)" using assms by (simp add: ring_wf_def ring_push_def)
  have p: "ring_pos q (rlen q) < length (rbuf q)"
    using assms ring_pos_less by (simp add: ring_wf_def)
  have same: "ring_get (ring_push q x) i = ring_get q i" if "i < rlen q" for i
  proof -
    have "ring_pos q i \<noteq> ring_pos q (rlen q)"
      using ring_pos_inj[OF assms(1), of i "rlen q"] that assms(2) by auto
    then show ?thesis by (simp add: ring_get_def ring_push_def ring_pos_def)
  qed
  have last: "ring_get (ring_push q x) (rlen q) = x"
    using p by (simp add: ring_get_def ring_push_def ring_pos_def)
  show "ring_list (ring_push q x) = ring_list q @ [x]"
    using same last by (simp add: ring_list_def) (simp add: ring_push_def)
qed

lemma ring_pop_props:
  assumes "ring_wf q" "0 < rlen q"
  shows "ring_wf (ring_pop q)" and "ring_list q = ring_front q # ring_list (ring_pop q)"
proof -
  have cap: "0 < rcap q" "rlen q \<le> rcap q" "rhead q < rcap q" using assms by (auto simp: ring_wf_def)
  then show wf: "ring_wf (ring_pop q)"
    using assms ring_pos_less[OF assms(1)] by (auto simp: ring_wf_def ring_pop_def)
  have get: "ring_get (ring_pop q) i = ring_get q (Suc i)" if "Suc i < rlen q" for i
  proof -
    have "ring_pos (ring_pop q) i = (rhead (ring_pop q) + i) mod rcap q"
      using ring_pos_exact[OF wf, of i] that cap by (simp add: ring_pop_def)
    also have "\<dots> = (rhead q + Suc i) mod rcap q"
      using ring_pos_exact[OF assms(1), of 1] cap by (simp add: ring_pop_def mod_simps)
    also have "\<dots> = ring_pos q (Suc i)"
      using ring_pos_exact[OF assms(1), of "Suc i"] that cap by simp
    finally show ?thesis by (simp add: ring_get_def ring_pop_def)
  qed
  have front: "ring_get q 0 = ring_front q"
    using ring_pos_exact[OF assms(1), of 0] cap by (simp add: ring_get_def ring_front_def)
  have "[0..<rlen q] = 0 # map Suc [0..<rlen q - 1]"
    using assms(2) by (simp add: map_Suc_upt upt_conv_Cons)
  then have "ring_list q = ring_get q 0 # map (\<lambda>i. ring_get q (Suc i)) [0..<rlen q - 1]"
    by (simp add: ring_list_def comp_def)
  also have "map (\<lambda>i. ring_get q (Suc i)) [0..<rlen q - 1] = ring_list (ring_pop q)"
    using get by (simp add: ring_list_def ring_pop_def)
  finally show "ring_list q = ring_front q # ring_list (ring_pop q)" using front by simp
qed

lemma ring_shift_props:
  "ring_wf q \<Longrightarrow> j < rlen q \<Longrightarrow>
   (let s = ring_shift q j in rcap s = rcap q \<and> rhead s = rhead q \<and> rlen s = rlen q
      \<and> length (rbuf s) = length (rbuf q)
      \<and> (\<forall>i<rlen q - 1. ring_get s i = ring_get q (if i < j then i else Suc i)))"
proof (induction q j rule: ring_shift.induct)
  case (1 q j)
  have cap: "rlen q \<le> rcap q" "length (rbuf q) = rcap q" using 1(2) by (auto simp: ring_wf_def)
  show ?case
  proof (cases "j + 1 < rlen q")
    case True
    define q' where "q' = q\<lparr>rbuf := (rbuf q)[ring_pos q j := ring_get q (j + 1)]\<rparr>"
    have qs: "rcap q' = rcap q" "rhead q' = rhead q" "rlen q' = rlen q"
      "length (rbuf q') = length (rbuf q)" by (simp_all add: q'_def)
    have wf': "ring_wf q'" and l': "j + 1 < rlen q'"
      using 1(2) True by (auto simp: q'_def ring_wf_def)
    have unf: "ring_shift q j = ring_shift q' (j + 1)"
      using True by (simp add: ring_shift.simps[of q j] q'_def)
    have g': "ring_get q' i = (if i = j then ring_get q (Suc j) else ring_get q i)" if "i < rlen q" for i
    proof -
      have pj: "ring_pos q j < length (rbuf q)" using ring_pos_less[OF 1(2)] cap by simp
      have "i \<noteq> j \<Longrightarrow> ring_pos q i \<noteq> ring_pos q j"
        using ring_pos_inj[OF 1(2), of i j] that True cap by auto
      then show ?thesis using pj
        by (cases "i = j") (simp_all add: q'_def ring_get_def ring_pos_def)
    qed
    have "let s = ring_shift q' (j + 1) in rcap s = rcap q' \<and> rhead s = rhead q' \<and> rlen s = rlen q'
      \<and> length (rbuf s) = length (rbuf q')
      \<and> (\<forall>i<rlen q' - 1. ring_get s i = ring_get q' (if i < j + 1 then i else Suc i))"
      using 1(1)[OF True] wf' l' unfolding q'_def by blast
    then show ?thesis
      using unf g' True qs by (auto simp: Let_def less_Suc_eq)
  next
    case False
    with 1(3) have "Suc j = rlen q" by simp
    then show ?thesis using False by (auto simp: ring_shift.simps[of q j] Let_def)
  qed
qed

lemma ring_find_spec:
  "ring_find q x is = None \<Longrightarrow> \<forall>i\<in>set is. ring_get q i \<noteq> x"
  "ring_find q x is = Some i \<Longrightarrow>
     \<exists>as bs. is = as @ i # bs \<and> ring_get q i = x \<and> (\<forall>j\<in>set as. ring_get q j \<noteq> x)"
proof (induction "is")
  case Nil
  { case 1 then show ?case by simp next case 2 then show ?case by simp }
next
  case (Cons a "is")
  { case 1 then show ?case using Cons.IH(1) by (auto split: if_splits)
  next
    case 2
    show ?case
    proof (cases "ring_get q a = x")
      case True
      with 2 have "a = i" by simp
      with True show ?thesis by (intro exI[of _ "[]"] exI[of _ "is"]) simp
    next
      case False
      with 2 Cons.IH(2) obtain as bs where "is = as @ i # bs" "ring_get q i = x"
        "\<forall>j\<in>set as. ring_get q j \<noteq> x" by auto
      with False show ?thesis by (intro exI[of _ "a # as"] exI[of _ bs]) auto
    qed
  }
qed

lemma ring_remove_props:
  assumes "ring_wf q"
  shows "ring_remove q x = None \<longleftrightarrow> x \<notin> set (ring_list q)"
    and "ring_remove q x = Some q' \<Longrightarrow> ring_wf q' \<and> ring_list q' = remove1 x (ring_list q)"
proof -
  show "ring_remove q x = None \<longleftrightarrow> x \<notin> set (ring_list q)"
  proof (cases "ring_find q x [0..<rlen q]")
    case None
    then show ?thesis using ring_find_spec(1)[OF None] by (auto simp: ring_remove_def ring_list_def)
  next
    case (Some i)
    from ring_find_spec(2)[OF Some] have "ring_get q i = x" "i \<in> set [0..<rlen q]"
      by (blast, metis in_set_conv_decomp)
    then show ?thesis using Some by (auto simp: ring_remove_def ring_list_def Let_def)
  qed
  assume rem: "ring_remove q x = Some q'"
  then obtain i where f: "ring_find q x [0..<rlen q] = Some i"
    and q': "q' = (ring_shift q i)\<lparr>rlen := rlen q - 1\<rparr>"
    by (auto simp: ring_remove_def Let_def split: option.splits)
  from ring_find_spec(2)[OF f] obtain as bs where sp: "[0..<rlen q] = as @ i # bs"
    and gi: "ring_get q i = x" and nas: "\<forall>j\<in>set as. ring_get q j \<noteq> x" by auto
  note il = upt_split(1)[OF sp] and as = upt_split(2)[OF sp] and bs = upt_split(3)[OF sp]
  note sh = ring_shift_props[OF assms il, unfolded Let_def]
  have wf': "ring_wf q'" using sh assms q' by (auto simp: ring_wf_def)
  have get: "ring_get q' j = ring_get q (if j < i then j else Suc j)" if "j < rlen q - 1" for j
  proof -
    have "ring_get q' j = ring_get (ring_shift q i) j" using q' by (simp add: ring_get_def ring_pos_def)
    then show ?thesis using sh that by simp
  qed
  have "ring_list q' = map (\<lambda>j. ring_get q (if j < i then j else Suc j)) [0..<rlen q - 1]"
    using get q' by (simp add: ring_list_def)
  also have "[0..<rlen q - 1] = [0..<i] @ [i..<rlen q - 1]"
    using il upt_add_eq_append[of 0 i "rlen q - 1 - i"] by simp
  also have "map (\<lambda>j. ring_get q (if j < i then j else Suc j)) \<dots> =
      map (ring_get q) [0..<i] @ map (\<lambda>j. ring_get q (Suc j)) [i..<rlen q - 1]" by simp
  also have "map (\<lambda>j. ring_get q (Suc j)) [i..<rlen q - 1] = map (ring_get q) (map Suc [i..<rlen q - 1])"
    by simp
  also have "map Suc [i..<rlen q - 1] = [Suc i..<rlen q]" using il by (simp add: map_Suc_upt)
  also have "map (ring_get q) [0..<i] @ map (ring_get q) [Suc i..<rlen q] = remove1 x (ring_list q)"
  proof -
    have "ring_list q = map (ring_get q) as @ x # map (ring_get q) bs"
      unfolding ring_list_def sp using gi by simp
    moreover have "x \<notin> set (map (ring_get q) as)" using nas by auto
    ultimately show ?thesis by (simp add: remove1_append as bs)
  qed
  finally show "ring_wf q' \<and> ring_list q' = remove1 x (ring_list q)" using wf' by simp
qed

section \<open>The contract\<close>

text \<open>
  A bounded FIFO: \<open>items\<close> is what the client sees, \<open>room\<close> the number of further pushes that are
  allowed. The pool's queues are clients; the retention FIFO also removes from the middle.
\<close>

locale bounded_fifo =
  fixes inv :: "'q \<Rightarrow> bool"
    and items :: "'q \<Rightarrow> nat list"
    and capacity :: "'q \<Rightarrow> nat"
    and push :: "'q \<Rightarrow> nat \<Rightarrow> 'q"
    and front :: "'q \<Rightarrow> nat"
    and pop :: "'q \<Rightarrow> 'q"
  assumes bounded: "inv q \<Longrightarrow> length (items q) \<le> capacity q"
    and push_ok: "inv q \<Longrightarrow> length (items q) < capacity q \<Longrightarrow>
      inv (push q x) \<and> items (push q x) = items q @ [x] \<and> capacity (push q x) = capacity q"
    and pop_ok: "inv q \<Longrightarrow> items q \<noteq> [] \<Longrightarrow>
      inv (pop q) \<and> items q = front q # items (pop q) \<and> capacity (pop q) = capacity q"
begin

lemma push_all:
  "inv q \<Longrightarrow> length (items q) + length xs \<le> capacity q \<Longrightarrow>
   inv (foldl push q xs) \<and> items (foldl push q xs) = items q @ xs
   \<and> capacity (foldl push q xs) = capacity q"
proof (induction xs arbitrary: q)
  case Nil
  then show ?case by simp
next
  case (Cons x xs)
  then have "inv (push q x)" "items (push q x) = items q @ [x]" "capacity (push q x) = capacity q"
    using push_ok[of q x] by auto
  with Cons show ?case by simp
qed

text \<open>A full queue that drops its oldest entry before a push keeps the newest ones.\<close>

lemma replace_oldest:
  assumes "inv q" "items q \<noteq> []"
  shows "inv (push (pop q) x)" "items (push (pop q) x) = tl (items q) @ [x]"
    "capacity (push (pop q) x) = capacity q"
proof -
  from pop_ok[OF assms] have p: "inv (pop q)" "items q = front q # items (pop q)"
    "capacity (pop q) = capacity q" by auto
  then have "length (items (pop q)) < capacity (pop q)" using bounded[OF assms(1)] by simp
  from push_ok[OF p(1) this] p show "inv (push (pop q) x)"
    "items (push (pop q) x) = tl (items q) @ [x]" "capacity (push (pop q) x) = capacity q" by auto
qed

lemma distinct_room:
  assumes "inv q" "distinct (items q)" "set (items q) \<subseteq> {..<n}" "n < capacity q"
  shows "length (items q) < capacity q"
proof -
  have "length (items q) = card (set (items q))" using assms(2) by (simp add: distinct_card)
  also have "\<dots> \<le> n" using card_mono[OF _ assms(3)] by simp
  finally show ?thesis using assms(4) by simp
qed

end

locale removable_fifo = bounded_fifo +
  fixes remove :: "'a \<Rightarrow> nat \<Rightarrow> 'a option"
  assumes remove_None: "inv q \<Longrightarrow> remove q x = None \<longleftrightarrow> x \<notin> set (items q)"
    and remove_Some: "inv q \<Longrightarrow> remove q x = Some q' \<Longrightarrow>
      inv q' \<and> items q' = remove1 x (items q) \<and> capacity q' = capacity q"
begin

lemma remove_shrinks:
  assumes "inv q" "x \<in> set (items q)"
  obtains q' where "remove q x = Some q'" "inv q'" "items q' = remove1 x (items q)"
    "length (items q) = Suc (length (items q'))"
proof -
  from assms remove_None obtain q' where q': "remove q x = Some q'" by blast
  have "length (items q) \<noteq> 0" using assms(2) by auto
  with remove_Some[OF assms(1) q'] assms(2) q' that show ?thesis
    by (simp add: length_remove1)
qed

lemma distinct_remove:
  "inv q \<Longrightarrow> distinct (items q) \<Longrightarrow> remove q x = Some q' \<Longrightarrow>
   distinct (items q') \<and> set (items q') = set (items q) - {x}"
  using remove_Some[of q x q'] by simp

end

lemma ring_shift_cap: "rcap (ring_shift q j) = rcap q"
proof (induction q j rule: ring_shift.induct)
  case (1 q j)
  then show ?case by (subst ring_shift.simps) simp
qed

lemma ring_remove_cap: "ring_remove q x = Some q' \<Longrightarrow> rcap q' = rcap q"
  by (auto simp: ring_remove_def Let_def ring_shift_cap split: option.splits)

interpretation ring_fifo: removable_fifo ring_wf ring_list rcap ring_push ring_front ring_pop ring_remove
proof unfold_locales
  fix q :: ring
  assume wf: "ring_wf q"
  then show "length (ring_list q) \<le> rcap q" by (simp add: ring_wf_def)
  show "ring_wf (ring_push q x) \<and> ring_list (ring_push q x) = ring_list q @ [x]
      \<and> rcap (ring_push q x) = rcap q" if "length (ring_list q) < rcap q" for x
    using ring_push_props[OF wf] that by (simp add: ring_push_def)
  show "ring_wf (ring_pop q) \<and> ring_list q = ring_front q # ring_list (ring_pop q)
      \<and> rcap (ring_pop q) = rcap q" if "ring_list q \<noteq> []"
    using ring_pop_props[OF wf] that length_greater_0_conv[of "ring_list q"]
    by (simp add: ring_pop_def)
  show "ring_remove q x = None \<longleftrightarrow> x \<notin> set (ring_list q)" for x
    by (rule ring_remove_props(1)[OF wf])
  show "ring_wf q' \<and> ring_list q' = remove1 x (ring_list q) \<and> rcap q' = rcap q"
    if "ring_remove q x = Some q'" for x q'
    using ring_remove_props(2)[OF wf that] ring_remove_cap[OF that] by simp
qed

end
