(* ===== verification/Region.thy ===== *)
theory Region
  imports Trace Metrics Cgroup_Stat Policy Ring
begin

text \<open>
  The region (\<^verbatim>\<open>region_t\<close> of \<^verbatim>\<open>region.h\<close>) with the fetch pool it owns, the
  kernel as the code sees it, and the startup sequence of \<^verbatim>\<open>region.c\<close>. The kernel's side
  of the memory (the pages of the memfd, the \<^verbatim>\<open>UFFDIO\<close> calls made so far) is part of the
  state, so that eviction and fetching have an observable effect.
\<close>

section \<open>State\<close>

text \<open>The calls on the userfaultfd that wake a faulting thread.\<close>

datatype uffd_call =
    UFFDIO_WAKE u64 u64
  | UFFDIO_CONTINUE u64 u64

record prefetch_pool =
  depth :: nat
  n_workers :: nat
  stop :: bool
  demand_queue :: ring
  pf_queue :: ring
  pf_outstanding :: nat
  pf_tracked :: "bool list"

text \<open>
  The fields of \<^verbatim>\<open>region_t\<close>; \<^verbatim>\<open>n_chunks\<close> is the length of the table. The two
  mappings are the one memfd: \<open>memfd b\<close> is the byte at offset \<open>b\<close> when its page is populated.
  \<open>model_data\<close> is the content of the source file, \<open>uffd_log\<close> the wake-ups so far, \<open>clk_pos\<close> the
  number of clock readings so far. The globals of \<^verbatim>\<open>policy.c\<close> are \<open>flags\<close>.
\<close>

record region =
  region_len :: u64
  model_file_size :: u64
  used_o_direct :: bool
  chunks :: "chunk list"
  resident_bytes :: u64
  budget_bytes :: u64
  fault_seq :: u64
  known_overhead_bytes :: u64
  policy_of :: "policy option"
  flags :: policy_flags
  prefetch_enabled :: bool
  trace_of :: "trace option"
  metrics_of :: "metrics option"
  diag_fetch_trace :: "fetch_trace option"
  diag_policy_trace :: "policy_trace option"
  stat_fault_missing :: u64
  stat_fault_minor :: u64
  stat_dedup_resident :: u64
  stat_dedup_fetching :: u64
  stat_absent_handled :: u64
  stat_evictions :: u64
  stat_bytes_punched :: u64
  stat_infeasible :: u64
  stat_prefetches :: u64
  stat_prefetch_infeasible :: u64
  stat_prefetch_declined :: u64
  stat_bytes_fetched :: u64
  reconcile_interval :: u32
  fetches_since_reconcile :: u64
  prefetch_depth :: nat
  reserved_bytes :: u64
  prefetch_pool_handle :: "prefetch_pool option"
  async_handler :: bool
  fetch_workers :: nat
  prefetch_admission_always :: bool
  pinned_prefetch :: ring
  stat_pin_broken :: u64
  prefetch_retention_pinned :: bool
  fetching_timeout_ms :: u32
  stat_fetching_timeout :: u64
  memfd :: "nat \<Rightarrow> u8 option"
  model_data :: "nat \<Rightarrow> u8"
  uffd_log :: "uffd_call list"
  clk_pos :: nat

abbreviation n_chunks :: "region \<Rightarrow> nat" where
  "n_chunks r \<equiv> length (chunks r)"

abbreviation chunk_at :: "region \<Rightarrow> nat \<Rightarrow> chunk" where
  "chunk_at r i \<equiv> chunks r ! i"

definition upd_chunk :: "nat \<Rightarrow> (chunk \<Rightarrow> chunk) \<Rightarrow> region \<Rightarrow> region" where
  "upd_chunk i f r = r\<lparr>chunks := (chunks r)[i := f (chunks r ! i)]\<rparr>"

lemma upd_chunk_simps [simp]:
  "length (chunks (upd_chunk i f r)) = length (chunks r)"
  "j < length (chunks r) \<Longrightarrow> chunks (upd_chunk i f r) ! j = (if j = i then f (chunks r ! i) else chunks r ! j)"
  by (auto simp: upd_chunk_def)

section \<open>The kernel\<close>

text \<open>
  What the kernel answers, as functions of the state in which the code asks: the clock, the reads of
  \<^verbatim>\<open>memory.stat\<close>, whether a hole punch succeeds, the results of the
  \<^verbatim>\<open>pread\<close>s of a fetch (bulk and tail), the result of \<^verbatim>\<open>UFFDIO_CONTINUE\<close>, the
  \<^verbatim>\<open>write\<close>s of a trace record, and what the other threads do to the state while this one
  sleeps.
\<close>

datatype pread_result = P_eintr | P_error | P_bytes nat

datatype continue_result = C_error | C_mapped int

record kernel =
  k_clock :: "nat \<Rightarrow> u64"
  k_memory_stat :: "region \<Rightarrow> read_result list option"
  k_punch_ok :: "region \<Rightarrow> nat \<Rightarrow> bool"
  k_preads :: "region \<Rightarrow> nat \<Rightarrow> bool \<Rightarrow> pread_result list"
  k_continue :: "region \<Rightarrow> nat \<Rightarrow> continue_result"
  k_writes :: "region \<Rightarrow> write_result list"
  k_others :: "nat \<Rightarrow> region \<Rightarrow> region"

definition now_ns :: "kernel \<Rightarrow> region \<Rightarrow> u64 \<times> region" where
  "now_ns K r = (k_clock K (clk_pos r), r\<lparr>clk_pos := clk_pos r + 1\<rparr>)"

text \<open>\<^verbatim>\<open>if (r->trace) trace_record(...)\<close>; the record carries its own clock reading.\<close>

definition record_fault :: "kernel \<Rightarrow> region \<Rightarrow> u64 \<Rightarrow> nat \<Rightarrow> u8 \<Rightarrow> u8 \<Rightarrow> failure + region" where
  "record_fault K r sq idx ft wp =
     (case trace_of r of
        None \<Rightarrow> Inr r
      | Some t \<Rightarrow>
          let (now, r1) = now_ns K r
          in case trace_record_call (k_writes K r1) now t sq (word_of_nat idx) ft wp of
               Inl _ \<Rightarrow> Inl Trace_write_failed
             | Inr t' \<Rightarrow> Inr (r1\<lparr>trace_of := Some t'\<rparr>))"

section \<open>Startup\<close>

record region_config =
  cfg_region_len :: u64
  cfg_chunk_size :: u64
  cfg_model_path :: "string option"
  cfg_cgroup_path :: "string option"
  cfg_budget_bytes :: u64
  cfg_reconcile_interval :: u32
  cfg_prefetch_depth :: nat
  cfg_sync_handler :: bool
  cfg_fetch_workers :: nat
  cfg_prefetch_admission_always :: bool
  cfg_prefetch_retention_none :: bool
  cfg_explicit_chunks :: "chunk_spec list"
  cfg_fetching_timeout_ms :: u32

record run_manifest =
  m_kernel_release :: string
  m_shmem_enabled :: string
  m_memory_max :: u64
  m_memory_swap_max_raw :: string
  m_memory_high_set :: bool
  m_memory_high :: u64
  m_chunk_size :: u64
  m_used_o_direct :: bool
  m_region_len :: u64
  m_n_chunks :: nat
  m_model_path :: string
  m_cgroup_path :: string

text \<open>
  The host at startup: the content of each small file that can be read, whether each system call
  succeeds, the uffd features offered, the size and bytes of the model file.
\<close>

record host =
  h_swap_max :: "string option"
  h_memory_max :: "string option"
  h_memory_high :: "string option"
  h_uffd :: bool
  h_uffd_api :: bool
  h_missing_shmem :: bool
  h_minor_shmem :: bool
  h_memfd_create :: bool
  h_ftruncate :: "u64 \<Rightarrow> bool"
  h_mmap_b :: bool
  h_mmap_a :: bool
  h_nohugepage_a :: bool
  h_nohugepage_b :: bool
  h_register :: bool
  h_has_continue :: bool
  h_open_direct :: bool
  h_open_buffered :: bool
  h_file_size :: "u64 option"
  h_file_data :: "nat \<Rightarrow> u8"
  h_uname :: "string option"
  h_shmem_enabled :: "string option"

definition require :: "bool \<Rightarrow> string \<Rightarrow> failure + unit" where
  "require b step = (if b then Inr () else Inl (Startup_failed step))"

lemma require_Inr [simp]: "require b step = Inr x \<longleftrightarrow> b"
  by (simp add: require_def)

text \<open>
  \<^verbatim>\<open>read_small_file\<close>: at most \<^verbatim>\<open>bufsz - 1\<close> bytes, trailing newlines and
  blanks stripped, then used as a C string.
\<close>

definition read_small_file :: "nat \<Rightarrow> string option \<Rightarrow> string option" where
  "read_small_file bufsz f =
     map_option (\<lambda>s. takeWhile (\<lambda>c. c \<noteq> CHR 0x00)
       (rev (dropWhile (\<lambda>c. c = CHR 0x0A \<or> c = CHR '' '') (rev (take (bufsz - 1) s))))) f"

definition parse_cgroup_uint64_or_max :: "string \<Rightarrow> u64" where
  "parse_cgroup_uint64_or_max s =
     (if s = ''max'' then UINT64_MAX
      else case scan_llu s of None \<Rightarrow> 0 | Some v \<Rightarrow> v)"

definition verify_cgroup :: "host \<Rightarrow> run_manifest \<Rightarrow> failure + run_manifest" where
  "verify_cgroup h m =
     (case read_small_file 64 (h_swap_max h) of
        None \<Rightarrow> Inl (Startup_failed ''cannot read memory.swap.max'')
      | Some val \<Rightarrow>
          rbind (require (val = ''0'') ''memory.swap.max is not 0'') (\<lambda>_.
            case read_small_file 64 (h_memory_max h) of
              None \<Rightarrow> Inl (Startup_failed ''cannot read memory.max'')
            | Some mx \<Rightarrow>
                let m1 = m\<lparr>m_memory_swap_max_raw := val, m_memory_max := parse_cgroup_uint64_or_max mx\<rparr>
                in case read_small_file 64 (h_memory_high h) of
                     Some hi \<Rightarrow>
                       if hi \<noteq> ''max''
                       then Inr (m1\<lparr>m_memory_high_set := True,
                                    m_memory_high := parse_cgroup_uint64_or_max hi\<rparr>)
                       else Inr (m1\<lparr>m_memory_high_set := False, m_memory_high := 0\<rparr>)
                   | None \<Rightarrow> Inr (m1\<lparr>m_memory_high_set := False, m_memory_high := 0\<rparr>)))"

definition verify_uffd_features :: "host \<Rightarrow> failure + unit" where
  "verify_uffd_features h =
     rbind (require (h_uffd h) ''userfaultfd() failed'') (\<lambda>_.
     rbind (require (h_uffd_api h) ''UFFDIO_API failed'') (\<lambda>_.
     rbind (require (h_missing_shmem h) ''MISSING_SHMEM not present'') (\<lambda>_.
     require (h_minor_shmem h) ''MINOR_SHMEM not present'')))"

definition create_backing_store :: "host \<Rightarrow> region \<Rightarrow> u64 \<Rightarrow> failure + region" where
  "create_backing_store h r sz =
     rbind (require (h_memfd_create h) ''memfd_create failed'') (\<lambda>_.
     rbind (require (h_ftruncate h sz) ''ftruncate failed'') (\<lambda>_.
     Inr (r\<lparr>region_len := sz, memfd := (\<lambda>_. None)\<rparr>)))"

definition map_and_register :: "host \<Rightarrow> failure + unit" where
  "map_and_register h =
     rbind (require (h_mmap_b h) ''mmap map_b failed'') (\<lambda>_.
     rbind (require (h_mmap_a h) ''mmap map_a failed'') (\<lambda>_.
     rbind (require (h_nohugepage_a h) ''MADV_NOHUGEPAGE on map_a failed'') (\<lambda>_.
     rbind (require (h_nohugepage_b h) ''MADV_NOHUGEPAGE on map_b failed'') (\<lambda>_.
     rbind (require (h_register h) ''UFFDIO_REGISTER failed'') (\<lambda>_.
     require (h_has_continue h) ''UFFDIO_CONTINUE not offered'')))))"

definition open_model_file :: "host \<Rightarrow> region \<Rightarrow> failure + region" where
  "open_model_file h r =
     (if h_open_direct h then Inr (r\<lparr>used_o_direct := True, model_data := h_file_data h\<rparr>)
      else rbind (require (h_open_buffered h) ''open failed'') (\<lambda>_.
             Inr (r\<lparr>used_o_direct := False, model_data := h_file_data h\<rparr>)))"

definition compute_budget :: "region \<Rightarrow> region_config \<Rightarrow> failure + region" where
  "compute_budget r cfg =
     rbind (require (cfg_budget_bytes cfg \<noteq> 0) ''auto-budget not implemented'') (\<lambda>_.
       let pd = (if cfg_prefetch_depth cfg \<noteq> 0 then cfg_prefetch_depth cfg else 1)
       in Inr (r\<lparr>budget_bytes := cfg_budget_bytes cfg, resident_bytes := 0,
                known_overhead_bytes := 0,
                reconcile_interval :=
                  (if cfg_reconcile_interval cfg \<noteq> 0 then cfg_reconcile_interval cfg else 16),
                fetches_since_reconcile := 0, prefetch_depth := pd, reserved_bytes := 0,
                async_handler := \<not> cfg_sync_handler cfg,
                fetch_workers := (if cfg_fetch_workers cfg \<noteq> 0 then cfg_fetch_workers cfg else 4),
                prefetch_admission_always := cfg_prefetch_admission_always cfg,
                prefetch_retention_pinned := \<not> cfg_prefetch_retention_none cfg,
                fetching_timeout_ms :=
                  (if cfg_fetching_timeout_ms cfg \<noteq> 0 then cfg_fetching_timeout_ms cfg else 30000),
                stat_fetching_timeout := 0,
                pinned_prefetch := ring_new (if pd > 0 then pd else 1), stat_pin_broken := 0\<rparr>))"

definition zero_region :: region where
  "zero_region =
     \<lparr>region_len = 0, model_file_size = 0, used_o_direct = False, chunks = [],
      resident_bytes = 0, budget_bytes = 0, fault_seq = 0, known_overhead_bytes = 0,
      policy_of = None, flags = policy_flags_default, prefetch_enabled = False, trace_of = None,
      metrics_of = None, diag_fetch_trace = None, diag_policy_trace = None,
      stat_fault_missing = 0, stat_fault_minor = 0, stat_dedup_resident = 0,
      stat_dedup_fetching = 0, stat_absent_handled = 0, stat_evictions = 0,
      stat_bytes_punched = 0, stat_infeasible = 0, stat_prefetches = 0,
      stat_prefetch_infeasible = 0, stat_prefetch_declined = 0, stat_bytes_fetched = 0,
      reconcile_interval = 0, fetches_since_reconcile = 0, prefetch_depth = 0,
      reserved_bytes = 0, prefetch_pool_handle = None, async_handler = False,
      fetch_workers = 0, prefetch_admission_always = False,
      pinned_prefetch = \<lparr>rbuf = [], rcap = 0, rhead = 0, rlen = 0\<rparr>, stat_pin_broken = 0,
      prefetch_retention_pinned = False, fetching_timeout_ms = 0, stat_fetching_timeout = 0,
      memfd = (\<lambda>_. None), model_data = (\<lambda>_. 0), uffd_log = [], clk_pos = 0\<rparr>"

definition zero_manifest :: run_manifest where
  "zero_manifest =
     \<lparr>m_kernel_release = [], m_shmem_enabled = [], m_memory_max = 0, m_memory_swap_max_raw = [],
      m_memory_high_set = False, m_memory_high = 0, m_chunk_size = 0, m_used_o_direct = False,
      m_region_len = 0, m_n_chunks = 0, m_model_path = [], m_cgroup_path = []\<rparr>"

definition region_startup :: "host \<Rightarrow> region_config \<Rightarrow> failure + (region \<times> run_manifest)" where
  "region_startup h cfg =
     rbind (require (cfg_region_len cfg \<noteq> 0) ''region_len must be nonzero'') (\<lambda>_.
     rbind (require (cfg_model_path cfg \<noteq> None \<and> cfg_cgroup_path cfg \<noteq> None) ''paths required'') (\<lambda>_.
     let m0 = zero_manifest\<lparr>m_cgroup_path := take 255 (the (cfg_cgroup_path cfg)),
                m_model_path := take 255 (the (cfg_model_path cfg)),
                m_kernel_release := take 127 (case h_uname h of Some u \<Rightarrow> u | None \<Rightarrow> ''unknown''),
                m_shmem_enabled := (case read_small_file 64 (h_shmem_enabled h) of
                                      Some s \<Rightarrow> s | None \<Rightarrow> ''unknown'')\<rparr>
     in rbind (verify_cgroup h m0) (\<lambda>m1.
     rbind (verify_uffd_features h) (\<lambda>_.
     rbind (create_backing_store h zero_region (cfg_region_len cfg)) (\<lambda>r1.
     rbind (map_and_register h) (\<lambda>_.
     rbind (open_model_file h r1) (\<lambda>r2.
     let r3 = (case h_file_size h of Some n \<Rightarrow> r2\<lparr>model_file_size := n\<rparr> | None \<Rightarrow> r2)
     in rbind (if cfg_explicit_chunks cfg \<noteq> []
               then build_chunk_table_explicit (region_len r3) (cfg_explicit_chunks cfg)
               else build_chunk_table (region_len r3) (cfg_chunk_size cfg)) (\<lambda>cs.
     rbind (compute_budget (r3\<lparr>chunks := cs\<rparr>) cfg) (\<lambda>r4.
     Inr (r4, m1\<lparr>m_chunk_size := round_chunk_size (cfg_chunk_size cfg),
                 m_used_o_direct := used_o_direct r4, m_region_len := region_len r4,
                 m_n_chunks := n_chunks r4\<rparr>))))))))))"

end
