(* ===== verification/Budget.thy ===== *)
theory Budget
  imports Region
begin

text \<open>
  The byte budget (\<^verbatim>\<open>budget.c\<close>): the reconciliation with the kernel, eviction, the two
  reservation loops, the commit of a reservation, pins, and the retention FIFO of prefetched
  chunks. Every function here runs under \<^verbatim>\<open>budget_lock\<close>, so a call is one atomic step.
  The invariant \<open>acct\<close> gives the meaning of the two byte counters, \<open>budget_inv\<close> adds the pins.
\<close>

section \<open>Reconciliation (I-7)\<close>

definition read_memory_stat_shmem :: "kernel \<Rightarrow> region \<Rightarrow> failure + u64" where
  "read_memory_stat_shmem K r =
     (case cgroup_stat_snapshot_read (k_memory_stat K r) of
        None \<Rightarrow> Inl Stat_unreadable
      | Some snap \<Rightarrow>
          (case cgroup_stat_snapshot_field snap ''shmem'' of
             None \<Rightarrow> Inl Stat_no_shmem
           | Some val \<Rightarrow> Inr val))"

definition reconcile :: "kernel \<Rightarrow> region \<Rightarrow> failure + unit" where
  "reconcile K r =
     rbind (read_memory_stat_shmem K r) (\<lambda>shmem.
       let threshold = (if n_chunks r > 0 then len (chunk_at r 0) else RESIDCTL_ALIGN);
           lower = resident_bytes r + known_overhead_bytes r;
           upper = lower + reserved_bytes r
       in if shmem + threshold < lower then Inl Reconcile_below
          else if shmem > upper + threshold then Inl Reconcile_above
          else Inr ())"

section \<open>Eviction\<close>

definition punch :: "region \<Rightarrow> chunk \<Rightarrow> region" where
  "punch r c = r\<lparr>memfd := (\<lambda>b. if unat (region_off c) \<le> b \<and> b < unat (region_off c) + unat (len c)
                               then None else memfd r b)\<rparr>"

definition evict_chunk :: "kernel \<Rightarrow> region \<Rightarrow> nat \<Rightarrow> failure + region" where
  "evict_chunk K r i =
     (let c = chunk_at r i
      in if state c \<noteq> CHUNK_RESIDENT then Inl Evict_not_resident
         else if pin c \<noteq> 0 then Inl Evict_pinned
         else if \<not> k_punch_ok K r i then Inl Evict_punch_failed
         else Inr ((upd_chunk i (\<lambda>c. c\<lparr>state := CHUNK_ABSENT\<rparr>) (punch r c))
                     \<lparr>resident_bytes := resident_bytes r - len c,
                      stat_evictions := stat_evictions r + 1,
                      stat_bytes_punched := stat_bytes_punched r + len c\<rparr>))"

definition bitmap_of :: "chunk list \<Rightarrow> nat \<Rightarrow> u32" where
  "bitmap_of cs base =
     foldl (\<lambda>w i. if base \<le> i \<and> i < base + 32 \<and> state (cs ! i) = CHUNK_RESIDENT
                  then or w (push_bit (i - base) 1) else w)
           0 [0..<length cs]"

definition next_use_distance :: "region \<Rightarrow> nat \<Rightarrow> int" where
  "next_use_distance r i =
     (case policy_of r of
        None \<Rightarrow> INT64_MAX
      | Some p \<Rightarrow> policy_next_use_distance (flags r) p i)"

definition record_policy_trace :: "region \<Rightarrow> nat \<Rightarrow> failure + region" where
  "record_policy_trace r v =
     (case diag_policy_trace r of
        None \<Rightarrow> Inr r
      | Some pt \<Rightarrow>
          rbind (policy_trace_reserve pt) (\<lambda>(slot, pt').
            let rec = (pt_records pt' ! slot)
                  \<lparr>victim_chunk := v,
                   cursor_chunk := (case policy_of r of None \<Rightarrow> None | Some p \<Rightarrow> policy_trace_cursor p),
                   victim_next_use_distance := next_use_distance r v,
                   n_resident := length (filter (\<lambda>c. state c = CHUNK_RESIDENT) (chunks r)),
                   resident_set_bitmap_lo := bitmap_of (chunks r) 0,
                   resident_set_bitmap_hi := bitmap_of (chunks r) 32\<rparr>
            in Inr (r\<lparr>diag_policy_trace := Some (pt'\<lparr>pt_records := (pt_records pt')[slot := rec]\<rparr>)\<rparr>)))"

definition default_select_victim :: "chunk list \<Rightarrow> nat option" where
  "default_select_victim cs = List.find (evictable cs) [0..<length cs]"

definition select_victim :: "region \<Rightarrow> nat option" where
  "select_victim r =
     (case policy_of r of
        Some p \<Rightarrow> policy_select_victim (flags r) p (chunks r)
      | None \<Rightarrow> default_select_victim (chunks r))"

section \<open>The retention FIFO (A-9)\<close>

definition prefetch_retain_on_resident :: "region \<Rightarrow> nat \<Rightarrow> region" where
  "prefetch_retain_on_resident r idx =
     (let q = pinned_prefetch r;
          r1 = (if rlen q \<ge> rcap q
                then upd_chunk (ring_front q) (\<lambda>c. c\<lparr>pin := pin c - 1\<rparr>)
                       (r\<lparr>pinned_prefetch := ring_pop q\<rparr>)
                else r)
      in r1\<lparr>pinned_prefetch := ring_push (pinned_prefetch r1) idx\<rparr>)"

definition prefetch_retain_release :: "region \<Rightarrow> nat \<Rightarrow> region" where
  "prefetch_retain_release r idx =
     (case ring_remove (pinned_prefetch r) idx of
        None \<Rightarrow> r
      | Some q \<Rightarrow> upd_chunk idx (\<lambda>c. c\<lparr>pin := pin c - 1\<rparr>) (r\<lparr>pinned_prefetch := q\<rparr>))"

definition pin_break_select_victim :: "region \<Rightarrow> nat option" where
  "pin_break_select_victim r =
     map_option fst
       (pick (>) (\<lambda>i. state (chunk_at r i) = CHUNK_RESIDENT) (next_use_distance r)
             (ring_list (pinned_prefetch r)) None)"

section \<open>Reservation\<close>

definition over_budget :: "region \<Rightarrow> u64 \<Rightarrow> bool" where
  "over_budget r need \<longleftrightarrow> resident_bytes r + reserved_bytes r + need > budget_bytes r"

text \<open>\<^verbatim>\<open>evict_chunk(r, ...); reconcile(r); r->fetches_since_reconcile = 0;\<close>\<close>

definition evict_and_reconcile :: "kernel \<Rightarrow> region \<Rightarrow> nat \<Rightarrow> failure + region" where
  "evict_and_reconcile K r v =
     rbind (evict_chunk K r v) (\<lambda>r1.
     rbind (reconcile K r1) (\<lambda>_.
     Inr (r1\<lparr>fetches_since_reconcile := 0\<rparr>)))"

definition resident_count :: "chunk list \<Rightarrow> nat" where
  "resident_count cs = length (filter (\<lambda>c. state c = CHUNK_RESIDENT) cs)"

lemma resident_count_update:
  "i < length cs \<Longrightarrow> state (cs ! i) = CHUNK_RESIDENT \<Longrightarrow> state c \<noteq> CHUNK_RESIDENT \<Longrightarrow>
   resident_count (cs[i := c]) < resident_count cs"
  by (induction cs arbitrary: i) (auto simp: resident_count_def split: nat.splits)

lemma evict_chunk_count:
  assumes "evict_chunk K r i = Inr r'" and "i < n_chunks r"
  shows "resident_count (chunks r') < resident_count (chunks r)"
  using assms resident_count_update[of i "chunks r"]
  by (auto simp: evict_chunk_def upd_chunk_def punch_def Let_def split: if_splits)

lemma default_selector: "victim_selector default_select_victim"
  by unfold_locales (auto simp: default_select_victim_def find_upt_Some_iff find_upt_None_iff)

interpretation default_sel: victim_selector default_select_victim
  by (rule default_selector)

lemma select_victim_sound: "select_victim r = Some i \<Longrightarrow> i < n_chunks r \<and> evictable (chunks r) i"
  using default_sel.select_sound selector.select_sound
  by (auto simp: select_victim_def split: option.splits)

lemma select_victim_complete: "select_victim r = None \<Longrightarrow> i < n_chunks r \<Longrightarrow> \<not> evictable (chunks r) i"
  using default_sel.select_complete selector.select_complete
  by (auto simp: select_victim_def split: option.splits)

lemma record_policy_trace_chunks [simp]: "record_policy_trace r v = Inr r' \<Longrightarrow> chunks r' = chunks r"
  by (auto simp: record_policy_trace_def rbind_Inr_iff Let_def split: option.splits prod.splits)

lemma retain_release_chunks_count:
  "resident_count (chunks (prefetch_retain_release r i)) = resident_count (chunks r)"
proof -
  have "resident_count (cs[i := (cs ! i)\<lparr>pin := p\<rparr>]) = resident_count cs" for cs :: "chunk list" and p
    by (induction cs arbitrary: i) (auto simp: resident_count_def split: nat.splits)
  then show ?thesis by (auto simp: prefetch_retain_release_def upd_chunk_def split: option.splits)
qed

lemma retain_release_n [simp]: "n_chunks (prefetch_retain_release r i) = n_chunks r"
  by (auto simp: prefetch_retain_release_def upd_chunk_def split: option.splits)

lemma evict_and_reconcile_count:
  assumes "evict_and_reconcile K r v = Inr r'" and "v < n_chunks r"
  shows "resident_count (chunks r') < resident_count (chunks r)"
proof -
  from assms(1) obtain r1 where "evict_chunk K r v = Inr r1" "chunks r' = chunks r1"
    by (auto simp: evict_and_reconcile_def rbind_Inr_iff)
  with evict_chunk_count assms(2) show ?thesis by metis
qed

text \<open>
  The loop of \<^verbatim>\<open>ensure_budget\<close>: evict the policy's victim, or else break the coldest
  retention pin, or else give up. Each round turns one RESIDENT chunk ABSENT. (A FIFO entry outside
  the table would be an out-of-bounds access; the model stops there, and the invariant excludes it.)
\<close>

function evict_loop :: "kernel \<Rightarrow> u64 \<Rightarrow> region \<Rightarrow> failure + (bool \<times> region)" where
  "evict_loop K need r =
     (if \<not> over_budget r need then Inr (True, r)
      else case select_victim r of
        None \<Rightarrow>
          (case (if prefetch_retention_pinned r then pin_break_select_victim r else None) of
             Some pv \<Rightarrow>
               if pv < n_chunks r then
                 rbind (evict_and_reconcile K
                          ((prefetch_retain_release r pv)
                             \<lparr>stat_pin_broken := stat_pin_broken (prefetch_retain_release r pv) + 1\<rparr>) pv)
                       (evict_loop K need)
               else Inl Evict_not_resident
           | None \<Rightarrow> Inr (False, r\<lparr>stat_infeasible := stat_infeasible r + 1\<rparr>))
      | Some v \<Rightarrow>
          rbind (record_policy_trace r v) (\<lambda>r0.
          rbind (evict_and_reconcile K r0 v) (evict_loop K need)))"
  by pat_completeness auto
termination
proof (relation "measure (\<lambda>(K, need, r). resident_count (chunks r))")
  fix K need r r1 pv
  assume "pv < n_chunks r"
    and "evict_and_reconcile K ((prefetch_retain_release r pv)
           \<lparr>stat_pin_broken := stat_pin_broken (prefetch_retain_release r pv) + 1\<rparr>) pv = Inr r1"
  with evict_and_reconcile_count retain_release_chunks_count
  show "((K, need, r1), (K, need, r)) \<in> measure (\<lambda>(K, need, r). resident_count (chunks r))"
    by fastforce
next
  fix K need r v r0 r1
  assume "select_victim r = Some v" "record_policy_trace r v = Inr r0"
    "evict_and_reconcile K r0 v = Inr r1"
  with evict_and_reconcile_count[of K r0 v r1] select_victim_sound[of r v]
  show "((K, need, r1), (K, need, r)) \<in> measure (\<lambda>(K, need, r). resident_count (chunks r))"
    by simp
qed auto

declare evict_loop.simps [simp del]

text \<open>The A-3 schedule: reconcile every \<^verbatim>\<open>reconcile_interval\<close> fetches.\<close>

definition scheduled_reconcile :: "kernel \<Rightarrow> region \<Rightarrow> failure + region" where
  "scheduled_reconcile K r =
     (let r1 = r\<lparr>fetches_since_reconcile := fetches_since_reconcile r + 1\<rparr>
      in if reconcile_interval r1 \<le> 1 \<or> fetches_since_reconcile r1 \<ge> ucast (reconcile_interval r1)
         then rbind (reconcile K r1) (\<lambda>_. Inr (r1\<lparr>fetches_since_reconcile := 0\<rparr>))
         else Inr r1)"

definition reserve :: "u64 \<Rightarrow> region \<Rightarrow> region" where
  "reserve need r = r\<lparr>reserved_bytes := reserved_bytes r + need\<rparr>"

text \<open>\<open>True\<close> is the return value 0 (reserved), \<open>False\<close> is -1 (infeasible).\<close>

definition ensure_budget :: "kernel \<Rightarrow> region \<Rightarrow> u64 \<Rightarrow> failure + (bool \<times> region)" where
  "ensure_budget K r need =
     rbind (scheduled_reconcile K r) (\<lambda>r1.
     rbind (evict_loop K need r1) (\<lambda>(ok, r2).
     Inr (ok, if ok then reserve need r2 else r2)))"

text \<open>The admission rule (A-6): the victim must be needed strictly later than the target.\<close>

definition prefetch_admit :: "region \<Rightarrow> nat \<Rightarrow> nat \<Rightarrow> bool" where
  "prefetch_admit r v target \<longleftrightarrow>
     prefetch_admission_always r \<or> policy_of r = None
     \<or> next_use_distance r v > next_use_distance r target"

function prefetch_evict_loop ::
  "kernel \<Rightarrow> nat \<Rightarrow> u64 \<Rightarrow> region \<Rightarrow> failure + (bool \<times> region)" where
  "prefetch_evict_loop K target need r =
     (if \<not> over_budget r need then Inr (True, r)
      else case select_victim r of
        None \<Rightarrow> Inr (False, r\<lparr>stat_infeasible := stat_infeasible r + 1\<rparr>)
      | Some v \<Rightarrow>
          if \<not> prefetch_admit r v target
          then Inr (False, r\<lparr>stat_prefetch_declined := stat_prefetch_declined r + 1\<rparr>)
          else rbind (record_policy_trace r v) (\<lambda>r0.
               rbind (evict_and_reconcile K r0 v) (prefetch_evict_loop K target need)))"
  by pat_completeness auto
termination
proof (relation "measure (\<lambda>(K, target, need, r). resident_count (chunks r))")
  fix K target need r v r0 r1
  assume "select_victim r = Some v" "record_policy_trace r v = Inr r0"
    "evict_and_reconcile K r0 v = Inr r1"
  with evict_and_reconcile_count[of K r0 v r1] select_victim_sound[of r v]
  show "((K, target, need, r1), (K, target, need, r))
          \<in> measure (\<lambda>(K, target, need, r). resident_count (chunks r))" by simp
qed auto

declare prefetch_evict_loop.simps [simp del]

definition ensure_budget_prefetch :: "kernel \<Rightarrow> region \<Rightarrow> nat \<Rightarrow> failure + (bool \<times> region)" where
  "ensure_budget_prefetch K r target =
     rbind (scheduled_reconcile K r) (\<lambda>r1.
     let need = len (chunk_at r1 target)
     in rbind (prefetch_evict_loop K target need r1) (\<lambda>(ok, r2).
        Inr (ok, if ok then reserve need r2 else r2)))"

section \<open>Commit and pins\<close>

definition commit_reserved :: "region \<Rightarrow> u64 \<Rightarrow> region" where
  "commit_reserved r l =
     r\<lparr>reserved_bytes := reserved_bytes r - l, resident_bytes := resident_bytes r + l\<rparr>"

definition pin_chunk :: "region \<Rightarrow> nat \<Rightarrow> region" where
  "pin_chunk r i = upd_chunk i (\<lambda>c. c\<lparr>pin := pin c + 1\<rparr>) r"

definition unpin_chunk :: "region \<Rightarrow> nat \<Rightarrow> region" where
  "unpin_chunk r i = upd_chunk i (\<lambda>c. c\<lparr>pin := pin c - 1\<rparr>) r"

definition commit_reserved_and_pin :: "region \<Rightarrow> nat \<Rightarrow> u64 \<Rightarrow> region" where
  "commit_reserved_and_pin r i l = pin_chunk (commit_reserved r l) i"

section \<open>The invariant\<close>

text \<open>
  \<open>C\<close> is the set of chunks whose bytes are counted in \<^verbatim>\<open>resident_bytes\<close>, \<open>F\<close> of those
  counted in \<^verbatim>\<open>reserved_bytes\<close>. A chunk is committed before it is marked RESIDENT, so \<open>C\<close>
  contains the RESIDENT chunks and possibly some that are about to become so. \<open>X i\<close> is the number of
  pins operations in progress hold on chunk \<open>i\<close>; every other pin is a retention pin.
\<close>

definition geometry_ok :: "region \<Rightarrow> bool" where
  "geometry_ok r \<longleftrightarrow> tiles 0 (chunks r) (unat (region_len r)) \<and> n_chunks r \<le> UINT32_MAX
     \<and> (\<forall>c\<in>set (chunks r). unat (region_off c) mod 4096 = 0)
     \<and> unat (region_len r) < 2 ^ 63"

definition acct :: "region \<Rightarrow> nat set \<Rightarrow> nat set \<Rightarrow> bool" where
  "acct r C F \<longleftrightarrow> C \<subseteq> {..<n_chunks r} \<and> F \<subseteq> {..<n_chunks r} \<and> C \<inter> F = {}
     \<and> resident_bytes r = bytes_of (chunks r) C \<and> reserved_bytes r = bytes_of (chunks r) F
     \<and> (\<forall>i<n_chunks r. state (chunk_at r i) = CHUNK_RESIDENT \<longrightarrow> i \<in> C)
     \<and> (\<forall>i\<in>F. state (chunk_at r i) = CHUNK_FETCHING)
     \<and> (\<forall>i\<in>C. state (chunk_at r i) \<noteq> CHUNK_ABSENT)"

definition pins_ok :: "region \<Rightarrow> (nat \<Rightarrow> u32) \<Rightarrow> bool" where
  "pins_ok r X \<longleftrightarrow> ring_wf (pinned_prefetch r) \<and> distinct (ring_list (pinned_prefetch r))
     \<and> (\<forall>i\<in>set (ring_list (pinned_prefetch r)).
           i < n_chunks r \<and> state (chunk_at r i) = CHUNK_RESIDENT \<and> X i = 0)
     \<and> (\<forall>i<n_chunks r. pin (chunk_at r i) =
           (if i \<in> set (ring_list (pinned_prefetch r)) then 1 else X i))"

text \<open>
  Every byte of a committed chunk is the byte of the model file, zero past its end; a byte of the
  region is populated only if its chunk is committed or reserved.
\<close>

definition model_byte :: "region \<Rightarrow> nat \<Rightarrow> u8" where
  "model_byte r b = (if model_file_size r \<noteq> 0 \<and> unat (model_file_size r) \<le> b then 0 else model_data r b)"

definition in_chunk :: "chunk \<Rightarrow> nat \<Rightarrow> bool" where
  "in_chunk c b \<longleftrightarrow> unat (region_off c) \<le> b \<and> b < unat (region_off c) + unat (len c)"

definition data_ok :: "region \<Rightarrow> nat set \<Rightarrow> nat set \<Rightarrow> bool" where
  "data_ok r C F \<longleftrightarrow>
     (\<forall>i\<in>C. \<forall>b. in_chunk (chunk_at r i) b \<longrightarrow> memfd r b = Some (model_byte r b))
     \<and> (\<forall>b<unat (region_len r). memfd r b \<noteq> None \<longrightarrow> (\<exists>i\<in>C \<union> F. in_chunk (chunk_at r i) b))"

definition budget_inv :: "region \<Rightarrow> nat set \<Rightarrow> nat set \<Rightarrow> (nat \<Rightarrow> u32) \<Rightarrow> bool" where
  "budget_inv r C F X \<longleftrightarrow> geometry_ok r \<and> acct r C F \<and> pins_ok r X \<and> data_ok r C F"

lemma budget_invD [dest]:
  assumes "budget_inv r C F X"
  shows "geometry_ok r" "acct r C F" "pins_ok r X" "data_ok r C F"
  using assms by (auto simp: budget_inv_def)

text \<open>What the budget code never touches, and what it may do to the chunks.\<close>

definition static_part where
  "static_part r =
     (region_len r, model_file_size r, model_data r, budget_bytes r, flags r, policy_of r,
      prefetch_enabled r, prefetch_depth r, async_handler r, prefetch_admission_always r,
      prefetch_retention_pinned r, reconcile_interval r, known_overhead_bytes r,
      prefetch_pool_handle r, uffd_log r, clk_pos r, trace_of r, metrics_of r, diag_fetch_trace r)"

definition retained :: "region \<Rightarrow> nat set" where
  "retained r = set (ring_list (pinned_prefetch r))"

definition only_evicts :: "region \<Rightarrow> region \<Rightarrow> bool" where
  "only_evicts r r' \<longleftrightarrow> n_chunks r' = n_chunks r \<and> retained r' \<subseteq> retained r
     \<and> (\<forall>i<n_chunks r. geom (chunk_at r' i) = geom (chunk_at r i)
          \<and> (state (chunk_at r i) \<noteq> CHUNK_RESIDENT \<or> pin (chunk_at r i) \<noteq> 0 \<and> i \<notin> retained r
               \<longrightarrow> chunk_at r' i = chunk_at r i)
          \<and> (state (chunk_at r' i) = state (chunk_at r i)
              \<or> state (chunk_at r i) = CHUNK_RESIDENT \<and> state (chunk_at r' i) = CHUNK_ABSENT))"

lemma only_evicts_refl: "chunks r' = chunks r \<Longrightarrow> retained r' \<subseteq> retained r \<Longrightarrow> only_evicts r r'"
  by (auto simp: only_evicts_def)

lemma only_evicts_trans:
  assumes "only_evicts a b" "only_evicts b c"
  shows "only_evicts a c"
  using assms unfolding only_evicts_def by (metis (no_types, lifting) subset_iff)

lemma only_evicts_geometry: "only_evicts r r' \<Longrightarrow> same_geometry (chunks r) (chunks r')"
  by (auto simp: only_evicts_def same_geometry_def intro: nth_equalityI)

lemma geometry_ok_same:
  assumes "same_geometry (chunks r) (chunks r')" "region_len r' = region_len r" "geometry_ok r"
  shows "geometry_ok r'"
proof -
  have n: "n_chunks r' = n_chunks r" using same_geometry_length[OF assms(1)] by simp
  have "unat (region_off c) mod 4096 = 0" if "c \<in> set (chunks r')" for c
  proof -
    from that obtain i where i: "i < n_chunks r'" "c = chunk_at r' i" by (auto simp: in_set_conv_nth)
    then have "geom c = geom (chunk_at r i)" using same_geometry_nth[OF assms(1), of i] n by simp
    then show ?thesis using assms(3) i n by (simp add: geom_def geometry_ok_def)
  qed
  then show ?thesis using assms n same_geometry_tiles[OF assms(1), of 0 "unat (region_len r)"]
    by (simp add: geometry_ok_def)
qed

lemma geom_simps: "geom c = geom d \<longleftrightarrow> file_off c = file_off d \<and> region_off c = region_off d \<and> len c = len d"
  by (auto simp: geom_def)

lemma in_chunk_geom: "geom c = geom d \<Longrightarrow> in_chunk c b = in_chunk d b"
  by (simp add: geom_def in_chunk_def)

lemma in_chunk_update [simp]:
  "in_chunk (c\<lparr>state := s\<rparr>) b = in_chunk c b" "in_chunk (c\<lparr>pin := p\<rparr>) b = in_chunk c b"
  "in_chunk (c\<lparr>fetching_since_ns := t\<rparr>) b = in_chunk c b"
  "in_chunk (c\<lparr>last_fault_seq := q\<rparr>) b = in_chunk c b"
  "in_chunk (c\<lparr>decline_until_ns := u\<rparr>) b = in_chunk c b"
  by (simp_all add: in_chunk_def)

lemma in_chunk_unique:
  assumes "tiles 0 cs e" "i < length cs" "j < length cs" "in_chunk (cs ! i) b" "in_chunk (cs ! j) b"
  shows "i = j"
proof (rule linorder_cases[of i j])
  assume "i < j"
  from tiles_before[OF assms(1) this] assms show ?thesis by (auto simp: in_chunk_def)
next
  assume "j < i"
  from tiles_before[OF assms(1) this] assms show ?thesis by (auto simp: in_chunk_def)
qed

section \<open>Eviction keeps the invariant\<close>

lemma evict_chunk_effect:
  assumes "evict_chunk K r v = Inr r'" and "v < n_chunks r"
  shows "evictable (chunks r) v"
    and "r' = (upd_chunk v (\<lambda>c. c\<lparr>state := CHUNK_ABSENT\<rparr>) (punch r (chunk_at r v)))
                 \<lparr>resident_bytes := resident_bytes r - len (chunk_at r v),
                  stat_evictions := stat_evictions r + 1,
                  stat_bytes_punched := stat_bytes_punched r + len (chunk_at r v)\<rparr>"
    and "k_punch_ok K r v"
  using assms by (auto simp: evict_chunk_def evictable_def Let_def split: if_splits)

lemma evict_chunk_inv:
  assumes inv: "budget_inv r C F X" and ev: "evict_chunk K r v = Inr r'" and v: "v < n_chunks r"
  shows "budget_inv r' (C - {v}) F X" and "static_part r' = static_part r" and "only_evicts r r'"
    and "pinned_prefetch r' = pinned_prefetch r"
proof -
  note e = evict_chunk_effect[OF ev v]
  have st: "state (chunk_at r v) = CHUNK_RESIDENT" "pin (chunk_at r v) = 0"
    using e(1) by (auto simp: evictable_def)
  have ch: "chunks r' = (chunks r)[v := (chunk_at r v)\<lparr>state := CHUNK_ABSENT\<rparr>]"
    and mem: "memfd r' = (\<lambda>b. if in_chunk (chunk_at r v) b then None else memfd r b)"
    and bytes: "resident_bytes r' = resident_bytes r - len (chunk_at r v)"
      "reserved_bytes r' = reserved_bytes r"
    and q: "pinned_prefetch r' = pinned_prefetch r"
    and oth: "region_len r' = region_len r" "model_file_size r' = model_file_size r"
      "model_data r' = model_data r"
    using e(2) by (auto simp: upd_chunk_def punch_def in_chunk_def)
  show q': "pinned_prefetch r' = pinned_prefetch r" by (rule q)
  show "static_part r' = static_part r" using e(2) by (simp add: static_part_def upd_chunk_def punch_def)
  have n: "n_chunks r' = n_chunks r" by (simp add: ch)
  have at: "chunk_at r' i = (if i = v then (chunk_at r v)\<lparr>state := CHUNK_ABSENT\<rparr> else chunk_at r i)"
    if "i < n_chunks r" for i using that by (simp add: ch nth_list_update)
  show oe: "only_evicts r r'"
    using st v by (auto simp: only_evicts_def n at q retained_def geom_def)
  note sg = only_evicts_geometry[OF oe]
  have geo: "geometry_ok r'" using geometry_ok_same[OF sg oth(1)] inv by auto
  have a: "acct r C F" and p: "pins_ok r X" and d: "data_ok r C F" and g: "geometry_ok r"
    using inv by auto
  have vC: "v \<in> C" and vF: "v \<notin> F" using a st v by (auto simp: acct_def)
  have fin: "finite C" using a finite_subset by (auto simp: acct_def)
  have "bytes_of (chunks r') (C - {v}) = bytes_of (chunks r) C - len (chunk_at r v)"
  proof -
    have "bytes_of (chunks r) (C - {v}) = bytes_of (chunks r') (C - {v})"
      using a by (intro same_geometry_bytes(1)[OF sg]) (auto simp: acct_def)
    then show ?thesis using bytes_of_remove[OF fin vC, of "chunks r"] by simp
  qed
  moreover have "bytes_of (chunks r') F = bytes_of (chunks r) F"
    using same_geometry_bytes(1)[OF sg, of F] a by (auto simp: acct_def)
  ultimately have "acct r' (C - {v}) F"
    using a vF st by (auto simp: acct_def n at bytes)
  moreover have "v \<notin> retained r" using p st v by (auto simp: pins_ok_def retained_def)
  then have "pins_ok r' X" using p v by (auto simp: pins_ok_def n at q retained_def)
  moreover have "data_ok r' (C - {v}) F"
  proof -
    have u: "i \<noteq> v \<Longrightarrow> i < n_chunks r \<Longrightarrow> in_chunk (chunk_at r i) b \<Longrightarrow> \<not> in_chunk (chunk_at r v) b" for i b
      using in_chunk_unique[of "chunks r" _ i v b] g v by (auto simp: geometry_ok_def)
    have sub: "i \<in> C \<union> F \<Longrightarrow> i < n_chunks r" for i using a by (auto simp: acct_def)
    have mb: "model_byte r' b = model_byte r b" for b by (simp add: model_byte_def oth)
    have "memfd r' b = Some (model_byte r' b)" if "i \<in> C - {v}" "in_chunk (chunk_at r' i) b" for i b
      using that d u[of i b] sub[of i] at[of i] by (auto simp: data_ok_def mem mb)
    moreover have "\<exists>i\<in>(C - {v}) \<union> F. in_chunk (chunk_at r' i) b"
      if b: "b < unat (region_len r')" "memfd r' b \<noteq> None" for b
    proof -
      have nv: "\<not> in_chunk (chunk_at r v) b" and "memfd r b \<noteq> None"
        using b(2) by (auto simp: mem split: if_splits)
      then have "\<exists>i\<in>C \<union> F. in_chunk (chunk_at r i) b"
        using d b(1) oth(1) unfolding data_ok_def by simp
      then obtain i where i: "i \<in> C \<union> F" "in_chunk (chunk_at r i) b" by blast
      then have "i \<noteq> v" using nv by auto
      with i at[of i] sub[of i] show ?thesis by (intro bexI[of _ i]) auto
    qed
    ultimately show ?thesis by (auto simp: data_ok_def)
  qed
  ultimately show "budget_inv r' (C - {v}) F X" using geo by (simp add: budget_inv_def)
qed

text \<open>Updates of fields the invariant does not read.\<close>

definition inv_part where
  "inv_part r = (region_len r, model_file_size r, model_data r, chunks r, resident_bytes r,
     reserved_bytes r, pinned_prefetch r, memfd r)"

lemma budget_inv_cong:
  assumes "inv_part r' = inv_part r"
  shows "budget_inv r' C F X = budget_inv r C F X"
proof -
  have e: "region_len r' = region_len r" "model_file_size r' = model_file_size r"
    "model_data r' = model_data r" "chunks r' = chunks r" "resident_bytes r' = resident_bytes r"
    "reserved_bytes r' = reserved_bytes r" "pinned_prefetch r' = pinned_prefetch r"
    "memfd r' = memfd r"
    using assms by (simp_all add: inv_part_def)
  show ?thesis
    by (simp only: budget_inv_def geometry_ok_def acct_def pins_ok_def data_ok_def model_byte_def e)
qed

lemma record_policy_trace_effect:
  assumes "record_policy_trace r v = Inr r'"
  obtains pt where "r' = r\<lparr>diag_policy_trace := pt\<rparr>"
proof (cases "diag_policy_trace r")
  case None
  with assms have "r' = r\<lparr>diag_policy_trace := diag_policy_trace r\<rparr>"
    by (simp add: record_policy_trace_def)
  with that show thesis by blast
next
  case (Some pt)
  show thesis
  proof (cases "policy_trace_reserve pt")
    case (Inl e)
    with assms Some show thesis by (simp add: record_policy_trace_def)
  next
    case (Inr sp)
    obtain slot pt' where sp: "sp = (slot, pt')" by (cases sp)
    from assms Some Inr sp have "\<exists>p. r' = r\<lparr>diag_policy_trace := p\<rparr>"
      unfolding record_policy_trace_def by (simp add: Let_def) blast
    with that show thesis by blast
  qed
qed

lemma evict_and_reconcile_effect:
  assumes "evict_and_reconcile K r v = Inr r'"
  obtains r1 where "evict_chunk K r v = Inr r1" "reconcile K r1 = Inr ()"
    "r' = r1\<lparr>fetches_since_reconcile := 0\<rparr>"
  using assms that by (auto simp: evict_and_reconcile_def rbind_Inr_iff)

text \<open>One round of either loop: the result of every call that evicts.\<close>

definition evict_ok :: "region \<Rightarrow> nat set \<Rightarrow> nat set \<Rightarrow> (nat \<Rightarrow> u32) \<Rightarrow> region \<Rightarrow> bool" where
  "evict_ok r C F X r' \<longleftrightarrow>
     (\<exists>C'\<subseteq>C. budget_inv r' C' F X) \<and> static_part r' = static_part r \<and> only_evicts r r'"

lemma evict_ok_refl:
  assumes "budget_inv r C F X" "inv_part r' = inv_part r" "static_part r' = static_part r"
  shows "evict_ok r C F X r'"
proof -
  have "budget_inv r' C F X" using budget_inv_cong[OF assms(2)] assms(1) by simp
  moreover have "only_evicts r r'"
    using assms(2) by (intro only_evicts_refl) (auto simp: inv_part_def retained_def)
  ultimately show ?thesis using assms(3) by (auto simp: evict_ok_def)
qed

lemma evict_ok_trans:
  assumes "evict_ok r C F X r1" and "\<And>C'. C' \<subseteq> C \<Longrightarrow> budget_inv r1 C' F X \<Longrightarrow> evict_ok r1 C' F X r2"
  shows "evict_ok r C F X r2"
proof -
  from assms(1) obtain C1 where c1: "C1 \<subseteq> C" "budget_inv r1 C1 F X"
    and s1: "static_part r1 = static_part r" "only_evicts r r1" by (auto simp: evict_ok_def)
  from assms(2)[OF c1] obtain C2 where c2: "C2 \<subseteq> C1" "budget_inv r2 C2 F X"
    and s2: "static_part r2 = static_part r1" "only_evicts r1 r2" by (auto simp: evict_ok_def)
  have "C2 \<subseteq> C" using c1(1) c2(1) by blast
  with c2(2) s1 s2 only_evicts_trans[OF s1(2) s2(2)] show ?thesis by (auto simp: evict_ok_def)
qed

lemma evict_and_reconcile_ok:
  assumes "budget_inv r C F X" "evict_and_reconcile K r v = Inr r'" "v < n_chunks r"
  shows "evict_ok r C F X r'"
proof -
  from evict_and_reconcile_effect[OF assms(2)] obtain r1 where
    ev: "evict_chunk K r v = Inr r1" and r': "r' = r1\<lparr>fetches_since_reconcile := 0\<rparr>" by blast
  note e = evict_chunk_inv[OF assms(1) ev assms(3)]
  have "evict_ok r C F X r1" using e by (auto simp: evict_ok_def)
  then show ?thesis
  proof (rule evict_ok_trans)
    fix C' assume "budget_inv r1 C' F X"
    then show "evict_ok r1 C' F X r'"
      by (rule evict_ok_refl) (simp_all add: r' inv_part_def static_part_def)
  qed
qed

text \<open>Releasing a retention pin.\<close>

lemma retain_release_inv:
  assumes inv: "budget_inv r C F X" and i: "i \<in> retained r"
  shows "budget_inv (prefetch_retain_release r i) C F X"
    and "evictable (chunks (prefetch_retain_release r i)) i"
    and "only_evicts r (prefetch_retain_release r i)"
    and "static_part (prefetch_retain_release r i) = static_part r"
    and "retained (prefetch_retain_release r i) = retained r - {i}"
proof -
  let ?r = "prefetch_retain_release r i"
  have p: "pins_ok r X" and a: "acct r C F" and d: "data_ok r C F" and g: "geometry_ok r"
    using inv by auto
  have wf: "ring_wf (pinned_prefetch r)" and dist: "distinct (ring_list (pinned_prefetch r))"
    using p by (auto simp: pins_ok_def)
  from ring_fifo.remove_shrinks[OF wf] i obtain q where q:
    "ring_remove (pinned_prefetch r) i = Some q" "ring_wf q" by (auto simp: retained_def)
  have ql: "distinct (ring_list q)" "set (ring_list q) = set (ring_list (pinned_prefetch r)) - {i}"
    using ring_fifo.distinct_remove[OF wf dist q(1)] by auto
  have r': "?r = upd_chunk i (\<lambda>c. c\<lparr>pin := pin c - 1\<rparr>) (r\<lparr>pinned_prefetch := q\<rparr>)"
    by (simp add: prefetch_retain_release_def q(1))
  have i': "i < n_chunks r" "state (chunk_at r i) = CHUNK_RESIDENT" "X i = 0" "pin (chunk_at r i) = 1"
    using p i by (auto simp: pins_ok_def retained_def)
  have n: "n_chunks ?r = n_chunks r" by simp
  have at: "chunk_at ?r j = (if j = i then (chunk_at r i)\<lparr>pin := 0\<rparr> else chunk_at r j)"
    if "j < n_chunks r" for j using that i' by (auto simp: r' upd_chunk_def nth_list_update)
  show ret: "retained ?r = retained r - {i}" using ql by (simp add: r' retained_def upd_chunk_def)
  show "evictable (chunks ?r) i" using at[OF i'(1)] i' by (simp add: evictable_def)
  show oe: "only_evicts r ?r"
    using i' i ret by (auto simp: only_evicts_def n at geom_def)
  show "static_part ?r = static_part r" by (simp add: static_part_def r' upd_chunk_def)
  note sg = only_evicts_geometry[OF oe]
  have oth: "region_len ?r = region_len r" "model_file_size ?r = model_file_size r"
    "model_data ?r = model_data r" "memfd ?r = memfd r" "resident_bytes ?r = resident_bytes r"
    "reserved_bytes ?r = reserved_bytes r" "pinned_prefetch ?r = q"
    by (simp_all add: r' upd_chunk_def)
  have b: "bytes_of (chunks ?r) C = bytes_of (chunks r) C" "bytes_of (chunks ?r) F = bytes_of (chunks r) F"
    using a same_geometry_bytes(1)[OF sg] by (auto simp: acct_def)
  have st: "state (chunk_at ?r j) = state (chunk_at r j)" if "j < n_chunks r" for j
    using at[OF that] by simp
  have "acct ?r C F" using a b st by (auto simp: acct_def n oth)
  moreover have "pins_ok ?r X"
    using p i' ql q(2) at st by (auto simp: pins_ok_def n oth)
  moreover have "data_ok ?r C F"
  proof -
    have "in_chunk (chunk_at ?r j) b = in_chunk (chunk_at r j) b" if "j \<in> C \<union> F" for j b
    proof -
      have "j < n_chunks r" using a that by (auto simp: acct_def)
      then show ?thesis using at[of j] by simp
    qed
    then show ?thesis using d by (auto simp: data_ok_def oth model_byte_def)
  qed
  ultimately show "budget_inv ?r C F X" using geometry_ok_same[OF sg oth(1) g] by (simp add: budget_inv_def)
qed

section \<open>The loops\<close>

lemma pin_break_spec:
  assumes "pins_ok r X"
  shows "case pin_break_select_victim r of
           None \<Rightarrow> retained r = {}
         | Some v \<Rightarrow> v \<in> retained r \<and> v < n_chunks r
             \<and> (\<forall>i\<in>retained r. next_use_distance r i \<le> next_use_distance r v)"
proof (cases "pick (>) (\<lambda>i. state (chunk_at r i) = CHUNK_RESIDENT) (next_use_distance r)
             (ring_list (pinned_prefetch r)) None")
  case None
  then have "\<forall>i\<in>retained r. state (chunk_at r i) \<noteq> CHUNK_RESIDENT"
    by (simp add: retained_def int_greater.pick_None_iff)
  then have "retained r = {}" using assms by (auto simp: pins_ok_def retained_def)
  with None show ?thesis by (simp add: pin_break_select_victim_def)
next
  case (Some vk)
  obtain v k where vk: "vk = (v, k)" by (cases vk)
  note P = int_greater.pick_SomeD[OF Some[unfolded vk]]
  have "v \<in> retained r" using P(1) by (simp add: retained_def)
  moreover have "v < n_chunks r" using assms P(1) by (auto simp: pins_ok_def)
  moreover have "next_use_distance r i \<le> next_use_distance r v" if "i \<in> retained r" for i
    using P(4)[of i] that assms by (auto simp: retained_def pins_ok_def not_less)
  ultimately show ?thesis using Some vk by (simp add: pin_break_select_victim_def)
qed

definition broken_pin :: "region \<Rightarrow> nat \<Rightarrow> region" where
  "broken_pin r v = (prefetch_retain_release r v)
     \<lparr>stat_pin_broken := stat_pin_broken (prefetch_retain_release r v) + 1\<rparr>"

lemma broken_pin_ok:
  assumes "budget_inv r C F X" "v \<in> retained r"
  shows "evict_ok r C F X (broken_pin r v)" and "budget_inv (broken_pin r v) C F X"
    and "evictable (chunks (broken_pin r v)) v" and "n_chunks (broken_pin r v) = n_chunks r"
proof -
  note R = retain_release_inv[OF assms]
  show inv: "budget_inv (broken_pin r v) C F X"
    using budget_inv_cong[of "broken_pin r v" "prefetch_retain_release r v"] R(1)
    by (simp add: broken_pin_def inv_part_def)
  show "evictable (chunks (broken_pin r v)) v" using R(2) by (simp add: broken_pin_def)
  show "n_chunks (broken_pin r v) = n_chunks r" by (simp add: broken_pin_def)
  have "static_part (broken_pin r v) = static_part r"
    using R(4) by (simp add: static_part_def broken_pin_def)
  moreover have "only_evicts r (broken_pin r v)"
    using R(3) by (simp add: only_evicts_def broken_pin_def retained_def)
  ultimately show "evict_ok r C F X (broken_pin r v)" using inv by (auto simp: evict_ok_def)
qed

lemma record_policy_trace_ok:
  assumes "budget_inv r C F X" "record_policy_trace r v = Inr r'"
  shows "evict_ok r C F X r'" "budget_inv r' C F X"
proof -
  from record_policy_trace_effect[OF assms(2)] obtain pt where r': "r' = r\<lparr>diag_policy_trace := pt\<rparr>" .
  then have "inv_part r' = inv_part r" "static_part r' = static_part r"
    by (simp_all add: inv_part_def static_part_def)
  then show "evict_ok r C F X r'" "budget_inv r' C F X"
    using evict_ok_refl[OF assms(1), of r'] budget_inv_cong[of r' r C F X] assms(1) by simp_all
qed

text \<open>When the loop gives up there is nothing left that a demand fetch may evict.\<close>

definition nothing_evictable :: "region \<Rightarrow> bool" where
  "nothing_evictable r \<longleftrightarrow> (\<forall>i<n_chunks r. \<not> evictable (chunks r) i)
     \<and> (prefetch_retention_pinned r \<longrightarrow> retained r = {})"

lemma evict_loop_unfold:
  "evict_loop K need r =
     (if \<not> over_budget r need then Inr (True, r)
      else case select_victim r of
        None \<Rightarrow>
          (case (if prefetch_retention_pinned r then pin_break_select_victim r else None) of
             Some pv \<Rightarrow>
               if pv < n_chunks r then
                 rbind (evict_and_reconcile K (broken_pin r pv) pv) (evict_loop K need)
               else Inl Evict_not_resident
           | None \<Rightarrow> Inr (False, r\<lparr>stat_infeasible := stat_infeasible r + 1\<rparr>))
      | Some v \<Rightarrow>
          rbind (record_policy_trace r v) (\<lambda>r0.
          rbind (evict_and_reconcile K r0 v) (evict_loop K need)))"
  by (subst evict_loop.simps) (simp only: broken_pin_def)

text \<open>The aborts that assert the program's own state machine.\<close>

definition fatal_evict :: "failure \<Rightarrow> bool" where
  "fatal_evict e \<longleftrightarrow> e = Evict_not_resident \<or> e = Evict_pinned \<or> e = Demand_not_fetching \<or> e = Left_fetching"

lemma evict_and_reconcile_no_fatal:
  assumes "evict_and_reconcile K r v = Inl e" and "evictable (chunks r) v"
  shows "\<not> fatal_evict e"
  using assms
  by (auto simp: evict_and_reconcile_def rbind_Inl_iff evict_chunk_def evictable_def fatal_evict_def
      reconcile_def read_memory_stat_shmem_def Let_def split: if_splits option.splits)

lemma record_policy_trace_no_fatal:
  assumes "record_policy_trace r v = Inl e"
  shows "\<not> fatal_evict e"
proof (cases "diag_policy_trace r")
  case None
  with assms show ?thesis by (simp add: record_policy_trace_def)
next
  case (Some pt)
  show ?thesis
  proof (cases "policy_trace_reserve pt")
    case (Inl e')
    then have "e' = Policy_trace_full" by (simp add: policy_trace_reserve_def split: if_splits)
    with assms Some Inl show ?thesis by (simp add: record_policy_trace_def fatal_evict_def)
  next
    case (Inr sp)
    then show ?thesis using assms Some
      by (cases sp) (simp add: record_policy_trace_def Let_def)
  qed
qed

text \<open>One induction for everything the demand loop guarantees.\<close>

lemma evict_loop_spec:
  "budget_inv r C F X \<Longrightarrow>
   (case evict_loop K need r of
      Inl e \<Rightarrow> \<not> fatal_evict e
    | Inr (ok, r') \<Rightarrow> evict_ok r C F X r'
        \<and> (if ok then \<not> over_budget r' need else nothing_evictable r' \<and> over_budget r' need))"
proof (induction K need r arbitrary: C rule: evict_loop.induct)
  case (1 K need r)
  let ?Q = "\<lambda>r C res. case res of
      Inl e \<Rightarrow> \<not> fatal_evict e
    | Inr (ok, r') \<Rightarrow> evict_ok r C F X r'
        \<and> (if ok then \<not> over_budget r' need else nothing_evictable r' \<and> over_budget r' need)"
  have inv: "budget_inv r C F X" by (rule 1(3))
  have lift: "?Q r C res" if "evict_ok r C F X r1" "\<And>C'. budget_inv r1 C' F X \<Longrightarrow> ?Q r1 C' res" for r1 res
  proof -
    from that(1) obtain C1 where "budget_inv r1 C1 F X" by (auto simp: evict_ok_def)
    with that show ?thesis by (auto split: sum.splits prod.splits if_splits intro: evict_ok_trans)
  qed
  show ?case
  proof (cases "over_budget r need")
    case False
    have "evict_ok r C F X r" by (rule evict_ok_refl[OF inv refl refl])
    with False show ?thesis by (simp add: evict_loop_unfold)
  next
    case over: True
    show ?thesis
    proof (cases "select_victim r")
      case None
      show ?thesis
      proof (cases "if prefetch_retention_pinned r then pin_break_select_victim r else None")
        case none: None
        let ?r = "r\<lparr>stat_infeasible := stat_infeasible r + 1\<rparr>"
        have "evict_ok r C F X ?r"
          by (rule evict_ok_refl[OF inv]) (simp_all add: inv_part_def static_part_def)
        moreover have "nothing_evictable ?r"
          using select_victim_complete[OF None] none inv pin_break_spec[of r X]
          by (auto simp: nothing_evictable_def retained_def split: if_splits)
        moreover have "over_budget ?r need" using over by (simp add: over_budget_def)
        ultimately show ?thesis using over None none by (subst evict_loop_unfold) simp
      next
        case (Some pv)
        then have pb: "prefetch_retention_pinned r" "pin_break_select_victim r = Some pv"
          by (auto split: if_splits)
        then have pv: "pv \<in> retained r" "pv < n_chunks r"
          using pin_break_spec[of r X] inv by auto
        note B = broken_pin_ok[OF inv pv(1)]
        have unf: "evict_loop K need r =
            rbind (evict_and_reconcile K (broken_pin r pv) pv) (evict_loop K need)"
          using over None Some pv(2) by (subst evict_loop_unfold) simp
        show ?thesis
        proof (cases "evict_and_reconcile K (broken_pin r pv) pv")
          case (Inl e)
          then show ?thesis using unf evict_and_reconcile_no_fatal[OF Inl B(3)] by simp
        next
          case (Inr r1)
          have ok1: "evict_ok r C F X r1"
            using B(1)
          proof (rule evict_ok_trans)
            fix C' assume "budget_inv (broken_pin r pv) C' F X"
            then show "evict_ok (broken_pin r pv) C' F X r1"
              by (rule evict_and_reconcile_ok[OF _ Inr]) (simp add: B(4) pv(2))
          qed
          have "?Q r1 C' (evict_loop K need r1)" if "budget_inv r1 C' F X" for C'
            by (rule 1(1)[OF _ None Some pv(2) _ that]) (use over Inr in \<open>simp_all add: broken_pin_def\<close>)
          then show ?thesis using lift[OF ok1] unf Inr by simp
        qed
      qed
    next
      case (Some v)
      have v: "v < n_chunks r" "evictable (chunks r) v" using select_victim_sound[OF Some] by auto
      have unf: "evict_loop K need r = rbind (record_policy_trace r v) (\<lambda>r0.
          rbind (evict_and_reconcile K r0 v) (evict_loop K need))"
        using over Some by (subst evict_loop_unfold) simp
      show ?thesis
      proof (cases "record_policy_trace r v")
        case (Inl e)
        then show ?thesis using unf record_policy_trace_no_fatal[OF Inl] by simp
      next
        case rec: (Inr r0)
        note R = record_policy_trace_ok[OF inv rec]
        have c0: "chunks r0 = chunks r" using rec by simp
        show ?thesis
        proof (cases "evict_and_reconcile K r0 v")
          case (Inl e)
          then show ?thesis using unf rec evict_and_reconcile_no_fatal[OF Inl] v c0 by simp
        next
          case (Inr r1)
          have ok1: "evict_ok r C F X r1"
            using R(1)
          proof (rule evict_ok_trans)
            fix C' assume "budget_inv r0 C' F X"
            then show "evict_ok r0 C' F X r1"
              by (rule evict_and_reconcile_ok[OF _ Inr]) (simp add: c0 v)
          qed
          have "?Q r1 C' (evict_loop K need r1)" if "budget_inv r1 C' F X" for C'
            by (rule 1(2)[OF _ Some rec Inr that]) (use over in simp)
          then show ?thesis using lift[OF ok1] unf rec Inr by simp
        qed
      qed
    qed
  qed
qed

text \<open>
  The speculative loop, for a target that is not counted yet. Its verdict on failure is either that
  no unpinned RESIDENT chunk is left, or that the policy's victim is not needed strictly later than
  the target.
\<close>

definition prefetch_refused :: "region \<Rightarrow> nat \<Rightarrow> bool" where
  "prefetch_refused r target \<longleftrightarrow>
     (\<forall>i<n_chunks r. \<not> evictable (chunks r) i)
     \<or> \<not> prefetch_admission_always r \<and> policy_of r \<noteq> None
        \<and> (\<exists>v. select_victim r = Some v \<and> next_use_distance r v \<le> next_use_distance r target)"

lemma select_victim_cong:
  "chunks r' = chunks r \<Longrightarrow> policy_of r' = policy_of r \<Longrightarrow> flags r' = flags r \<Longrightarrow>
   select_victim r' = select_victim r \<and> next_use_distance r' i = next_use_distance r i"
  by (simp add: select_victim_def next_use_distance_def split: option.split)

lemma prefetch_evict_loop_spec:
  "budget_inv r C F X \<Longrightarrow>
   (case prefetch_evict_loop K target need r of
      Inl e \<Rightarrow> \<not> fatal_evict e
    | Inr (ok, r') \<Rightarrow> evict_ok r C F X r'
        \<and> (if ok then \<not> over_budget r' need else prefetch_refused r' target \<and> over_budget r' need))"
proof (induction K target need r arbitrary: C rule: prefetch_evict_loop.induct)
  case (1 K target need r)
  let ?Q = "\<lambda>r C res. case res of
      Inl e \<Rightarrow> \<not> fatal_evict e
    | Inr (ok, r') \<Rightarrow> evict_ok r C F X r'
        \<and> (if ok then \<not> over_budget r' need else prefetch_refused r' target \<and> over_budget r' need)"
  have inv: "budget_inv r C F X" by (rule 1(2))
  have lift: "?Q r C res" if "evict_ok r C F X r1" "\<And>C'. budget_inv r1 C' F X \<Longrightarrow> ?Q r1 C' res" for r1 res
  proof -
    from that(1) obtain C1 where "budget_inv r1 C1 F X" by (auto simp: evict_ok_def)
    with that show ?thesis by (auto split: sum.splits prod.splits if_splits intro: evict_ok_trans)
  qed
  show ?case
  proof (cases "over_budget r need")
    case False
    have "evict_ok r C F X r" by (rule evict_ok_refl[OF inv refl refl])
    with False show ?thesis by (simp add: prefetch_evict_loop.simps[of K target need r])
  next
    case over: True
    show ?thesis
    proof (cases "select_victim r")
      case None
      let ?r = "r\<lparr>stat_infeasible := stat_infeasible r + 1\<rparr>"
      have "evict_ok r C F X ?r"
        by (rule evict_ok_refl[OF inv]) (simp_all add: inv_part_def static_part_def)
      moreover have "prefetch_refused ?r target"
        using select_victim_complete[OF None] by (simp add: prefetch_refused_def)
      moreover have "over_budget ?r need" using over by (simp add: over_budget_def)
      ultimately show ?thesis using over None by (subst prefetch_evict_loop.simps) simp
    next
      case (Some v)
      have v: "v < n_chunks r" "evictable (chunks r) v" using select_victim_sound[OF Some] by auto
      show ?thesis
      proof (cases "prefetch_admit r v target")
        case False
        let ?r = "r\<lparr>stat_prefetch_declined := stat_prefetch_declined r + 1\<rparr>"
        have "evict_ok r C F X ?r"
          by (rule evict_ok_refl[OF inv]) (simp_all add: inv_part_def static_part_def)
        moreover have "select_victim ?r = select_victim r" "next_use_distance ?r i = next_use_distance r i" for i
          using select_victim_cong[of ?r r] by simp_all
        then have "prefetch_refused ?r target"
          using False Some by (auto simp: prefetch_refused_def prefetch_admit_def not_less)
        moreover have "over_budget ?r need" using over by (simp add: over_budget_def)
        ultimately show ?thesis using over Some False by (subst prefetch_evict_loop.simps) simp
      next
        case admit: True
        have unf: "prefetch_evict_loop K target need r = rbind (record_policy_trace r v) (\<lambda>r0.
            rbind (evict_and_reconcile K r0 v) (prefetch_evict_loop K target need))"
          using over Some admit by (subst prefetch_evict_loop.simps) simp
        show ?thesis
        proof (cases "record_policy_trace r v")
          case (Inl e)
          then show ?thesis using unf record_policy_trace_no_fatal[OF Inl] by simp
        next
          case rec: (Inr r0)
          note R = record_policy_trace_ok[OF inv rec]
          have c0: "chunks r0 = chunks r" using rec by simp
          show ?thesis
          proof (cases "evict_and_reconcile K r0 v")
            case (Inl e)
            then show ?thesis using unf rec evict_and_reconcile_no_fatal[OF Inl] v c0 by simp
          next
            case (Inr r1)
            have ok1: "evict_ok r C F X r1"
              using R(1)
            proof (rule evict_ok_trans)
              fix C' assume "budget_inv r0 C' F X"
              then show "evict_ok r0 C' F X r1"
                by (rule evict_and_reconcile_ok[OF _ Inr]) (simp add: c0 v)
            qed
            have "?Q r1 C' (prefetch_evict_loop K target need r1)" if "budget_inv r1 C' F X" for C'
              by (rule 1(1)[OF _ Some _ rec Inr that]) (use over admit in simp_all)
            then show ?thesis using lift[OF ok1] unf rec Inr by simp
          qed
        qed
      qed
    qed
  qed
qed

section \<open>Reserving\<close>

lemma scheduled_reconcile_spec:
  assumes "budget_inv r C F X"
  shows "case scheduled_reconcile K r of
           Inl e \<Rightarrow> \<not> fatal_evict e
         | Inr r' \<Rightarrow> evict_ok r C F X r' \<and> chunks r' = chunks r"
proof -
  let ?a = "r\<lparr>fetches_since_reconcile := fetches_since_reconcile r + 1\<rparr>"
    and ?b = "r\<lparr>fetches_since_reconcile := 0\<rparr>"
  have "evict_ok r C F X ?a" "evict_ok r C F X ?b"
    by (rule evict_ok_refl[OF assms]; simp add: inv_part_def static_part_def)+
  moreover have "reconcile K ?a = Inl e \<Longrightarrow> \<not> fatal_evict e" for e
    by (auto simp: reconcile_def rbind_Inl_iff read_memory_stat_shmem_def fatal_evict_def Let_def
        split: if_splits option.splits)
  ultimately show ?thesis
    by (cases "reconcile K ?a") (auto simp: scheduled_reconcile_def Let_def)
qed

lemma no_wrap:
  assumes "budget_inv r C F X" and "i < n_chunks r" and "i \<notin> C \<union> F"
  shows "unat (resident_bytes r) + unat (reserved_bytes r) + unat (len (chunk_at r i)) \<le> unat (region_len r)"
    and "over_budget r (len (chunk_at r i)) \<longleftrightarrow> unat (budget_bytes r)
           < unat (resident_bytes r) + unat (reserved_bytes r) + unat (len (chunk_at r i))"
proof -
  have a: "acct r C F" and g: "geometry_ok r" using assms(1) by auto
  have t: "tiles 0 (chunks r) (unat (region_len r))" and L: "unat (region_len r) < 2 ^ 64"
    using g by (auto simp: geometry_ok_def)
  have sub: "C \<subseteq> {..<n_chunks r}" "F \<subseteq> {..<n_chunks r}" "C \<inter> F = {}"
    using a by (auto simp: acct_def)
  have fin: "finite C" "finite F" using sub finite_subset by blast+
  have u: "unat (resident_bytes r) = nbytes_of (chunks r) C" "unat (reserved_bytes r) = nbytes_of (chunks r) F"
    using a unat_bytes_of[OF t L sub(1)] unat_bytes_of[OF t L sub(2)] by (auto simp: acct_def)
  have "nbytes_of (chunks r) (insert i (C \<union> F)) \<le> unat (region_len r)"
    using assms(2) sub by (intro nbytes_of_le_region[OF t]) auto
  moreover have "nbytes_of (chunks r) (insert i (C \<union> F))
      = unat (len (chunk_at r i)) + (nbytes_of (chunks r) C + nbytes_of (chunks r) F)"
    using assms(3) fin sub(3) by (simp add: nbytes_of_insert nbytes_of_union)
  ultimately show le: "unat (resident_bytes r) + unat (reserved_bytes r) + unat (len (chunk_at r i))
      \<le> unat (region_len r)" using u by simp
  have "unat (resident_bytes r + reserved_bytes r) = unat (resident_bytes r) + unat (reserved_bytes r)"
    using le L by (intro unat_add_exact) simp
  moreover have "unat (resident_bytes r + reserved_bytes r + len (chunk_at r i))
      = unat (resident_bytes r + reserved_bytes r) + unat (len (chunk_at r i))"
    using le L calculation by (intro unat_add_exact) simp
  ultimately show "over_budget r (len (chunk_at r i)) \<longleftrightarrow> unat (budget_bytes r)
           < unat (resident_bytes r) + unat (reserved_bytes r) + unat (len (chunk_at r i))"
    by (simp add: over_budget_def word_less_nat_alt)
qed

lemma reserve_inv:
  assumes "budget_inv r C F X" and "i < n_chunks r" and "i \<notin> C \<union> F"
    and "state (chunk_at r i) = CHUNK_FETCHING"
  shows "budget_inv (reserve (len (chunk_at r i)) r) C (insert i F) X"
proof -
  have a: "acct r C F" and g: "geometry_ok r" and p: "pins_ok r X" and d: "data_ok r C F"
    using assms(1) by auto
  have "finite F" using a finite_subset by (auto simp: acct_def)
  then have "acct (reserve (len (chunk_at r i)) r) C (insert i F)"
    using a assms(2-4) by (auto simp: acct_def reserve_def bytes_of_insert)
  moreover have "data_ok (reserve (len (chunk_at r i)) r) C (insert i F)"
    using d unfolding data_ok_def by (auto simp: reserve_def model_byte_def)
  ultimately show ?thesis using g p
    by (simp add: budget_inv_def geometry_ok_def pins_ok_def reserve_def)
qed

lemma only_evicts_fetching:
  "only_evicts r r' \<Longrightarrow> i < n_chunks r \<Longrightarrow> state (chunk_at r i) \<noteq> CHUNK_RESIDENT \<Longrightarrow>
   chunk_at r' i = chunk_at r i \<and> n_chunks r' = n_chunks r"
  by (simp add: only_evicts_def)

lemma reserve_only_evicts: "only_evicts r (reserve n r') = only_evicts r r'"
  by (simp add: only_evicts_def reserve_def retained_def)

lemma static_part_budget: "static_part r' = static_part r \<Longrightarrow> budget_bytes r' = budget_bytes r
    \<and> prefetch_retention_pinned r' = prefetch_retention_pinned r"
  by (simp add: static_part_def)

text \<open>What a caller of either reservation function gets, for a target it has marked FETCHING.\<close>

definition reserved_for :: "region \<Rightarrow> nat set \<Rightarrow> nat set \<Rightarrow> (nat \<Rightarrow> u32) \<Rightarrow> nat \<Rightarrow> region \<Rightarrow> bool" where
  "reserved_for r C F X i r' \<longleftrightarrow>
     (\<exists>C'\<subseteq>C. budget_inv r' C' (insert i F) X)
     \<and> unat (resident_bytes r') + unat (reserved_bytes r') \<le> unat (budget_bytes r)
     \<and> static_part r' = static_part r \<and> only_evicts r r'"

lemma reserve_after_evictions:
  assumes "budget_inv r C F X" "i < n_chunks r" "i \<notin> C \<union> F" "state (chunk_at r i) = CHUNK_FETCHING"
    and "evict_ok r C F X r'" "\<not> over_budget r' (len (chunk_at r i))"
  shows "reserved_for r C F X i (reserve (len (chunk_at r i)) r')"
proof -
  from assms(5) obtain C' where C': "C' \<subseteq> C" "budget_inv r' C' F X"
    and st: "static_part r' = static_part r" and oe: "only_evicts r r'" by (auto simp: evict_ok_def)
  have same: "chunk_at r' i = chunk_at r i" "n_chunks r' = n_chunks r"
    using only_evicts_fetching[OF oe assms(2)] assms(4) by auto
  have i': "i < n_chunks r'" "i \<notin> C' \<union> F" using assms C' same by auto
  note W = no_wrap[OF C'(2) i']
  have inv: "budget_inv (reserve (len (chunk_at r i)) r') C' (insert i F) X"
    using reserve_inv[OF C'(2) i'] assms(4) same by simp
  have "unat (reserved_bytes r' + len (chunk_at r' i)) = unat (reserved_bytes r') + unat (len (chunk_at r' i))"
    using W(1) u64_bound[of "region_len r'"] by (intro unat_add_exact) simp
  then have "unat (resident_bytes r') + unat (reserved_bytes r' + len (chunk_at r i)) \<le> unat (budget_bytes r)"
    using W(2) assms(6) same static_part_budget[OF st] by simp
  moreover have "static_part (reserve n r') = static_part r" for n
    using st by (simp add: static_part_def reserve_def)
  ultimately show ?thesis using inv C'(1) oe
    by (auto simp: reserved_for_def reserve_only_evicts) (auto simp: reserve_def)
qed

lemma evict_ok_stays:
  assumes "evict_ok r C F X r1" "i < n_chunks r" "state (chunk_at r i) = CHUNK_FETCHING" "i \<notin> C \<union> F"
  obtains C1 where "C1 \<subseteq> C" "budget_inv r1 C1 F X" "i < n_chunks r1" "i \<notin> C1 \<union> F"
    "chunk_at r1 i = chunk_at r i"
  using assms only_evicts_fetching[of r r1 i] by (auto simp: evict_ok_def)

lemma ensure_budget_spec:
  assumes "budget_inv r C F X" and "i < n_chunks r" and "i \<notin> C \<union> F"
    and "state (chunk_at r i) = CHUNK_FETCHING"
    and "ensure_budget K r (len (chunk_at r i)) = Inr (ok, r')"
  shows "if ok then reserved_for r C F X i r'
         else evict_ok r C F X r' \<and> nothing_evictable r'
           \<and> unat (budget_bytes r) < unat (resident_bytes r') + unat (reserved_bytes r')
                + unat (len (chunk_at r i))"
proof -
  let ?need = "len (chunk_at r i)"
  from assms(5) obtain r1 r2 where s: "scheduled_reconcile K r = Inr r1"
    and l: "evict_loop K ?need r1 = Inr (ok, r2)" and r': "r' = (if ok then reserve ?need r2 else r2)"
    by (auto simp: ensure_budget_def rbind_Inr_iff)
  have e1: "evict_ok r C F X r1" using scheduled_reconcile_spec[OF assms(1), of K] s by simp
  have spec: "evict_ok r1 C1 F X r2 \<and> (if ok then \<not> over_budget r2 ?need
      else nothing_evictable r2 \<and> over_budget r2 ?need)" if "budget_inv r1 C1 F X" for C1
    using evict_loop_spec[OF that, where K = K and need = ?need] l by simp
  have e2: "evict_ok r C F X r2"
    using e1 by (rule evict_ok_trans) (use spec in blast)
  from evict_ok_stays[OF e1 assms(2,4,3)] spec
  have over: "if ok then \<not> over_budget r2 ?need else nothing_evictable r2 \<and> over_budget r2 ?need"
    by metis
  show ?thesis
  proof (cases ok)
    case True
    then show ?thesis using reserve_after_evictions[OF assms(1-4) e2] over r' by simp
  next
    case False
    from evict_ok_stays[OF e2 assms(2,4,3)] obtain C2 where
      "budget_inv r2 C2 F X" "i < n_chunks r2" "i \<notin> C2 \<union> F" "chunk_at r2 i = chunk_at r i" by metis
    from no_wrap(2)[OF this(1,2,3)] this(4) False over e2 r' show ?thesis
      using static_part_budget[of r2 r] by (auto simp: evict_ok_def)
  qed
qed

text \<open>
  C8. The budget is a hard bound. For a chunk that is being fetched and not yet counted,
  \<^verbatim>\<open>ensure_budget\<close> either reserves its bytes, and then the resident and the reserved bytes
  together are within \<^verbatim>\<open>budget_bytes\<close> as exact numbers (no 64-bit sum wraps), having only
  evicted RESIDENT chunks and released retention pins; or it reports infeasible, and then no
  RESIDENT chunk is unpinned, none is retained (under pinned retention), and the bytes really do not
  fit. In both cases every invariant of the accounting, the pins and the data is kept.
\<close>

theorem ensure_budget_correct:
  assumes "budget_inv r C F X" and "i < n_chunks r" and "i \<notin> C \<union> F"
    and "state (chunk_at r i) = CHUNK_FETCHING"
    and "ensure_budget K r (len (chunk_at r i)) = Inr (ok, r')"
  shows "if ok then reserved_for r C F X i r'
         else evict_ok r C F X r' \<and> nothing_evictable r'
           \<and> unat (budget_bytes r) < unat (resident_bytes r') + unat (reserved_bytes r')
                + unat (len (chunk_at r i))"
  using assms by (rule ensure_budget_spec)

lemma ensure_budget_prefetch_spec:
  assumes "budget_inv r C F X" and "i < n_chunks r" and "i \<notin> C \<union> F"
    and "state (chunk_at r i) = CHUNK_FETCHING"
    and "ensure_budget_prefetch K r i = Inr (ok, r')"
  shows "if ok then reserved_for r C F X i r'
         else evict_ok r C F X r' \<and> prefetch_refused r' i"
proof -
  let ?need = "len (chunk_at r i)"
  from assms(5) obtain r1 r2 where s: "scheduled_reconcile K r = Inr r1"
    and l: "prefetch_evict_loop K i (len (chunk_at r1 i)) r1 = Inr (ok, r2)"
    and r': "r' = (if ok then reserve (len (chunk_at r1 i)) r2 else r2)"
    by (auto simp: ensure_budget_prefetch_def rbind_Inr_iff Let_def)
  have e1: "evict_ok r C F X r1" and c1: "chunks r1 = chunks r"
    using scheduled_reconcile_spec[OF assms(1), of K] s by auto
  have spec: "evict_ok r1 C1 F X r2 \<and> (if ok then \<not> over_budget r2 ?need else prefetch_refused r2 i)"
    if "budget_inv r1 C1 F X" for C1
    using prefetch_evict_loop_spec[OF that, where K = K and target = i and need = ?need] l c1 by (auto split: if_splits)
  have e2: "evict_ok r C F X r2"
    using e1 by (rule evict_ok_trans) (use spec in blast)
  from evict_ok_stays[OF e1 assms(2,4,3)] spec
  have over: "if ok then \<not> over_budget r2 ?need else prefetch_refused r2 i"
    by metis
  show ?thesis
  proof (cases ok)
    case True
    then show ?thesis using reserve_after_evictions[OF assms(1-4) e2] over r' c1 by simp
  next
    case False
    then show ?thesis using e2 over r' by simp
  qed
qed


lemma budget_failures:
  assumes "budget_inv r C F X"
  shows "ensure_budget K r need = Inl e \<Longrightarrow> \<not> fatal_evict e"
    and "ensure_budget_prefetch K r i = Inl e \<Longrightarrow> \<not> fatal_evict e"
proof -
  assume e: "ensure_budget K r need = Inl e"
  show "\<not> fatal_evict e"
  proof (cases "scheduled_reconcile K r")
    case (Inl e')
    then show ?thesis using e scheduled_reconcile_spec[OF assms, of K] by (simp add: ensure_budget_def)
  next
    case (Inr r1)
    then obtain C1 where "budget_inv r1 C1 F X"
      using scheduled_reconcile_spec[OF assms, of K] by (auto simp: evict_ok_def)
    from evict_loop_spec[OF this, where K = K and need = need] e Inr show ?thesis
      by (auto simp: ensure_budget_def rbind_Inl_iff)
  qed
next
  assume e: "ensure_budget_prefetch K r i = Inl e"
  show "\<not> fatal_evict e"
  proof (cases "scheduled_reconcile K r")
    case (Inl e')
    then show ?thesis using e scheduled_reconcile_spec[OF assms, of K]
      by (simp add: ensure_budget_prefetch_def)
  next
    case (Inr r1)
    then obtain C1 where "budget_inv r1 C1 F X"
      using scheduled_reconcile_spec[OF assms, of K] by (auto simp: evict_ok_def)
    from prefetch_evict_loop_spec[OF this, where K = K and target = i and need = "len (chunk_at r1 i)"] e Inr
    show ?thesis by (auto simp: ensure_budget_prefetch_def rbind_Inl_iff Let_def)
  qed
qed

text \<open>
  The I-4 assertions cannot fire: from a state of the invariant neither reservation function
  ever reaches the aborts of \<^verbatim>\<open>evict_chunk\<close> for a chunk that is not RESIDENT or that is
  pinned, whatever the policy, the victims and the broken retention pins.
\<close>

lemma budget_never_evicts_wrongly:
  assumes "budget_inv r C F X"
  shows "ensure_budget K r need \<noteq> Inl Evict_not_resident \<and> ensure_budget K r need \<noteq> Inl Evict_pinned
       \<and> ensure_budget_prefetch K r i \<noteq> Inl Evict_not_resident
       \<and> ensure_budget_prefetch K r i \<noteq> Inl Evict_pinned"
  by (auto simp: fatal_evict_def dest!: budget_failures[OF assms])

section \<open>The other steps\<close>

text \<open>A change of one chunk's state or bookkeeping fields.\<close>

lemma upd_chunk_inv:
  assumes inv: "budget_inv r C F X" and i: "i < n_chunks r"
    and f: "geom (f (chunk_at r i)) = geom (chunk_at r i)" "pin (f (chunk_at r i)) = p"
    and res: "state (f (chunk_at r i)) = CHUNK_RESIDENT \<Longrightarrow> i \<in> C"
    and fet: "i \<in> F \<Longrightarrow> state (f (chunk_at r i)) = CHUNK_FETCHING"
    and com: "i \<in> C \<Longrightarrow> state (f (chunk_at r i)) \<noteq> CHUNK_ABSENT"
    and ret: "if i \<in> retained r then state (f (chunk_at r i)) = CHUNK_RESIDENT \<and> p = 1 \<and> X' = X
              else X' = X(i := p)"
  shows "budget_inv (upd_chunk i f r) C F X'"
proof -
  let ?r = "upd_chunk i f r"
  have a: "acct r C F" and g: "geometry_ok r" and pk: "pins_ok r X" and d: "data_ok r C F"
    using inv by auto
  have oth: "region_len ?r = region_len r" "model_file_size ?r = model_file_size r"
    "model_data ?r = model_data r" "memfd ?r = memfd r" "resident_bytes ?r = resident_bytes r"
    "reserved_bytes ?r = reserved_bytes r" "pinned_prefetch ?r = pinned_prefetch r"
    by (simp_all add: upd_chunk_def)
  have sg: "same_geometry (chunks r) (chunks ?r)"
    unfolding upd_chunk_def using same_geometry_update[OF f(1)] by simp
  have b: "bytes_of (chunks ?r) C = bytes_of (chunks r) C" "bytes_of (chunks ?r) F = bytes_of (chunks r) F"
    using a same_geometry_bytes(1)[OF sg] by (auto simp: acct_def)
  have "state (chunk_at ?r j) = CHUNK_FETCHING" if "j \<in> F" for j
  proof -
    have "j < n_chunks r" using a that by (auto simp: acct_def)
    then show ?thesis using fet a that by (cases "j = i") (auto simp: acct_def)
  qed
  moreover have "state (chunk_at ?r j) \<noteq> CHUNK_ABSENT" if "j \<in> C" for j
  proof -
    have "j < n_chunks r" using a that by (auto simp: acct_def)
    then show ?thesis using com a that by (cases "j = i") (auto simp: acct_def)
  qed
  ultimately have "acct ?r C F" using a b res i by (auto simp: acct_def oth)
  moreover have "pins_ok ?r X'"
    using pk f(2) ret i by (auto simp: pins_ok_def oth retained_def split: if_splits)
  moreover have "data_ok ?r C F"
  proof -
    have "in_chunk (chunk_at ?r j) b = in_chunk (chunk_at r j) b" if "j \<in> C \<union> F" for j b
    proof -
      have "j < n_chunks r" using a that by (auto simp: acct_def)
      then show ?thesis using in_chunk_geom[OF f(1)] by simp
    qed
    then show ?thesis using d by (auto simp: data_ok_def oth model_byte_def)
  qed
  ultimately show ?thesis using geometry_ok_same[OF sg oth(1) g] by (simp add: budget_inv_def)
qed

text \<open>A chunk that is neither committed nor reserved changes state without becoming RESIDENT.\<close>

lemma upd_unheld_inv:
  assumes "budget_inv r C F X" "i < n_chunks r" "i \<notin> C \<union> F"
    and "geom (f (chunk_at r i)) = geom (chunk_at r i)" "pin (f (chunk_at r i)) = pin (chunk_at r i)"
    and "state (f (chunk_at r i)) \<noteq> CHUNK_RESIDENT"
  shows "budget_inv (upd_chunk i f r) C F X"
proof -
  have ni: "i \<notin> retained r" and p: "pin (chunk_at r i) = X i"
    using assms(1-3) by (auto simp: budget_inv_def pins_ok_def acct_def retained_def)
  have "X = X(i := pin (chunk_at r i))" using p by simp
  with ni show ?thesis
    using assms by (intro upd_chunk_inv[where p = "pin (chunk_at r i)"]) auto
qed

lemma pin_update_inv:
  assumes "budget_inv r C F X" "i < n_chunks r" "i \<notin> retained r"
  shows "budget_inv (pin_chunk r i) C F (X(i := X i + 1))"
    and "budget_inv (unpin_chunk r i) C F (X(i := X i - 1))"
proof -
  have p: "pin (chunk_at r i) = X i" using assms by (auto simp: budget_inv_def pins_ok_def retained_def)
  have st: "state (chunk_at r i) = CHUNK_RESIDENT \<Longrightarrow> i \<in> C" "i \<in> F \<Longrightarrow> state (chunk_at r i) = CHUNK_FETCHING"
    "i \<in> C \<Longrightarrow> state (chunk_at r i) \<noteq> CHUNK_ABSENT"
    using assms by (auto simp: budget_inv_def acct_def)
  show "budget_inv (pin_chunk r i) C F (X(i := X i + 1))"
    unfolding pin_chunk_def using assms p st
    by (intro upd_chunk_inv[where p = "X i + 1"]) (auto simp: geom_def)
  show "budget_inv (unpin_chunk r i) C F (X(i := X i - 1))"
    unfolding unpin_chunk_def using assms p st
    by (intro upd_chunk_inv[where p = "X i - 1"]) (auto simp: geom_def)
qed

lemma commit_inv:
  assumes inv: "budget_inv r C (insert i F) X" and i: "i \<notin> F" "i < n_chunks r"
    and bytes: "\<forall>b. in_chunk (chunk_at r i) b \<longrightarrow> memfd r b = Some (model_byte r b)"
  shows "budget_inv (commit_reserved r (len (chunk_at r i))) (insert i C) F X"
proof -
  let ?r = "commit_reserved r (len (chunk_at r i))"
  have a: "acct r C (insert i F)" and g: "geometry_ok r" and p: "pins_ok r X" and d: "data_ok r C (insert i F)"
    using inv by auto
  have iC: "i \<notin> C" using a by (auto simp: acct_def)
  have fin: "finite C" "finite F" using a finite_subset by (auto simp: acct_def)
  have "acct ?r (insert i C) F"
    using a iC i fin by (auto simp: acct_def commit_reserved_def bytes_of_insert)
  moreover have "data_ok ?r (insert i C) F"
    using d bytes unfolding data_ok_def by (auto simp: commit_reserved_def model_byte_def)
  ultimately show ?thesis using g p
    by (simp add: budget_inv_def geometry_ok_def pins_ok_def commit_reserved_def)
qed

text \<open>Moving the pin of a fresh prefetch into the retention FIFO, dropping the oldest when full.\<close>

lemma retain_on_resident_inv:
  assumes inv: "budget_inv r C F X" and i: "i < n_chunks r" "i \<notin> retained r" "X i = 1"
    and st: "state (chunk_at r i) = CHUNK_RESIDENT"
  shows "budget_inv (prefetch_retain_on_resident r i) C F (X(i := 0))"
    and "\<exists>dropped. retained (prefetch_retain_on_resident r i) = insert i (retained r - dropped)
           \<and> (if rlen (pinned_prefetch r) < rcap (pinned_prefetch r) then dropped = {}
              else dropped = {ring_front (pinned_prefetch r)})"
    and "static_part (prefetch_retain_on_resident r i) = static_part r"
proof -
  let ?q = "pinned_prefetch r"
  have pk: "pins_ok r X" using inv by auto
  have wf: "ring_wf ?q" and dist: "distinct (ring_list ?q)" using pk by (auto simp: pins_ok_def)
  show sp: "static_part (prefetch_retain_on_resident r i) = static_part r"
    by (simp add: prefetch_retain_on_resident_def static_part_def upd_chunk_def Let_def)
  text \<open>pushing into a FIFO with room\<close>
  have push: "budget_inv (s\<lparr>pinned_prefetch := ring_push (pinned_prefetch s) i\<rparr>) C F (X(i := 0))
        \<and> retained (s\<lparr>pinned_prefetch := ring_push (pinned_prefetch s) i\<rparr>) = insert i (retained s)"
    if s: "budget_inv s C F X" "i < n_chunks s" "i \<notin> retained s" "state (chunk_at s i) = CHUNK_RESIDENT"
      and room: "length (ring_list (pinned_prefetch s)) < rcap (pinned_prefetch s)" for s
  proof -
    let ?s = "s\<lparr>pinned_prefetch := ring_push (pinned_prefetch s) i\<rparr>"
    have ps: "pins_ok s X" and wfs: "ring_wf (pinned_prefetch s)" using s(1) by (auto simp: pins_ok_def)
    from ring_fifo.push_ok[OF wfs room, of i] have
      P: "ring_wf (ring_push (pinned_prefetch s) i)"
      "ring_list (ring_push (pinned_prefetch s) i) = ring_list (pinned_prefetch s) @ [i]" by auto
    have "pin (chunk_at s i) = 1" using ps s i(3) by (auto simp: pins_ok_def retained_def)
    then have "pins_ok ?s (X(i := 0))"
      using ps P s(2-4) by (auto simp: pins_ok_def retained_def)
    moreover have "geometry_ok ?s" "acct ?s C F" "data_ok ?s C F"
      using s(1) by (auto simp: budget_inv_def geometry_ok_def acct_def data_ok_def model_byte_def)
    ultimately show ?thesis using P by (simp add: budget_inv_def retained_def)
  qed
  have both: "budget_inv (prefetch_retain_on_resident r i) C F (X(i := 0)) \<and>
    (\<exists>dropped. retained (prefetch_retain_on_resident r i) = insert i (retained r - dropped)
           \<and> (if rlen ?q < rcap ?q then dropped = {} else dropped = {ring_front ?q}))"
  proof (cases "rlen ?q < rcap ?q")
    case True
    then show ?thesis using push[OF inv i(1,2) st] by (simp add: prefetch_retain_on_resident_def)
  next
    case False
    then have full: "rlen ?q = rcap ?q" using wf by (simp add: ring_wf_def)
    have ne: "ring_list ?q \<noteq> []" using full wf length_ring_list[of ?q] by (force simp: ring_wf_def)
    let ?o = "ring_front ?q"
    let ?s = "upd_chunk ?o (\<lambda>c. c\<lparr>pin := pin c - 1\<rparr>) (r\<lparr>pinned_prefetch := ring_pop ?q\<rparr>)"
    from ring_fifo.pop_ok[OF wf ne] have pop: "ring_wf (ring_pop ?q)"
      "ring_list ?q = ?o # ring_list (ring_pop ?q)" "rcap (ring_pop ?q) = rcap ?q" by auto
    have od: "?o \<notin> set (ring_list (ring_pop ?q))" using dist pop(2) by (metis distinct.simps(2))
    have o: "?o < n_chunks r" "state (chunk_at r ?o) = CHUNK_RESIDENT" "X ?o = 0"
      "pin (chunk_at r ?o) = 1" "?o \<noteq> i"
      using pk pop(2) i by (auto simp: pins_ok_def retained_def)
    have popped: "budget_inv ?s C F X"
    proof -
      have rem: "budget_inv ?s C F X" if "budget_inv r C F X"
      proof -
        have rr: "retained r = insert ?o (set (ring_list (ring_pop ?q)))"
          using pop(2) by (metis list.simps(15) retained_def)
        have at: "chunk_at ?s j = (if j = ?o then (chunk_at r ?o)\<lparr>pin := 0\<rparr> else chunk_at r j)"
          if "j < n_chunks r" for j using that o by (auto simp: upd_chunk_def nth_list_update)
        have n: "n_chunks ?s = n_chunks r" by (simp add: upd_chunk_def)
        have oth: "region_len ?s = region_len r" "model_file_size ?s = model_file_size r"
          "model_data ?s = model_data r" "memfd ?s = memfd r" "resident_bytes ?s = resident_bytes r"
          "reserved_bytes ?s = reserved_bytes r" "pinned_prefetch ?s = ring_pop ?q"
          by (simp_all add: upd_chunk_def)
        have sg: "same_geometry (chunks r) (chunks ?s)"
          using same_geometry_update[of "(chunk_at r ?o)\<lparr>pin := pin (chunk_at r ?o) - 1\<rparr>" "chunks r" ?o]
          by (simp add: upd_chunk_def geom_def)
        have a: "acct r C F" and d: "data_ok r C F" and g: "geometry_ok r" using inv by auto
        have b: "bytes_of (chunks ?s) C = bytes_of (chunks r) C" "bytes_of (chunks ?s) F = bytes_of (chunks r) F"
          using a same_geometry_bytes(1)[OF sg] by (auto simp: acct_def)
        have st: "state (chunk_at ?s j) = state (chunk_at r j)" if "j < n_chunks r" for j
          using at[OF that] by simp
        have "acct ?s C F" using a b st by (auto simp: acct_def n oth)
        moreover have "pins_ok ?s X"
          using pk pop(1) dist rr od o st at by (auto simp: pins_ok_def n oth retained_def pop(2))
        moreover have "data_ok ?s C F"
        proof -
          have "in_chunk (chunk_at ?s j) b = in_chunk (chunk_at r j) b" if "j \<in> C \<union> F" for j b
          proof -
            have "j < n_chunks r" using a that by (auto simp: acct_def)
            then show ?thesis using at[of j] by simp
          qed
          then show ?thesis using d by (auto simp: data_ok_def oth model_byte_def)
        qed
        ultimately show ?thesis using geometry_ok_same[OF sg oth(1) g] by (simp add: budget_inv_def)
      qed
      then show ?thesis using inv .
    qed
    have rs: "retained ?s = retained r - {?o}"
      using pop(2) od by (auto simp: retained_def upd_chunk_def)
    have room: "length (ring_list (pinned_prefetch ?s)) < rcap (pinned_prefetch ?s)"
      using pop full wf length_ring_list[of ?q] by (simp add: upd_chunk_def ring_pop_def ring_wf_def)
    have "i < n_chunks ?s" "i \<notin> retained ?s" "state (chunk_at ?s i) = CHUNK_RESIDENT"
      using i st rs o by (auto simp: upd_chunk_def)
    from push[OF popped this room] rs False show ?thesis
      by (auto simp: prefetch_retain_on_resident_def Let_def)
  qed
  then show "budget_inv (prefetch_retain_on_resident r i) C F (X(i := 0))"
    "\<exists>dropped. retained (prefetch_retain_on_resident r i) = insert i (retained r - dropped)
           \<and> (if rlen ?q < rcap ?q then dropped = {} else dropped = {ring_front ?q})"
    by auto
qed

section \<open>Reconciliation against the pages\<close>

text \<open>The bytes of the region the kernel holds pages for.\<close>

definition populated :: "region \<Rightarrow> nat" where
  "populated r = card {b. b < unat (region_len r) \<and> memfd r b \<noteq> None}"

definition span :: "chunk \<Rightarrow> nat set" where
  "span c = {unat (region_off c)..<unat (region_off c) + unat (len c)}"

lemma card_span [simp]: "card (span c) = unat (len c)" "finite (span c)"
  by (simp_all add: span_def)

lemma in_span: "b \<in> span c \<longleftrightarrow> in_chunk c b"
  by (auto simp: span_def in_chunk_def)

lemma card_spans:
  assumes "tiles 0 cs e" "S \<subseteq> {..<length cs}"
  shows "card (\<Union>i\<in>S. span (cs ! i)) = nbytes_of cs S"
proof -
  have "finite S" using assms(2) finite_subset by blast
  moreover have "span (cs ! i) \<inter> span (cs ! j) = {}" if "i \<in> S" "j \<in> S" "i \<noteq> j" for i j
  proof -
    have "i < length cs" "j < length cs" using that assms(2) by auto
    then show ?thesis using in_chunk_unique[OF assms(1), of i j] that(3) by (auto simp: in_span)
  qed
  ultimately show ?thesis by (simp add: card_UN_disjoint nbytes_of_def)
qed

lemma populated_bounds:
  assumes "budget_inv r C F X"
  shows "unat (resident_bytes r) \<le> populated r"
    and "populated r \<le> unat (resident_bytes r) + unat (reserved_bytes r)"
    and "unat (resident_bytes r) + unat (reserved_bytes r) \<le> unat (region_len r)"
proof -
  have a: "acct r C F" and g: "geometry_ok r" and d: "data_ok r C F" using assms by auto
  have t: "tiles 0 (chunks r) (unat (region_len r))" and L: "unat (region_len r) < 2 ^ 64"
    using g by (auto simp: geometry_ok_def)
  have sub: "C \<subseteq> {..<n_chunks r}" "F \<subseteq> {..<n_chunks r}" "C \<inter> F = {}" using a by (auto simp: acct_def)
  have fin: "finite C" "finite F" using sub finite_subset by blast+
  have u: "unat (resident_bytes r) = nbytes_of (chunks r) C" "unat (reserved_bytes r) = nbytes_of (chunks r) F"
    using a unat_bytes_of[OF t L sub(1)] unat_bytes_of[OF t L sub(2)] by (auto simp: acct_def)
  have un: "nbytes_of (chunks r) (C \<union> F) = nbytes_of (chunks r) C + nbytes_of (chunks r) F"
    using fin sub(3) by (rule nbytes_of_union)
  let ?P = "{b. b < unat (region_len r) \<and> memfd r b \<noteq> None}"
  have "(\<Union>i\<in>C. span (chunk_at r i)) \<subseteq> ?P"
  proof
    fix b assume "b \<in> (\<Union>i\<in>C. span (chunk_at r i))"
    then obtain i where i: "i \<in> C" "in_chunk (chunk_at r i) b" by (auto simp: in_span)
    then have "b < unat (region_len r)"
      using tiles_within[OF t, of i] sub(1) by (auto simp: in_chunk_def)
    with i d show "b \<in> ?P" by (auto simp: data_ok_def)
  qed
  then have "card (\<Union>i\<in>C. span (chunk_at r i)) \<le> card ?P" by (intro card_mono) auto
  then show "unat (resident_bytes r) \<le> populated r"
    using card_spans[OF t sub(1)] u by (simp add: populated_def)
  have subU: "C \<union> F \<subseteq> {..<n_chunks r}" using sub by simp
  have "?P \<subseteq> (\<Union>i\<in>C \<union> F. span (chunk_at r i))"
  proof
    fix b assume "b \<in> ?P"
    then have "\<exists>i\<in>C \<union> F. in_chunk (chunk_at r i) b" using d unfolding data_ok_def by simp
    then show "b \<in> (\<Union>i\<in>C \<union> F. span (chunk_at r i))" by (auto simp: in_span)
  qed
  then have "card ?P \<le> card (\<Union>i\<in>C \<union> F. span (chunk_at r i))" using fin by (intro card_mono) auto
  then show "populated r \<le> unat (resident_bytes r) + unat (reserved_bytes r)"
    using card_spans[OF t subU] u un by (simp add: populated_def)
  show "unat (resident_bytes r) + unat (reserved_bytes r) \<le> unat (region_len r)"
    using nbytes_of_le_region[OF t subU] u un by simp
qed

lemma reconcile_iff:
  assumes "budget_inv r C F X" and "read_memory_stat_shmem K r = Inr v" and "n_chunks r > 0"
    and "unat (known_overhead_bytes r) + 2 * unat (region_len r) < 2 ^ 64"
    and "unat v + unat (len (chunk_at r 0)) < 2 ^ 64"
  shows "reconcile K r = Inr () \<longleftrightarrow>
     unat (resident_bytes r) + unat (known_overhead_bytes r) \<le> unat v + unat (len (chunk_at r 0))
     \<and> unat v \<le> unat (resident_bytes r) + unat (reserved_bytes r) + unat (known_overhead_bytes r)
                  + unat (len (chunk_at r 0))"
proof -
  have g: "geometry_ok r" using assms(1) by auto
  note B = populated_bounds[OF assms(1)]
  have l0: "unat (len (chunk_at r 0)) \<le> unat (region_len r)"
    using tiles_within[of 0 "chunks r" "unat (region_len r)" 0] g assms(3) by (simp add: geometry_ok_def)
  have a1: "unat (resident_bytes r + known_overhead_bytes r)
      = unat (resident_bytes r) + unat (known_overhead_bytes r)"
    using B assms(4) by (intro unat_add_exact) simp
  have a2: "unat (resident_bytes r + known_overhead_bytes r + reserved_bytes r)
      = unat (resident_bytes r) + unat (known_overhead_bytes r) + unat (reserved_bytes r)"
    using B assms(4) a1 by (subst unat_add_exact) simp_all
  have a3: "unat (resident_bytes r + known_overhead_bytes r + reserved_bytes r + len (chunk_at r 0))
      = unat (resident_bytes r) + unat (known_overhead_bytes r) + unat (reserved_bytes r)
        + unat (len (chunk_at r 0))"
    using B assms(4) a2 l0 by (subst unat_add_exact) simp_all
  have a4: "unat (v + len (chunk_at r 0)) = unat v + unat (len (chunk_at r 0))"
    using assms(5) by (intro unat_add_exact) simp
  show ?thesis
    using a1 a3 a4 assms(2,3) by (auto simp: reconcile_def Let_def word_less_nat_alt not_less)
qed

text \<open>
  Reconciliation never aborts a correct run (I-7): in any state of the invariant, with fetches in
  flight and partly written or not, if the kernel reports the overhead plus the bytes it holds pages
  for, up to a slack of at most the first chunk's length, \<^verbatim>\<open>reconcile\<close> accepts.
\<close>

lemma reconcile_accepts_truth:
  assumes "budget_inv r C F X" and "read_memory_stat_shmem K r = Inr v" and "n_chunks r > 0"
    and "unat (known_overhead_bytes r) + 3 * unat (region_len r) < 2 ^ 64"
    and "unat v \<le> unat (known_overhead_bytes r) + populated r + slack"
    and "unat (known_overhead_bytes r) + populated r \<le> unat v + slack"
    and "slack \<le> unat (len (chunk_at r 0))"
  shows "reconcile K r = Inr ()"
proof -
  have g: "geometry_ok r" using assms(1) by auto
  note B = populated_bounds[OF assms(1)]
  have l0: "unat (len (chunk_at r 0)) \<le> unat (region_len r)"
    using tiles_within[of 0 "chunks r" "unat (region_len r)" 0] g assms(3) by (simp add: geometry_ok_def)
  have "unat v + unat (len (chunk_at r 0)) < 2 ^ 64"
    using assms(4,5,7) B l0 by linarith
  moreover have "unat (known_overhead_bytes r) + 2 * unat (region_len r) < 2 ^ 64" using assms(4) by simp
  ultimately show ?thesis
    using reconcile_iff[OF assms(1-3)] assms(5-7) B by auto
qed

text \<open>
  The converse is weaker than the comments say: a single eviction that silently did not happen
  leaves the kernel exactly one chunk above the upper bound when nothing is in flight and the chunks
  have one size, and the comparison is strict, so it is not noticed.
\<close>

lemma one_lost_eviction_accepted:
  assumes "budget_inv r C {} X" and "read_memory_stat_shmem K r = Inr v" and "n_chunks r > 0"
    and "unat (known_overhead_bytes r) + 3 * unat (region_len r) < 2 ^ 64"
    and "unat v = unat (known_overhead_bytes r) + unat (resident_bytes r) + unat (len (chunk_at r 0))"
  shows "reconcile K r = Inr ()"
proof -
  have g: "geometry_ok r" using assms(1) by auto
  have "unat (len (chunk_at r 0)) \<le> unat (region_len r)"
    using tiles_within[of 0 "chunks r" "unat (region_len r)" 0] g assms(3) by (simp add: geometry_ok_def)
  then show ?thesis
    using reconcile_iff[OF assms(1-3)] assms(4,5) populated_bounds(3)[OF assms(1)] by simp
qed

text \<open>No operation in progress holds a pin on an ABSENT chunk.\<close>

definition idle_ok :: "region \<Rightarrow> (nat \<Rightarrow> u32) \<Rightarrow> bool" where
  "idle_ok r X \<longleftrightarrow> (\<forall>i<n_chunks r. state (chunk_at r i) = CHUNK_ABSENT \<longrightarrow> X i = 0)"

lemma only_evicts_idle:
  assumes "only_evicts r r'" "pins_ok r X" "idle_ok r X"
  shows "idle_ok r' X"
  unfolding idle_ok_def
proof (intro allI impI)
  fix i assume i: "i < n_chunks r'" "state (chunk_at r' i) = CHUNK_ABSENT"
  then have n: "i < n_chunks r" using assms(1) by (simp add: only_evicts_def)
  show "X i = 0"
  proof (cases "state (chunk_at r i) = CHUNK_ABSENT")
    case True
    then show ?thesis using assms(3) n by (simp add: idle_ok_def)
  next
    case False
    then have "pin (chunk_at r i) = 0 \<or> i \<in> retained r"
      using assms(1) i n unfolding only_evicts_def by (metis)
    then show ?thesis using assms(2) n by (auto simp: pins_ok_def retained_def split: if_splits)
  qed
qed

lemma pinned_stays:
  assumes "only_evicts r r'" "pins_ok r X" "i < n_chunks r" "X i \<noteq> 0"
  shows "chunk_at r' i = chunk_at r i"
proof -
  have "i \<notin> retained r" "pin (chunk_at r i) \<noteq> 0"
    using assms(2-4) by (auto simp: pins_ok_def retained_def)
  then show ?thesis using assms(1,3) by (simp add: only_evicts_def)
qed

end
