(* ===== verification/Startup.thy ===== *)
theory Startup
  imports Budget
begin

text \<open>
  What a successful \<^verbatim>\<open>region_startup\<close> (\<^verbatim>\<open>region.c\<close>) establishes: the settings the
  rest of the program relies on were verified, and the region satisfies \<open>budget_inv\<close> with nothing
  resident and nothing reserved. Also the concrete region, kernel and host used by the witnesses.
\<close>

section \<open>Configuration checks\<close>

text \<open>
  Startup never proceeds on a host that would break the accounting: if it succeeds then
  \<^verbatim>\<open>memory.swap.max\<close> read 0 (I-3), both userfaultfd features and
  \<^verbatim>\<open>UFFDIO_CONTINUE\<close> were offered, huge pages were disabled on both mappings, and the
  budget is the nonzero one requested.
\<close>

lemma startup_verifies_host:
  assumes "region_startup h cfg = Inr (r, m)"
  shows "read_small_file 64 (h_swap_max h) = Some ''0'' \<and> m_memory_swap_max_raw m = ''0''
       \<and> h_missing_shmem h \<and> h_minor_shmem h \<and> h_has_continue h
       \<and> h_nohugepage_a h \<and> h_nohugepage_b h
       \<and> budget_bytes r = cfg_budget_bytes cfg \<and> budget_bytes r \<noteq> 0"
proof -
  from assms obtain m0 m1 r1 r2 cs r4 where
    vc: "verify_cgroup h m0 = Inr m1" and vu: "verify_uffd_features h = Inr ()"
    and mr: "map_and_register h = Inr ()"
    and cb: "compute_budget (r2\<lparr>chunks := cs\<rparr>) cfg = Inr r4" and r: "r = r4"
    and m: "m_memory_swap_max_raw m = m_memory_swap_max_raw m1"
    by (auto simp: region_startup_def rbind_Inr_iff Let_def)
  have sw: "read_small_file 64 (h_swap_max h) = Some ''0''" and raw: "m_memory_swap_max_raw m1 = ''0''"
    using vc by (auto simp: verify_cgroup_def rbind_Inr_iff Let_def split: option.splits if_splits)
  show ?thesis
    using sw raw m vu mr cb r
    by (auto simp: verify_uffd_features_def map_and_register_def rbind_Inr_iff compute_budget_def Let_def)
qed

section \<open>The initial invariant\<close>

definition sized :: "host \<Rightarrow> region \<Rightarrow> region" where
  "sized h r = (case h_file_size h of Some n \<Rightarrow> r\<lparr>model_file_size := n\<rparr> | None \<Rightarrow> r)"

lemma startup_shape:
  assumes "region_startup h cfg = Inr (r, m)"
  obtains cs where "chunks r = cs" "region_len r = cfg_region_len cfg"
    "(if cfg_explicit_chunks cfg \<noteq> []
      then build_chunk_table_explicit (cfg_region_len cfg) (cfg_explicit_chunks cfg)
      else build_chunk_table (cfg_region_len cfg) (cfg_chunk_size cfg)) = Inr cs"
    "h_ftruncate h (cfg_region_len cfg)" "resident_bytes r = 0" "reserved_bytes r = 0"
    "memfd r = (\<lambda>_. None)"
    "pinned_prefetch r = ring_new (if cfg_prefetch_depth cfg \<noteq> 0 then cfg_prefetch_depth cfg else 1)"
proof -
  from assms obtain r1 r2 cs r4 where
    c: "create_backing_store h zero_region (cfg_region_len cfg) = Inr r1"
    and o: "open_model_file h r1 = Inr r2"
    and t: "(if cfg_explicit_chunks cfg \<noteq> []
      then build_chunk_table_explicit (region_len (sized h r2)) (cfg_explicit_chunks cfg)
      else build_chunk_table (region_len (sized h r2)) (cfg_chunk_size cfg)) = Inr cs"
    and b: "compute_budget ((sized h r2)\<lparr>chunks := cs\<rparr>) cfg = Inr r4" and r: "r = r4"
    unfolding sized_def by (auto simp: region_startup_def rbind_Inr_iff Let_def)
  have 1: "r1 = zero_region\<lparr>region_len := cfg_region_len cfg, memfd := (\<lambda>_. None)\<rparr>"
    "h_ftruncate h (cfg_region_len cfg)"
    using c by (simp_all add: create_backing_store_def rbind_Inr_iff)
  have 2: "region_len r2 = region_len r1" "memfd r2 = memfd r1"
    using o by (auto simp: open_model_file_def rbind_Inr_iff split: if_splits)
  have 3: "region_len (sized h r2) = cfg_region_len cfg" "memfd (sized h r2) = (\<lambda>_. None)"
    using 1 2 by (simp_all add: sized_def split: option.split)
  have 4: "chunks r = cs" "region_len r = region_len (sized h r2)" "resident_bytes r = 0"
    "reserved_bytes r = 0" "memfd r = memfd (sized h r2)"
    "pinned_prefetch r = ring_new (if cfg_prefetch_depth cfg \<noteq> 0 then cfg_prefetch_depth cfg else 1)"
    using b r by (auto simp: compute_budget_def rbind_Inr_iff Let_def)
  show thesis
    by (rule that[OF 4(1)]) (use 4 3 t[unfolded 3] 1(2) in simp_all)
qed

lemma startup_config:
  assumes "region_startup h cfg = Inr (r, m)"
  shows "async_handler r = (\<not> cfg_sync_handler cfg)" "policy_of r = None"
    and "h_file_size h = Some n \<Longrightarrow> model_file_size r = n"
proof -
  from assms obtain r1 r2 cs r4 where c: "create_backing_store h zero_region (cfg_region_len cfg) = Inr r1"
    and o: "open_model_file h r1 = Inr r2"
    and b: "compute_budget ((sized h r2)\<lparr>chunks := cs\<rparr>) cfg = Inr r4" and r: "r = r4"
    unfolding sized_def by (auto simp: region_startup_def rbind_Inr_iff Let_def)
  have 1: "policy_of r1 = None" using c by (auto simp: create_backing_store_def rbind_Inr_iff zero_region_def)
  have 2: "policy_of r2 = policy_of r1" using o by (auto simp: open_model_file_def rbind_Inr_iff split: if_splits)
  have 3: "policy_of (sized h r2) = policy_of r2" "h_file_size h = Some n \<Longrightarrow> model_file_size (sized h r2) = n"
    by (simp_all add: sized_def split: option.split)
  show "async_handler r = (\<not> cfg_sync_handler cfg)" "policy_of r = None" "h_file_size h = Some n \<Longrightarrow> model_file_size r = n"
    using 1 2 3 b r by (auto simp: compute_budget_def rbind_Inr_iff Let_def)
qed

lemma startup_inv:
  assumes "region_startup h cfg = Inr (r, m)"
    and "\<forall>n. h_ftruncate h n \<longrightarrow> unat n < 2 ^ 63"
    and "cfg_prefetch_depth cfg \<le> 2147483648"
    and "(\<Sum>s\<leftarrow>cfg_explicit_chunks cfg. unat (spec_len s)) < 2 ^ 64"
  shows "budget_inv r {} {} (\<lambda>_. 0) \<and> (\<forall>i<n_chunks r. state (chunk_at r i) = CHUNK_ABSENT)"
proof -
  from startup_shape[OF assms(1)] obtain cs where s: "chunks r = cs" "region_len r = cfg_region_len cfg"
    "(if cfg_explicit_chunks cfg \<noteq> []
      then build_chunk_table_explicit (cfg_region_len cfg) (cfg_explicit_chunks cfg)
      else build_chunk_table (cfg_region_len cfg) (cfg_chunk_size cfg)) = Inr cs"
    "h_ftruncate h (cfg_region_len cfg)" "resident_bytes r = 0" "reserved_bytes r = 0"
    "memfd r = (\<lambda>_. None)"
    "pinned_prefetch r = ring_new (if cfg_prefetch_depth cfg \<noteq> 0 then cfg_prefetch_depth cfg else 1)" .
  have t: "tiles 0 cs (unat (region_len r))" and f: "fresh_table cs"
    using s(2,3) assms(4) build_chunk_table_ok[of "cfg_region_len cfg" "cfg_chunk_size cfg" cs]
      build_chunk_table_explicit_ok[of "cfg_region_len cfg" "cfg_explicit_chunks cfg" cs]
    by (auto split: if_splits)
  have "geometry_ok r" using t f s assms(2) by (auto simp: geometry_ok_def fresh_table_def)
  moreover have ab: "state (chunk_at r i) = CHUNK_ABSENT \<and> pin (chunk_at r i) = 0" if "i < n_chunks r" for i
    using f s(1) that by (simp add: fresh_table_def)
  then have "acct r {} {}" using s by (auto simp: acct_def)
  moreover have "pins_ok r (\<lambda>_. 0)"
    using s ab assms(3) ring_wf_new by (auto simp: pins_ok_def)
  moreover have "data_ok r {} {}" using s by (simp add: data_ok_def)
  ultimately show ?thesis using ab by (simp add: budget_inv_def)
qed

text \<open>
  C17. A successful startup establishes the invariant every later proof starts from: the table tiles
  the region, nothing is resident or reserved, the retention FIFO is empty, no byte of the memfd is
  populated, every chunk is ABSENT. (\<^verbatim>\<open>ftruncate\<close> refuses lengths beyond
  \<^verbatim>\<open>off_t\<close>; the requested depth must be below \<open>2 ^ 31\<close>, and the explicit lengths must
  not sum past 64 bits.)
\<close>

theorem startup_establishes_invariant:
  assumes "region_startup h cfg = Inr (r, m)"
    and "\<forall>n. h_ftruncate h n \<longrightarrow> unat n < 2 ^ 63"
    and "cfg_prefetch_depth cfg \<le> 2147483648"
    and "(\<Sum>s\<leftarrow>cfg_explicit_chunks cfg. unat (spec_len s)) < 2 ^ 64"
  shows "budget_inv r {} {} (\<lambda>_. 0) \<and> (\<forall>i<n_chunks r. state (chunk_at r i) = CHUNK_ABSENT)"
  using assms by (rule startup_inv)

section \<open>A concrete run\<close>

text \<open>
  A host that accepts everything, a configuration with three chunks of which two fit the budget, and
  an honest kernel: it reports as \<^verbatim>\<open>shmem\<close> what the program believes resident, delivers
  every read in two pieces after an interruption and maps every byte it is asked to.
\<close>

definition demo_host :: host where
  "demo_host =
     \<lparr>h_swap_max = Some (''0'' @ [CHR 0x0A]), h_memory_max = Some (''max'' @ [CHR 0x0A]),
      h_memory_high = None, h_uffd = True, h_uffd_api = True, h_missing_shmem = True,
      h_minor_shmem = True, h_memfd_create = True, h_ftruncate = (\<lambda>n. n < 9223372036854775808),
      h_mmap_b = True, h_mmap_a = True, h_nohugepage_a = True, h_nohugepage_b = True,
      h_register = True, h_has_continue = True, h_open_direct = True, h_open_buffered = True,
      h_file_size = Some 10000, h_file_data = (\<lambda>b. word_of_nat b), h_uname = None,
      h_shmem_enabled = None\<rparr>"

definition demo_cfg :: region_config where
  "demo_cfg =
     \<lparr>cfg_region_len = 12288, cfg_chunk_size = 4096, cfg_model_path = Some ''model'',
      cfg_cgroup_path = Some ''cg'', cfg_budget_bytes = 8192, cfg_reconcile_interval = 1,
      cfg_prefetch_depth = 2, cfg_sync_handler = False, cfg_fetch_workers = 0,
      cfg_prefetch_admission_always = False, cfg_prefetch_retention_none = False,
      cfg_explicit_chunks = [], cfg_fetching_timeout_ms = 0\<rparr>"

definition demo_region :: region where
  "demo_region =
     zero_region\<lparr>region_len := 12288, model_file_size := 10000, used_o_direct := True,
       chunks := [new_chunk 0 0 4096 0, new_chunk 4096 4096 4096 1, new_chunk 8192 8192 4096 2],
       budget_bytes := 8192, reconcile_interval := 1, prefetch_depth := 2, async_handler := True,
       fetch_workers := 4, prefetch_retention_pinned := True, fetching_timeout_ms := 30000,
       pinned_prefetch := ring_new 2, memfd := (\<lambda>_. None), model_data := (\<lambda>b. word_of_nat b)\<rparr>"

definition demo_kernel :: kernel where
  "demo_kernel =
     \<lparr>k_clock = (\<lambda>n. 1000 * (word_of_nat n + 1)),
      k_memory_stat = (\<lambda>r. Some [R_bytes (print_file [(''shmem'', resident_bytes r)]), R_bytes []]),
      k_punch_ok = (\<lambda>r i. True),
      k_preads = (\<lambda>r i tail. [P_eintr, P_bytes 1000, P_bytes 65536]),
      k_continue = (\<lambda>r i. C_mapped (sint (len (chunk_at r i)))),
      k_writes = (\<lambda>r. [W_bytes 24]),
      k_others = (\<lambda>n r. r)\<rparr>"

lemma demo_startup: "\<exists>m. region_startup demo_host demo_cfg = Inr (demo_region, m)"
proof -
  have "\<exists>m1. verify_cgroup demo_host m0 = Inr m1" for m0
    by (simp add: verify_cgroup_def demo_host_def read_small_file_def Let_def require_def)
  then obtain m1 where m1: "verify_cgroup demo_host
      (zero_manifest\<lparr>m_cgroup_path := take 255 (the (cfg_cgroup_path demo_cfg)),
         m_model_path := take 255 (the (cfg_model_path demo_cfg)),
         m_kernel_release := take 127 (case h_uname demo_host of Some u \<Rightarrow> u | None \<Rightarrow> ''unknown''),
         m_shmem_enabled := (case read_small_file 64 (h_shmem_enabled demo_host) of
                               Some s \<Rightarrow> s | None \<Rightarrow> ''unknown'')\<rparr>) = Inr m1" by blast
  have table: "build_chunk_table 12288 4096 =
      Inr [new_chunk 0 0 4096 0, new_chunk 4096 4096 4096 1, new_chunk 8192 8192 4096 2]"
    by code_simp
  show ?thesis
    unfolding region_startup_def Let_def m1
    by (simp add: demo_host_def demo_cfg_def require_def demo_region_def verify_uffd_features_def
        create_backing_store_def map_and_register_def open_model_file_def compute_budget_def table
        zero_region_def Let_def)
qed

lemma startup_verifies_host_witness:
  "\<exists>r m. region_startup demo_host demo_cfg = Inr (r, m) \<and> budget_bytes r \<noteq> 0"
  using demo_startup startup_verifies_host by blast

lemma demo_host_sizes: "\<forall>n. h_ftruncate demo_host n \<longrightarrow> unat n < 2 ^ 63"
  by (simp add: demo_host_def word_less_nat_alt)

lemma demo_depth: "cfg_prefetch_depth demo_cfg \<le> 2147483648"
    "(\<Sum>s\<leftarrow>cfg_explicit_chunks demo_cfg. unat (spec_len s)) < 2 ^ 64"
  by (simp_all add: demo_cfg_def)

lemma demo_inv_start:
  "budget_inv demo_region {} {} (\<lambda>_. 0)"
  "i < n_chunks demo_region \<Longrightarrow> state (chunk_at demo_region i) = CHUNK_ABSENT"
  using demo_startup startup_inv[OF _ demo_host_sizes demo_depth] by blast+

theorem startup_establishes_invariant_witness:
  "budget_inv demo_region {} {} (\<lambda>_. 0) \<and> n_chunks demo_region = 3"
proof -
  obtain m where m: "region_startup demo_host demo_cfg = Inr (demo_region, m)" using demo_startup by blast
  have "n_chunks demo_region = 3" by code_simp
  with startup_establishes_invariant[OF m demo_host_sizes demo_depth] show ?thesis by simp
qed

text \<open>Chunk \<open>i\<close> of the fresh region marked FETCHING, as every fetch begins.\<close>

definition demo_fetching :: "nat \<Rightarrow> region" where
  "demo_fetching i = upd_chunk i (\<lambda>c. c\<lparr>state := CHUNK_FETCHING\<rparr>) demo_region"

lemma demo_n: "n_chunks demo_region = 3"
  by code_simp

lemma demo_len: "map len (chunks demo_region) = [4096, 4096, 4096]"
  by code_simp

lemma demo_len_at: "i < 3 \<Longrightarrow> len (chunk_at demo_region i) = 4096"
  using arg_cong[OF demo_len, of "\<lambda>xs. xs ! i"] demo_n by (cases i) (auto simp: less_Suc_eq numeral_3_eq_3)

lemma demo_fetching_inv:
  assumes "i < 3"
  shows "budget_inv (demo_fetching i) {} {} (\<lambda>_. 0)" and "i < n_chunks (demo_fetching i)"
    and "state (chunk_at (demo_fetching i) i) = CHUNK_FETCHING"
    and "len (chunk_at (demo_fetching i) i) = 4096"
proof -
  show "i < n_chunks (demo_fetching i)" using assms demo_n by (simp add: demo_fetching_def)
  show "state (chunk_at (demo_fetching i) i) = CHUNK_FETCHING" "len (chunk_at (demo_fetching i) i) = 4096"
    using assms demo_n demo_len_at by (simp_all add: demo_fetching_def)
  show "budget_inv (demo_fetching i) {} {} (\<lambda>_. 0)"
    unfolding demo_fetching_def using assms demo_n
    by (intro upd_unheld_inv[OF demo_inv_start(1)]) (simp_all add: geom_def)
qed

theorem ensure_budget_correct_witness:
  "\<exists>r'. ensure_budget demo_kernel (demo_fetching 0) 4096 = Inr (True, r')
     \<and> unat (resident_bytes r') + unat (reserved_bytes r') \<le> unat (budget_bytes (demo_fetching 0))"
proof -
  have i3: "(0 :: nat) < 3" by simp
  note D = demo_fetching_inv[OF i3]
  have e: "map_sum id fst (ensure_budget demo_kernel (demo_fetching 0) 4096) = Inr True" by code_simp
  then obtain r' where r': "ensure_budget demo_kernel (demo_fetching 0) 4096 = Inr (True, r')"
    by (cases "ensure_budget demo_kernel (demo_fetching 0) 4096") auto
  from ensure_budget_correct[OF D(1,2) _ D(3), where K = demo_kernel and ok = True and r' = r'] r' D(4)
  show ?thesis by (auto simp: reserved_for_def)
qed


theorem budget_never_evicts_wrongly_witness:
  "ensure_budget demo_kernel demo_region 4096 \<noteq> Inl Evict_pinned"
  using budget_never_evicts_wrongly[OF demo_inv_start(1), of demo_kernel 4096 0] by simp

theorem reconcile_accepts_truth_witness:
  "reconcile demo_kernel demo_region = Inr ()"
proof -
  have v: "read_memory_stat_shmem demo_kernel demo_region = Inr 0" by code_simp
  have o: "unat (known_overhead_bytes demo_region) = 0" "unat (region_len demo_region) = 12288"
    by code_simp+
  have "populated demo_region = 0"
    using populated_bounds[OF demo_inv_start(1)] demo_inv_start(1)
    by (auto simp: budget_inv_def acct_def)
  then show ?thesis
    using v o demo_n by (intro reconcile_accepts_truth[OF demo_inv_start(1), where slack = 0 and v = 0]) simp_all
qed

end
