(* ===== verification/Fetch.thy ===== *)
theory Fetch
  imports Startup
begin

text \<open>
  Fetching a chunk (\<^verbatim>\<open>fetch.c\<close>) and giving up on one (\<^verbatim>\<open>pager_abandon_fetch\<close>):
  the reads into the unregistered mapping, split at the last page boundary before the end of the file,
  and the one \<^verbatim>\<open>UFFDIO_CONTINUE\<close> that resolves the fault. The main lemma gives the bytes a
  completed fetch leaves behind, for every sequence of short reads and interruptions.
\<close>

section \<open>Reading\<close>

definition align_down :: "u64 \<Rightarrow> u64 \<Rightarrow> u64" where
  "align_down v a = v - v mod a"

definition align_up :: "u64 \<Rightarrow> u64 \<Rightarrow> u64" where
  "align_up v a = align_down (v + a - 1) a"

type_synonym mem = "nat \<Rightarrow> u8 option"

definition write_bytes :: "mem \<Rightarrow> nat \<Rightarrow> nat \<Rightarrow> (nat \<Rightarrow> u8) \<Rightarrow> mem" where
  "write_bytes m a n src = (\<lambda>b. if a \<le> b \<and> b < a + n then Some (src (b - a)) else m b)"

text \<open>
  The loop over \<^verbatim>\<open>pread\<close> from file offset \<open>cur\<close> up to \<open>en\<close>; offset \<open>cur\<close> goes to
  \<open>dest + (cur - st)\<close>. A call returns at most what it was asked for.
\<close>

fun pread_loop ::
  "pread_result list \<Rightarrow> (nat \<Rightarrow> u8) \<Rightarrow> u64 \<Rightarrow> u64 \<Rightarrow> u64 \<Rightarrow> u64 \<Rightarrow> mem \<Rightarrow> failure + mem" where
  "pread_loop rs data dest st en cur m =
     (if \<not> cur < en then Inr m
      else case rs of
        [] \<Rightarrow> Inl Fetch_incomplete_script
      | P_eintr # rs' \<Rightarrow> pread_loop rs' data dest st en cur m
      | P_error # rs' \<Rightarrow> Inl Fetch_pread_failed
      | P_bytes k # rs' \<Rightarrow>
          (let n = min k (unat (en - cur))
           in if n = 0 then Inl Fetch_unexpected_eof
              else pread_loop rs' data dest st en (cur + word_of_nat n)
                     (write_bytes m (unat (dest + (cur - st))) n (\<lambda>j. data (unat cur + j)))))"

declare pread_loop.simps [simp del]

definition fetch_read :: "kernel \<Rightarrow> region \<Rightarrow> nat \<Rightarrow> failure + region" where
  "fetch_read K r i =
     (let c = chunk_at r i;
          aligned_start = align_down (file_off c) RESIDCTL_ALIGN;
          aligned_end = align_up (file_off c + len c) RESIDCTL_ALIGN;
          slack = file_off c - aligned_start;
          dest = region_off c - slack;
          fs = model_file_size r
      in if dest mod RESIDCTL_ALIGN \<noteq> 0 then Inl Fetch_misaligned
         else let crosses = (fs \<noteq> 0 \<and> aligned_end > fs);
                  last_aligned = align_down fs RESIDCTL_ALIGN;
                  direct_end = (if crosses
                                then (if last_aligned > aligned_start then last_aligned else aligned_start)
                                else aligned_end);
                  tail_end = (if crosses then fs else aligned_end);
                  m0 = (if crosses
                        then write_bytes (memfd r) (unat (dest + (fs - aligned_start)))
                               (unat (aligned_end - fs)) (\<lambda>_. 0)
                        else memfd r)
              in rbind (pread_loop (k_preads K r i False) (model_data r) dest aligned_start
                          direct_end aligned_start m0) (\<lambda>m1.
                 rbind (pread_loop (k_preads K r i True) (model_data r) dest aligned_start
                          tail_end direct_end m1) (\<lambda>m2.
                 Inr (r\<lparr>memfd := m2\<rparr>))))"

text \<open>\<^verbatim>\<open>fetch_resolve\<close>: the range must be mapped completely (I-5).\<close>

definition fetch_resolve :: "kernel \<Rightarrow> region \<Rightarrow> nat \<Rightarrow> failure + region" where
  "fetch_resolve K r i =
     (let c = chunk_at r i
      in case k_continue K r i of
           C_error \<Rightarrow> Inl Continue_failed
         | C_mapped m \<Rightarrow>
             if m \<noteq> sint (len c) then Inl Continue_short
             else Inr (r\<lparr>uffd_log := uffd_log r @ [UFFDIO_CONTINUE (region_off c) (len c)]\<rparr>))"

record fetch_timing =
  read_start_ns :: u64
  read_end_ns :: u64
  continue_end_ns :: u64

text \<open>\<open>timed\<close>: the caller passed a timing record.\<close>

definition fetch_chunk :: "kernel \<Rightarrow> region \<Rightarrow> nat \<Rightarrow> bool \<Rightarrow> failure + (fetch_timing \<times> region)" where
  "fetch_chunk K r i timed =
     (let (t0, r0) = (if timed then now_ns K r else (0, r))
      in rbind (fetch_read K r0 i) (\<lambda>r1.
         let (t1, r2) = (if timed then now_ns K r1 else (0, r1))
         in rbind (fetch_resolve K r2 i) (\<lambda>r3.
            let (t2, r4) = (if timed then now_ns K r3 else (0, r3))
            in Inr (\<lparr>read_start_ns = t0, read_end_ns = t1, continue_end_ns = t2\<rparr>, r4))))"

section \<open>Giving up\<close>

text \<open>Any outcome of the ioctl is accepted; the call itself is what wakes the faulting threads.\<close>

definition wake_range :: "region \<Rightarrow> nat \<Rightarrow> region" where
  "wake_range r i =
     r\<lparr>uffd_log := uffd_log r @ [UFFDIO_WAKE (region_off (chunk_at r i)) (len (chunk_at r i))]\<rparr>"

definition pager_abandon_fetch :: "region \<Rightarrow> nat \<Rightarrow> region" where
  "pager_abandon_fetch r i =
     wake_range (upd_chunk i (\<lambda>c. c\<lparr>state := CHUNK_ABSENT, fetching_since_ns := 0\<rparr>) r) i"

section \<open>Alignment\<close>

lemma unat_align_down: "unat (align_down v 4096) = unat v - unat v mod 4096"
proof -
  have "unat (v mod 4096) \<le> unat v" by (simp add: unat_mod)
  then have "unat (v - v mod 4096) = unat v - unat (v mod 4096)"
    by (simp add: unat_sub word_le_nat_alt)
  then show ?thesis by (simp add: align_down_def unat_mod)
qed

lemma align_down_bounds:
  "unat (align_down v 4096) \<le> unat v" "4096 dvd unat (align_down v 4096)"
  by (simp_all add: unat_align_down minus_mod_eq_mult_div)

lemma align_down_ge:
  assumes "4096 dvd a" "a \<le> unat v"
  shows "a \<le> unat (align_down v 4096)"
proof -
  obtain k where k: "a = 4096 * k" using assms(1) by blast
  have "k \<le> unat v div 4096" using assms(2) k by (simp add: less_eq_div_iff_mult_less_eq mult.commute)
  then show ?thesis using k by (simp add: unat_align_down minus_mod_eq_mult_div)
qed

lemma align_down_id: "4096 dvd unat v \<Longrightarrow> align_down v 4096 = v"
proof -
  assume "4096 dvd unat v"
  then have "unat (align_down v 4096) = unat v" by (simp add: unat_align_down)
  then show ?thesis by (simp add: word_unat_eq_iff)
qed

lemma align_up_bounds:
  assumes "unat v + 4095 < 2 ^ 64"
  shows "unat v \<le> unat (align_up v 4096)" "unat (align_up v 4096) < unat v + 4096"
    "4096 dvd unat (align_up v 4096)"
proof -
  have "unat (v + 4096 - 1) = unat v + 4095"
    using assms unat_add_exact[of v 4095] by (simp add: add_diff_eq[symmetric])
  then have u: "unat (align_up v 4096) = unat v + 4095 - (unat v + 4095) mod 4096"
    by (simp add: align_up_def unat_align_down)
  have m: "(unat v + 4095) mod 4096 < 4096" by simp
  show "unat v \<le> unat (align_up v 4096)" "unat (align_up v 4096) < unat v + 4096"
    using u m by linarith+
  show "4096 dvd unat (align_up v 4096)" using u by (simp add: minus_mod_eq_mult_div)
qed

section \<open>What the loops write\<close>

lemma pread_loop_bytes:
  assumes "cur < en"
  shows "pread_loop (P_bytes k # rs) data dest st en cur m =
    (let n = min k (unat (en - cur))
     in if n = 0 then Inl Fetch_unexpected_eof
        else pread_loop rs data dest st en (cur + word_of_nat n)
               (write_bytes m (unat (dest + (cur - st))) n (\<lambda>j. data (unat cur + j))))"
  using assms by (subst pread_loop.simps) simp

lemma pread_loop_effect:
  "pread_loop rs data st st en cur m = Inr m' \<Longrightarrow> unat cur \<le> unat en \<Longrightarrow>
   m' = (\<lambda>b. if unat cur \<le> b \<and> b < unat en then Some (data b) else m b)"
proof (induction rs arbitrary: cur m)
  case Nil
  then show ?case by (auto simp: pread_loop.simps[of "[]"] word_less_nat_alt fun_eq_iff split: if_splits)
next
  case (Cons p rs)
  show ?case
  proof (cases "cur < en")
    case False
    then show ?thesis using Cons.prems
      by (auto simp: pread_loop.simps[of "p # rs"] word_less_nat_alt fun_eq_iff)
  next
    case True
    show ?thesis
    proof (cases p)
      case P_eintr
      then have "pread_loop (p # rs) data st st en cur m = pread_loop rs data st st en cur m"
        using True by (subst pread_loop.simps) simp
      then show ?thesis using Cons by simp
    next
      case P_error
      then have "pread_loop (p # rs) data st st en cur m = Inl Fetch_pread_failed"
        using True by (subst pread_loop.simps) simp
      then show ?thesis using Cons.prems by simp
    next
      case (P_bytes k)
      define n where "n = min k (unat (en - cur))"
      have d: "unat (en - cur) = unat en - unat cur"
        using True by (simp add: unat_sub word_less_nat_alt word_le_nat_alt)
      have n: "n \<le> unat en - unat cur" by (simp add: n_def d)
      have c': "unat (cur + word_of_nat n) = unat cur + n"
      proof -
        have "unat (word_of_nat n :: u64) = n" using n u64_bound[of en] by (simp add: unat_of_nat)
        then show ?thesis using n True u64_bound[of en]
          by (subst unat_add_exact) (simp_all add: word_less_nat_alt)
      qed
      let ?m = "write_bytes m (unat cur) n (\<lambda>j. data (unat cur + j))"
      have "pread_loop rs data st st en (cur + word_of_nat n) ?m = Inr m'"
        using Cons.prems(1) pread_loop_bytes[OF True, of k rs data st st m] P_bytes
        by (auto simp: n_def Let_def split: if_splits)
      from Cons.IH[OF this] c' n True show ?thesis
        by (auto simp: write_bytes_def word_less_nat_alt fun_eq_iff)
    qed
  qed
qed

text \<open>A script that reports no error and no end of file, and delivers enough bytes, completes.\<close>

fun delivered :: "pread_result list \<Rightarrow> nat" where
  "delivered [] = 0"
| "delivered (P_bytes n # rs) = n + delivered rs"
| "delivered (_ # rs) = delivered rs"

lemma pread_loop_completes:
  "P_error \<notin> set rs \<Longrightarrow> P_bytes 0 \<notin> set rs \<Longrightarrow> unat en \<le> unat cur + delivered rs \<Longrightarrow>
   \<exists>m'. pread_loop rs data dest st en cur m = Inr m'"
proof (induction rs arbitrary: cur m)
  case Nil
  then show ?case by (simp add: pread_loop.simps[of "[]"] word_less_nat_alt)
next
  case (Cons p rs)
  show ?case
  proof (cases "cur < en")
    case False
    then show ?thesis by (simp add: pread_loop.simps[of "p # rs"])
  next
    case True
    show ?thesis
    proof (cases p)
      case P_eintr
      then have "pread_loop (p # rs) data dest st en cur m = pread_loop rs data dest st en cur m"
        using True by (subst pread_loop.simps) simp
      then show ?thesis using Cons P_eintr by simp
    next
      case P_error
      then show ?thesis using Cons.prems by simp
    next
      case (P_bytes k)
      define n where "n = min k (unat (en - cur))"
      have d: "unat (en - cur) = unat en - unat cur"
        using True by (simp add: unat_sub word_less_nat_alt word_le_nat_alt)
      have n0: "n \<noteq> 0" using Cons.prems(2) P_bytes True d by (auto simp: n_def word_less_nat_alt)
      have c': "unat (cur + word_of_nat n) = unat cur + n"
      proof -
        have "n \<le> unat en - unat cur" by (simp add: n_def d)
        moreover have "unat (word_of_nat n :: u64) = n"
          using calculation u64_bound[of en] by (simp add: unat_of_nat)
        ultimately show ?thesis using True u64_bound[of en]
          by (subst unat_add_exact) (simp_all add: word_less_nat_alt)
      qed
      have "unat en \<le> unat (cur + word_of_nat n) + delivered rs"
        using Cons.prems(3) P_bytes c' d by (auto simp: n_def)
      with Cons.IH[of "cur + word_of_nat n"] Cons.prems n0 show ?thesis
        unfolding P_bytes pread_loop_bytes[OF True] by (simp flip: n_def add: Let_def)
    qed
  qed
qed

section \<open>What a fetch leaves behind\<close>

text \<open>
  The chunk starts before the end of the file. (The code does not check this; a chunk past the end
  is the subject of \<open>fetch_past_eof_leaks\<close>.)
\<close>

definition starts_in_file :: "region \<Rightarrow> nat \<Rightarrow> bool" where
  "starts_in_file r i \<longleftrightarrow>
     model_file_size r = 0 \<or> unat (file_off (chunk_at r i)) < unat (model_file_size r)"

lemma chunk_bounds:
  assumes "geometry_ok r" "i < n_chunks r"
  shows "file_off (chunk_at r i) = region_off (chunk_at r i)"
    and "4096 dvd unat (region_off (chunk_at r i))"
    and "unat (region_off (chunk_at r i)) + unat (len (chunk_at r i)) \<le> unat (region_len r)"
    and "unat (region_off (chunk_at r i) + len (chunk_at r i))
           = unat (region_off (chunk_at r i)) + unat (len (chunk_at r i))"
    and "unat (region_off (chunk_at r i)) + unat (len (chunk_at r i)) + 4095 < 2 ^ 64"
proof -
  have t: "tiles 0 (chunks r) (unat (region_len r))" and L: "unat (region_len r) < 2 ^ 63"
    and al: "\<forall>c\<in>set (chunks r). unat (region_off c) mod 4096 = 0"
    using assms(1) by (auto simp: geometry_ok_def)
  show "file_off (chunk_at r i) = region_off (chunk_at r i)" using tiles_nth[OF t assms(2)] by simp
  show "4096 dvd unat (region_off (chunk_at r i))" using al assms(2) by (simp add: mod_eq_0_iff_dvd)
  show w: "unat (region_off (chunk_at r i)) + unat (len (chunk_at r i)) \<le> unat (region_len r)"
    by (rule tiles_within[OF t assms(2)])
  then show "unat (region_off (chunk_at r i) + len (chunk_at r i))
           = unat (region_off (chunk_at r i)) + unat (len (chunk_at r i))"
    using L by (intro unat_add_exact) simp
  show "unat (region_off (chunk_at r i)) + unat (len (chunk_at r i)) + 4095 < 2 ^ 64"
    using w L by simp
qed

definition page_end :: "chunk \<Rightarrow> nat" where
  "page_end c = unat (align_up (region_off c + len c) RESIDCTL_ALIGN)"

text \<open>
  A completed read has filled the chunk's pages, and only those, with the bytes of the file and
  zeros past its end.
\<close>

lemma fetch_read_effect:
  assumes g: "geometry_ok r" and i: "i < n_chunks r" and s: "starts_in_file r i"
    and f: "fetch_read K r i = Inr r'"
  shows "r' = r\<lparr>memfd := (\<lambda>b. if unat (region_off (chunk_at r i)) \<le> b \<and> b < page_end (chunk_at r i)
                              then Some (model_byte r b) else memfd r b)\<rparr>"
proof -
  let ?c = "chunk_at r i"
  note B = chunk_bounds[OF g i]
  have st: "align_down (file_off ?c) RESIDCTL_ALIGN = region_off ?c"
    using B(1,2) align_down_id by (simp add: RESIDCTL_ALIGN_def)
  define st where "st = region_off ?c"
  define ae where "ae = align_up (st + len ?c) 4096"
  define fs where "fs = model_file_size r"
  have ae: "unat st + unat (len ?c) \<le> unat ae" "unat st \<le> unat ae"
    using align_up_bounds(1)[of "st + len ?c"] B(4,5) by (simp_all add: ae_def st_def)
  have pe: "page_end ?c = unat ae" by (simp add: page_end_def ae_def st_def RESIDCTL_ALIGN_def)
  define crosses where "crosses = (fs \<noteq> 0 \<and> ae > fs)"
  define de where "de = (if crosses then (if align_down fs 4096 > st then align_down fs 4096 else st) else ae)"
  define te where "te = (if crosses then fs else ae)"
  define m0 where "m0 = (if crosses then write_bytes (memfd r) (unat (st + (fs - st)))
                               (unat (ae - fs)) (\<lambda>_. 0) else memfd r)"
  from f obtain m1 m2 where
    l1: "pread_loop (k_preads K r i False) (model_data r) st st de st m0 = Inr m1"
    and l2: "pread_loop (k_preads K r i True) (model_data r) st st te de m1 = Inr m2"
    and r': "r' = r\<lparr>memfd := m2\<rparr>"
    unfolding fetch_read_def Let_def st
    by (auto simp: rbind_Inr_iff B(1) RESIDCTL_ALIGN_def st_def ae_def fs_def crosses_def de_def te_def
        m0_def split: if_splits)
  have sf: "unat st < unat fs" if crosses
    using s that by (auto simp: starts_in_file_def crosses_def fs_def st_def B(1) unat_eq_0)
  have d: "unat st \<le> unat de" "unat de \<le> unat te"
  proof -
    have "unat st \<le> unat (align_down fs 4096)" if crosses
      using align_down_ge[of "unat st" fs] B(2) sf[OF that] by (simp add: st_def)
    then show "unat st \<le> unat de" "unat de \<le> unat te"
      using ae sf align_down_bounds(1)[of fs] by (auto simp: de_def te_def)
  qed
  note e1 = pread_loop_effect[OF l1 d(1)] and e2 = pread_loop_effect[OF l2 d(2)]
  have m2: "m2 = (\<lambda>b. if unat st \<le> b \<and> b < unat te then Some (model_data r b) else m0 b)"
    using d by (auto simp: e1 e2 fun_eq_iff)
  have "m2 b = (if unat st \<le> b \<and> b < unat ae then Some (model_byte r b) else memfd r b)" for b
  proof (cases crosses)
    case True
    then have lt: "unat fs < unat ae" "fs \<noteq> 0" by (auto simp: crosses_def word_less_nat_alt)
    then have z: "unat (ae - fs) = unat ae - unat fs" by (simp add: unat_sub word_le_nat_alt)
    have "m0 b = (if unat fs \<le> b \<and> b < unat ae then Some 0 else memfd r b)"
      using True z lt by (auto simp: m0_def write_bytes_def)
    then show ?thesis
      using True lt sf[OF True] by (auto simp: m2 te_def model_byte_def fs_def)
  next
    case False
    then have "fs = 0 \<or> unat ae \<le> unat fs" by (auto simp: crosses_def word_less_nat_alt)
    then show ?thesis using False by (auto simp: m2 te_def m0_def model_byte_def fs_def)
  qed
  then have "m2 = (\<lambda>b. if unat st \<le> b \<and> b < unat ae then Some (model_byte r b) else memfd r b)"
    by (rule ext)
  then show ?thesis unfolding r' pe st_def[symmetric] by simp
qed

lemma page_end_bounds:
  assumes "geometry_ok r" "i < n_chunks r"
  shows "unat (region_off (chunk_at r i)) + unat (len (chunk_at r i)) \<le> page_end (chunk_at r i)"
    and "page_end (chunk_at r i) < unat (region_off (chunk_at r i)) + unat (len (chunk_at r i)) + 4096"
    and "4096 dvd page_end (chunk_at r i)"
  using align_up_bounds[of "region_off (chunk_at r i) + len (chunk_at r i)"] chunk_bounds(4,5)[OF assms]
  by (simp_all add: page_end_def RESIDCTL_ALIGN_def)

text \<open>The pages of a chunk do not reach into another chunk.\<close>

lemma pages_disjoint:
  assumes g: "geometry_ok r" and i: "i < n_chunks r" and j: "j < n_chunks r" "j \<noteq> i"
    and b: "in_chunk (chunk_at r j) b"
  shows "\<not> (unat (region_off (chunk_at r i)) \<le> b \<and> b < page_end (chunk_at r i))"
proof -
  have t: "tiles 0 (chunks r) (unat (region_len r))" using g by (simp add: geometry_ok_def)
  show ?thesis
  proof (cases "j < i")
    case True
    then show ?thesis using tiles_before[OF t True i] b by (auto simp: in_chunk_def)
  next
    case False
    with j have ij: "i < j" by simp
    have "page_end (chunk_at r i) \<le> unat (region_off (chunk_at r j))"
    proof (rule ccontr)
      assume "\<not> ?thesis"
      then obtain k where k: "page_end (chunk_at r i) = unat (region_off (chunk_at r j)) + k" "0 < k"
        using less_imp_add_positive[of "unat (region_off (chunk_at r j))"] by (metis not_le)
      have "4096 dvd k"
        using page_end_bounds(3)[OF g i] chunk_bounds(2)[OF g j(1)] k(1) by (metis dvd_add_right_iff)
      then have "4096 \<le> k" using k(2) by (rule dvd_imp_le)
      then show False
        using k(1) page_end_bounds(2)[OF g i] tiles_before[OF t ij j(1)] by simp
    qed
    then show ?thesis using b by (auto simp: in_chunk_def)
  qed
qed

lemma fetch_read_inv:
  assumes inv: "budget_inv r C F X" and i: "i \<in> F" and s: "starts_in_file r i"
    and f: "fetch_read K r i = Inr r'"
  shows "budget_inv r' C F X"
    and "\<forall>b. in_chunk (chunk_at r' i) b \<longrightarrow> memfd r' b = Some (model_byte r' b)"
    and "r' = r\<lparr>memfd := memfd r'\<rparr>"
proof -
  have a: "acct r C F" and g: "geometry_ok r" and p: "pins_ok r X" and d: "data_ok r C F" using inv by auto
  have il: "i < n_chunks r" "i \<notin> C" using a i by (auto simp: acct_def)
  note e = fetch_read_effect[OF g il(1) s f]
  have mem: "memfd r' b = (if unat (region_off (chunk_at r i)) \<le> b \<and> b < page_end (chunk_at r i)
      then Some (model_byte r b) else memfd r b)" for b using e by simp
  have oth: "region_len r' = region_len r" "chunks r' = chunks r" "resident_bytes r' = resident_bytes r"
    "reserved_bytes r' = reserved_bytes r" "pinned_prefetch r' = pinned_prefetch r"
    "model_byte r' b = model_byte r b" for b using e by (simp_all add: model_byte_def)
  show "r' = r\<lparr>memfd := memfd r'\<rparr>" using e by simp
  show own: "\<forall>b. in_chunk (chunk_at r' i) b \<longrightarrow> memfd r' b = Some (model_byte r' b)"
    using page_end_bounds(1)[OF g il(1)] by (auto simp: oth mem in_chunk_def)
  have "data_ok r' C F"
  proof -
    have "memfd r' b = Some (model_byte r' b)" if "j \<in> C" "in_chunk (chunk_at r j) b" for j b
    proof -
      have "j < n_chunks r" "j \<noteq> i" using that a il by (auto simp: acct_def)
      from pages_disjoint[OF g il(1) this that(2)] show ?thesis
        using d that by (auto simp: mem oth data_ok_def)
    qed
    moreover have "\<exists>j\<in>C \<union> F. in_chunk (chunk_at r j) b"
      if b: "b < unat (region_len r)" "memfd r' b \<noteq> None" for b
    proof (cases "unat (region_off (chunk_at r i)) \<le> b \<and> b < page_end (chunk_at r i)")
      case True
      have t: "tiles 0 (chunks r) (unat (region_len r))" using g by (simp add: geometry_ok_def)
      from tiles_cover[OF t _ b(1)] obtain j where j: "j < n_chunks r" "in_chunk (chunk_at r j) b"
        by (auto simp: in_chunk_def)
      then have "j = i" using pages_disjoint[OF g il(1) j(1) _ j(2)] True by blast
      then show ?thesis using i j by blast
    next
      case False
      then have "memfd r' b = memfd r b" unfolding mem by (simp only: if_False)
      then have "memfd r b \<noteq> None" using b(2) by simp
      then show ?thesis using d b(1) unfolding data_ok_def by simp
    qed
    ultimately show ?thesis unfolding data_ok_def oth by blast
  qed
  moreover have "geometry_ok r'" "acct r' C F" "pins_ok r' X"
    using g a p by (simp_all add: geometry_ok_def acct_def pins_ok_def oth)
  ultimately show "budget_inv r' C F X" by (simp add: budget_inv_def)
qed

text \<open>
  A completed \<^verbatim>\<open>fetch_chunk\<close>: the invariant is kept, every byte of the chunk is the model's,
  exactly one \<^verbatim>\<open>UFFDIO_CONTINUE\<close> was issued, and nothing else changed but the clock.
\<close>

lemma fetch_chunk_inv:
  assumes inv: "budget_inv r C F X" and i: "i \<in> F" and s: "starts_in_file r i"
    and f: "fetch_chunk K r i timed = Inr (t, r')"
  shows "budget_inv r' C F X"
    and "\<forall>b. in_chunk (chunk_at r' i) b \<longrightarrow> memfd r' b = Some (model_byte r' b)"
    and "\<exists>m p. r' = r\<lparr>memfd := m, clk_pos := p,
              uffd_log := uffd_log r @ [UFFDIO_CONTINUE (region_off (chunk_at r i)) (len (chunk_at r i))]\<rparr>"
proof -
  define r0 where "r0 = (if timed then r\<lparr>clk_pos := clk_pos r + 1\<rparr> else r)"
  have sn: "snd (if timed then now_ns K r else (0, r)) = (if timed then r\<lparr>clk_pos := clk_pos r + 1\<rparr> else r)" for r :: region
    by (simp add: now_ns_def)
  from f obtain r1 r2 r3 where
    f1: "fetch_read K r0 i = Inr r1"
    and r2: "r2 = (if timed then r1\<lparr>clk_pos := clk_pos r1 + 1\<rparr> else r1)"
    and f3: "fetch_resolve K r2 i = Inr r3"
    and r': "r' = (if timed then r3\<lparr>clk_pos := clk_pos r3 + 1\<rparr> else r3)"
    by (cases timed) (auto simp: fetch_chunk_def r0_def now_ns_def rbind_Inr_iff Let_def)
  have inv0: "budget_inv r0 C F X" and s0: "starts_in_file r0 i"
    using inv s budget_inv_cong[of r0 r] by (auto simp: r0_def inv_part_def starts_in_file_def)
  note R = fetch_read_inv[OF inv0 i s0 f1]
  have r3: "r3 = r2\<lparr>uffd_log := uffd_log r2 @
      [UFFDIO_CONTINUE (region_off (chunk_at r2 i)) (len (chunk_at r2 i))]\<rparr>"
    using f3 by (auto simp: fetch_resolve_def Let_def split: continue_result.splits if_splits)
  have part: "inv_part r' = inv_part r1" unfolding r' r3 r2 by (simp add: inv_part_def)
  show "budget_inv r' C F X" using budget_inv_cong[OF part] R(1) by simp
  have same: "chunks r' = chunks r1" "memfd r' = memfd r1" "model_file_size r' = model_file_size r1"
    "model_data r' = model_data r1" using part by (simp_all add: inv_part_def)
  show "\<forall>b. in_chunk (chunk_at r' i) b \<longrightarrow> memfd r' b = Some (model_byte r' b)"
    using R(2) unfolding model_byte_def same .
  have "r1 = r0\<lparr>memfd := memfd r1\<rparr>" by (rule R(3))
  then obtain m where r1: "r1 = r0\<lparr>memfd := m\<rparr>" by blast
  show "\<exists>m p. r' = r\<lparr>memfd := m, clk_pos := p,
              uffd_log := uffd_log r @ [UFFDIO_CONTINUE (region_off (chunk_at r i)) (len (chunk_at r i))]\<rparr>"
    unfolding r' r3 r2 r1 r0_def
    by (rule exI[of _ m], rule exI[of _ "if timed then clk_pos r + 3 else clk_pos r"]) simp
qed


definition demo_reserved :: region where
  "demo_reserved = reserve 4096 (demo_fetching 2)"

lemma demo_reserved_inv: "budget_inv demo_reserved {} {2} (\<lambda>_. 0)"
proof -
  have i3: "(2 :: nat) < 3" by simp
  note D = demo_fetching_inv[OF i3]
  show ?thesis using reserve_inv[OF D(1,2) _ D(3)] D(4) by (simp add: demo_reserved_def)
qed

lemma demo_starts_in_file: "starts_in_file demo_reserved 2"
  unfolding starts_in_file_def by code_simp


lemma fetch_read_progress:
  assumes "geometry_ok s" and "i < n_chunks s"
    and reads: "\<forall>s' tail. P_error \<notin> set (k_preads K s' i tail) \<and> P_bytes 0 \<notin> set (k_preads K s' i tail)
           \<and> unat (region_len s) + 4096 \<le> delivered (k_preads K s' i tail)"
  shows "\<exists>r'. fetch_read K s i = Inr r' \<and> chunks r' = chunks s"
proof -
  let ?c = "chunk_at s i"
  note g = assms(1) and i = assms(2)
  note B = chunk_bounds[OF g i]
  have st: "align_down (file_off ?c) RESIDCTL_ALIGN = region_off ?c"
    using B(1,2) align_down_id by (simp add: RESIDCTL_ALIGN_def)
  have dm: "region_off ?c mod RESIDCTL_ALIGN = 0"
  proof -
    have "unat (region_off ?c mod RESIDCTL_ALIGN) = 0"
      using B(2) by (simp add: unat_mod RESIDCTL_ALIGN_def mod_eq_0_iff_dvd)
    then show ?thesis by (simp add: unat_eq_0)
  qed
  have pe: "page_end ?c < unat (region_len s) + 4096"
    using page_end_bounds(2)[OF g i] B(3) by simp
  define ae where "ae = align_up (region_off ?c + len ?c) RESIDCTL_ALIGN"
  have ae: "unat ae < unat (region_len s) + 4096" using pe by (simp add: ae_def page_end_def)
  have fin: "\<exists>m'. pread_loop (k_preads K s i tail) data dest st en cur m = Inr m'"
    if "unat en \<le> unat ae" for tail data dest st en cur m
  proof -
    have "unat en \<le> unat cur + delivered (k_preads K s i tail)" using that ae reads
      by (meson le_trans less_imp_le trans_le_add2)
    then show ?thesis using reads by (intro pread_loop_completes) auto
  qed
  define crosses where "crosses = (model_file_size s \<noteq> 0 \<and> ae > model_file_size s)"
  define te where "te = (if crosses then model_file_size s else ae)"
  define de where "de = (if crosses then (if align_down (model_file_size s) RESIDCTL_ALIGN > region_off ?c
      then align_down (model_file_size s) RESIDCTL_ALIGN else region_off ?c) else ae)"
  have le: "unat te \<le> unat ae" "unat de \<le> unat ae"
  proof -
    show "unat te \<le> unat ae" by (auto simp: te_def crosses_def word_less_nat_alt)
    have "unat (region_off ?c) \<le> unat ae"
      using page_end_bounds(1)[OF g i] by (simp add: ae_def page_end_def)
    moreover have "unat (align_down (model_file_size s) RESIDCTL_ALIGN) \<le> unat (model_file_size s)"
      using align_down_bounds(1) by (simp add: RESIDCTL_ALIGN_def)
    ultimately show "unat de \<le> unat ae"
      by (auto simp: de_def crosses_def word_less_nat_alt)
  qed
  let ?m0 = "if crosses then write_bytes (memfd s)
      (unat (region_off ?c + (model_file_size s - region_off ?c))) (unat (ae - model_file_size s)) (\<lambda>_. 0)
    else memfd s"
  obtain m1 where m1: "pread_loop (k_preads K s i False) (model_data s) (region_off ?c) (region_off ?c)
      de (region_off ?c) ?m0 = Inr m1" using fin[OF le(2)] by blast
  obtain m2 where m2: "pread_loop (k_preads K s i True) (model_data s) (region_off ?c) (region_off ?c)
      te de m1 = Inr m2" using fin[OF le(1)] by blast
  have "fetch_read K s i = Inr (s\<lparr>memfd := m2\<rparr>)"
    unfolding fetch_read_def Let_def st
    using dm m1 m2 by (simp add: B(1) ae_def[symmetric] crosses_def[symmetric] te_def[symmetric]
        de_def[symmetric] cong: if_cong)
  then show ?thesis by simp
qed

lemma fetch_chunk_progress:
  assumes "geometry_ok r" and "i < n_chunks r"
    and reads: "\<forall>s tail. P_error \<notin> set (k_preads K s i tail) \<and> P_bytes 0 \<notin> set (k_preads K s i tail)
           \<and> unat (region_len r) + 4096 \<le> delivered (k_preads K s i tail)"
    and map: "\<forall>s. k_continue K s i = C_mapped (sint (len (chunk_at s i)))"
  shows "\<exists>t r'. fetch_chunk K r i timed = Inr (t, r')"
proof -
  have read: "\<exists>r'. fetch_read K s i = Inr r' \<and> chunks r' = chunks s"
    if "chunks s = chunks r" "region_len s = region_len r" for s
    using assms(1,2) reads that by (intro fetch_read_progress) (simp_all add: geometry_ok_def)
  let ?r0 = "if timed then r\<lparr>clk_pos := clk_pos r + 1\<rparr> else r"
  obtain r1 where r1: "fetch_read K ?r0 i = Inr r1" using read[of ?r0] by (cases timed) auto
  let ?r2 = "if timed then r1\<lparr>clk_pos := clk_pos r1 + 1\<rparr> else r1"
  have res: "fetch_resolve K ?r2 i = Inr (?r2\<lparr>uffd_log := uffd_log ?r2 @
      [UFFDIO_CONTINUE (region_off (chunk_at ?r2 i)) (len (chunk_at ?r2 i))]\<rparr>)"
    using map by (simp add: fetch_resolve_def Let_def)
  show ?thesis
    using r1 res by (cases timed) (simp_all add: fetch_chunk_def now_ns_def Let_def)
qed

text \<open>
  C18. Fetching makes progress: if the kernel's answers to the reads contain no error and no premature
  end of file and deliver at least the bytes asked for, and the mapping call succeeds in full,
  then \<^verbatim>\<open>fetch_chunk\<close> returns, however the reads are split and interrupted.
\<close>

theorem fetch_chunk_returns:
  assumes "geometry_ok r" and "i < n_chunks r"
    and reads: "\<forall>s tail. P_error \<notin> set (k_preads K s i tail) \<and> P_bytes 0 \<notin> set (k_preads K s i tail)
           \<and> unat (region_len r) + 4096 \<le> delivered (k_preads K s i tail)"
    and map: "\<forall>s. k_continue K s i = C_mapped (sint (len (chunk_at s i)))"
  shows "\<exists>t r'. fetch_chunk K r i timed = Inr (t, r')"
  using assms by (rule fetch_chunk_progress)

theorem fetch_chunk_returns_witness:
  "\<exists>t r'. fetch_chunk demo_kernel demo_reserved 1 False = Inr (t, r')"
proof (rule fetch_chunk_returns)
  show "geometry_ok demo_reserved" using demo_reserved_inv by auto
  have "n_chunks demo_reserved = n_chunks demo_region"
    by (simp add: demo_reserved_def reserve_def demo_fetching_def)
  then show "1 < n_chunks demo_reserved" using demo_n by simp
  have "region_len demo_reserved = 12288" by code_simp
  then show "\<forall>s tail. P_error \<notin> set (k_preads demo_kernel s 1 tail)
      \<and> P_bytes 0 \<notin> set (k_preads demo_kernel s 1 tail)
      \<and> unat (region_len demo_reserved) + 4096 \<le> delivered (k_preads demo_kernel s 1 tail)"
    by (simp add: demo_kernel_def)
  show "\<forall>s. k_continue demo_kernel s 1 = C_mapped (sint (len (chunk_at s 1)))"
    by (simp add: demo_kernel_def)
qed

lemma demo_fetch_returns:
  assumes "geometry_ok r" "i < n_chunks r" "region_len r = 12288"
  shows "\<exists>t r'. fetch_chunk demo_kernel r i timed = Inr (t, r')"
  using assms by (intro fetch_chunk_progress) (simp_all add: demo_kernel_def)

text \<open>
  Startup does not compare the region with the file. When a chunk lies wholly past the end of the
  file, the zero-fill starts at the end of the file rather than at the chunk: fetching chunk 2 of a
  100-byte file populates chunk 1, which is ABSENT, not reserved and not counted.
\<close>

lemma fetch_past_eof_leaks:
  "map_sum id (\<lambda>r. (memfd r 5000, map state (chunks r)))
     (fetch_read demo_kernel (demo_reserved\<lparr>model_file_size := 100\<rparr>) 2)
   = Inr (Some 0, [CHUNK_ABSENT, CHUNK_ABSENT, CHUNK_FETCHING])"
  by code_simp

end
