(* ===== verification/Prefetch.thy ===== *)
theory Prefetch
  imports Fetch
begin

text \<open>
  The steps every fetch shares, and the inline prefetch (\<^verbatim>\<open>prefetch.c\<close>): marking a chunk
  FETCHING, completing or dropping a speculative fetch. A chunk's mutex is held from the marking to the
  end of the operation, so each operation is one step on that chunk.
\<close>

section \<open>Shared steps\<close>

text \<open>ABSENT to FETCHING, with the new fault sequence number.\<close>

definition mark_fetching :: "u64 \<Rightarrow> nat \<Rightarrow> region \<Rightarrow> region" where
  "mark_fetching t i r =
     upd_chunk i (\<lambda>c. c\<lparr>state := CHUNK_FETCHING, fetching_since_ns := t,
                       last_fault_seq := fault_seq r + 1\<rparr>)
       (r\<lparr>fault_seq := fault_seq r + 1\<rparr>)"

text \<open>\<^verbatim>\<open>state = RESIDENT; fetching_since_ns = 0; stat_bytes_fetched += len\<close>\<close>

definition mark_resident :: "nat \<Rightarrow> region \<Rightarrow> region" where
  "mark_resident i r =
     (upd_chunk i (\<lambda>c. c\<lparr>state := CHUNK_RESIDENT, fetching_since_ns := 0\<rparr>) r)
       \<lparr>stat_bytes_fetched := stat_bytes_fetched r + len (chunk_at r i)\<rparr>"

definition trace_fetch :: "(fetch_trace_record \<Rightarrow> fetch_trace_record) \<Rightarrow> region \<Rightarrow> failure + region" where
  "trace_fetch f r =
     (case diag_fetch_trace r of
        None \<Rightarrow> Inr r
      | Some ft \<Rightarrow>
          rbind (fetch_trace_reserve ft) (\<lambda>(slot, ft').
            Inr (r\<lparr>diag_fetch_trace :=
                     Some (ft'\<lparr>ft_records := (ft_records ft')[slot := f (ft_records ft' ! slot)]\<rparr>)\<rparr>)))"

definition fetch_record ::
  "nat \<Rightarrow> bool \<Rightarrow> u64 \<Rightarrow> fetch_timing \<Rightarrow> u64 \<Rightarrow> u64 \<Rightarrow> fetch_trace_record \<Rightarrow> fetch_trace_record" where
  "fetch_record i pf t_start tm t_exit l rec =
     rec\<lparr>ft_chunk_id := i, ft_was_prefetch := pf, t_handler_entry_ns := t_start,
         t_read_start_ns := read_start_ns tm, t_read_end_ns := read_end_ns tm,
         t_continue_end_ns := continue_end_ns tm, t_handler_exit_ns := t_exit, ft_bytes_read := l\<rparr>"

text \<open>
  What both prefetch paths do once the bytes are there: commit, mark RESIDENT, hand the pin to the
  retention FIFO or drop it, count, trace.
\<close>

definition complete_prefetch :: "kernel \<Rightarrow> region \<Rightarrow> nat \<Rightarrow> u64 \<Rightarrow> fetch_timing \<Rightarrow> failure + region" where
  "complete_prefetch K r i t_start tm =
     (let r1 = mark_resident i (commit_reserved r (len (chunk_at r i)));
          r2 = (if prefetch_retention_pinned r1 then prefetch_retain_on_resident r1 i
                else unpin_chunk r1 i);
          r3 = r2\<lparr>stat_prefetches := stat_prefetches r2 + 1\<rparr>;
          (t_exit, r4) = now_ns K r3
      in trace_fetch (fetch_record i True t_start tm t_exit (len (chunk_at r4 i))) r4)"

section \<open>The inline prefetch\<close>

definition maybe_prefetch :: "kernel \<Rightarrow> region \<Rightarrow> nat \<Rightarrow> failure + region" where
  "maybe_prefetch K r just_resident =
     (case policy_of r of
        None \<Rightarrow> Inr r
      | Some p \<Rightarrow>
          let predicted = policy_predict_next p just_resident; idx = nat predicted
          in if predicted < 0 then Inr r
             else if idx \<ge> n_chunks r then Inl Prefetch_out_of_range
             else if idx = just_resident then Inr r
             else if state (chunk_at r idx) \<noteq> CHUNK_ABSENT then Inr r
             else let (t_start, r1) = now_ns K r;
                      r2 = mark_fetching t_start idx (pin_chunk r1 idx)
                  in rbind (record_fault K r2 (fault_seq r2) idx TRACE_FAULT_MISSING 1) (\<lambda>r3.
                     rbind (ensure_budget_prefetch K (pin_chunk r3 just_resident) idx) (\<lambda>(ok, r4).
                     let r5 = unpin_chunk r4 just_resident
                     in if \<not> ok
                        then let r6 = pager_abandon_fetch (unpin_chunk r5 idx) idx
                             in Inr (r6\<lparr>stat_prefetch_infeasible := stat_prefetch_infeasible r6 + 1\<rparr>)
                        else rbind (fetch_chunk K r5 idx (diag_fetch_trace r5 \<noteq> None)) (\<lambda>(tm, r6).
                             complete_prefetch K r6 idx t_start tm))))"

section \<open>Invariants of the shared steps\<close>

text \<open>What the operations of this and the next theories never change.\<close>

definition config_part where
  "config_part r =
     (region_len r, model_file_size r, model_data r, budget_bytes r, flags r,
      prefetch_enabled r, prefetch_depth r, async_handler r, prefetch_admission_always r,
      prefetch_retention_pinned r, reconcile_interval r, known_overhead_bytes r)"

lemma static_config: "static_part r' = static_part r \<Longrightarrow> config_part r' = config_part r"
  by (simp add: static_part_def config_part_def)

lemma starts_in_file_cong:
  "config_part r' = config_part r \<Longrightarrow> geom (chunk_at r' i) = geom (chunk_at r i) \<Longrightarrow>
   starts_in_file r' i = starts_in_file r i"
  by (simp add: config_part_def starts_in_file_def geom_def)

lemma record_fault_effect:
  assumes "record_fault K r sq i ft wp = Inr r'"
  obtains t p where "r' = r\<lparr>clk_pos := p, trace_of := t\<rparr>"
proof (cases "trace_of r")
  case None
  with assms have "r' = r\<lparr>clk_pos := clk_pos r, trace_of := trace_of r\<rparr>" by (simp add: record_fault_def)
  with that show thesis by blast
next
  case (Some t)
  let ?w = "trace_record_call (k_writes K (r\<lparr>clk_pos := clk_pos r + 1\<rparr>)) (k_clock K (clk_pos r)) t sq
        (word_of_nat i) ft wp"
  from assms Some obtain t' where "?w = Inr t'"
    by (cases ?w) (auto simp: record_fault_def now_ns_def Let_def)
  with assms Some have "r' = r\<lparr>clk_pos := clk_pos r + 1, trace_of := Some t'\<rparr>"
    by (simp add: record_fault_def now_ns_def Let_def)
  with that show thesis by blast
qed

lemma trace_fetch_effect:
  assumes "trace_fetch f r = Inr r'"
  obtains d where "r' = r\<lparr>diag_fetch_trace := d\<rparr>"
proof (cases "diag_fetch_trace r")
  case None
  with assms have "r' = r\<lparr>diag_fetch_trace := diag_fetch_trace r\<rparr>" by (simp add: trace_fetch_def)
  with that show thesis by blast
next
  case (Some ft)
  with assms have "\<exists>d. r' = r\<lparr>diag_fetch_trace := d\<rparr>"
    by (cases "fetch_trace_reserve ft") (auto simp: trace_fetch_def)
  with that show thesis by blast
qed

lemma mark_fetching_inv:
  assumes "budget_inv r C F X" "i < n_chunks r" "state (chunk_at r i) = CHUNK_ABSENT"
  shows "budget_inv (mark_fetching t i r) C F X"
    and "state (chunk_at (mark_fetching t i r) i) = CHUNK_FETCHING"
    and "n_chunks (mark_fetching t i r) = n_chunks r"
    and "i \<notin> C \<union> F" "i \<notin> retained r"
    and "j \<noteq> i \<Longrightarrow> chunk_at (mark_fetching t i r) j = chunk_at r j"
    and "geom (chunk_at (mark_fetching t i r) j) = geom (chunk_at r j)"
    and "pinned_prefetch (mark_fetching t i r) = pinned_prefetch r"
proof -
  show nC: "i \<notin> C \<union> F" and "i \<notin> retained r"
    using assms by (auto simp: budget_inv_def acct_def pins_ok_def retained_def)
  show "n_chunks (mark_fetching t i r) = n_chunks r" by (simp add: mark_fetching_def)
  show "state (chunk_at (mark_fetching t i r) i) = CHUNK_FETCHING"
    using assms(2) by (simp add: mark_fetching_def)
  show "j \<noteq> i \<Longrightarrow> chunk_at (mark_fetching t i r) j = chunk_at r j"
    by (simp add: mark_fetching_def upd_chunk_def)
  show "geom (chunk_at (mark_fetching t i r) j) = geom (chunk_at r j)"
    using assms(2) by (cases "j = i") (simp_all add: mark_fetching_def upd_chunk_def geom_def)
  show "pinned_prefetch (mark_fetching t i r) = pinned_prefetch r"
    by (simp add: mark_fetching_def upd_chunk_def)
  let ?r = "r\<lparr>fault_seq := fault_seq r + 1\<rparr>"
  have "budget_inv ?r C F X" using budget_inv_cong[of ?r r] assms(1) by (simp add: inv_part_def)
  then show "budget_inv (mark_fetching t i r) C F X"
    unfolding mark_fetching_def using nC assms(2)
    by (intro upd_unheld_inv) (simp_all add: geom_def)
qed

text \<open>After the bytes are there: the chunk moves from reserved to committed and becomes RESIDENT.\<close>

lemma commit_resident_inv:
  assumes inv: "budget_inv r C (insert i F) X" and i: "i \<notin> F" "i < n_chunks r"
    and bytes: "\<forall>b. in_chunk (chunk_at r i) b \<longrightarrow> memfd r b = Some (model_byte r b)"
  shows "budget_inv (mark_resident i (commit_reserved r (len (chunk_at r i)))) (insert i C) F X"
    and "state (chunk_at (mark_resident i (commit_reserved r l)) i) = CHUNK_RESIDENT"
    and "retained (mark_resident i (commit_reserved r l)) = retained r" "i \<notin> retained r"
    and "n_chunks (mark_resident i (commit_reserved r l)) = n_chunks r"
proof -
  let ?c = "commit_reserved r (len (chunk_at r i))"
  have c: "budget_inv ?c (insert i C) F X" by (rule commit_inv[OF inv i bytes])
  have ch: "chunks ?c = chunks r" by (simp add: commit_reserved_def)
  have fet: "state (chunk_at r i) = CHUNK_FETCHING" using inv by (auto simp: budget_inv_def acct_def)
  show nr: "i \<notin> retained r" using inv fet by (auto simp: budget_inv_def pins_ok_def retained_def)
  have rc: "retained ?c = retained r" by (simp add: commit_reserved_def retained_def)
  have pi: "pin (chunk_at r i) = X i"
    using inv nr i(2) by (auto simp: budget_inv_def pins_ok_def retained_def)
  have "X = X(i := X i)" by simp
  then have "budget_inv (upd_chunk i (\<lambda>c. c\<lparr>state := CHUNK_RESIDENT, fetching_since_ns := 0\<rparr>) ?c)
      (insert i C) F X"
    using c i nr rc pi by (intro upd_chunk_inv[where p = "X i" and X = X]) (auto simp: ch geom_def)
  then show "budget_inv (mark_resident i ?c) (insert i C) F X"
    by (subst budget_inv_cong[where r = "upd_chunk i (\<lambda>c. c\<lparr>state := CHUNK_RESIDENT, fetching_since_ns := 0\<rparr>) ?c"])
      (simp_all add: mark_resident_def inv_part_def)
  show "state (chunk_at (mark_resident i (commit_reserved r l)) i) = CHUNK_RESIDENT"
    "n_chunks (mark_resident i (commit_reserved r l)) = n_chunks r"
    "retained (mark_resident i (commit_reserved r l)) = retained r"
    using i(2) by (simp_all add: mark_resident_def commit_reserved_def retained_def upd_chunk_def)
qed

text \<open>
  What an operation may do to the chunks other than its target \<open>i\<close>: their geometry stays, none
  starts or stops being FETCHING, none that another operation has pinned changes at all.
\<close>

definition others_ok :: "nat \<Rightarrow> (nat \<Rightarrow> u32) \<Rightarrow> region \<Rightarrow> region \<Rightarrow> bool" where
  "others_ok i X r r' \<longleftrightarrow> n_chunks r' = n_chunks r \<and> config_part r' = config_part r
     \<and> (\<forall>j<n_chunks r. geom (chunk_at r' j) = geom (chunk_at r j))
     \<and> (\<forall>j<n_chunks r. j \<noteq> i \<longrightarrow>
          (state (chunk_at r' j) = state (chunk_at r j)
            \<or> state (chunk_at r j) = CHUNK_RESIDENT \<and> state (chunk_at r' j) = CHUNK_ABSENT)
          \<and> (X j \<noteq> 0 \<longrightarrow> chunk_at r' j = chunk_at r j))"

lemma others_ok_trans: "others_ok i X a b \<Longrightarrow> others_ok i X b c \<Longrightarrow> others_ok i X a c"
  unfolding others_ok_def by (metis)

lemma others_ok_same:
  assumes "chunks r' = chunks r" "config_part r' = config_part r"
  shows "others_ok i X r r'"
  using assms by (simp add: others_ok_def)

lemma others_ok_evict:
  assumes "only_evicts r r'" "static_part r' = static_part r" "pins_ok r X"
  shows "others_ok i X r r'"
  using assms pinned_stays[OF assms(1,3)] static_config[OF assms(2)]
  by (auto simp: others_ok_def only_evicts_def)

lemma others_ok_upd:
  assumes "geom (f (chunk_at r i)) = geom (chunk_at r i)" "i < n_chunks r"
  shows "others_ok i X r (upd_chunk i f r)"
  using assms by (auto simp: others_ok_def config_part_def upd_chunk_def nth_list_update)

lemma others_ok_retain:
  assumes inv: "budget_inv r C F X" and "i < n_chunks r" "i \<notin> retained r"
  shows "others_ok i X r (prefetch_retain_on_resident r i)"
proof (cases "rlen (pinned_prefetch r) < rcap (pinned_prefetch r)")
  case True
  then show ?thesis by (intro others_ok_same)
      (simp_all add: prefetch_retain_on_resident_def config_part_def)
next
  case False
  let ?q = "pinned_prefetch r"
  have pk: "pins_ok r X" and wf: "ring_wf ?q" using inv by (auto simp: pins_ok_def)
  have "ring_list ?q \<noteq> []"
    using False wf length_ring_list[of ?q] by (force simp: ring_wf_def)
  from ring_fifo.pop_ok[OF wf this] have rf: "ring_front ?q \<in> retained r"
    by (metis list.set_intros(1) retained_def)
  then have X0: "X (ring_front ?q) = 0" and n: "ring_front ?q < n_chunks r"
    using pk by (auto simp: pins_ok_def retained_def)
  have ch: "chunks (prefetch_retain_on_resident r i) =
      (chunks r)[ring_front ?q := (chunk_at r (ring_front ?q))\<lparr>pin := pin (chunk_at r (ring_front ?q)) - 1\<rparr>]"
    using False by (simp add: prefetch_retain_on_resident_def upd_chunk_def Let_def)
  have "chunk_at (prefetch_retain_on_resident r i) j = (if j = ring_front ?q
      then (chunk_at r j)\<lparr>pin := pin (chunk_at r j) - 1\<rparr> else chunk_at r j)" for j
    using n by (simp add: ch nth_list_update)
  moreover have "config_part (prefetch_retain_on_resident r i) = config_part r"
    using False by (simp add: prefetch_retain_on_resident_def config_part_def upd_chunk_def Let_def)
  ultimately show ?thesis using X0 by (auto simp: others_ok_def ch geom_def)
qed

lemma complete_prefetch_inv:
  assumes inv: "budget_inv r C (insert i F) X" and i: "i \<notin> F" "X i = 1"
    and bytes: "\<forall>b. in_chunk (chunk_at r i) b \<longrightarrow> memfd r b = Some (model_byte r b)"
    and c: "complete_prefetch K r i t tm = Inr r'"
  shows "budget_inv r' (insert i C) F (X(i := 0))" and "state (chunk_at r' i) = CHUNK_RESIDENT"
    and "others_ok i X r r'" and "uffd_log r' = uffd_log r"
proof -
  have iN: "i < n_chunks r" using inv by (auto simp: budget_inv_def acct_def)
  define r1 where "r1 = mark_resident i (commit_reserved r (len (chunk_at r i)))"
  define r2 where "r2 = (if prefetch_retention_pinned r1 then prefetch_retain_on_resident r1 i
                         else unpin_chunk r1 i)"
  define r4 where "r4 = r2\<lparr>stat_prefetches := stat_prefetches r2 + 1, clk_pos := clk_pos r2 + 1\<rparr>"
  note M = commit_resident_inv[OF inv i(1) iN bytes, folded r1_def]
  have M2: "state (chunk_at r1 i) = CHUNK_RESIDENT" "retained r1 = retained r" "i < n_chunks r1"
    using commit_resident_inv(2,3,5)[OF inv i(1) iN bytes] iN by (simp_all add: r1_def)
  have nr: "i \<notin> retained r1" using M(4) M2(2) by simp
  have "\<exists>d. r' = r4\<lparr>diag_fetch_trace := d\<rparr>"
    using c unfolding complete_prefetch_def Let_def r1_def[symmetric] r2_def[symmetric]
    by (auto simp: now_ns_def r4_def elim: trace_fetch_effect)
  then obtain d where r': "r' = r4\<lparr>diag_fetch_trace := d\<rparr>" ..
  have i2: "budget_inv r2 (insert i C) F (X(i := 0)) \<and> state (chunk_at r2 i) = CHUNK_RESIDENT
      \<and> others_ok i X r1 r2 \<and> uffd_log r2 = uffd_log r1"
  proof (cases "prefetch_retention_pinned r1")
    case True
    note R = retain_on_resident_inv[OF M(1) M2(3) nr i(2) M2(1)]
    have "i \<in> retained (prefetch_retain_on_resident r1 i)" using R(2) by auto
    then have "state (chunk_at (prefetch_retain_on_resident r1 i) i) = CHUNK_RESIDENT"
      using R(1) by (auto simp: budget_inv_def pins_ok_def retained_def)
    then show ?thesis using True R(1) others_ok_retain[OF M(1) M2(3) nr]
      by (auto simp: r2_def prefetch_retain_on_resident_def upd_chunk_def Let_def)
  next
    case False
    have "others_ok i X r1 (unpin_chunk r1 i)"
      unfolding unpin_chunk_def by (rule others_ok_upd) (simp_all add: geom_def M2)
    moreover have "state (chunk_at (unpin_chunk r1 i) i) = CHUNK_RESIDENT"
      using M2 by (simp add: unpin_chunk_def)
    moreover have "budget_inv (unpin_chunk r1 i) (insert i C) F (X(i := 0))"
      using pin_update_inv(2)[OF M(1) M2(3) nr] i(2) by simp
    ultimately show ?thesis using False by (simp add: r2_def unpin_chunk_def upd_chunk_def)
  qed
  have "inv_part r' = inv_part r2" by (simp add: r' r4_def inv_part_def)
  then show "budget_inv r' (insert i C) F (X(i := 0))" using i2 budget_inv_cong by metis
  show "state (chunk_at r' i) = CHUNK_RESIDENT" using i2 by (simp add: r' r4_def)
  have "others_ok i X r r1"
  proof -
    have "others_ok i X r (commit_reserved r (len (chunk_at r i)))"
      by (rule others_ok_same) (simp_all add: commit_reserved_def config_part_def)
    moreover have "others_ok i X (commit_reserved r (len (chunk_at r i))) r1"
      using iN by (auto simp: r1_def mark_resident_def others_ok_def commit_reserved_def config_part_def
          upd_chunk_def nth_list_update geom_def)
    ultimately show ?thesis by (rule others_ok_trans)
  qed
  moreover have "others_ok i X r2 r'"
    by (rule others_ok_same) (simp_all add: r' r4_def config_part_def)
  ultimately show "others_ok i X r r'" using i2 others_ok_trans by blast
  show "uffd_log r' = uffd_log r"
    using i2 by (simp add: r' r4_def r1_def mark_resident_def commit_reserved_def upd_chunk_def)
qed

section \<open>One speculative fetch\<close>

lemma others_ok_pin [simp]: "others_ok i (X(i := p)) r r' = others_ok i X r r'"
  by (auto simp: others_ok_def)

lemma others_ok_idle:
  assumes "others_ok i X r r'" "idle_ok r X" "state (chunk_at r' i) = CHUNK_ABSENT \<Longrightarrow> X i = 0"
  shows "idle_ok r' X"
  using assms unfolding idle_ok_def others_ok_def by metis

lemma others_ok_file:
  "others_ok i X r r' \<Longrightarrow> j < n_chunks r \<Longrightarrow> starts_in_file r' j = starts_in_file r j"
  by (intro starts_in_file_cong) (simp_all add: others_ok_def)

lemma absent_unheld:
  assumes "budget_inv r C F X" "i < n_chunks r" "state (chunk_at r i) = CHUNK_ABSENT"
  shows "i \<notin> C \<union> F" "i \<notin> retained r"
  using assms by (auto simp: budget_inv_def acct_def pins_ok_def retained_def)

lemma begin_prefetch_inv:
  assumes inv: "budget_inv r C F X" and i: "i < n_chunks r" "state (chunk_at r i) = CHUNK_ABSENT" "X i = 0"
    and rec: "record_fault K (mark_fetching t i (pin_chunk (r\<lparr>clk_pos := p\<rparr>) i)) sq i ft wp = Inr r'"
  shows "budget_inv r' C F (X(i := 1))" and "state (chunk_at r' i) = CHUNK_FETCHING"
    and "others_ok i X r r'" and "uffd_log r' = uffd_log r" and "i \<notin> C \<union> F"
    and "\<forall>j. j \<noteq> i \<longrightarrow> chunk_at r' j = chunk_at r j" and "retained r' = retained r"
proof -
  let ?r1 = "r\<lparr>clk_pos := p\<rparr>"
  let ?r2 = "mark_fetching t i (pin_chunk ?r1 i)"
  have inv1: "budget_inv ?r1 C F X" using budget_inv_cong[of ?r1 r] inv by (simp add: inv_part_def)
  note U = absent_unheld[OF inv i(1,2)]
  show "i \<notin> C \<union> F" by (rule U(1))
  have ret: "i \<notin> retained ?r1" using U(2) by (simp add: retained_def)
  have pinned: "budget_inv (pin_chunk ?r1 i) C F (X(i := 1))"
    using pin_update_inv(1)[OF inv1 _ ret] i(1,3) by simp
  have ab: "i < n_chunks (pin_chunk ?r1 i)" "state (chunk_at (pin_chunk ?r1 i) i) = CHUNK_ABSENT"
    using i by (simp_all add: pin_chunk_def)
  note M = mark_fetching_inv[OF pinned ab]
  from record_fault_effect[OF rec] obtain tr p2 where r': "r' = ?r2\<lparr>clk_pos := p2, trace_of := tr\<rparr>" .
  have part: "inv_part r' = inv_part ?r2" by (simp add: r' inv_part_def)
  show "budget_inv r' C F (X(i := 1))" using budget_inv_cong[OF part] M(1) by simp
  show "state (chunk_at r' i) = CHUNK_FETCHING" using M(2) by (simp add: r')
  have "chunks r' = (chunks r)[i := (chunk_at r i)\<lparr>pin := pin (chunk_at r i) + 1,
      state := CHUNK_FETCHING, fetching_since_ns := t, last_fault_seq := fault_seq r + 1\<rparr>]"
    using i(1) by (simp add: r' mark_fetching_def pin_chunk_def upd_chunk_def)
  moreover have "config_part r' = config_part r"
    by (simp add: r' mark_fetching_def pin_chunk_def upd_chunk_def config_part_def)
  ultimately show "others_ok i X r r'" "\<forall>j. j \<noteq> i \<longrightarrow> chunk_at r' j = chunk_at r j"
    using i(1) by (auto simp: others_ok_def nth_list_update geom_def)
  show "uffd_log r' = uffd_log r" "retained r' = retained r"
    by (simp_all add: r' mark_fetching_def pin_chunk_def upd_chunk_def retained_def)
qed

abbreviation wake_call :: "region \<Rightarrow> nat \<Rightarrow> uffd_call" where
  "wake_call r i \<equiv> UFFDIO_WAKE (region_off (chunk_at r i)) (len (chunk_at r i))"

abbreviation continue_call :: "region \<Rightarrow> nat \<Rightarrow> uffd_call" where
  "continue_call r i \<equiv> UFFDIO_CONTINUE (region_off (chunk_at r i)) (len (chunk_at r i))"

lemma others_ok_calls:
  "others_ok i X r r' \<Longrightarrow> i < n_chunks r \<Longrightarrow> wake_call r' i = wake_call r i \<and> continue_call r' i = continue_call r i"
  by (auto simp: others_ok_def geom_def)

lemma abandon_inv:
  assumes inv: "budget_inv r C F X" and i: "i < n_chunks r" "i \<notin> C \<union> F"
  shows "budget_inv (pager_abandon_fetch r i) C F X"
    and "state (chunk_at (pager_abandon_fetch r i) i) = CHUNK_ABSENT"
    and "others_ok i X r (pager_abandon_fetch r i)"
    and "uffd_log (pager_abandon_fetch r i) = uffd_log r @ [wake_call r i]"
proof -
  let ?u = "upd_chunk i (\<lambda>c. c\<lparr>state := CHUNK_ABSENT, fetching_since_ns := 0\<rparr>) r"
  have "budget_inv ?u C F X"
    using i by (intro upd_unheld_inv[OF inv]) (simp_all add: geom_def)
  then show "budget_inv (pager_abandon_fetch r i) C F X"
    using budget_inv_cong[of "pager_abandon_fetch r i" ?u]
    by (simp add: pager_abandon_fetch_def wake_range_def inv_part_def)
  show "state (chunk_at (pager_abandon_fetch r i) i) = CHUNK_ABSENT"
    "uffd_log (pager_abandon_fetch r i) = uffd_log r @ [wake_call r i]"
    using i(1) by (simp_all add: pager_abandon_fetch_def wake_range_def upd_chunk_def)
  show "others_ok i X r (pager_abandon_fetch r i)"
    using i(1) by (auto simp: others_ok_def pager_abandon_fetch_def wake_range_def upd_chunk_def config_part_def
        nth_list_update geom_def)
qed

lemma drop_prefetch_inv:
  assumes inv: "budget_inv r C F X" and i: "i < n_chunks r" "i \<notin> C \<union> F" "X i = 1"
  shows "budget_inv (pager_abandon_fetch (unpin_chunk r i) i) C F (X(i := 0))"
    and "state (chunk_at (pager_abandon_fetch (unpin_chunk r i) i) i) = CHUNK_ABSENT"
    and "others_ok i X r (pager_abandon_fetch (unpin_chunk r i) i)"
    and "uffd_log (pager_abandon_fetch (unpin_chunk r i) i) = uffd_log r @ [wake_call r i]"
proof -
  have ret: "i \<notin> retained r" using inv i(1,3) by (auto simp: budget_inv_def pins_ok_def retained_def)
  have u: "budget_inv (unpin_chunk r i) C F (X(i := 0))"
    using pin_update_inv(2)[OF inv i(1) ret] i(3) by simp
  have n: "i < n_chunks (unpin_chunk r i)" using i(1) by (simp add: unpin_chunk_def)
  have ou: "others_ok i X r (unpin_chunk r i)"
    unfolding unpin_chunk_def using i(1) by (intro others_ok_upd) (simp_all add: geom_def)
  note A = abandon_inv[OF u n i(2)]
  show "budget_inv (pager_abandon_fetch (unpin_chunk r i) i) C F (X(i := 0))"
    "state (chunk_at (pager_abandon_fetch (unpin_chunk r i) i) i) = CHUNK_ABSENT"
    by (rule A)+
  show "others_ok i X r (pager_abandon_fetch (unpin_chunk r i) i)"
    using others_ok_trans[OF ou] A(3) by simp
  show "uffd_log (pager_abandon_fetch (unpin_chunk r i) i) = uffd_log r @ [wake_call r i]"
    using A(4) others_ok_calls[OF ou i(1)] by (simp add: unpin_chunk_def upd_chunk_def)
qed

text \<open>The bytes are fetched, the fault resolved and the pin handed over.\<close>

lemma fetch_others: "fetch_chunk K r i td = Inr (tm, r') \<Longrightarrow> budget_inv r C F X \<Longrightarrow> i \<in> F \<Longrightarrow>
    starts_in_file r i \<Longrightarrow> others_ok j X r r' \<and> chunks r' = chunks r
      \<and> uffd_log r' = uffd_log r @ [continue_call r i]"
  using fetch_chunk_inv(3)[of r C F X i K td tm r']
  by (auto simp: others_ok_def config_part_def)

lemma finish_prefetch_inv:
  assumes inv: "budget_inv r C (insert i F) X" and i: "i \<notin> F" "X i = 1" and s: "starts_in_file r i"
    and f: "fetch_chunk K r i td = Inr (tm, r6)" and c: "complete_prefetch K r6 i t tm = Inr r'"
  shows "budget_inv r' (insert i C) F (X(i := 0))" and "state (chunk_at r' i) = CHUNK_RESIDENT"
    and "others_ok i X r r'" and "uffd_log r' = uffd_log r @ [continue_call r i]"
proof -
  have iF: "i \<in> insert i F" by simp
  note R = fetch_chunk_inv[OF inv iF s f] and O = fetch_others[OF f inv iF s, of i]
  note P = complete_prefetch_inv[OF R(1) i R(2) c]
  show "budget_inv r' (insert i C) F (X(i := 0))" "state (chunk_at r' i) = CHUNK_RESIDENT" by (rule P)+
  show "others_ok i X r r'" using others_ok_trans P(3) O by blast
  show "uffd_log r' = uffd_log r @ [continue_call r i]" using P(4) O by simp
qed

text \<open>
  How an operation on chunk \<open>i\<close> may end: the invariant holds with the same reservations and pins of
  the other operations, and the chunk is RESIDENT after a \<^verbatim>\<open>UFFDIO_CONTINUE\<close>, or ABSENT
  after a \<^verbatim>\<open>UFFDIO_WAKE\<close>, of exactly its range.
\<close>

definition settled :: "nat set \<Rightarrow> (nat \<Rightarrow> u32) \<Rightarrow> nat \<Rightarrow> region \<Rightarrow> region \<Rightarrow> bool" where
  "settled F X i r r' \<longleftrightarrow> (\<exists>C. budget_inv r' C F X) \<and> others_ok i X r r'
     \<and> (state (chunk_at r' i) = CHUNK_RESIDENT \<and> uffd_log r' = uffd_log r @ [continue_call r i]
        \<or> state (chunk_at r' i) = CHUNK_ABSENT \<and> uffd_log r' = uffd_log r @ [wake_call r i])"

lemma settled_cong:
  assumes "settled F X i r r'" "inv_part r'' = inv_part r'" "config_part r'' = config_part r'"
    "uffd_log r'' = uffd_log r'"
  shows "settled F X i r r''"
proof -
  have "chunks r'' = chunks r'" using assms(2) by (simp add: inv_part_def)
  then show ?thesis using assms budget_inv_cong[OF assms(2)] by (simp add: settled_def others_ok_def)
qed

lemma reserve_others:
  assumes "reserved_for r C F X i r'" "pins_ok r X"
  shows "others_ok i X r r'" "chunk_at r' j = chunk_at r j \<or> X j = 0 \<or> n_chunks r \<le> j"
proof -
  have oe: "only_evicts r r'" and sp: "static_part r' = static_part r"
    using assms(1) by (auto simp: reserved_for_def)
  show "others_ok i X r r'" by (rule others_ok_evict[OF oe sp assms(2)])
  show "chunk_at r' j = chunk_at r j \<or> X j = 0 \<or> n_chunks r \<le> j"
    using pinned_stays[OF oe assms(2)] by (meson not_le)
qed

lemma settle_fetch:
  assumes "budget_inv r C (insert i F) (X(i := 1))" "i \<notin> F" "X i = 0" "starts_in_file r i"
    and "fetch_chunk K r i td = Inr (tm, r6)" "complete_prefetch K r6 i t tm = Inr r'"
  shows "settled F X i r r'"
proof -
  have one: "(X(i := 1)) i = 1" and XX: "(X(i := 1))(i := 0) = X" using assms(3) by auto
  note N = finish_prefetch_inv[where X = "X(i := 1)", OF assms(1,2) one assms(4-6), unfolded XX]
  have "others_ok i X r r'" using N(3) by (simp only: others_ok_pin)
  with N show ?thesis by (auto simp only: settled_def)
qed

lemma settle_drop:
  assumes "budget_inv r C F (X(i := 1))" "i < n_chunks r" "i \<notin> C \<union> F" "X i = 0"
  shows "settled F X i r (pager_abandon_fetch (unpin_chunk r i) i)"
proof -
  have one: "(X(i := 1)) i = 1" and XX: "(X(i := 1))(i := 0) = X" using assms(4) by auto
  note N = drop_prefetch_inv[where X = "X(i := 1)", OF assms(1-3) one, unfolded XX]
  have "others_ok i X r (pager_abandon_fetch (unpin_chunk r i) i)" using N(3) by (simp only: others_ok_pin)
  with N show ?thesis by (auto simp only: settled_def)
qed

lemma settled_infeasible:
  "settled F X i r r' \<Longrightarrow> settled F X i r (r'\<lparr>stat_prefetch_infeasible := n\<rparr>)"
  by (rule settled_cong) (simp_all add: inv_part_def config_part_def)

lemma settled_after:
  assumes "others_ok i X r r5" "uffd_log r5 = uffd_log r" "i < n_chunks r" "settled F X i r5 r'"
  shows "settled F X i r r'"
  using assms others_ok_trans[OF assms(1), of r'] others_ok_calls[OF assms(1,3)]
  by (simp add: settled_def)

section \<open>The inline prefetch keeps everything it does not own\<close>

lemma held_not_retained: "budget_inv r C F X \<Longrightarrow> X i \<noteq> 0 \<Longrightarrow> i < n_chunks r \<Longrightarrow> i \<notin> retained r"
  by (auto simp: budget_inv_def pins_ok_def retained_def)

text \<open>The speculative reservation, with the chunk that triggered it pinned once more around the call.\<close>

lemma pinned_reservation_inv:
  assumes inv: "budget_inv r C F X" and i: "i < n_chunks r" "i \<notin> C \<union> F" "state (chunk_at r i) = CHUNK_FETCHING"
    and j: "j < n_chunks r" "j \<noteq> i" "X j = 1"
    and e: "ensure_budget_prefetch K (pin_chunk r j) i = Inr (ok, r4)"
  shows "\<exists>C'\<subseteq>C. budget_inv (unpin_chunk r4 j) C' (if ok then insert i F else F) X"
    and "others_ok i X r (unpin_chunk r4 j)" and "uffd_log (unpin_chunk r4 j) = uffd_log r"
    and "chunk_at (unpin_chunk r4 j) i = chunk_at r i" "chunk_at (unpin_chunk r4 j) j = chunk_at r j"
    and "static_part (unpin_chunk r4 j) = static_part r"
proof -
  let ?p = "pin_chunk r j" and ?X = "X(j := X j + 1)"
  have invp: "budget_inv ?p C F ?X"
    using pin_update_inv(1)[OF inv j(1)] held_not_retained[OF inv _ j(1)] j(3) by simp
  have pi: "chunk_at ?p i = chunk_at r i" "n_chunks ?p = n_chunks r"
    using i(1) j(2) by (simp_all add: pin_chunk_def)
  have ip: "i < n_chunks ?p" "state (chunk_at ?p i) = CHUNK_FETCHING" using i pi by simp_all
  note E = ensure_budget_prefetch_spec[OF invp ip(1) i(2) ip(2) e]
  have r4: "\<exists>C'\<subseteq>C. budget_inv r4 C' (if ok then insert i F else F) ?X"
    "static_part r4 = static_part ?p" "only_evicts ?p r4"
    using E by (auto simp: reserved_for_def evict_ok_def split: if_splits)
  from r4(1) obtain C' where C': "C' \<subseteq> C" "budget_inv r4 C' (if ok then insert i F else F) ?X" by blast
  have n4: "n_chunks r4 = n_chunks r" using r4(3) pi(2) by (simp add: only_evicts_def)
  have nz: "?X j \<noteq> 0" using j(3) by simp
  have "budget_inv (unpin_chunk r4 j) C' (if ok then insert i F else F) (?X(j := ?X j - 1))"
    using j(1) n4 nz by (intro pin_update_inv(2)[OF C'(2)] held_not_retained[OF C'(2)]) simp_all
  then show "\<exists>C'\<subseteq>C. budget_inv (unpin_chunk r4 j) C' (if ok then insert i F else F) X"
    using C'(1) by auto
  have pk: "pins_ok ?p ?X" using invp by auto
  have ch4: "chunk_at r4 j = chunk_at ?p j" "chunk_at r4 i = chunk_at ?p i"
    using pinned_stays[OF r4(3) pk _ nz] j(1) pi only_evicts_fetching[OF r4(3) ip(1)] ip(2) by simp_all
  have at4: "chunk_at (unpin_chunk r4 j) k = (if k = j then chunk_at r j else chunk_at r4 k)"
    if "k < n_chunks r" for k
    using that ch4(1) n4 j(1) by (simp add: unpin_chunk_def pin_chunk_def)
  show "chunk_at (unpin_chunk r4 j) i = chunk_at r i" "chunk_at (unpin_chunk r4 j) j = chunk_at r j"
    using at4[OF i(1)] at4[OF j(1)] j(2) ch4(2) pi by simp_all
  have "others_ok i ?X ?p r4" by (rule others_ok_evict[OF r4(3,2) pk])
  moreover have "chunk_at ?p k = chunk_at r k" if "k \<noteq> j" "k < n_chunks r" for k
    using that by (simp add: pin_chunk_def)
  moreover have "config_part ?p = config_part r" "config_part (unpin_chunk r4 j) = config_part r4"
    by (simp_all add: pin_chunk_def unpin_chunk_def config_part_def upd_chunk_def)
  moreover have "n_chunks (unpin_chunk r4 j) = n_chunks r" using n4 by (simp add: unpin_chunk_def)
  ultimately show "others_ok i X r (unpin_chunk r4 j)"
    using at4 pi(2) unfolding others_ok_def by (auto split: if_splits)
  show "uffd_log (unpin_chunk r4 j) = uffd_log r" "static_part (unpin_chunk r4 j) = static_part r"
    using r4(2) by (simp_all add: static_part_def unpin_chunk_def pin_chunk_def upd_chunk_def)
qed

lemma maybe_prefetch_settles:
  assumes inv: "budget_inv r C F X" and idle: "idle_ok r X"
    and j: "j < n_chunks r" "X j = 1" "\<forall>i<n_chunks r. starts_in_file r i"
    and m: "maybe_prefetch K r j = Inr r'"
  shows "r' = r \<or> (\<exists>i<n_chunks r. i \<noteq> j \<and> state (chunk_at r i) = CHUNK_ABSENT \<and> settled F X i r r')"
proof (cases "policy_of r")
  case None
  then show ?thesis using m by (simp add: maybe_prefetch_def)
next
  case (Some pol)
  define i where "i = nat (policy_predict_next pol j)"
  show ?thesis
  proof (cases "policy_predict_next pol j < 0 \<or> i = j \<or> state (chunk_at r i) \<noteq> CHUNK_ABSENT")
    case True
    then show ?thesis using m Some by (auto simp: maybe_prefetch_def i_def Let_def split: if_splits)
  next
    case False
    have iN: "i < n_chunks r" using m Some False
      by (auto simp: maybe_prefetch_def i_def Let_def split: if_splits)
    have ab: "state (chunk_at r i) = CHUNK_ABSENT" "i \<noteq> j" using False by auto
    have X0: "X i = 0" using idle iN ab by (simp add: idle_ok_def)
    let ?r2 = "mark_fetching (k_clock K (clk_pos r)) i (pin_chunk (r\<lparr>clk_pos := clk_pos r + 1\<rparr>) i)"
    from m Some False iN obtain r3 ok r4 where
      rec: "record_fault K ?r2 (fault_seq ?r2) i TRACE_FAULT_MISSING 1 = Inr r3"
      and eb: "ensure_budget_prefetch K (pin_chunk r3 j) i = Inr (ok, r4)"
      and rest: "(if \<not> ok
          then let r6 = pager_abandon_fetch (unpin_chunk (unpin_chunk r4 j) i) i
               in Inr (r6\<lparr>stat_prefetch_infeasible := stat_prefetch_infeasible r6 + 1\<rparr>)
          else rbind (fetch_chunk K (unpin_chunk r4 j) i (diag_fetch_trace (unpin_chunk r4 j) \<noteq> None)) (\<lambda>(tm, r6).
               complete_prefetch K r6 i (k_clock K (clk_pos r)) tm)) = Inr r'"
      unfolding i_def by (auto simp: maybe_prefetch_def now_ns_def rbind_Inr_iff Let_def)
    note B = begin_prefetch_inv[OF inv iN ab(1) X0 rec]
    have n3: "n_chunks r3 = n_chunks r" using B(3) by (simp add: others_ok_def)
    have i3: "i < n_chunks r3" "j < n_chunks r3" "(X(i := 1)) j = 1" using iN j(1,2) n3 ab(2) by simp_all
    note P = pinned_reservation_inv[where X = "X(i := 1)", OF B(1) i3(1) B(5,2) i3(2) ab(2)[symmetric] i3(3) eb]
    define r5 where "r5 = unpin_chunk r4 j"
    have "others_ok i X r3 r5" using P(2) unfolding r5_def by (simp only: others_ok_pin)
    then have o5: "others_ok i X r r5" by (rule others_ok_trans[OF B(3)])
    have log5: "uffd_log r5 = uffd_log r" using P(3) B(4) by (simp add: r5_def)
    have n5: "i < n_chunks r5" using o5 iN by (simp add: others_ok_def)
    from P(1) obtain C' where C': "C' \<subseteq> C" "budget_inv r5 C' (if ok then insert i F else F) (X(i := 1))"
      by (auto simp: r5_def)
    have "settled F X i r5 r'"
    proof (cases ok)
      case True
      have s5: "starts_in_file r5 i" using others_ok_file[OF o5 iN] j(3) iN by simp
      from rest True obtain tm r6 where f: "fetch_chunk K r5 i (diag_fetch_trace r5 \<noteq> None) = Inr (tm, r6)"
        and c: "complete_prefetch K r6 i (k_clock K (clk_pos r)) tm = Inr r'"
        by (auto simp: r5_def rbind_Inr_iff)
      have iF: "i \<notin> F" using B(5) by simp
      have "budget_inv r5 C' (insert i F) (X(i := 1))" using C'(2) True by (simp only: if_True)
      then show ?thesis by (rule settle_fetch[where X = X, OF _ iF X0 s5 f c])
    next
      case False
      have iCF: "i \<notin> C' \<union> F" using B(5) C'(1) by blast
      let ?r6 = "pager_abandon_fetch (unpin_chunk r5 i) i"
      have "budget_inv r5 C' F (X(i := 1))" using C'(2) False by (simp only: if_False)
      then have "settled F X i r5 ?r6" by (rule settle_drop[where X = X, OF _ n5 iCF X0])
      moreover have "r' = ?r6\<lparr>stat_prefetch_infeasible := stat_prefetch_infeasible ?r6 + 1\<rparr>"
        using rest False unfolding r5_def Let_def by (simp only: if_True if_False simp_thms sum.inject)
      ultimately show ?thesis using settled_infeasible by (simp only:)
    qed
    then have "settled F X i r r'" by (rule settled_after[OF o5 log5 iN])
    then show ?thesis using iN ab by blast
  qed
qed

text \<open>
  The inline prefetch is harmless (I-4): called for a chunk just made RESIDENT that the caller
  holds pinned, a run that returns either does nothing or settles one other, ABSENT chunk, RESIDENT
  after its \<^verbatim>\<open>UFFDIO_CONTINUE\<close> or ABSENT again after a \<^verbatim>\<open>UFFDIO_WAKE\<close>,
  with every accounting invariant kept, no reservation or pin leaked, and the chunk just made
  RESIDENT untouched.
\<close>

lemma maybe_prefetch_harmless:
  assumes "budget_inv r C F X" and "idle_ok r X"
    and "j < n_chunks r" and "X j = 1" and "\<forall>i<n_chunks r. starts_in_file r i"
    and "maybe_prefetch K r j = Inr r'"
  shows "(r' = r \<or> (\<exists>i<n_chunks r. i \<noteq> j \<and> state (chunk_at r i) = CHUNK_ABSENT \<and> settled F X i r r'))
       \<and> chunk_at r' j = chunk_at r j \<and> idle_ok r' X"
proof -
  note S = maybe_prefetch_settles[OF assms]
  have "idle_ok r' X" if "settled F X i r r'" "state (chunk_at r i) = CHUNK_ABSENT" "i < n_chunks r" for i
    using that assms(2) others_ok_idle[of i X r r'] by (simp add: settled_def idle_ok_def)
  moreover have "chunk_at r' j = chunk_at r j" if "settled F X i r r'" "i \<noteq> j" for i
    using that assms(3,4) by (simp add: settled_def others_ok_def)
  ultimately show ?thesis using S assms(2) by metis
qed

text \<open>Chunk 2 fetched, committed and pinned, under a learned policy that predicts chunk 1 next.\<close>

definition filled :: "nat \<Rightarrow> region \<Rightarrow> region" where
  "filled i r = r\<lparr>memfd := (\<lambda>b. if in_chunk (chunk_at r i) b then Some (model_byte r b) else memfd r b)\<rparr>"

definition demo_resident :: region where
  "demo_resident = demo_region\<lparr>
     chunks := [new_chunk 0 0 4096 0, new_chunk 4096 4096 4096 1,
                (new_chunk 8192 8192 4096 2)\<lparr>state := CHUNK_RESIDENT, pin := 1\<rparr>],
     resident_bytes := 4096, prefetch_enabled := True,
     memfd := (\<lambda>b. if 8192 \<le> b \<and> b < 12288 then Some (if 10000 \<le> b then 0 else word_of_nat b) else None),
     policy_of := Some (Layer_order_learned
       \<lparr>ln_chunks = 3, last_fetched = Some 1, successor = [None, None, Some 1]\<rparr>)\<rparr>"

lemma filled_inv:
  assumes inv: "budget_inv r C F X" and i: "i \<in> F"
  shows "budget_inv (filled i r) C F X"
    and "\<forall>b. in_chunk (chunk_at (filled i r) i) b \<longrightarrow> memfd (filled i r) b = Some (model_byte (filled i r) b)"
proof -
  have d: "data_ok r C F" and a: "acct r C F" and g: "geometry_ok r" using inv by auto
  have mb: "model_byte (filled i r) b = model_byte r b" for b by (simp add: filled_def model_byte_def)
  have "data_ok (filled i r) C F"
    using d i unfolding data_ok_def mb by (auto simp: filled_def)
  then show "budget_inv (filled i r) C F X"
    using inv by (auto simp: budget_inv_def geometry_ok_def acct_def pins_ok_def filled_def)
  show "\<forall>b. in_chunk (chunk_at (filled i r) i) b \<longrightarrow> memfd (filled i r) b = Some (model_byte (filled i r) b)"
    unfolding mb by (simp add: filled_def)
qed

lemma demo_reserved_chunks:
  "n_chunks demo_reserved = 3" "len (chunk_at demo_reserved 2) = 4096"
  "j < 3 \<Longrightarrow> j \<noteq> 2 \<Longrightarrow> state (chunk_at demo_reserved j) = CHUNK_ABSENT"
proof -
  have i3: "(2 :: nat) < 3" by simp
  show "n_chunks demo_reserved = 3" "len (chunk_at demo_reserved 2) = 4096"
    using demo_n demo_fetching_inv(4)[OF i3] by (simp_all add: demo_reserved_def reserve_def demo_fetching_def)
  show "j < 3 \<Longrightarrow> j \<noteq> 2 \<Longrightarrow> state (chunk_at demo_reserved j) = CHUNK_ABSENT"
    using demo_inv_start(2)[of j] demo_n by (simp add: demo_reserved_def reserve_def demo_fetching_def)
qed

lemma demo_resident_inv:
  "budget_inv demo_resident {2} {} ((\<lambda>_. 0)(2 := 1))" "n_chunks demo_resident = 3"
  "state (chunk_at demo_resident 2) = CHUNK_RESIDENT"
  "j < 3 \<Longrightarrow> j \<noteq> 2 \<Longrightarrow> state (chunk_at demo_resident j) = CHUNK_ABSENT"
  "idle_ok demo_resident ((\<lambda>_. 0)(2 := 1))"
proof -
  let ?f = "filled 2 demo_reserved"
  let ?m = "mark_resident 2 (commit_reserved ?f 4096)"
  have two: "(2 :: nat) \<in> {2}" and no: "(2 :: nat) \<notin> {}" by simp_all
  note G = filled_inv[OF demo_reserved_inv two]
  have ch: "chunks ?f = chunks demo_reserved" by (simp add: filled_def)
  have n: "2 < n_chunks ?f" and l: "len (chunk_at ?f 2) = 4096"
    using ch demo_reserved_chunks(1,2) by simp_all
  note M = commit_resident_inv[OF G(1) no n G(2)]
  have m: "budget_inv ?m {2} {} (\<lambda>_. 0)" "2 \<notin> retained ?m" "2 < n_chunks ?m"
    "state (chunk_at ?m 2) = CHUNK_RESIDENT"
    using M(1,4) M(2,3,5)[of 4096] l n by simp_all
  have p: "budget_inv (pin_chunk ?m 2) {2} {} ((\<lambda>_. 0)(2 := 1))"
    using pin_update_inv(1)[OF m(1,3,2)] by simp
  have part: "inv_part demo_resident = inv_part (pin_chunk ?m 2)"
    by (simp add: demo_resident_def inv_part_def pin_chunk_def mark_resident_def commit_reserved_def
        filled_def upd_chunk_def demo_reserved_def reserve_def demo_fetching_def demo_region_def
        zero_region_def new_chunk_def in_chunk_def model_byte_def fun_eq_iff)
  show "budget_inv demo_resident {2} {} ((\<lambda>_. 0)(2 := 1))" using budget_inv_cong[OF part] p by simp
  show n3: "n_chunks demo_resident = 3" by (simp add: demo_resident_def)
  show st: "state (chunk_at demo_resident 2) = CHUNK_RESIDENT" by (simp add: demo_resident_def)
  show "j < 3 \<Longrightarrow> j \<noteq> 2 \<Longrightarrow> state (chunk_at demo_resident j) = CHUNK_ABSENT"
    by (auto simp: demo_resident_def new_chunk_def less_Suc_eq numeral_3_eq_3 numeral_2_eq_2)
  show "idle_ok demo_resident ((\<lambda>_. 0)(2 := 1))" using st by (auto simp: idle_ok_def)
qed

lemma demo_all_start_in_file: "\<forall>i<n_chunks demo_resident. starts_in_file demo_resident i"
proof -
  have "list_all (\<lambda>c. unat (file_off c) < 10000) (chunks demo_resident)"
    by (simp add: demo_resident_def new_chunk_def)
  moreover have "model_file_size demo_resident = 10000" by (simp add: demo_resident_def demo_region_def)
  ultimately show ?thesis by (simp add: starts_in_file_def list_all_length)
qed

lemma complete_prefetch_returns:
  assumes "diag_fetch_trace r = None"
  shows "\<exists>r'. complete_prefetch K r i t tm = Inr r'"
proof -
  have "diag_fetch_trace (mark_resident i (commit_reserved r l)) = None" for l
    using assms by (simp add: mark_resident_def commit_reserved_def upd_chunk_def)
  then show ?thesis
    by (simp add: complete_prefetch_def Let_def now_ns_def trace_fetch_def prefetch_retain_on_resident_def
        unpin_chunk_def upd_chunk_def)
qed

lemma demo_resident_fields:
  "policy_of demo_resident = Some (Layer_order_learned
     \<lparr>ln_chunks = 3, last_fetched = Some 1, successor = [None, None, Some 1]\<rparr>)"
  "trace_of demo_resident = None" "clk_pos demo_resident = 0" "diag_fetch_trace demo_resident = None"
  "region_len demo_resident = 12288" "fault_seq demo_resident = 0"
  by (simp_all add: demo_resident_def demo_region_def zero_region_def)

text \<open>A prefetch that got its reservation completes under the concrete kernel.\<close>

lemma demo_finish_returns:
  assumes "geometry_ok r" "i < n_chunks r" "region_len r = 12288" "diag_fetch_trace r = None"
    and "budget_inv r C F X" "i \<in> F" "starts_in_file r i"
  shows "\<exists>r'. rbind (fetch_chunk demo_kernel r i td) (\<lambda>(tm, r6). complete_prefetch demo_kernel r6 i t tm) = Inr r'"
proof -
  obtain tm r6 where f: "fetch_chunk demo_kernel r i td = Inr (tm, r6)"
    using demo_fetch_returns[OF assms(1-3)] by blast
  have "diag_fetch_trace r6 = None" using fetch_chunk_inv(3)[OF assms(5-7) f] assms(4) by auto
  with complete_prefetch_returns[of r6 demo_kernel i t tm] f show ?thesis by auto
qed

lemma maybe_prefetch_harmless_witness:
  "\<exists>r'. maybe_prefetch demo_kernel demo_resident 2 = Inr r'
     \<and> chunk_at r' 2 = chunk_at demo_resident 2"
proof -
  let ?X = "(\<lambda>_. 0)(2 := 1) :: nat \<Rightarrow> u32"
  let ?r3 = "mark_fetching 1000 1 (pin_chunk (demo_resident\<lparr>clk_pos := 1\<rparr>) 1)"
  have "map_sum id fst (ensure_budget_prefetch demo_kernel (pin_chunk ?r3 2) 1) = Inr True" by code_simp
  then obtain r4 where e: "ensure_budget_prefetch demo_kernel (pin_chunk ?r3 2) 1 = Inr (True, r4)"
    by (cases "ensure_budget_prefetch demo_kernel (pin_chunk ?r3 2) 1") auto
  let ?r5 = "unpin_chunk r4 2"
  have tr3: "trace_of ?r3 = None" "diag_fetch_trace ?r3 = None" "region_len ?r3 = 12288"
    by (simp_all add: mark_fetching_def pin_chunk_def upd_chunk_def demo_resident_fields)
  have rec: "record_fault demo_kernel (mark_fetching 1000 1 (pin_chunk (demo_resident\<lparr>clk_pos := 1\<rparr>) 1))
      sq 1 ft wp = Inr ?r3" for sq ft wp using tr3(1) by (simp add: record_fault_def)
  have n: "(1 :: nat) < n_chunks demo_resident" and ab: "state (chunk_at demo_resident 1) = CHUNK_ABSENT"
    and X1: "?X 1 = 0" using demo_resident_inv(2,4) by simp_all
  note B = begin_prefetch_inv[OF demo_resident_inv(1) n ab X1 rec]
  have n3: "1 < n_chunks ?r3" "2 < n_chunks ?r3" "(2 :: nat) \<noteq> 1" "(?X(1 := 1)) 2 = 1"
    using B(3) demo_resident_inv(2) by (simp_all add: others_ok_def)
  note P = pinned_reservation_inv[where X = "?X(1 := 1)", OF B(1) n3(1) B(5,2) n3(2,3,4) e]
  from P(1) obtain C' where inv5: "budget_inv ?r5 C' {1} (?X(1 := 1))" by auto
  have o5: "others_ok 1 ?X demo_resident ?r5"
    using others_ok_trans[OF B(3)] P(2)[unfolded others_ok_pin] by blast
  have g5: "geometry_ok ?r5" "1 < n_chunks ?r5" "region_len ?r5 = 12288" "starts_in_file ?r5 1"
    using inv5 o5 n demo_resident_fields(5) others_ok_file[OF o5 n] demo_all_start_in_file
    by (auto simp: others_ok_def config_part_def)
  have d5: "diag_fetch_trace ?r5 = None" using P(6) tr3(2) by (simp add: static_part_def)
  have "1 \<in> {1 :: nat}" by simp
  from demo_finish_returns[OF g5(1-3) d5 inv5 this g5(4)]
  have "\<exists>r'. maybe_prefetch demo_kernel demo_resident 2 = Inr r'"
    using e rec d5 demo_resident_inv(2) ab
    by (simp add: maybe_prefetch_def demo_resident_fields now_ns_def Let_def demo_kernel_def
        lo_learned_predict_next_def int32_cast_def)
  with maybe_prefetch_harmless[OF demo_resident_inv(1,5) _ _ demo_all_start_in_file]
    demo_resident_inv(2) show ?thesis by auto
qed

end
