(* ===== verification/Pool.thy ===== *)
theory Pool
  imports Prefetch
begin

text \<open>
  The fetch pool (\<^verbatim>\<open>prefetch_pool.c\<close>): two ring-buffer queues shared by the dispatcher and
  the workers, the demand fetch with its bounded retry, the speculative fetch with its back-off, the
  top-up that fills the prefetch queue along the policy's predictions, and the worker's choice of the
  next job. A demand fetch sleeps between its attempts; what the other threads do to the state
  meanwhile is \<open>k_others\<close> of the kernel, constrained by \<open>rely\<close> in the lemmas.
\<close>

section \<open>The pool\<close>

definition prefetch_pool_start :: "region \<Rightarrow> nat \<Rightarrow> region" where
  "prefetch_pool_start r workers =
     r\<lparr>prefetch_pool_handle := Some
        \<lparr>depth = prefetch_depth r, n_workers = (if workers > 0 then workers else 1), stop = False,
         demand_queue = ring_new (wrap32 (n_chunks r + 1)), pf_queue = ring_new (wrap32 (n_chunks r + 1)),
         pf_outstanding = 0, pf_tracked = replicate (n_chunks r) False\<rparr>\<rparr>"

definition prefetch_pool_enqueue_demand :: "prefetch_pool \<Rightarrow> nat \<Rightarrow> failure + prefetch_pool" where
  "prefetch_pool_enqueue_demand pool idx =
     (if rlen (demand_queue pool) \<ge> rcap (demand_queue pool) then Inl Demand_queue_full
      else Inr (pool\<lparr>demand_queue := ring_push (demand_queue pool) idx\<rparr>))"

text \<open>One candidate of the top-up: not tracked yet, ABSENT, not backing off, room in the queue.\<close>

definition top_up_one :: "u64 \<Rightarrow> region \<Rightarrow> prefetch_pool \<Rightarrow> nat \<Rightarrow> prefetch_pool" where
  "top_up_one now r pool idx =
     (if \<not> pf_tracked pool ! idx \<and> state (chunk_at r idx) = CHUNK_ABSENT
         \<and> \<not> decline_until_ns (chunk_at r idx) > now \<and> rlen (pf_queue pool) < rcap (pf_queue pool)
      then pool\<lparr>pf_tracked := (pf_tracked pool)[idx := True],
                pf_queue := ring_push (pf_queue pool) idx,
                pf_outstanding := wrap32 (pf_outstanding pool + 1)\<rparr>
      else pool)"

text \<open>The walk along the predictions, at most \<open>need\<close> steps from the chunk just made RESIDENT.\<close>

fun top_up_loop :: "kernel \<Rightarrow> nat \<Rightarrow> nat \<Rightarrow> nat \<Rightarrow> policy \<Rightarrow> region \<Rightarrow> prefetch_pool \<Rightarrow> region \<times> prefetch_pool"
where
  "top_up_loop K 0 just cursor p r pool = (r, pool)"
| "top_up_loop K (Suc n) just cursor p r pool =
     (let predicted = policy_predict_next p cursor; idx = nat predicted
      in if predicted < 0 \<or> idx \<ge> n_chunks r \<or> idx = just then (r, pool)
         else let (now, r1) = now_ns K r
              in top_up_loop K n just idx p r1 (top_up_one now r1 pool idx))"

definition prefetch_pool_top_up :: "kernel \<Rightarrow> region \<Rightarrow> nat \<Rightarrow> region" where
  "prefetch_pool_top_up K r just =
     (case (prefetch_pool_handle r, policy_of r) of
        (Some pool, Some p) \<Rightarrow>
          let need = (if pf_outstanding pool < depth pool then depth pool - pf_outstanding pool else 0);
              (r', pool') = top_up_loop K need just just p r pool
          in r'\<lparr>prefetch_pool_handle := Some pool'\<rparr>
      | _ \<Rightarrow> r)"

section \<open>Demand fetches\<close>

text \<open>The bounded retry: 2 ms of sleep, then \<^verbatim>\<open>ensure_budget\<close> again, at most \<open>n\<close> times.\<close>

fun retry_budget :: "kernel \<Rightarrow> nat \<Rightarrow> nat \<Rightarrow> region \<Rightarrow> failure + (bool \<times> region)" where
  "retry_budget K 0 i r = Inr (False, r)"
| "retry_budget K (Suc n) i r =
     (let r1 = k_others K n r
      in rbind (ensure_budget K r1 (len (chunk_at r1 i))) (\<lambda>(ok, r2).
           if ok then Inr (True, r2) else retry_budget K n i r2))"

definition demand_record ::
  "nat \<Rightarrow> u64 \<Rightarrow> fetch_timing \<Rightarrow> u64 \<Rightarrow> u64 \<Rightarrow> u64 \<Rightarrow> u64 \<Rightarrow> fetch_trace_record \<Rightarrow> fetch_trace_record" where
  "demand_record i t_start tm t_exit l entry enqueue rec =
     (fetch_record i False t_start tm t_exit l rec)
       \<lparr>t_dispatch_entry_ns := entry, t_dispatch_enqueue_ns := enqueue\<rparr>"

text \<open>
  What both demand paths do once the bytes are there: commit and pin in one critical section, mark
  RESIDENT, prefetch (\<open>after\<close>) while the chunk is pinned, unpin, count, record the latency, trace.
\<close>

definition complete_demand ::
  "kernel \<Rightarrow> (region \<Rightarrow> failure + region) \<Rightarrow> region \<Rightarrow> nat \<Rightarrow> u64
     \<Rightarrow> (u64 \<Rightarrow> u64 \<Rightarrow> fetch_trace_record \<Rightarrow> fetch_trace_record) \<Rightarrow> failure + region" where
  "complete_demand K after r i t_start f =
     (let r1 = mark_resident i (commit_reserved_and_pin r i (len (chunk_at r i)))
      in rbind (if prefetch_enabled r1 then after r1 else Inr r1) (\<lambda>r2.
         let r3 = (unpin_chunk r2 i)\<lparr>stat_absent_handled := stat_absent_handled r2 + 1\<rparr>;
             (t_exit, r4) = now_ns K r3;
             r5 = r4\<lparr>metrics_of := map_option (\<lambda>m. m\<lparr>handler_latency :=
                      latency_hist_record (handler_latency m) (t_exit - t_start)\<rparr>) (metrics_of r4)\<rparr>
         in trace_fetch (f t_exit (len (chunk_at r5 i))) r5))"

text \<open>
  From the reservation to the completion, shared with the synchronous handler: reserve, retrying at
  most \<open>attempts\<close> times; give the chunk up, or fetch it and complete.
\<close>

definition serve_demand ::
  "kernel \<Rightarrow> nat \<Rightarrow> (region \<Rightarrow> failure + region) \<Rightarrow> region \<Rightarrow> nat \<Rightarrow> u64
     \<Rightarrow> (fetch_timing \<Rightarrow> u64 \<Rightarrow> u64 \<Rightarrow> fetch_trace_record \<Rightarrow> fetch_trace_record) \<Rightarrow> failure + region" where
  "serve_demand K attempts after r i t_start f =
     rbind (ensure_budget K r (len (chunk_at r i))) (\<lambda>(ok1, r1).
     rbind (if ok1 then Inr (True, r1) else retry_budget K attempts i r1) (\<lambda>(ok, r2).
     if \<not> ok then Inr (pager_abandon_fetch r2 i)
     else rbind (fetch_chunk K r2 i (diag_fetch_trace r2 \<noteq> None)) (\<lambda>(tm, r3).
          complete_demand K after r3 i t_start (f tm))))"

definition do_one_demand :: "kernel \<Rightarrow> region \<Rightarrow> nat \<Rightarrow> failure + region" where
  "do_one_demand K r i =
     (let (t_start, r0) = now_ns K r; c = chunk_at r0 i
      in if state c \<noteq> CHUNK_FETCHING then Inl Demand_not_fetching
         else rbind (serve_demand K 200 (\<lambda>r. Inr (prefetch_pool_top_up K r i)) r0 i t_start
                       (\<lambda>tm t_exit l. demand_record i t_start tm t_exit l
                          (diag_dispatch_entry_ns c) (diag_dispatch_enqueue_ns c))) (\<lambda>r4.
              if state (chunk_at r4 i) = CHUNK_FETCHING then Inl Left_fetching else Inr r4))"

section \<open>Speculative fetches\<close>

definition do_one_prefetch :: "kernel \<Rightarrow> region \<Rightarrow> nat \<Rightarrow> failure + region" where
  "do_one_prefetch K r i =
     (if state (chunk_at r i) \<noteq> CHUNK_ABSENT then Inr r
      else let (t_start, r1) = now_ns K r;
               r2 = mark_fetching t_start i (pin_chunk r1 i)
           in rbind (record_fault K r2 (fault_seq r2) i TRACE_FAULT_MISSING 1) (\<lambda>r3.
              rbind (ensure_budget_prefetch K r3 i) (\<lambda>(ok, r4).
              if \<not> ok
              then let r5 = pager_abandon_fetch (unpin_chunk r4 i) i;
                       (now, r6) = now_ns K r5;
                       r7 = upd_chunk i (\<lambda>c. c\<lparr>decline_until_ns := now + 100000000\<rparr>) r6
                   in Inr (r7\<lparr>stat_prefetch_infeasible := stat_prefetch_infeasible r7 + 1\<rparr>)
              else rbind (fetch_chunk K r4 i (diag_fetch_trace r4 \<noteq> None)) (\<lambda>(tm, r5).
                   if policy_of r5 = None then Inl Null_policy
                   else rbind (complete_prefetch K r5 i t_start tm) (\<lambda>r6.
                        if state (chunk_at r6 i) = CHUNK_FETCHING then Inl Left_fetching else Inr r6)))))"

section \<open>The worker\<close>

datatype job = Demand nat | Speculative nat

text \<open>Strict priority: the prefetch queue is looked at only when the demand queue is empty.\<close>

definition worker_take :: "prefetch_pool \<Rightarrow> (job \<times> prefetch_pool) option" where
  "worker_take pool =
     (if rlen (demand_queue pool) > 0
      then Some (Demand (ring_front (demand_queue pool)), pool\<lparr>demand_queue := ring_pop (demand_queue pool)\<rparr>)
      else if rlen (pf_queue pool) > 0
      then Some (Speculative (ring_front (pf_queue pool)), pool\<lparr>pf_queue := ring_pop (pf_queue pool)\<rparr>)
      else None)"

text \<open>The bookkeeping after a prefetch job; the count is a 32-bit one.\<close>

definition job_done :: "nat \<Rightarrow> prefetch_pool \<Rightarrow> prefetch_pool" where
  "job_done i pool =
     pool\<lparr>pf_outstanding := wrap32 (pf_outstanding pool + 4294967295), pf_tracked := (pf_tracked pool)[i := False]\<rparr>"

text \<open>
  One round of \<^verbatim>\<open>worker_main\<close>: a job done, nothing to do (the worker waits on the
  condition variable), or the exit after \<^verbatim>\<open>stop\<close> with both queues empty.
\<close>

datatype round_result = Did region | Waits | Exits

definition worker_round :: "kernel \<Rightarrow> region \<Rightarrow> prefetch_pool \<Rightarrow> failure + round_result" where
  "worker_round K r pool =
     (case worker_take pool of
        None \<Rightarrow> Inr (if stop pool then Exits else Waits)
      | Some (Demand i, pool') \<Rightarrow>
          map_sum id Did (do_one_demand K (r\<lparr>prefetch_pool_handle := Some pool'\<rparr>) i)
      | Some (Speculative i, pool') \<Rightarrow>
          rbind (do_one_prefetch K (r\<lparr>prefetch_pool_handle := Some pool'\<rparr>) i) (\<lambda>r1.
          Inr (Did (r1\<lparr>prefetch_pool_handle := map_option (job_done i) (prefetch_pool_handle r1)\<rparr>))))"

section \<open>A speculative fetch settles its chunk\<close>

lemma settled_decline:
  assumes s: "settled F X i r r'" and i: "i < n_chunks r" and ab: "state (chunk_at r' i) = CHUNK_ABSENT"
  shows "settled F X i r (upd_chunk i (\<lambda>c. c\<lparr>decline_until_ns := t\<rparr>) r')"
proof -
  from s obtain C where inv: "budget_inv r' C F X" and o: "others_ok i X r r'"
    and log: "uffd_log r' = uffd_log r @ [wake_call r i]" using ab by (auto simp: settled_def)
  have i': "i < n_chunks r'" using o i by (simp add: others_ok_def)
  let ?u = "upd_chunk i (\<lambda>c. c\<lparr>decline_until_ns := t\<rparr>) r'"
  have "budget_inv ?u C F X"
    using absent_unheld[OF inv i' ab] ab by (intro upd_unheld_inv[OF inv i']) (simp_all add: geom_def)
  moreover have "others_ok i X r' ?u" using i' by (intro others_ok_upd) (simp_all add: geom_def)
  then have "others_ok i X r ?u" by (rule others_ok_trans[OF o])
  moreover have "uffd_log ?u = uffd_log r @ [wake_call r i]" using log by (simp add: upd_chunk_def)
  moreover have "state (chunk_at ?u i) = CHUNK_ABSENT" using ab i' by simp
  ultimately show ?thesis by (auto simp: settled_def)
qed

lemma settled_clock: "settled F X i r r' \<Longrightarrow> settled F X i r (r'\<lparr>clk_pos := p\<rparr>)"
  by (rule settled_cong) (simp_all add: inv_part_def config_part_def)

lemma do_one_prefetch_settles:
  assumes inv: "budget_inv r C F X" and i: "i < n_chunks r" "X i = 0" "starts_in_file r i"
    and d: "do_one_prefetch K r i = Inr r'"
  shows "if state (chunk_at r i) = CHUNK_ABSENT then settled F X i r r' else r' = r"
proof (cases "state (chunk_at r i) = CHUNK_ABSENT")
  case False
  then show ?thesis using d by (simp add: do_one_prefetch_def)
next
  case ab: True
  let ?t = "k_clock K (clk_pos r)"
  let ?r2 = "mark_fetching ?t i (pin_chunk (r\<lparr>clk_pos := clk_pos r + 1\<rparr>) i)"
  define drop where "drop = (\<lambda>r4. let r5 = pager_abandon_fetch (unpin_chunk r4 i) i;
                       (now, r6) = now_ns K r5;
                       r7 = upd_chunk i (\<lambda>c. c\<lparr>decline_until_ns := now + 100000000\<rparr>) r6
                   in (Inr (r7\<lparr>stat_prefetch_infeasible := stat_prefetch_infeasible r7 + 1\<rparr>) :: failure + region))"
  define go where "go = (\<lambda>r4. rbind (fetch_chunk K r4 i (diag_fetch_trace r4 \<noteq> None)) (\<lambda>(tm, r5).
                   if policy_of r5 = None then Inl Null_policy
                   else rbind (complete_prefetch K r5 i ?t tm) (\<lambda>r6.
                        if state (chunk_at r6 i) = CHUNK_FETCHING then Inl Left_fetching else Inr r6)))"
  have "do_one_prefetch K r i = rbind (record_fault K ?r2 (fault_seq ?r2) i TRACE_FAULT_MISSING 1)
      (\<lambda>r3. rbind (ensure_budget_prefetch K r3 i) (\<lambda>(ok, r4). if \<not> ok then drop r4 else go r4))"
    using ab unfolding do_one_prefetch_def now_ns_def drop_def go_def Let_def by simp
  with d obtain r3 ok r4 where
    rec: "record_fault K ?r2 (fault_seq ?r2) i TRACE_FAULT_MISSING 1 = Inr r3"
    and eb: "ensure_budget_prefetch K r3 i = Inr (ok, r4)"
    and rest: "(if \<not> ok then drop r4 else go r4) = Inr r'"
    by (auto simp: rbind_Inr_iff)
  note B = begin_prefetch_inv[OF inv i(1) ab i(2) rec]
  have n3: "i < n_chunks r3" using B(3) i(1) by (simp add: others_ok_def)
  note E = ensure_budget_prefetch_spec[OF B(1) n3 B(5,2) eb]
  have pk: "pins_ok r3 (X(i := 1))" using B(1) by auto
  have oe: "only_evicts r3 r4" and sp: "static_part r4 = static_part r3"
    and inv4: "\<exists>C'\<subseteq>C. budget_inv r4 C' (if ok then insert i F else F) (X(i := 1))"
    using E by (auto simp: reserved_for_def evict_ok_def split: if_splits)
  have "others_ok i X r3 r4" using others_ok_evict[OF oe sp pk, of i] by (simp only: others_ok_pin)
  then have o4: "others_ok i X r r4" by (rule others_ok_trans[OF B(3)])
  have log4: "uffd_log r4 = uffd_log r" using sp B(4) by (simp add: static_part_def)
  have n4: "i < n_chunks r4" using o4 i(1) by (simp add: others_ok_def)
  from inv4 obtain C' where C': "C' \<subseteq> C" "budget_inv r4 C' (if ok then insert i F else F) (X(i := 1))" by blast
  have "settled F X i r4 r'"
  proof (cases ok)
    case True
    from rest True obtain tm r5 where f: "fetch_chunk K r4 i (diag_fetch_trace r4 \<noteq> None) = Inr (tm, r5)"
      and c: "complete_prefetch K r5 i ?t tm = Inr r'"
      unfolding go_def by (auto simp: rbind_Inr_iff split: if_splits)
    have s4: "starts_in_file r4 i" using others_ok_file[OF o4 i(1)] i(3) by simp
    have iF: "i \<notin> F" using B(5) by simp
    have "budget_inv r4 C' (insert i F) (X(i := 1))" using C'(2) True by (simp only: if_True)
    then show ?thesis by (rule settle_fetch[where X = X, OF _ iF i(2) s4 f c])
  next
    case False
    have iCF: "i \<notin> C' \<union> F" using B(5) C'(1) by blast
    let ?r5 = "pager_abandon_fetch (unpin_chunk r4 i) i"
    have "budget_inv r4 C' F (X(i := 1))" using C'(2) False by (simp only: if_False)
    then have st: "settled F X i r4 ?r5" by (rule settle_drop[where X = X, OF _ n4 iCF i(2)])
    have ab5: "state (chunk_at (?r5\<lparr>clk_pos := p\<rparr>) i) = CHUNK_ABSENT" for p
      using n4 by (simp add: pager_abandon_fetch_def wake_range_def unpin_chunk_def)
    have "\<exists>p n t. r' = (upd_chunk i (\<lambda>c. c\<lparr>decline_until_ns := t\<rparr>) (?r5\<lparr>clk_pos := p\<rparr>))
        \<lparr>stat_prefetch_infeasible := n\<rparr>"
      using rest False unfolding drop_def by (auto simp: now_ns_def Let_def)
    then show ?thesis using settled_infeasible[OF settled_decline[OF settled_clock[OF st] n4 ab5]] by blast
  qed
  then show ?thesis using settled_after[OF o4 log4 i(1)] ab by simp
qed

section \<open>A demand fetch resolves its chunk\<close>

text \<open>What every operation keeps, and that it only adds to the calls made.\<close>

definition advances :: "region \<Rightarrow> region \<Rightarrow> bool" where
  "advances r r' \<longleftrightarrow> n_chunks r' = n_chunks r \<and> config_part r' = config_part r
     \<and> (\<forall>j<n_chunks r. geom (chunk_at r' j) = geom (chunk_at r j))
     \<and> (\<exists>l. uffd_log r' = uffd_log r @ l)"

lemma advances_refl: "chunks r' = chunks r \<Longrightarrow> config_part r' = config_part r \<Longrightarrow> uffd_log r' = uffd_log r \<Longrightarrow>
    advances r r'"
  by (simp add: advances_def)

lemma advances_trans [trans]: "advances a b \<Longrightarrow> advances b c \<Longrightarrow> advances a c"
  unfolding advances_def by auto

lemma others_advances: "others_ok i X r r' \<Longrightarrow> uffd_log r' = uffd_log r @ l \<Longrightarrow> advances r r'"
  by (auto simp: advances_def others_ok_def)

lemma advances_calls:
  "advances r r' \<Longrightarrow> i < n_chunks r \<Longrightarrow> wake_call r' i = wake_call r i \<and> continue_call r' i = continue_call r i"
  by (auto simp: advances_def geom_def)

lemma advances_file: "advances r r' \<Longrightarrow> i < n_chunks r \<Longrightarrow> starts_in_file r' i = starts_in_file r i"
  by (intro starts_in_file_cong) (simp_all add: advances_def)

lemma settled_advances: "settled F X i r r' \<Longrightarrow> advances r r'"
  by (auto simp: settled_def intro: others_advances)

text \<open>
  How a demand fetch may end: the invariant holds, the chunk is RESIDENT and the calls made since
  contain its \<^verbatim>\<open>UFFDIO_CONTINUE\<close>, or it is ABSENT and they contain its
  \<^verbatim>\<open>UFFDIO_WAKE\<close>.
\<close>

definition resolved :: "nat set \<Rightarrow> (nat \<Rightarrow> u32) \<Rightarrow> nat \<Rightarrow> region \<Rightarrow> region \<Rightarrow> bool" where
  "resolved F X i r r' \<longleftrightarrow> (\<exists>C. budget_inv r' C F X) \<and> advances r r'
     \<and> (\<exists>l. uffd_log r' = uffd_log r @ l
          \<and> (state (chunk_at r' i) = CHUNK_RESIDENT \<and> continue_call r i \<in> set l
             \<or> state (chunk_at r' i) = CHUNK_ABSENT \<and> wake_call r i \<in> set l))"

lemma resolved_after:
  assumes "advances r r1" "i < n_chunks r" "resolved F X i r1 r'"
  shows "resolved F X i r r'"
proof -
  from assms(1) obtain l1 where "uffd_log r1 = uffd_log r @ l1" by (auto simp: advances_def)
  with assms(3) advances_calls[OF assms(1,2)] advances_trans[OF assms(1), of r'] show ?thesis
    by (auto simp: resolved_def)
qed

text \<open>
  What the other threads may do while this one, holding the lock of chunk \<open>i\<close> in state FETCHING with
  nothing reserved for it, sleeps: keep the invariant (with reservations and pins of their own)
  and leave the chunk alone.
\<close>

definition rely :: "nat \<Rightarrow> region \<Rightarrow> region \<Rightarrow> bool" where
  "rely i r r' \<longleftrightarrow> advances r r' \<and> chunk_at r' i = chunk_at r i
     \<and> (\<forall>C F X. budget_inv r C F X \<longrightarrow> i \<notin> C \<union> F \<longrightarrow> X i = 0 \<longrightarrow>
          (\<exists>C' F' X'. budget_inv r' C' F' X' \<and> i \<notin> C' \<union> F' \<and> X' i = 0))"

lemma rely_refl: "rely i r r"
  by (auto simp: rely_def advances_refl)

text \<open>The state of a demand fetch between its attempts.\<close>

definition unserved :: "nat \<Rightarrow> region \<Rightarrow> bool" where
  "unserved i r \<longleftrightarrow> i < n_chunks r \<and> state (chunk_at r i) = CHUNK_FETCHING
     \<and> (\<exists>C F X. budget_inv r C F X \<and> i \<notin> C \<union> F \<and> X i = 0)"

definition served :: "nat \<Rightarrow> region \<Rightarrow> bool" where
  "served i r \<longleftrightarrow> (\<exists>C F X. budget_inv r C (insert i F) X \<and> i \<notin> C \<union> F \<and> X i = 0)"

lemma unservedI: "budget_inv r C F X \<Longrightarrow> i \<notin> C \<union> F \<Longrightarrow> X i = 0 \<Longrightarrow> i < n_chunks r \<Longrightarrow>
    state (chunk_at r i) = CHUNK_FETCHING \<Longrightarrow> unserved i r"
  unfolding unserved_def by blast

lemma servedI: "budget_inv r C (insert i F) X \<Longrightarrow> i \<notin> C \<union> F \<Longrightarrow> X i = 0 \<Longrightarrow> served i r"
  unfolding served_def by blast

lemma unserved_rely: "unserved i r \<Longrightarrow> rely i r r' \<Longrightarrow> unserved i r'"
  unfolding unserved_def rely_def advances_def by metis

lemma ensure_budget_unserved:
  assumes u: "unserved i r" and e: "ensure_budget K r (len (chunk_at r i)) = Inr (ok, r')"
  shows "advances r r'" and "chunk_at r' i = chunk_at r i"
    and "if ok then served i r' else unserved i r'"
    and "n_chunks r' = n_chunks r"
proof -
  from u obtain C F X where inv: "budget_inv r C F X" and i: "i < n_chunks r" "i \<notin> C \<union> F" "X i = 0"
    "state (chunk_at r i) = CHUNK_FETCHING" by (auto simp: unserved_def)
  note E = ensure_budget_spec[OF inv i(1,2,4) e]
  have oe: "only_evicts r r'" and sp: "static_part r' = static_part r"
    and I: "\<exists>C'\<subseteq>C. budget_inv r' C' (if ok then insert i F else F) X"
    using E by (auto simp: reserved_for_def evict_ok_def split: if_splits)
  have "others_ok i X r r'" using others_ok_evict[OF oe sp] inv by auto
  moreover have "uffd_log r' = uffd_log r @ []" using sp by (simp add: static_part_def)
  ultimately show "advances r r'" by (rule others_advances)
  show ch: "chunk_at r' i = chunk_at r i" and n: "n_chunks r' = n_chunks r"
    using only_evicts_fetching[OF oe i(1)] i(4) by simp_all
  from I obtain C' where C': "C' \<subseteq> C" "budget_inv r' C' (if ok then insert i F else F) X" by blast
  have "i \<notin> C' \<union> F" using C'(1) i(2) by blast
  then show "if ok then served i r' else unserved i r'"
    using C'(2) i ch n servedI[of r' C' i F X] unservedI[of r' C' F X i] by (cases ok) simp_all
qed

lemma retry_budget_inv:
  assumes "\<forall>n s. unserved i s \<longrightarrow> rely i s (k_others K n s)"
  shows "unserved i r \<Longrightarrow> retry_budget K n i r = Inr (ok, r') \<Longrightarrow>
    advances r r' \<and> n_chunks r' = n_chunks r
    \<and> (if ok then served i r' else unserved i r')"
proof (induction n arbitrary: r)
  case 0
  then show ?case by (simp add: advances_refl)
next
  case (Suc n)
  let ?r1 = "k_others K n r"
  have ry: "rely i r ?r1" using assms Suc.prems(1) by blast
  have u1: "unserved i ?r1" by (rule unserved_rely[OF Suc.prems(1) ry])
  have a1: "advances r ?r1" using ry by (simp add: rely_def)
  from Suc.prems(2) obtain ok2 r2 where e: "ensure_budget K ?r1 (len (chunk_at ?r1 i)) = Inr (ok2, r2)"
    and rest: "(if ok2 then Inr (True, r2) else retry_budget K n i r2) = Inr (ok, r')"
    by (auto simp: rbind_Inr_iff Let_def)
  note E = ensure_budget_unserved[OF u1 e]
  have a2: "advances r r2" using a1 E(1) by (rule advances_trans)
  show ?case
  proof (cases ok2)
    case True
    then show ?thesis using rest E a2 by (simp add: advances_def)
  next
    case False
    then have "unserved i r2" "retry_budget K n i r2 = Inr (ok, r')" using rest E(3) by simp_all
    from Suc.IH[OF this] show ?thesis using advances_trans[OF a2, of r'] a2 by (auto simp: advances_def)
  qed
qed

lemma unserved_abandon:
  assumes "unserved i r"
  shows "\<exists>F X. i \<notin> F \<and> X i = 0 \<and> resolved F X i r (pager_abandon_fetch r i)"
proof -
  from assms obtain C F X where inv: "budget_inv r C F X" and i: "i < n_chunks r" "i \<notin> C \<union> F" "X i = 0"
    by (auto simp: unserved_def)
  note A = abandon_inv[OF inv i(1,2)]
  have "resolved F X i r (pager_abandon_fetch r i)"
    using A others_advances[OF A(3,4)] by (auto simp: resolved_def)
  then show ?thesis using i by blast
qed

lemma pinned_resident_inv:
  assumes inv: "budget_inv r C (insert i F) X" and i: "i \<notin> F" "X i = 0"
    and bytes: "\<forall>b. in_chunk (chunk_at r i) b \<longrightarrow> memfd r b = Some (model_byte r b)"
  defines "r1 \<equiv> mark_resident i (commit_reserved_and_pin r i (len (chunk_at r i)))"
  shows "budget_inv r1 (insert i C) F (X(i := 1))" and "state (chunk_at r1 i) = CHUNK_RESIDENT"
    and "advances r r1" and "uffd_log r1 = uffd_log r" and "i < n_chunks r1" and "i \<notin> retained r1"
    and "n_chunks r1 = n_chunks r" and "others_ok i X r r1"
proof -
  have iN: "i < n_chunks r" using inv by (auto simp: budget_inv_def acct_def)
  let ?m = "mark_resident i (commit_reserved r (len (chunk_at r i)))"
  note M = commit_resident_inv[OF inv i(1) iN bytes]
  have m: "i < n_chunks ?m" "i \<notin> retained ?m"
    using M(4) commit_resident_inv(3,5)[OF inv i(1) iN bytes] iN by simp_all
  have p: "budget_inv (pin_chunk ?m i) (insert i C) F (X(i := 1))"
    using pin_update_inv(1)[OF M(1) m] i(2) by simp
  have comm: "c\<lparr>pin := p, state := s, fetching_since_ns := t\<rparr> = c\<lparr>state := s, fetching_since_ns := t, pin := p\<rparr>"
    for c :: chunk and p s t by (cases c) simp
  have ch: "chunks r1 = (chunks r)[i := (chunk_at r i)\<lparr>pin := pin (chunk_at r i) + 1,
      state := CHUNK_RESIDENT, fetching_since_ns := 0\<rparr>]"
    using iN by (simp add: r1_def mark_resident_def commit_reserved_and_pin_def pin_chunk_def
        commit_reserved_def upd_chunk_def)
  have part: "inv_part r1 = inv_part (pin_chunk ?m i)"
    using iN by (simp add: inv_part_def r1_def mark_resident_def commit_reserved_and_pin_def pin_chunk_def
        commit_reserved_def upd_chunk_def comm)
  show "budget_inv r1 (insert i C) F (X(i := 1))" using budget_inv_cong[OF part] p by simp
  show n: "n_chunks r1 = n_chunks r" by (simp add: ch)
  show "state (chunk_at r1 i) = CHUNK_RESIDENT" "i < n_chunks r1" using iN by (simp_all add: ch)
  show "uffd_log r1 = uffd_log r"
    by (simp add: r1_def mark_resident_def commit_reserved_and_pin_def pin_chunk_def commit_reserved_def upd_chunk_def)
  show "i \<notin> retained r1" using m(2)
    by (simp add: r1_def mark_resident_def commit_reserved_and_pin_def pin_chunk_def commit_reserved_def
        upd_chunk_def retained_def)
  have "config_part r1 = config_part r"
    by (simp add: r1_def mark_resident_def commit_reserved_and_pin_def pin_chunk_def commit_reserved_def
        upd_chunk_def config_part_def)
  then show "advances r r1" "others_ok i X r r1"
    using iN \<open>uffd_log r1 = uffd_log r\<close>
    by (auto simp: advances_def others_ok_def ch nth_list_update geom_def)
qed

text \<open>What the prefetching in the middle of a completion may do, the completed chunk being pinned.\<close>

definition keeps_pinned :: "nat \<Rightarrow> nat set \<Rightarrow> (nat \<Rightarrow> u32) \<Rightarrow> region \<Rightarrow> region \<Rightarrow> bool" where
  "keeps_pinned i F X r r' \<longleftrightarrow> (\<exists>C. budget_inv r' C F X) \<and> advances r r' \<and> chunk_at r' i = chunk_at r i"

lemma complete_demand_inv:
  assumes inv: "budget_inv r C (insert i F) X" and i: "i \<notin> F" "X i = 0"
    and bytes: "\<forall>b. in_chunk (chunk_at r i) b \<longrightarrow> memfd r b = Some (model_byte r b)"
    and aft: "\<And>r1 r2 C. budget_inv r1 C F (X(i := 1)) \<Longrightarrow> state (chunk_at r1 i) = CHUNK_RESIDENT \<Longrightarrow>
        advances r r1 \<Longrightarrow> others_ok i X r r1 \<Longrightarrow> after r1 = Inr r2 \<Longrightarrow> keeps_pinned i F (X(i := 1)) r1 r2"
    and c: "complete_demand K after r i t f = Inr r'"
  shows "\<exists>C. budget_inv r' C F X" and "state (chunk_at r' i) = CHUNK_RESIDENT" and "advances r r'"
proof -
  have iN: "i < n_chunks r" using inv by (auto simp: budget_inv_def acct_def)
  define r1 where "r1 = mark_resident i (commit_reserved_and_pin r i (len (chunk_at r i)))"
  note P = pinned_resident_inv[OF inv i bytes, folded r1_def]
  from c obtain r2 where a: "(if prefetch_enabled r1 then after r1 else Inr r1) = Inr r2"
    and rest: "\<exists>p m d. r' = (unpin_chunk r2 i)\<lparr>stat_absent_handled := stat_absent_handled r2 + 1, clk_pos := p,
        metrics_of := m, diag_fetch_trace := d\<rparr>"
    unfolding complete_demand_def Let_def r1_def[symmetric]
    by (auto simp: now_ns_def rbind_Inr_iff elim!: trace_fetch_effect)
  have k: "keeps_pinned i F (X(i := 1)) r1 r2"
  proof (cases "prefetch_enabled r1")
    case True
    then show ?thesis using aft[OF P(1,2,3,8)] a by simp
  next
    case False
    then show ?thesis using a P(1) by (auto simp: keeps_pinned_def advances_refl)
  qed
  then obtain C2 where inv2: "budget_inv r2 C2 F (X(i := 1))" and adv2: "advances r1 r2"
    and ch2: "chunk_at r2 i = chunk_at r1 i" by (auto simp: keeps_pinned_def)
  have n2: "i < n_chunks r2" using adv2 P(5) by (simp add: advances_def)
  have one: "(X(i := 1)) i \<noteq> 0" by simp
  have XX: "(X(i := 1))(i := (X(i := 1)) i - 1) = X" using i(2) by auto
  have inv3: "budget_inv (unpin_chunk r2 i) C2 F X"
    using pin_update_inv(2)[where X = "X(i := 1)", OF inv2 n2 held_not_retained[OF inv2 one n2]] by (simp only: XX)
  from rest obtain p m d where r': "r' = (unpin_chunk r2 i)\<lparr>stat_absent_handled := stat_absent_handled r2 + 1,
      clk_pos := p, metrics_of := m, diag_fetch_trace := d\<rparr>" by blast
  have "inv_part r' = inv_part (unpin_chunk r2 i)" by (simp add: r' inv_part_def)
  then show "\<exists>C. budget_inv r' C F X" using budget_inv_cong inv3 by metis
  show "state (chunk_at r' i) = CHUNK_RESIDENT"
    using P(2) ch2 n2 by (simp add: r' unpin_chunk_def)
  have "advances r2 r'"
    using n2 by (auto simp: r' advances_def unpin_chunk_def config_part_def upd_chunk_def nth_list_update geom_def)
  then show "advances r r'" using advances_trans[OF P(3) advances_trans[OF adv2]] by blast
qed

lemma top_up_loop_effect:
  "\<exists>p. fst (top_up_loop K n j c pol r pool) = r\<lparr>clk_pos := p\<rparr>"
proof (induction n arbitrary: c r pool)
  case 0
  show ?case by (simp add: exI[of _ "clk_pos r"])
next
  case (Suc n)
  let ?i = "nat (policy_predict_next pol c)"
  show ?case
  proof (cases "policy_predict_next pol c < 0 \<or> ?i \<ge> n_chunks r \<or> ?i = j")
    case True
    then show ?thesis by (auto simp: Let_def intro: exI[of _ "clk_pos r"])
  next
    case False
    with Suc.IH[of ?i "r\<lparr>clk_pos := clk_pos r + 1\<rparr>"] show ?thesis
      by (auto simp: Let_def now_ns_def)
  qed
qed

lemma top_up_effect: "\<exists>p h. prefetch_pool_top_up K r j = r\<lparr>clk_pos := p, prefetch_pool_handle := h\<rparr>"
proof (cases "prefetch_pool_handle r = None \<or> policy_of r = None")
  case True
  then have "prefetch_pool_top_up K r j = r\<lparr>clk_pos := clk_pos r, prefetch_pool_handle := prefetch_pool_handle r\<rparr>"
    by (auto simp: prefetch_pool_top_up_def split: option.splits)
  then show ?thesis by blast
next
  case False
  then obtain pool pol where hp: "prefetch_pool_handle r = Some pool" "policy_of r = Some pol" by auto
  let ?l = "top_up_loop K (if pf_outstanding pool < depth pool then depth pool - pf_outstanding pool else 0) j j pol r pool"
  obtain p where p: "fst ?l = r\<lparr>clk_pos := p\<rparr>" using top_up_loop_effect by blast
  have "prefetch_pool_top_up K r j = (fst ?l)\<lparr>prefetch_pool_handle := Some (snd ?l)\<rparr>"
    using hp by (simp add: prefetch_pool_top_up_def Let_def case_prod_beta)
  then show ?thesis using p by auto
qed

lemma top_up_keeps: "budget_inv r C F X \<Longrightarrow> keeps_pinned i F X r (prefetch_pool_top_up K r j)"
proof -
  assume inv: "budget_inv r C F X"
  obtain p h where t: "prefetch_pool_top_up K r j = r\<lparr>clk_pos := p, prefetch_pool_handle := h\<rparr>"
    using top_up_effect by blast
  have "inv_part (prefetch_pool_top_up K r j) = inv_part r" by (simp add: t inv_part_def)
  then have "budget_inv (prefetch_pool_top_up K r j) C F X" using budget_inv_cong inv by metis
  then show ?thesis by (auto simp: keeps_pinned_def t intro!: advances_refl simp: config_part_def)
qed

lemma demand_reservation:
  assumes u: "unserved i r" and ry: "\<forall>n s. unserved i s \<longrightarrow> rely i s (k_others K n s)"
    and e: "ensure_budget K r (len (chunk_at r i)) = Inr (ok1, r1)"
    and t: "(if ok1 then Inr (True, r1) else retry_budget K n i r1) = Inr (ok, r2)"
  shows "advances r r2" and "if ok then served i r2 else unserved i r2"
proof -
  note E = ensure_budget_unserved[OF u e]
  have "advances r1 r2 \<and> (if ok then served i r2 else unserved i r2)"
  proof (cases ok1)
    case True
    then show ?thesis using t E(3) by (auto simp: advances_refl)
  next
    case False
    then show ?thesis using t E(3) retry_budget_inv[OF ry, of r1 n ok r2] by simp
  qed
  then show "advances r r2" "if ok then served i r2 else unserved i r2"
    using advances_trans[OF E(1)] by auto
qed

lemma served_fetch:
  assumes s: "served i r" and fl: "starts_in_file r i"
    and f: "fetch_chunk K r i td = Inr (tm, r3)"
    and c: "complete_demand K after r3 i t g = Inr r4"
    and aft: "\<And>C F X r1 r2. budget_inv r1 C F (X(i := 1)) \<Longrightarrow> state (chunk_at r1 i) = CHUNK_RESIDENT \<Longrightarrow>
        advances r r1 \<Longrightarrow> X i = 0 \<Longrightarrow> after r1 = Inr r2 \<Longrightarrow> keeps_pinned i F (X(i := 1)) r1 r2"
  shows "state (chunk_at r4 i) = CHUNK_RESIDENT \<and> (\<exists>F X. i \<notin> F \<and> X i = 0 \<and> resolved F X i r r4)"
proof -
  from s obtain C F X where inv: "budget_inv r C (insert i F) X" and i: "i \<notin> C \<union> F" "X i = 0"
    unfolding served_def by blast
  have iF: "i \<in> insert i F" "i \<notin> F" using i by auto
  note R = fetch_chunk_inv[OF inv iF(1) fl f]
  note O = fetch_others[OF f inv iF(1) fl, of i]
  have a3: "advances r r3" using O by (intro others_advances[of i X]) auto
  have ch3: "chunks r3 = chunks r" and log3: "uffd_log r3 = uffd_log r @ [continue_call r i]" using O by auto
  have D: "(\<exists>C. budget_inv r4 C F X) \<and> state (chunk_at r4 i) = CHUNK_RESIDENT \<and> advances r3 r4"
  proof -
    have aft3: "keeps_pinned i F (X(i := 1)) r1 r2"
      if "budget_inv r1 C F (X(i := 1))" "state (chunk_at r1 i) = CHUNK_RESIDENT" "advances r3 r1"
        "others_ok i X r3 r1" "after r1 = Inr r2" for r1 r2 C
      using aft[OF that(1,2) advances_trans[OF a3 that(3)] i(2) that(5)] .
    note N = complete_demand_inv[where X = X, OF R(1) iF(2) i(2) R(2) aft3 c]
    show ?thesis by (intro conjI N)
  qed
  then obtain l where "uffd_log r4 = uffd_log r3 @ l" by (auto simp: advances_def)
  then have "resolved F X i r r4"
    using D advances_trans[OF a3] log3 by (auto simp: resolved_def)
  then show ?thesis using D iF(2) i(2) by blast
qed

lemma serve_demand_resolves:
  assumes u: "unserved i r" and fl: "starts_in_file r i"
    and ry: "\<forall>n s. unserved i s \<longrightarrow> rely i s (k_others K n s)"
    and aft: "\<And>C F X r1 r2. budget_inv r1 C F (X(i := 1)) \<Longrightarrow> state (chunk_at r1 i) = CHUNK_RESIDENT \<Longrightarrow>
        advances r r1 \<Longrightarrow> X i = 0 \<Longrightarrow> after r1 = Inr r2 \<Longrightarrow> keeps_pinned i F (X(i := 1)) r1 r2"
    and d: "serve_demand K n after r i t f = Inr r'"
  shows "\<exists>F X. i \<notin> F \<and> X i = 0 \<and> resolved F X i r r'"
proof -
  have iN: "i < n_chunks r" using u by (auto simp: unserved_def)
  from d obtain ok1 r1 ok r2 where
    e: "ensure_budget K r (len (chunk_at r i)) = Inr (ok1, r1)"
    and t: "(if ok1 then Inr (True, r1) else retry_budget K n i r1) = Inr (ok, r2)"
    and rest: "(if \<not> ok then Inr (pager_abandon_fetch r2 i)
         else rbind (fetch_chunk K r2 i (diag_fetch_trace r2 \<noteq> None)) (\<lambda>(tm, r3).
              complete_demand K after r3 i t (f tm))) = Inr r'"
    unfolding serve_demand_def by (auto simp: rbind_Inr_iff)
  note Rv = demand_reservation[OF u ry e t]
  have "\<exists>F X. i \<notin> F \<and> X i = 0 \<and> resolved F X i r2 r'"
  proof (cases ok)
    case False
    then have "r' = pager_abandon_fetch r2 i" using rest by simp
    then show ?thesis using Rv(2) False unserved_abandon by simp
  next
    case True
    then obtain tm r3 where f: "fetch_chunk K r2 i (diag_fetch_trace r2 \<noteq> None) = Inr (tm, r3)"
      and c: "complete_demand K after r3 i t (f tm) = Inr r'" using rest
      by (auto simp: rbind_Inr_iff)
    have s: "served i r2" using Rv(2) True by simp
    have fl2: "starts_in_file r2 i" using advances_file[OF Rv(1) iN] fl by simp
    have aft2: "keeps_pinned i F (X(i := 1)) r1' r2'"
      if "budget_inv r1' C F (X(i := 1))" "state (chunk_at r1' i) = CHUNK_RESIDENT" "advances r2 r1'" "X i = 0"
        "after r1' = Inr r2'" for C F X r1' r2'
      by (rule aft[OF that(1,2) advances_trans[OF Rv(1) that(3)] that(4,5)])
    show ?thesis using served_fetch[OF s fl2 f c aft2] by (rule conjunct2)
  qed
  then show ?thesis using resolved_after[OF Rv(1) iN] by blast
qed

lemma unserved_clock: "unserved i (r\<lparr>clk_pos := p\<rparr>) = unserved i r"
proof -
  have "budget_inv (r\<lparr>clk_pos := p\<rparr>) C F X = budget_inv r C F X" for C F X
    by (rule budget_inv_cong) (simp add: inv_part_def)
  then show ?thesis by (simp add: unserved_def)
qed

lemma do_one_demand_resolved:
  assumes u: "unserved i r" and fl: "starts_in_file r i"
    and ry: "\<forall>n s. unserved i s \<longrightarrow> rely i s (k_others K n s)"
    and d: "do_one_demand K r i = Inr r'"
  shows "\<exists>F X. i \<notin> F \<and> X i = 0 \<and> resolved F X i r r'"
proof -
  have iN: "i < n_chunks r" using u by (auto simp: unserved_def)
  let ?r0 = "r\<lparr>clk_pos := clk_pos r + 1\<rparr>"
  have u0: "unserved i ?r0" using u by (simp only: unserved_clock)
  have a0: "advances r ?r0" by (rule advances_refl) (simp_all add: config_part_def)
  have f0: "starts_in_file ?r0 i" using fl by (simp add: starts_in_file_def)
  obtain g where "serve_demand K 200 (\<lambda>r. Inr (prefetch_pool_top_up K r i)) ?r0 i (k_clock K (clk_pos r)) g = Inr r'"
    using d by (auto simp: do_one_demand_def now_ns_def Let_def rbind_Inr_iff split: if_splits)
  then have "\<exists>F X. i \<notin> F \<and> X i = 0 \<and> resolved F X i ?r0 r'"
    by (rule serve_demand_resolves[OF u0 f0 ry, rotated]) (use top_up_keeps in auto)
  then show ?thesis using resolved_after[OF a0 iN] by blast
qed

section \<open>The queues\<close>

definition tracked :: "prefetch_pool \<Rightarrow> nat set" where
  "tracked pool = {i. i < length (pf_tracked pool) \<and> pf_tracked pool ! i}"

text \<open>
  The queues of a pool over \<open>n\<close> chunks: no chunk is queued twice, every queued prefetch is tracked, and
  the outstanding count is the number of tracked chunks (queued or in flight).
\<close>

definition pool_ok :: "nat \<Rightarrow> prefetch_pool \<Rightarrow> bool" where
  "pool_ok n pool \<longleftrightarrow> ring_wf (demand_queue pool) \<and> rcap (demand_queue pool) = n + 1
     \<and> ring_wf (pf_queue pool) \<and> rcap (pf_queue pool) = n + 1
     \<and> distinct (ring_list (demand_queue pool)) \<and> set (ring_list (demand_queue pool)) \<subseteq> {..<n}
     \<and> distinct (ring_list (pf_queue pool)) \<and> set (ring_list (pf_queue pool)) \<subseteq> tracked pool
     \<and> length (pf_tracked pool) = n \<and> pf_outstanding pool = card (tracked pool)"

lemma finite_tracked [simp]: "finite (tracked pool)"
  by (simp add: tracked_def)

lemma tracked_bounds: "pool_ok n pool \<Longrightarrow> tracked pool \<subseteq> {..<n} \<and> card (tracked pool) \<le> n \<and> n < 2147483648"
proof -
  assume p: "pool_ok n pool"
  then have "tracked pool \<subseteq> {..<n}" by (auto simp: tracked_def pool_ok_def)
  moreover from this have "card (tracked pool) \<le> n" using card_mono[of "{..<n}" "tracked pool"] by simp
  moreover have "n < 2147483648" using p by (auto simp: pool_ok_def ring_wf_def)
  ultimately show ?thesis by simp
qed

lemma pool_start_ok:
  assumes "n_chunks r < 2147483648"
  shows "\<exists>pool. prefetch_pool_handle (prefetch_pool_start r w) = Some pool \<and> pool_ok (n_chunks r) pool
      \<and> ring_list (demand_queue pool) = [] \<and> tracked pool = {} \<and> \<not> stop pool"
proof -
  have w: "wrap32 (Suc (n_chunks r)) = Suc (n_chunks r)" using assms by (simp add: wrap32_def)
  have "ring_wf (ring_new (Suc (n_chunks r)))" using assms by (intro ring_wf_new) simp_all
  moreover have "rcap (ring_new (Suc (n_chunks r))) = Suc (n_chunks r)" by (simp add: ring_new_def)
  ultimately show ?thesis
    by (auto simp: prefetch_pool_start_def pool_ok_def tracked_def w)
qed

lemma enqueue_demand_ok:
  assumes p: "pool_ok n pool" and i: "i < n" "i \<notin> set (ring_list (demand_queue pool))"
  obtains pool' where "prefetch_pool_enqueue_demand pool i = Inr pool'" "pool_ok n pool'"
    "ring_list (demand_queue pool') = ring_list (demand_queue pool) @ [i]" "tracked pool' = tracked pool"
    "pf_queue pool' = pf_queue pool" "stop pool' = stop pool"
proof -
  let ?q = "demand_queue pool"
  have wf: "ring_wf ?q" "distinct (ring_list ?q)" "set (ring_list ?q) \<subseteq> {..<n}" "n < rcap ?q"
    using p by (simp_all add: pool_ok_def)
  have room: "length (ring_list ?q) < rcap ?q" by (rule ring_fifo.distinct_room[OF wf])
  from ring_fifo.push_ok[OF wf(1) room, of i] have P: "ring_wf (ring_push ?q i)"
    "ring_list (ring_push ?q i) = ring_list ?q @ [i]" "rcap (ring_push ?q i) = rcap ?q" by auto
  let ?pool = "pool\<lparr>demand_queue := ring_push ?q i\<rparr>"
  have "tracked ?pool = tracked pool" by (simp add: tracked_def)
  moreover from this have "pool_ok n ?pool" using p P i by (auto simp: pool_ok_def)
  ultimately show thesis using room P that by (simp add: prefetch_pool_enqueue_demand_def)
qed

lemma top_up_one_ok:
  assumes p: "pool_ok n pool" and i: "i < n"
  shows "pool_ok n (top_up_one now r pool i)" and "depth (top_up_one now r pool i) = depth pool"
    and "demand_queue (top_up_one now r pool i) = demand_queue pool"
    and "pf_outstanding (top_up_one now r pool i) \<le> pf_outstanding pool + 1"
    and "tracked (top_up_one now r pool i) - tracked pool \<subseteq> {j. j = i \<and> state (chunk_at r i) = CHUNK_ABSENT}"
    and "tracked pool \<subseteq> tracked (top_up_one now r pool i)"
    and "\<exists>l. ring_list (pf_queue (top_up_one now r pool i)) = ring_list (pf_queue pool) @ l
           \<and> set l = tracked (top_up_one now r pool i) - tracked pool"
    and "stop (top_up_one now r pool i) = stop pool"
proof -
  let ?q = "pf_queue pool"
  let ?new = "\<not> pf_tracked pool ! i \<and> state (chunk_at r i) = CHUNK_ABSENT
         \<and> \<not> decline_until_ns (chunk_at r i) > now \<and> rlen ?q < rcap ?q"
  let ?r = "top_up_one now r pool i"
  show "depth ?r = depth pool" "demand_queue ?r = demand_queue pool" "stop ?r = stop pool"
    by (simp_all add: top_up_one_def)
  have B: "card (tracked pool) \<le> n" "n < 2147483648" using tracked_bounds[OF p] by auto
  show "pf_outstanding ?r \<le> pf_outstanding pool + 1" by (simp add: top_up_one_def wrap32_def)
  have all: "pool_ok n ?r \<and> tracked ?r - tracked pool \<subseteq> {j. j = i \<and> state (chunk_at r i) = CHUNK_ABSENT}
      \<and> tracked pool \<subseteq> tracked ?r \<and> (\<exists>l. ring_list (pf_queue ?r) = ring_list ?q @ l
           \<and> set l = tracked ?r - tracked pool)"
  proof (cases ?new)
    case False
    then show ?thesis using p by (auto simp: top_up_one_def)
  next
    case True
    have it: "i \<notin> tracked pool" using True by (simp add: tracked_def)
    have tr: "tracked ?r = insert i (tracked pool)"
      using True i p by (auto simp: top_up_one_def tracked_def pool_ok_def nth_list_update)
    have wf: "ring_wf ?q" "length (ring_list ?q) < rcap ?q" using p True by (simp_all add: pool_ok_def)
    from ring_fifo.push_ok[OF wf, of i] have P: "ring_wf (ring_push ?q i)"
      "ring_list (ring_push ?q i) = ring_list ?q @ [i]" "rcap (ring_push ?q i) = rcap ?q" by auto
    have qr: "pf_queue ?r = ring_push ?q i" "length (pf_tracked ?r) = length (pf_tracked pool)"
      "pf_outstanding ?r = wrap32 (pf_outstanding pool + 1)" "demand_queue ?r = demand_queue pool"
      using True by (simp_all add: top_up_one_def)
    have c: "card (tracked ?r) = card (tracked pool) + 1" using tr it by simp
    have "wrap32 (card (tracked pool) + 1) = card (tracked pool) + 1" using B by (simp add: wrap32_def)
    then have "pool_ok n ?r" using p P qr tr it c by (auto simp: pool_ok_def)
    moreover have "\<exists>l. ring_list (pf_queue ?r) = ring_list ?q @ l \<and> set l = tracked ?r - tracked pool"
      using P(2) qr(1) tr it by (intro exI[of _ "[i]"]) auto
    ultimately show ?thesis using tr True by auto
  qed
  then show "pool_ok n ?r" "tracked ?r - tracked pool \<subseteq> {j. j = i \<and> state (chunk_at r i) = CHUNK_ABSENT}"
    "tracked pool \<subseteq> tracked ?r" "\<exists>l. ring_list (pf_queue ?r) = ring_list ?q @ l
           \<and> set l = tracked ?r - tracked pool" by auto
qed

text \<open>What a top-up did to the pool: it queued new, ABSENT candidates behind the others.\<close>

definition topped_up :: "region \<Rightarrow> nat \<Rightarrow> prefetch_pool \<Rightarrow> prefetch_pool \<Rightarrow> bool" where
  "topped_up r just pool pool' \<longleftrightarrow> pool_ok (n_chunks r) pool' \<and> tracked pool \<subseteq> tracked pool'
     \<and> tracked pool' - tracked pool \<subseteq> {i. i < n_chunks r \<and> i \<noteq> just \<and> state (chunk_at r i) = CHUNK_ABSENT}
     \<and> (\<exists>l. ring_list (pf_queue pool') = ring_list (pf_queue pool) @ l \<and> set l = tracked pool' - tracked pool)
     \<and> demand_queue pool' = demand_queue pool \<and> depth pool' = depth pool \<and> stop pool' = stop pool"

lemma topped_up_refl: "pool_ok (n_chunks r) pool \<Longrightarrow> topped_up r j pool pool"
  by (simp add: topped_up_def)

lemma topped_up_trans:
  assumes "topped_up r j a b" "topped_up r j b c"
  shows "topped_up r j a c"
proof -
  from assms obtain l m where "ring_list (pf_queue b) = ring_list (pf_queue a) @ l" "set l = tracked b - tracked a"
    "ring_list (pf_queue c) = ring_list (pf_queue b) @ m" "set m = tracked c - tracked b"
    by (auto simp: topped_up_def)
  then have "ring_list (pf_queue c) = ring_list (pf_queue a) @ (l @ m)" "set (l @ m) = tracked c - tracked a"
    using assms by (auto simp: topped_up_def)
  then show ?thesis using assms unfolding topped_up_def by (intro conjI exI[of _ "l @ m"]) auto
qed

lemma top_up_loop_ok:
  assumes "pool_ok (n_chunks r) pool"
  shows "topped_up r j pool (snd (top_up_loop K n j c pol r pool))
       \<and> pf_outstanding (snd (top_up_loop K n j c pol r pool)) \<le> pf_outstanding pool + n"
  using assms
proof (induction n arbitrary: c r pool)
  case 0
  then show ?case by (simp add: topped_up_refl)
next
  case (Suc n)
  let ?i = "nat (policy_predict_next pol c)"
  show ?case
  proof (cases "policy_predict_next pol c < 0 \<or> ?i \<ge> n_chunks r \<or> ?i = j")
    case True
    then show ?thesis using Suc.prems by (auto simp: Let_def topped_up_refl)
  next
    case False
    let ?r = "r\<lparr>clk_pos := clk_pos r + 1\<rparr>"
    define pool1 where "pool1 = top_up_one (k_clock K (clk_pos r)) ?r pool ?i"
    have i: "?i < n_chunks r" using False by simp
    note O = top_up_one_ok[OF Suc.prems i, of "k_clock K (clk_pos r)" ?r, folded pool1_def]
    have t1: "topped_up r j pool pool1"
      using O False i by (auto simp: topped_up_def)
    have p1: "pool_ok (n_chunks ?r) pool1" using O(1) by simp
    let ?res = "snd (top_up_loop K n j ?i pol ?r pool1)"
    have IH: "topped_up ?r j pool1 ?res" "pf_outstanding ?res \<le> pf_outstanding pool1 + n"
      using Suc.IH[OF p1, of ?i] by simp_all
    have "topped_up r j pool1 ?res" using IH(1) unfolding topped_up_def by simp
    then have t2: "topped_up r j pool ?res" by (rule topped_up_trans[OF t1])
    have "top_up_loop K (Suc n) j c pol r pool = top_up_loop K n j ?i pol ?r pool1"
      using False by (simp add: Let_def now_ns_def pool1_def)
    moreover have "pf_outstanding ?res \<le> pf_outstanding pool + Suc n" using IH(2) O(4) by linarith
    ultimately show ?thesis using t2 by (simp only: simp_thms)
  qed
qed

lemma top_up_ok:
  assumes h: "prefetch_pool_handle r = Some pool" and p: "pool_ok (n_chunks r) pool"
  shows "\<exists>pool'. prefetch_pool_handle (prefetch_pool_top_up K r j) = Some pool' \<and> topped_up r j pool pool'
       \<and> pf_outstanding pool' \<le> max (pf_outstanding pool) (depth pool)"
proof (cases "policy_of r")
  case None
  then show ?thesis using h p by (simp add: prefetch_pool_top_up_def topped_up_refl)
next
  case (Some pol)
  let ?n = "if pf_outstanding pool < depth pool then depth pool - pf_outstanding pool else 0"
  let ?l = "top_up_loop K ?n j j pol r pool"
  have "prefetch_pool_handle (prefetch_pool_top_up K r j) = Some (snd ?l)"
    using h Some by (simp add: prefetch_pool_top_up_def Let_def case_prod_beta)
  then show ?thesis using top_up_loop_ok[OF p, of j K ?n j pol] by auto
qed

text \<open>
  The top-up respects the depth and the queue: it appends to the prefetch queue only chunks that
  were ABSENT, different from the chunk just made RESIDENT and not tracked before, each once, never
  touches the demand queue, and leaves at most \<^verbatim>\<open>max(outstanding, depth)\<close> prefetches
  outstanding.
\<close>

lemma top_up_bounded:
  assumes "prefetch_pool_handle r = Some pool" and "pool_ok (n_chunks r) pool"
  shows "\<exists>pool'. prefetch_pool_handle (prefetch_pool_top_up K r j) = Some pool' \<and> topped_up r j pool pool'
       \<and> pf_outstanding pool' \<le> max (pf_outstanding pool) (depth pool)"
  using assms by (rule top_up_ok)

lemma worker_take_ok:
  assumes "pool_ok n pool"
  shows "case worker_take pool of
           None \<Rightarrow> ring_list (demand_queue pool) = [] \<and> ring_list (pf_queue pool) = []
         | Some (Demand i, pool') \<Rightarrow> ring_list (demand_queue pool) = i # ring_list (demand_queue pool')
             \<and> pool_ok n pool' \<and> tracked pool' = tracked pool \<and> pf_queue pool' = pf_queue pool
         | Some (Speculative i, pool') \<Rightarrow> ring_list (demand_queue pool) = []
             \<and> ring_list (pf_queue pool) = i # ring_list (pf_queue pool')
             \<and> pool_ok n pool' \<and> tracked pool' = tracked pool \<and> demand_queue pool' = demand_queue pool"
proof -
  have wf: "ring_wf (demand_queue pool)" "ring_wf (pf_queue pool)" using assms by (simp_all add: pool_ok_def)
  have nil: "ring_list q = [] \<longleftrightarrow> rlen q = 0" for q by (metis length_0_conv length_ring_list)
  have tr: "tracked (pool\<lparr>demand_queue := d, pf_queue := q\<rparr>) = tracked pool" for d q by (simp add: tracked_def)
  have tr1: "tracked (pool\<lparr>demand_queue := d\<rparr>) = tracked pool" "tracked (pool\<lparr>pf_queue := q\<rparr>) = tracked pool"
    for d q by (simp_all add: tracked_def)
  show ?thesis
  proof (cases "rlen (demand_queue pool) > 0")
    case True
    then have "ring_list (demand_queue pool) \<noteq> []" by (simp add: nil)
    from ring_fifo.pop_ok[OF wf(1) this] show ?thesis
      using True assms by (auto simp: worker_take_def pool_ok_def tr1 ring_pop_def)
  next
    case d: False
    show ?thesis
    proof (cases "rlen (pf_queue pool) > 0")
      case True
      then have "ring_list (pf_queue pool) \<noteq> []" by (simp add: nil)
      from ring_fifo.pop_ok[OF wf(2) this] show ?thesis
        using True d assms by (auto simp: worker_take_def pool_ok_def tr1 nil ring_pop_def)
    next
      case False
      then show ?thesis using d by (simp add: worker_take_def nil)
    qed
  qed
qed

text \<open>
  Demand has strict priority: a worker takes the oldest queued demand job whenever there is one,
  and the oldest queued prefetch only when there is none; what it takes leaves its queue, the rest
  keeps its order, and it finds nothing exactly when both queues are empty.
\<close>

lemma worker_prefers_demand:
  assumes "pool_ok n pool"
  shows "case worker_take pool of
           None \<Rightarrow> ring_list (demand_queue pool) = [] \<and> ring_list (pf_queue pool) = []
         | Some (Demand i, pool') \<Rightarrow> ring_list (demand_queue pool) = i # ring_list (demand_queue pool')
             \<and> pool_ok n pool' \<and> tracked pool' = tracked pool \<and> pf_queue pool' = pf_queue pool
         | Some (Speculative i, pool') \<Rightarrow> ring_list (demand_queue pool) = []
             \<and> ring_list (pf_queue pool) = i # ring_list (pf_queue pool')
             \<and> pool_ok n pool' \<and> tracked pool' = tracked pool \<and> demand_queue pool' = demand_queue pool"
  using assms by (rule worker_take_ok)

lemma job_done_ok:
  assumes p: "pool_ok n pool" and i: "i \<in> tracked pool" "i \<notin> set (ring_list (pf_queue pool))"
  shows "pool_ok n (job_done i pool)" "tracked (job_done i pool) = tracked pool - {i}"
    "pf_outstanding pool > 0"
proof -
  have B: "card (tracked pool) \<le> n" "n < 2147483648" using tracked_bounds[OF p] by auto
  have pos: "card (tracked pool) > 0" using i(1) by (auto simp: card_gt_0_iff)
  show "pf_outstanding pool > 0" using pos p by (simp add: pool_ok_def)
  show tr: "tracked (job_done i pool) = tracked pool - {i}"
    using i by (auto simp: tracked_def job_done_def nth_list_update split: if_splits)
  have dec: "wrap32 (c + 4294967295) = c - 1" if "0 < c" "c < 2147483648" for c :: nat
    using that by (cases c) (simp_all add: wrap32_def)
  have "wrap32 (card (tracked pool) + 4294967295) = card (tracked pool) - 1"
    by (rule dec) (use pos B in linarith)+
  then show "pool_ok n (job_done i pool)"
    using p i tr by (auto simp: pool_ok_def) (auto simp: job_done_def card_Diff_singleton)
qed


section \<open>The guarantees of the workers\<close>

lemma pread_loop_failures: "pread_loop rs d dest st en cur m = Inl e \<Longrightarrow> \<not> fatal_evict e"
proof (induction rs d dest st en cur m rule: pread_loop.induct)
  case (1 rs d dest st en cur m)
  then show ?case
    by (subst (asm) (3) pread_loop.simps)
      (auto simp: fatal_evict_def Let_def split: if_splits list.splits pread_result.splits)
qed

lemma fetch_chunk_failures: "fetch_chunk K r i td = Inl e \<Longrightarrow> \<not> fatal_evict e"
  by (auto simp: fetch_chunk_def fetch_read_def fetch_resolve_def rbind_Inl_iff Let_def case_prod_beta
      dest!: pread_loop_failures split: if_splits continue_result.splits)
    (simp_all add: fatal_evict_def)

lemma trace_fetch_failures: "trace_fetch f r = Inl e \<Longrightarrow> \<not> fatal_evict e"
  by (auto simp: trace_fetch_def fetch_trace_reserve_def fatal_evict_def split: option.splits if_splits sum.splits)

lemma retry_budget_failures:
  assumes "\<forall>n s. unserved i s \<longrightarrow> rely i s (k_others K n s)"
  shows "unserved i r \<Longrightarrow> retry_budget K n i r = Inl e \<Longrightarrow> \<not> fatal_evict e"
proof (induction n arbitrary: r)
  case 0
  then show ?case by simp
next
  case (Suc n)
  let ?r1 = "k_others K n r"
  have u1: "unserved i ?r1" using assms Suc.prems(1) unserved_rely by blast
  then obtain C F X where inv: "budget_inv ?r1 C F X" by (auto simp: unserved_def)
  show ?case
  proof (cases "ensure_budget K ?r1 (len (chunk_at ?r1 i))")
    case (Inl e')
    then show ?thesis using Suc.prems(2) budget_failures(1)[OF inv] by simp
  next
    case (Inr okr)
    obtain ok r2 where okr: "okr = (ok, r2)" by (cases okr)
    have "if ok then served i r2 else unserved i r2"
      using ensure_budget_unserved(3)[OF u1 Inr[unfolded okr]] .
    then show ?thesis using Suc.prems(2) Suc.IH[of r2] Inr okr by (auto split: if_splits)
  qed
qed

lemma serve_demand_failures:
  assumes u: "unserved i r" and ry: "\<forall>n s. unserved i s \<longrightarrow> rely i s (k_others K n s)"
    and aft: "\<And>s e. after s = Inl e \<Longrightarrow> \<not> fatal_evict e"
    and d: "serve_demand K n after r i t f = Inl e"
  shows "\<not> fatal_evict e"
proof -
  from u obtain C F X where inv: "budget_inv r C F X" by (auto simp: unserved_def)
  have comp: "complete_demand K after s i t g = Inl e \<Longrightarrow> \<not> fatal_evict e" for s g
    unfolding complete_demand_def Let_def
    by (auto simp: rbind_Inl_iff now_ns_def split: if_splits dest: aft trace_fetch_failures)
  from d consider "ensure_budget K r (len (chunk_at r i)) = Inl e"
    | ok1 r1 where "ensure_budget K r (len (chunk_at r i)) = Inr (ok1, r1)"
        "(if ok1 then Inr (True, r1) else retry_budget K n i r1) = Inl e"
    | s where "fetch_chunk K s i (diag_fetch_trace s \<noteq> None) = Inl e"
    | s g where "complete_demand K after s i t g = Inl e"
    unfolding serve_demand_def by (fastforce simp: rbind_Inl_iff split: if_splits)
  then show ?thesis
  proof cases
    case 1
    then show ?thesis by (rule budget_failures(1)[OF inv])
  next
    case 2
    have "\<not> ok1 \<and> retry_budget K n i r1 = Inl e" using 2(2) by (simp split: if_splits)
    then show ?thesis using ensure_budget_unserved(3)[OF u 2(1)] retry_budget_failures[OF ry] by auto
  next
    case 3
    then show ?thesis by (rule fetch_chunk_failures)
  next
    case 4
    then show ?thesis by (rule comp)
  qed
qed

text \<open>
  C11. No fault is left behind by a demand worker. A worker that picks up a chunk the dispatcher
  marked FETCHING ends, whatever the kernel, the policy and the other threads do under \<open>rely\<close>, with
  the invariant intact and the chunk either RESIDENT, after the \<^verbatim>\<open>UFFDIO_CONTINUE\<close> that
  wakes every thread faulting on it, or ABSENT, after a \<^verbatim>\<open>UFFDIO_WAKE\<close> of its range;
  never FETCHING.
\<close>

theorem demand_fetch_resolves:
  assumes "unserved i r" and "starts_in_file r i"
    and "\<forall>n s. unserved i s \<longrightarrow> rely i s (k_others K n s)"
    and "do_one_demand K r i = Inr r'"
  shows "\<exists>F X. i \<notin> F \<and> X i = 0 \<and> resolved F X i r r'"
  using assms by (rule do_one_demand_resolved)

text \<open>
  The state-machine assertions of a demand worker cannot fire: it never aborts because its chunk
  was not FETCHING, because it left the chunk FETCHING, or because it evicted a chunk that was pinned
  or not RESIDENT. What can still abort it is the kernel refusing a call, or a diagnostic buffer that
  is full.
\<close>

lemma demand_fetch_assertions_hold:
  assumes "unserved i r" and "starts_in_file r i"
    and "\<forall>n s. unserved i s \<longrightarrow> rely i s (k_others K n s)"
    and "do_one_demand K r i = Inl e"
  shows "e \<notin> {Demand_not_fetching, Left_fetching, Evict_not_resident, Evict_pinned}"
proof -
  let ?r0 = "r\<lparr>clk_pos := clk_pos r + 1\<rparr>" and ?t = "k_clock K (clk_pos r)"
    and ?after = "\<lambda>r. Inr (prefetch_pool_top_up K r i)"
  have iN: "i < n_chunks r" "state (chunk_at r i) = CHUNK_FETCHING" using assms(1) by (auto simp: unserved_def)
  have u0: "unserved i ?r0" using assms(1) by (simp only: unserved_clock)
  have f0: "starts_in_file ?r0 i" using assms(2) by (simp add: starts_in_file_def)
  define f where "f = (\<lambda>tm t_exit l. demand_record i ?t tm t_exit l
      (diag_dispatch_entry_ns (chunk_at r i)) (diag_dispatch_enqueue_ns (chunk_at r i)))"
  have d: "do_one_demand K r i = rbind (serve_demand K 200 ?after ?r0 i ?t f) (\<lambda>r4.
      if state (chunk_at r4 i) = CHUNK_FETCHING then Inl Left_fetching else Inr r4)"
    using iN by (simp add: do_one_demand_def now_ns_def Let_def f_def)
  have "\<not> fatal_evict e"
  proof (cases "serve_demand K 200 ?after ?r0 i ?t f")
    case (Inl e')
    then have "e' = e" using d assms(4) by simp
    with Inl show ?thesis using serve_demand_failures[OF u0 assms(3), of ?after 200 ?t f e] by simp
  next
    case (Inr r4)
    have "\<exists>F X. i \<notin> F \<and> X i = 0 \<and> resolved F X i ?r0 r4"
      by (rule serve_demand_resolves[OF u0 f0 assms(3) _ Inr]) (use top_up_keeps in auto)
    then have "state (chunk_at r4 i) \<noteq> CHUNK_FETCHING" by (auto simp: resolved_def)
    then show ?thesis using d Inr assms(4) by simp
  qed
  then show ?thesis by (auto simp: fatal_evict_def)
qed

text \<open>
  C15. A speculative worker leaves a chunk that is not ABSENT alone, and settles an ABSENT one: RESIDENT
  after its \<^verbatim>\<open>UFFDIO_CONTINUE\<close> or ABSENT again after a \<^verbatim>\<open>UFFDIO_WAKE\<close>, with
  the invariant, the reservations and pins of all other operations, and the chunks they pin untouched.
\<close>

theorem prefetch_worker_settles:
  assumes "budget_inv r C F X" and "i < n_chunks r" "X i = 0" "starts_in_file r i"
    and "do_one_prefetch K r i = Inr r'"
  shows "if state (chunk_at r i) = CHUNK_ABSENT then settled F X i r r' else r' = r"
  using assms by (rule do_one_prefetch_settles)

text \<open>
  The demand queue never overflows: its capacity is one more than the number of chunks and a chunk
  is enqueued only when it is not queued, so the enqueue succeeds, behind all the jobs already there.
\<close>

lemma enqueue_demand_never_full:
  assumes "pool_ok n pool" and "i < n" "i \<notin> set (ring_list (demand_queue pool))"
  shows "\<exists>pool'. prefetch_pool_enqueue_demand pool i = Inr pool' \<and> pool_ok n pool'
       \<and> ring_list (demand_queue pool') = ring_list (demand_queue pool) @ [i]
       \<and> tracked pool' = tracked pool"
  using enqueue_demand_ok[OF assms] by metis


section \<open>Concrete runs\<close>

lemma complete_demand_returns:
  assumes "diag_fetch_trace r = None"
    and "(\<forall>s. diag_fetch_trace s = None \<longrightarrow> (\<exists>s'. after s = Inr s' \<and> diag_fetch_trace s' = None))
      \<or> prefetch_enabled r = False"
  shows "\<exists>r'. complete_demand K after r i t f = Inr r' \<and> diag_fetch_trace r' = None"
proof -
  let ?r1 = "mark_resident i (commit_reserved_and_pin r i (len (chunk_at r i)))"
  have d1: "diag_fetch_trace ?r1 = None" "prefetch_enabled ?r1 = prefetch_enabled r"
    using assms(1) by (simp_all add: mark_resident_def commit_reserved_and_pin_def commit_reserved_def
        pin_chunk_def upd_chunk_def)
  have "\<exists>r2. (if prefetch_enabled ?r1 then after ?r1 else Inr ?r1) = Inr r2 \<and> diag_fetch_trace r2 = None"
    using assms(2) d1 by (cases "prefetch_enabled r") simp_all
  then obtain r2 where "(if prefetch_enabled ?r1 then after ?r1 else Inr ?r1) = Inr r2" "diag_fetch_trace r2 = None"
    by blast
  then show ?thesis
    by (simp add: complete_demand_def Let_def now_ns_def trace_fetch_def unpin_chunk_def upd_chunk_def)
qed

lemma top_up_diag: "diag_fetch_trace (prefetch_pool_top_up K r j) = diag_fetch_trace r"
  using top_up_effect[of K r j] by auto

lemma demo_unserved: "i < 3 \<Longrightarrow> unserved i (demo_fetching i)"
  using demo_fetching_inv[of i] by (intro unservedI[of _ "{}" "{}" "\<lambda>_. 0"]) simp_all

lemma demo_fetching_file: "i < 3 \<Longrightarrow> starts_in_file (demo_fetching i) i"
  by (auto simp: starts_in_file_def demo_fetching_def demo_region_def zero_region_def upd_chunk_def new_chunk_def
      less_Suc_eq numeral_3_eq_3)

lemma demo_alone: "\<forall>n s. unserved i s \<longrightarrow> rely i s (k_others demo_kernel n s)"
  by (simp add: demo_kernel_def rely_refl)

text \<open>A demand fetch that got its reservation completes under the concrete kernel.\<close>

lemma demo_serve_returns:
  assumes u: "unserved i r" and fl: "starts_in_file r i"
    and e: "map_sum id fst (ensure_budget demo_kernel r (len (chunk_at r i))) = Inr True"
    and c: "region_len r = 12288" "diag_fetch_trace r = None"
    and aft: "(\<forall>s. diag_fetch_trace s = None \<longrightarrow> (\<exists>s'. after s = Inr s' \<and> diag_fetch_trace s' = None))
      \<or> prefetch_enabled r = False"
  shows "\<exists>r'. serve_demand demo_kernel n after r i t f = Inr r'"
proof -
  obtain r2 where e2: "ensure_budget demo_kernel r (len (chunk_at r i)) = Inr (True, r2)"
    using e by (cases "ensure_budget demo_kernel r (len (chunk_at r i))") auto
  from u obtain C F X where b: "budget_inv r C F X" "i < n_chunks r" "i \<notin> C \<union> F"
    "state (chunk_at r i) = CHUNK_FETCHING" by (auto simp: unserved_def)
  from ensure_budget_spec[OF b e2] obtain C2 where b2: "budget_inv r2 C2 (insert i F) X"
    and sp: "static_part r2 = static_part r" by (auto simp: reserved_for_def)
  note E = ensure_budget_unserved[OF u e2]
  have n2: "i < n_chunks r2" using E(4) b(2) by simp
  have f2: "region_len r2 = 12288" "diag_fetch_trace r2 = None" "prefetch_enabled r2 = prefetch_enabled r"
    using sp c by (simp_all add: static_part_def)
  obtain tm r3 where f: "fetch_chunk demo_kernel r2 i (diag_fetch_trace r2 \<noteq> None) = Inr (tm, r3)"
    using demo_fetch_returns[OF budget_invD(1)[OF b2] n2 f2(1)] by blast
  have "starts_in_file r2 i" using advances_file[OF E(1) b(2)] fl by simp
  then have d3: "diag_fetch_trace r3 = None" "prefetch_enabled r3 = prefetch_enabled r"
    using fetch_chunk_inv(3)[OF b2 _ _ f] f2 by auto
  obtain r4 where "complete_demand demo_kernel after r3 i t (f tm) = Inr r4"
    using complete_demand_returns[OF d3(1), of after demo_kernel i t "f tm"] aft d3(2) by auto
  then show ?thesis using e2 f by (simp add: serve_demand_def)
qed

theorem demand_fetch_resolves_witness:
  "\<exists>r' F X. do_one_demand demo_kernel (demo_fetching 0) 0 = Inr r' \<and> resolved F X 0 (demo_fetching 0) r'"
proof -
  let ?r0 = "(demo_fetching 0)\<lparr>clk_pos := 1\<rparr>" and ?after = "\<lambda>r. Inr (prefetch_pool_top_up demo_kernel r 0)"
  have z: "(0 :: nat) < 3" by simp
  have ck: "clk_pos (demo_fetching 0) = 0" and g0: "region_len ?r0 = 12288" "diag_fetch_trace ?r0 = None"
    by (simp_all add: demo_fetching_def upd_chunk_def demo_region_def zero_region_def)
  have u0: "unserved 0 ?r0" using demo_unserved[OF z] by (simp only: unserved_clock)
  have f0: "starts_in_file ?r0 0" using demo_fetching_file[OF z] by (simp add: starts_in_file_def)
  have l0: "len (chunk_at ?r0 0) = 4096" and fe: "state (chunk_at ?r0 0) = CHUNK_FETCHING"
    using demo_fetching_inv(3,4)[OF z] by simp_all
  have "map_sum id fst (ensure_budget demo_kernel ?r0 4096) = Inr True" by code_simp
  then have e: "map_sum id fst (ensure_budget demo_kernel ?r0 (len (chunk_at ?r0 0))) = Inr True" by (simp only: l0)
  let ?g = "\<lambda>tm t_exit l. demand_record 0 (k_clock demo_kernel 0) tm t_exit l
      (diag_dispatch_entry_ns (chunk_at ?r0 0)) (diag_dispatch_enqueue_ns (chunk_at ?r0 0))"
  have aft: "(\<forall>s. diag_fetch_trace s = None \<longrightarrow> (\<exists>s'. ?after s = Inr s' \<and> diag_fetch_trace s' = None))
      \<or> prefetch_enabled ?r0 = False" by (simp add: top_up_diag)
  have "\<exists>r4. serve_demand demo_kernel 200 ?after ?r0 0 (k_clock demo_kernel 0) ?g = Inr r4"
    by (rule demo_serve_returns[OF u0 f0 e g0 aft])
  then obtain r4 where sd: "serve_demand demo_kernel 200 ?after ?r0 0 (k_clock demo_kernel 0) ?g = Inr r4" by blast
  have "\<exists>F X. 0 \<notin> F \<and> X 0 = 0 \<and> resolved F X 0 ?r0 r4"
    by (rule serve_demand_resolves[OF u0 f0 demo_alone _ sd]) (use top_up_keeps in auto)
  then have r4: "state (chunk_at r4 0) \<noteq> CHUNK_FETCHING" by (auto simp: resolved_def)
  have d: "do_one_demand demo_kernel (demo_fetching 0) 0 = Inr r4"
    unfolding do_one_demand_def now_ns_def ck add_0 Let_def prod.case
    by (simp only: fe sd r4 simp_thms if_False rbind_simps)
  from demand_fetch_resolves[OF demo_unserved[OF z] demo_fetching_file[OF z] demo_alone d] d show ?thesis by blast
qed

text \<open>A kernel whose \<^verbatim>\<open>UFFDIO_CONTINUE\<close> fails, and an \<^verbatim>\<open>shmem\<close> count that cannot be read.\<close>

lemma demand_fetch_assertions_hold_witness:
  "do_one_demand (demo_kernel\<lparr>k_memory_stat := (\<lambda>_. None)\<rparr>) (demo_fetching 0) 0 = Inl Stat_unreadable
   \<and> Stat_unreadable \<notin> {Demand_not_fetching, Left_fetching, Evict_not_resident, Evict_pinned}"
proof -
  let ?K = "demo_kernel\<lparr>k_memory_stat := (\<lambda>_. None)\<rparr>"
  have r: "do_one_demand ?K (demo_fetching 0) 0 = Inl Stat_unreadable"
    using demo_fetching_inv(3)[of 0]
    by (simp add: do_one_demand_def now_ns_def Let_def serve_demand_def ensure_budget_def scheduled_reconcile_def
        demo_fetching_def upd_chunk_def demo_region_def zero_region_def reconcile_def read_memory_stat_shmem_def
        cgroup_stat_snapshot_read_def new_chunk_def)
  have "\<forall>n s. unserved 0 s \<longrightarrow> rely 0 s (k_others ?K n s)" by (simp add: demo_kernel_def rely_refl)
  from demand_fetch_assertions_hold[OF demo_unserved demo_fetching_file this r] r show ?thesis by simp
qed

theorem prefetch_worker_settles_witness:
  "\<exists>r'. do_one_prefetch demo_kernel demo_resident 1 = Inr r'
     \<and> settled {} ((\<lambda>_. 0)(2 := 1)) 1 demo_resident r'"
proof -
  let ?X = "(\<lambda>_. 0)(2 := 1) :: nat \<Rightarrow> u32"
  let ?r3 = "mark_fetching 1000 1 (pin_chunk (demo_resident\<lparr>clk_pos := 1\<rparr>) 1)"
  have "map_sum id fst (ensure_budget_prefetch demo_kernel ?r3 1) = Inr True" by code_simp
  then obtain r4 where e: "ensure_budget_prefetch demo_kernel ?r3 1 = Inr (True, r4)"
    by (cases "ensure_budget_prefetch demo_kernel ?r3 1") auto
  have tr3: "trace_of ?r3 = None" "diag_fetch_trace ?r3 = None" "region_len ?r3 = 12288"
    "policy_of ?r3 \<noteq> None"
    by (simp_all add: mark_fetching_def pin_chunk_def upd_chunk_def demo_resident_fields)
  have rec: "record_fault demo_kernel (mark_fetching 1000 1 (pin_chunk (demo_resident\<lparr>clk_pos := 1\<rparr>) 1))
      sq 1 ft wp = Inr ?r3" for sq ft wp using tr3(1) by (simp add: record_fault_def)
  have n: "(1 :: nat) < n_chunks demo_resident" and ab: "state (chunk_at demo_resident 1) = CHUNK_ABSENT"
    and X1: "?X 1 = 0" using demo_resident_inv(2,4) by simp_all
  note B = begin_prefetch_inv[OF demo_resident_inv(1) n ab X1 rec]
  have n3: "1 < n_chunks ?r3" using B(3) n by (simp add: others_ok_def)
  note E = ensure_budget_prefetch_spec[OF B(1) n3 B(5,2) e]
  then obtain C' where inv4: "budget_inv r4 C' (insert 1 {}) (?X(1 := 1))" and sp: "static_part r4 = static_part ?r3"
    and oe: "only_evicts ?r3 r4" by (auto simp: reserved_for_def)
  have pk: "pins_ok ?r3 (?X(1 := 1))" by (rule budget_invD(3)[OF B(1)])
  have o4: "others_ok 1 ?X demo_resident r4"
    using others_ok_trans[OF B(3)] others_ok_evict[OF oe sp pk, of 1, unfolded others_ok_pin] by blast
  have s4: "starts_in_file r4 1" using others_ok_file[OF o4 n] demo_all_start_in_file n by simp
  have g4: "geometry_ok r4" "1 < n_chunks r4" "region_len r4 = 12288" "diag_fetch_trace r4 = None"
    "policy_of r4 \<noteq> None"
    using inv4 o4 n tr3 sp by (auto simp: others_ok_def static_part_def)
  obtain tm r5 where f: "fetch_chunk demo_kernel r4 1 (diag_fetch_trace r4 \<noteq> None) = Inr (tm, r5)"
    using demo_fetch_returns[OF g4(1-3)] by blast
  have d5: "diag_fetch_trace r5 = None" "policy_of r5 \<noteq> None"
    using fetch_chunk_inv(3)[OF inv4 _ s4 f] g4(4,5) by auto
  obtain r6 where c: "complete_prefetch demo_kernel r5 1 1000 tm = Inr r6"
    using complete_prefetch_returns[OF d5(1)] by blast
  have "state (chunk_at r6 1) \<noteq> CHUNK_FETCHING"
    using settle_fetch[where X = ?X, OF inv4 _ X1 s4 f c] by (auto simp: settled_def)
  then have "do_one_prefetch demo_kernel demo_resident 1 = Inr r6"
    using ab e f c rec d5(2)
    by (simp add: do_one_prefetch_def now_ns_def Let_def demo_resident_fields)
      (simp add: demo_kernel_def)
  with prefetch_worker_settles[OF demo_resident_inv(1) n X1 _ this] ab demo_all_start_in_file n
  show ?thesis by auto
qed

definition demo_pool :: prefetch_pool where
  "demo_pool = the (prefetch_pool_handle (prefetch_pool_start demo_resident 4))"

lemma demo_pool_ok: "pool_ok 3 demo_pool" "ring_list (demand_queue demo_pool) = []" "tracked demo_pool = {}"
  using pool_start_ok[of demo_resident 4] demo_resident_inv(2) by (auto simp: demo_pool_def)

lemma enqueue_demand_never_full_witness:
  "\<exists>pool'. prefetch_pool_enqueue_demand demo_pool 1 = Inr pool' \<and> ring_list (demand_queue pool') = [1]"
  using enqueue_demand_never_full[OF demo_pool_ok(1), of 1] demo_pool_ok(2) by auto

lemma worker_prefers_demand_witness:
  "\<exists>pool pool'. prefetch_pool_enqueue_demand demo_pool 1 = Inr pool \<and> worker_take pool = Some (Demand 1, pool')"
proof -
  obtain pool where p: "prefetch_pool_enqueue_demand demo_pool 1 = Inr pool" "pool_ok 3 pool"
    "ring_list (demand_queue pool) = [1]"
    using enqueue_demand_ok[OF demo_pool_ok(1), of 1] demo_pool_ok(2) by auto
  have "\<exists>pool'. worker_take pool = Some (Demand 1, pool')"
    using worker_prefers_demand[OF p(2)] p(3) by (auto split: option.splits prod.splits job.splits)
  with p(1) show ?thesis by blast
qed

lemma top_up_bounded_witness:
  "\<exists>pool'. prefetch_pool_handle (prefetch_pool_top_up demo_kernel (prefetch_pool_start demo_resident 4) 2) = Some pool'
     \<and> topped_up (prefetch_pool_start demo_resident 4) 2 demo_pool pool'"
proof -
  have "prefetch_pool_handle (prefetch_pool_start demo_resident 4) = Some demo_pool"
    by (simp add: prefetch_pool_start_def demo_pool_def)
  moreover have "n_chunks (prefetch_pool_start demo_resident 4) = 3"
    using demo_resident_inv(2) by (simp add: prefetch_pool_start_def)
  ultimately show ?thesis using top_up_bounded[of "prefetch_pool_start demo_resident 4" demo_pool] demo_pool_ok(1) by metis
qed

end
