(* ===== verification/Pager.thy ===== *)
theory Pager
  imports Pool
begin

text \<open>
  The pager (\<^verbatim>\<open>pager.c\<close>): the fault handler with its two ABSENT paths, the synchronous one
  that fetches in place and the asynchronous one that only marks and enqueues; the FETCHING
  watchdog; the loop that drains the userfaultfd; and the workload's access notification. Faults are
  given by their offset in the region. The kernel's \<open>k_others\<close> is what the worker threads do between
  two rounds of the loop, \<open>busy\<close> says whose lock they hold.
\<close>

section \<open>The handlers\<close>

definition policy_fault :: "region \<Rightarrow> nat \<Rightarrow> region" where
  "policy_fault r i = r\<lparr>policy_of := map_option (\<lambda>p. policy_on_fault p i) (policy_of r)\<rparr>"

text \<open>The synchronous path: retry only when workers exist, prefetch inline when they do not.\<close>

definition handle_absent :: "kernel \<Rightarrow> region \<Rightarrow> nat \<Rightarrow> u8 \<Rightarrow> failure + region" where
  "handle_absent K r i ft =
     (let (t_start, r0) = now_ns K r; r1 = mark_fetching t_start i r0
      in rbind (record_fault K r1 (fault_seq r1) i ft 0) (\<lambda>r2.
         serve_demand K (if prefetch_depth r2 > 1 then 200 else 0)
           (\<lambda>r. if prefetch_depth r \<le> 1 then maybe_prefetch K r i else Inr (prefetch_pool_top_up K r i))
           (policy_fault r2 i) i t_start (\<lambda>tm t_exit l. fetch_record i False t_start tm t_exit l)))"

definition handle_absent_dispatch :: "kernel \<Rightarrow> region \<Rightarrow> nat \<Rightarrow> u8 \<Rightarrow> failure + region" where
  "handle_absent_dispatch K r i ft =
     (let (t_entry, r0) = now_ns K r; r1 = mark_fetching t_entry i r0
      in rbind (record_fault K r1 (fault_seq r1) i ft 0) (\<lambda>r2.
         let r3 = policy_fault r2 i
         in case prefetch_pool_handle r3 of
              None \<Rightarrow> Inl Null_pool
            | Some pool \<Rightarrow>
                rbind (prefetch_pool_enqueue_demand pool i) (\<lambda>pool'.
                let (t_enqueue, r4) = now_ns K (r3\<lparr>prefetch_pool_handle := Some pool'\<rparr>)
                in Inr (upd_chunk i (\<lambda>c. c\<lparr>diag_dispatch_entry_ns := t_entry,
                                           diag_dispatch_enqueue_ns := t_enqueue\<rparr>) r4))))"

definition count_fault :: "bool \<Rightarrow> region \<Rightarrow> region" where
  "count_fault was_minor r =
     (if was_minor then r\<lparr>stat_fault_minor := stat_fault_minor r + 1\<rparr>
      else r\<lparr>stat_fault_missing := stat_fault_missing r + 1\<rparr>)"

text \<open>Dispatch on the state of the chunk, never on the type of the fault (I-8).\<close>

definition handle_fault :: "kernel \<Rightarrow> region \<Rightarrow> u64 \<Rightarrow> bool \<Rightarrow> failure + region" where
  "handle_fault K r rel_off was_minor =
     (let ft = (if was_minor then TRACE_FAULT_MINOR else TRACE_FAULT_MISSING);
          r0 = count_fault was_minor r
      in case pager_lookup (chunks r0) rel_off of
           None \<Rightarrow> Inl No_covering_chunk
         | Some i \<Rightarrow>
             (case state (chunk_at r0 i) of
                CHUNK_RESIDENT \<Rightarrow>
                  (let r1 = wake_range r0 i in Inr (r1\<lparr>stat_dedup_resident := stat_dedup_resident r1 + 1\<rparr>))
              | CHUNK_FETCHING \<Rightarrow> Inr (r0\<lparr>stat_dedup_fetching := stat_dedup_fetching r0 + 1\<rparr>)
              | CHUNK_ABSENT \<Rightarrow>
                  if async_handler r0 then handle_absent_dispatch K r0 i ft else handle_absent K r0 i ft))"

section \<open>The watchdog and the access notification\<close>

definition expired :: "u64 \<Rightarrow> u64 \<Rightarrow> chunk \<Rightarrow> bool" where
  "expired now timeout_ns c \<longleftrightarrow> state c = CHUNK_FETCHING \<and> fetching_since_ns c \<noteq> 0
     \<and> now - fetching_since_ns c \<ge> timeout_ns"

definition watchdog_one :: "u64 \<Rightarrow> u64 \<Rightarrow> (nat \<Rightarrow> bool) \<Rightarrow> region \<Rightarrow> nat \<Rightarrow> region" where
  "watchdog_one now timeout_ns busy r i =
     (if expired now timeout_ns (chunk_at r i) \<and> \<not> busy i
      then let r1 = pager_abandon_fetch r i
           in r1\<lparr>stat_fetching_timeout := stat_fetching_timeout r1 + 1\<rparr>
      else r)"

definition pager_fetching_watchdog :: "kernel \<Rightarrow> (nat \<Rightarrow> bool) \<Rightarrow> region \<Rightarrow> region" where
  "pager_fetching_watchdog K busy r =
     (let timeout_ms = (if fetching_timeout_ms r \<noteq> 0 then fetching_timeout_ms r else 30000);
          (now, r0) = now_ns K r
      in foldl (watchdog_one now (ucast timeout_ms * 1000000) busy) r0 [0..<n_chunks r0])"

definition pager_notify_access :: "region \<Rightarrow> nat \<Rightarrow> region" where
  "pager_notify_access r i =
     (let r1 = r\<lparr>policy_of := map_option (\<lambda>p. policy_on_access p i) (policy_of r)\<rparr>
      in if \<not> prefetch_retention_pinned r1 then r1 else prefetch_retain_release r1 i)"

section \<open>The loop\<close>

text \<open>
  The outcomes of one \<^verbatim>\<open>read\<close> and of one \<^verbatim>\<open>poll\<close>. A list of reads that ends is an
  empty queue, like \<^verbatim>\<open>EAGAIN\<close>; the list of polls ends when \<^verbatim>\<open>*stop\<close> is set.
\<close>

datatype uffd_read = U_eagain | U_eintr | U_error | U_short | U_other_event | U_fault u64 bool

datatype poll_outcome = Poll_eintr | Poll_error | Poll_timeout | Poll_ready "uffd_read list"

fun drain :: "kernel \<Rightarrow> uffd_read list \<Rightarrow> region \<Rightarrow> nat \<Rightarrow> failure + (region \<times> nat)" where
  "drain K [] r n = Inr (r, n)"
| "drain K (U_eagain # ms) r n = Inr (r, n)"
| "drain K (U_eintr # ms) r n = drain K ms r n"
| "drain K (U_error # ms) r n = Inl Uffd_read_failed"
| "drain K (U_short # ms) r n = Inl Uffd_short_read"
| "drain K (U_other_event # ms) r n = Inl Uffd_unexpected_event"
| "drain K (U_fault rel_off was_minor # ms) r n =
     rbind (handle_fault K r rel_off was_minor) (\<lambda>r1. drain K ms r1 (wrap32 (n + 1)))"

definition note_queue_depth :: "nat \<Rightarrow> region \<Rightarrow> region" where
  "note_queue_depth n r =
     r\<lparr>metrics_of := map_option (\<lambda>m. if n > queue_depth_high_water m
                                    then m\<lparr>queue_depth_high_water := n\<rparr> else m) (metrics_of r)\<rparr>"

definition pager_round :: "kernel \<Rightarrow> (nat \<Rightarrow> bool) \<Rightarrow> poll_outcome \<Rightarrow> region \<Rightarrow> failure + region" where
  "pager_round K busy p r =
     (let r0 = (if async_handler r then pager_fetching_watchdog K busy r else r)
      in case p of
           Poll_eintr \<Rightarrow> Inr r0
         | Poll_error \<Rightarrow> Inl Poll_failed
         | Poll_timeout \<Rightarrow> Inr r0
         | Poll_ready ms \<Rightarrow> rbind (drain K ms r0 0) (\<lambda>(r1, n). Inr (note_queue_depth n r1)))"

fun pager_loop :: "kernel \<Rightarrow> (nat \<Rightarrow> nat \<Rightarrow> bool) \<Rightarrow> poll_outcome list \<Rightarrow> region \<Rightarrow> failure + region" where
  "pager_loop K busy [] r = Inr r"
| "pager_loop K busy (p # ps) r =
     rbind (pager_round K (busy (length ps)) p (k_others K (length ps) r)) (pager_loop K busy ps)"

text \<open>Stopping: the flag, then the join, during which the workers empty the queues.\<close>

definition prefetch_pool_stop :: "kernel \<Rightarrow> region \<Rightarrow> region" where
  "prefetch_pool_stop K r =
     k_others K 0 (r\<lparr>prefetch_pool_handle := map_option (\<lambda>p. p\<lparr>stop := True\<rparr>) (prefetch_pool_handle r)\<rparr>)"

definition pager_run :: "kernel \<Rightarrow> (nat \<Rightarrow> nat \<Rightarrow> bool) \<Rightarrow> poll_outcome list \<Rightarrow> region \<Rightarrow> failure + region" where
  "pager_run K busy polls r =
     (let r0 = (if async_handler r then prefetch_pool_start r (fetch_workers r) else r)
      in rbind (pager_loop K busy polls r0) (\<lambda>r1.
         Inr (if async_handler r1 then (prefetch_pool_stop K r1)\<lparr>prefetch_pool_handle := None\<rparr> else r1)))"


section \<open>What the dispatcher keeps\<close>

definition demand_list :: "region \<Rightarrow> nat list" where
  "demand_list r = (case prefetch_pool_handle r of Some pool \<Rightarrow> ring_list (demand_queue pool) | None \<Rightarrow> [])"

text \<open>
  The state between two steps of the dispatcher: the queues are well formed, and every queued demand
  job names a chunk that is FETCHING, with nothing reserved for it and no pin on it yet.
\<close>

definition dispatch_inv :: "region \<Rightarrow> nat set \<Rightarrow> nat set \<Rightarrow> (nat \<Rightarrow> u32) \<Rightarrow> bool" where
  "dispatch_inv r C F X \<longleftrightarrow> budget_inv r C F X \<and> idle_ok r X
     \<and> (\<exists>pool. prefetch_pool_handle r = Some pool \<and> pool_ok (n_chunks r) pool)
     \<and> (\<forall>i\<in>set (demand_list r). state (chunk_at r i) = CHUNK_FETCHING \<and> i \<notin> C \<union> F \<and> X i = 0)"

lemma dispatch_inv_cong:
  assumes "inv_part r' = inv_part r" "prefetch_pool_handle r' = prefetch_pool_handle r"
  shows "dispatch_inv r' C F X = dispatch_inv r C F X"
proof -
  have "chunks r' = chunks r" using assms(1) by (simp add: inv_part_def)
  then show ?thesis using assms(2) budget_inv_cong[OF assms(1)]
    by (simp add: dispatch_inv_def demand_list_def idle_ok_def)
qed

lemma dispatch_effect:
  assumes "dispatch_inv r C F X" "i < n_chunks r" "state (chunk_at r i) = CHUNK_ABSENT"
  shows "case handle_absent_dispatch K r i ft of
           Inl e \<Rightarrow> e = Trace_write_failed
         | Inr r' \<Rightarrow> dispatch_inv r' C F X \<and> n_chunks r' = n_chunks r
             \<and> state (chunk_at r' i) = CHUNK_FETCHING \<and> last_fault_seq (chunk_at r' i) = fault_seq r + 1
             \<and> (\<forall>j. j \<noteq> i \<longrightarrow> chunk_at r' j = chunk_at r j)
             \<and> demand_list r' = demand_list r @ [i] \<and> uffd_log r' = uffd_log r
             \<and> memfd r' = memfd r \<and> reserved_bytes r' = reserved_bytes r \<and> resident_bytes r' = resident_bytes r
             \<and> config_part r' = config_part r"
proof -
  let ?t = "k_clock K (clk_pos r)"
  let ?r1 = "mark_fetching ?t i (r\<lparr>clk_pos := clk_pos r + 1\<rparr>)"
  have inv: "budget_inv r C F X" and idle: "idle_ok r X" using assms(1) by (simp_all add: dispatch_inv_def)
  obtain pool where h: "prefetch_pool_handle r = Some pool" and p: "pool_ok (n_chunks r) pool"
    using assms(1) by (auto simp: dispatch_inv_def)
  have q: "\<forall>j\<in>set (ring_list (demand_queue pool)). state (chunk_at r j) = CHUNK_FETCHING \<and> j \<notin> C \<union> F \<and> X j = 0"
    using assms(1) h by (simp add: dispatch_inv_def demand_list_def)
  have X0: "X i = 0" using idle assms(2,3) by (simp add: idle_ok_def)
  have iq: "i \<notin> set (ring_list (demand_queue pool))" using q assms(3) by auto
  obtain pool' where e: "prefetch_pool_enqueue_demand pool i = Inr pool'" and p': "pool_ok (n_chunks r) pool'"
    and l': "ring_list (demand_queue pool') = ring_list (demand_queue pool) @ [i]"
    using enqueue_demand_ok[OF p assms(2) iq] by metis
  have "budget_inv (r\<lparr>clk_pos := clk_pos r + 1\<rparr>) C F X"
    using budget_inv_cong[of "r\<lparr>clk_pos := clk_pos r + 1\<rparr>" r] inv by (simp add: inv_part_def)
  note M = mark_fetching_inv(1,2)[OF this, where i = i and t = ?t]
  show ?thesis
  proof (cases "record_fault K ?r1 (fault_seq ?r1) i ft 0")
    case (Inl e)
    have "e = Trace_write_failed" using Inl
      by (auto simp: record_fault_def now_ns_def Let_def split: option.splits sum.splits)
    then show ?thesis using Inl by (simp add: handle_absent_dispatch_def now_ns_def Let_def)
  next
    case (Inr r2)
    from record_fault_effect[OF Inr] obtain tr p2 where r2: "r2 = ?r1\<lparr>clk_pos := p2, trace_of := tr\<rparr>" .
    have h2: "prefetch_pool_handle (policy_fault r2 i) = Some pool"
      using h by (simp add: r2 policy_fault_def mark_fetching_def upd_chunk_def)
    define r4 where "r4 = (policy_fault r2 i)\<lparr>prefetch_pool_handle := Some pool', clk_pos := clk_pos r2 + 1\<rparr>"
    define r' where "r' = upd_chunk i (\<lambda>c. c\<lparr>diag_dispatch_entry_ns := ?t,
        diag_dispatch_enqueue_ns := k_clock K (clk_pos r2)\<rparr>) r4"
    have d: "handle_absent_dispatch K r i ft = Inr r'"
      using Inr h2 e by (simp add: handle_absent_dispatch_def now_ns_def Let_def r4_def r'_def policy_fault_def)
    have part: "inv_part r4 = inv_part ?r1" by (simp add: r4_def r2 policy_fault_def inv_part_def)
    have c4: "chunks r4 = chunks ?r1" by (simp add: r4_def r2 policy_fault_def)
    have i4: "i < n_chunks r4" "state (chunk_at r4 i) = CHUNK_FETCHING"
      using assms(2,3) M(2) by (simp_all add: c4 mark_fetching_def)
    have inv4: "budget_inv r4 C F X" using budget_inv_cong[OF part] M(1) assms(2,3) by simp
    have nh: "i \<notin> C \<union> F" "i \<notin> retained r4"
      using absent_unheld[OF inv assms(2,3)]
      by (simp_all add: r4_def r2 policy_fault_def retained_def mark_fetching_def upd_chunk_def)
    have inv': "budget_inv r' C F X"
      unfolding r'_def using i4(2) by (intro upd_unheld_inv[OF inv4 i4(1) nh(1)]) (simp_all add: geom_def)
    have ch: "chunks r' = (chunks r)[i := (chunk_at r i)\<lparr>state := CHUNK_FETCHING, fetching_since_ns := ?t,
        last_fault_seq := fault_seq r + 1, diag_dispatch_entry_ns := ?t,
        diag_dispatch_enqueue_ns := k_clock K (clk_pos r2)\<rparr>]"
      using assms(2) by (simp add: r'_def upd_chunk_def c4 mark_fetching_def)
    have dl: "demand_list r' = demand_list r @ [i]"
      using h l' by (simp add: demand_list_def r'_def r4_def upd_chunk_def)
    have st: "state (chunk_at r' j) = (if j = i then CHUNK_FETCHING else state (chunk_at r j))" for j
      using assms(2) by (simp add: ch nth_list_update)
    have "dispatch_inv r' C F X"
      using inv' idle p' q X0 nh(1) dl h st
      by (auto simp: dispatch_inv_def idle_ok_def demand_list_def ch)
        (simp_all add: r'_def r4_def upd_chunk_def)
    then show ?thesis using d dl ch assms(2) st
      by (auto simp: r'_def r4_def r2 policy_fault_def upd_chunk_def mark_fetching_def config_part_def)
  qed
qed


section \<open>One fault\<close>

text \<open>What the dispatcher does to the state, by the state of the chunk it found.\<close>

definition dispatched :: "nat \<Rightarrow> region \<Rightarrow> region \<Rightarrow> bool" where
  "dispatched i r r' \<longleftrightarrow> n_chunks r' = n_chunks r \<and> (\<forall>j. j \<noteq> i \<longrightarrow> chunk_at r' j = chunk_at r j)
     \<and> memfd r' = memfd r \<and> reserved_bytes r' = reserved_bytes r \<and> resident_bytes r' = resident_bytes r
     \<and> config_part r' = config_part r
     \<and> (case state (chunk_at r i) of
          CHUNK_RESIDENT \<Rightarrow> chunk_at r' i = chunk_at r i \<and> demand_list r' = demand_list r
             \<and> uffd_log r' = uffd_log r @ [wake_call r i] \<and> stat_dedup_resident r' = stat_dedup_resident r + 1
        | CHUNK_FETCHING \<Rightarrow> chunk_at r' i = chunk_at r i \<and> demand_list r' = demand_list r
             \<and> uffd_log r' = uffd_log r \<and> stat_dedup_fetching r' = stat_dedup_fetching r + 1
        | CHUNK_ABSENT \<Rightarrow> state (chunk_at r' i) = CHUNK_FETCHING
             \<and> last_fault_seq (chunk_at r' i) = fault_seq r + 1
             \<and> demand_list r' = demand_list r @ [i] \<and> uffd_log r' = uffd_log r)"

lemma count_fault_simps [simp]:
  "chunks (count_fault m r) = chunks r" "uffd_log (count_fault m r) = uffd_log r"
  "memfd (count_fault m r) = memfd r" "reserved_bytes (count_fault m r) = reserved_bytes r"
  "resident_bytes (count_fault m r) = resident_bytes r" "fault_seq (count_fault m r) = fault_seq r"
  "async_handler (count_fault m r) = async_handler r" "demand_list (count_fault m r) = demand_list r"
  "stat_dedup_resident (count_fault m r) = stat_dedup_resident r"
  "stat_dedup_fetching (count_fault m r) = stat_dedup_fetching r"
  "inv_part (count_fault m r) = inv_part r" "prefetch_pool_handle (count_fault m r) = prefetch_pool_handle r"
  "config_part (count_fault m r) = config_part r" "clk_pos (count_fault m r) = clk_pos r"
  "trace_of (count_fault m r) = trace_of r" "policy_of (count_fault m r) = policy_of r"
  by (simp_all add: count_fault_def demand_list_def inv_part_def config_part_def)

lemma lookup_in_region:
  assumes "geometry_ok r" "rel < region_len r"
  obtains i where "pager_lookup (chunks r) rel = Some i" "i < n_chunks r" "covers (chunk_at r i) rel"
proof (cases "pager_lookup (chunks r) rel")
  case None
  then show ?thesis using pager_lookup_iff[of "chunks r" "region_len r" rel] assms
    by (simp add: geometry_ok_def leD)
next
  case (Some i)
  then show ?thesis using pager_lookup_iff[of "chunks r" "region_len r" rel i] assms that
    by (simp add: geometry_ok_def)
qed

lemma handle_fault_dispatches:
  assumes inv: "dispatch_inv r C F X" and a: "async_handler r"
    and l: "pager_lookup (chunks r) rel = Some i" "i < n_chunks r"
  shows "case handle_fault K r rel m of
           Inl e \<Rightarrow> e = Trace_write_failed
         | Inr r' \<Rightarrow> dispatch_inv r' C F X \<and> dispatched i r r'"
proof -
  let ?r0 = "count_fault m r"
  have inv0: "dispatch_inv ?r0 C F X" using inv dispatch_inv_cong[of ?r0 r] by simp
  show ?thesis
  proof (cases "state (chunk_at r i)")
    case CHUNK_ABSENT
    then have h: "handle_fault K r rel m =
        handle_absent_dispatch K ?r0 i (if m then TRACE_FAULT_MINOR else TRACE_FAULT_MISSING)"
      using l a by (simp add: handle_fault_def Let_def)
    show ?thesis
      unfolding h using dispatch_effect[OF inv0, of i K "if m then TRACE_FAULT_MINOR else TRACE_FAULT_MISSING"]
        l(2) CHUNK_ABSENT by (auto simp: dispatched_def split: sum.splits)
  next
    case CHUNK_FETCHING
    let ?r' = "?r0\<lparr>stat_dedup_fetching := stat_dedup_fetching r + 1\<rparr>"
    have "dispatch_inv ?r' C F X"
      using inv dispatch_inv_cong[of ?r' r] by (cases m) (simp_all add: inv_part_def count_fault_def)
    then show ?thesis using l CHUNK_FETCHING
      by (cases m) (simp_all add: handle_fault_def Let_def dispatched_def demand_list_def config_part_def count_fault_def)
  next
    case CHUNK_RESIDENT
    let ?r' = "(wake_range ?r0 i)\<lparr>stat_dedup_resident := stat_dedup_resident r + 1\<rparr>"
    have "dispatch_inv ?r' C F X"
      using inv dispatch_inv_cong[of ?r' r]
      by (cases m) (simp_all add: inv_part_def count_fault_def wake_range_def)
    then show ?thesis using l CHUNK_RESIDENT
      by (cases m) (simp_all add: handle_fault_def Let_def dispatched_def demand_list_def wake_range_def
          config_part_def count_fault_def)
  qed
qed


text \<open>The statistics of the fault type and the trace are all that depends on it.\<close>

definition forget_type :: "region \<Rightarrow> region" where
  "forget_type r = r\<lparr>stat_fault_minor := 0, stat_fault_missing := 0\<rparr>"

text \<open>
  I-8: the handler never looks at the type of a fault. Without a fault trace, a MINOR and a
  MISSING fault at the same address lead the asynchronous handler to the same result and the same
  state, up to the two counters of the fault types.
\<close>

lemma fault_type_is_only_counted:
  assumes "async_handler r" and "trace_of r = None"
  shows "map_sum id forget_type (handle_fault K r rel True) = map_sum id forget_type (handle_fault K r rel False)"
proof -
  have d: "map_sum id forget_type (handle_absent_dispatch K (count_fault True r) i ft)
      = map_sum id forget_type (handle_absent_dispatch K (count_fault False r) i ft')" for i ft ft'
    using assms(2)
    by (simp add: handle_absent_dispatch_def now_ns_def Let_def record_fault_def mark_fetching_def upd_chunk_def
        policy_fault_def prefetch_pool_enqueue_demand_def forget_type_def count_fault_def split: option.split)
  show ?thesis
    using assms(1) d
    by (simp add: handle_fault_def Let_def split: option.split chunk_state.split)
      (simp add: forget_type_def count_fault_def wake_range_def)
qed


section \<open>The synchronous handler\<close>

lemma serve_demand_inline:
  assumes inv: "budget_inv r C F X" and i: "i < n_chunks r" "i \<notin> C \<union> F" "X i = 0"
    and fet: "state (chunk_at r i) = CHUNK_FETCHING" and idle: "idle_ok r X" and fl: "starts_in_file r i"
    and aft: "\<And>r1 r2 C. budget_inv r1 C F (X(i := 1)) \<Longrightarrow> state (chunk_at r1 i) = CHUNK_RESIDENT \<Longrightarrow>
        advances r r1 \<Longrightarrow> idle_ok r1 (X(i := 1)) \<Longrightarrow> after r1 = Inr r2 \<Longrightarrow> keeps_pinned i F (X(i := 1)) r1 r2"
    and d: "serve_demand K 0 after r i t f = Inr r'"
  shows "resolved F X i r r'"
proof -
  from d obtain ok r2 where
    e: "ensure_budget K r (len (chunk_at r i)) = Inr (ok, r2)"
    and rest: "(if \<not> ok then Inr (pager_abandon_fetch r2 i)
         else rbind (fetch_chunk K r2 i (diag_fetch_trace r2 \<noteq> None)) (\<lambda>(tm, r3).
              complete_demand K after r3 i t (f tm))) = Inr r'"
    unfolding serve_demand_def by (fastforce simp: rbind_Inr_iff split: if_splits)
  note E = ensure_budget_spec[OF inv i(1,2) fet e]
  have oe: "only_evicts r r2" and sp: "static_part r2 = static_part r"
    and I: "\<exists>C'\<subseteq>C. budget_inv r2 C' (if ok then insert i F else F) X"
    using E by (auto simp: reserved_for_def evict_ok_def split: if_splits)
  have pk: "pins_ok r X" using inv by auto
  have o2: "others_ok i X r r2" by (rule others_ok_evict[OF oe sp pk])
  have log2: "uffd_log r2 = uffd_log r" using sp by (simp add: static_part_def)
  then have a2: "advances r r2" using others_advances[OF o2, of "[]"] by simp
  have idle2: "idle_ok r2 X" by (rule only_evicts_idle[OF oe pk idle])
  have n2: "i < n_chunks r2" using only_evicts_fetching[OF oe i(1)] fet i(1) by simp
  from I obtain C' where C': "C' \<subseteq> C" "budget_inv r2 C' (if ok then insert i F else F) X" by blast
  have iF: "i \<notin> F" and iC: "i \<notin> C' \<union> F" using i(2) C'(1) by auto
  have "resolved F X i r2 r'"
  proof (cases ok)
    case False
    have b: "budget_inv r2 C' F X" using C'(2) False by simp
    note A = abandon_inv[OF b n2 iC]
    have "r' = pager_abandon_fetch r2 i" using rest False by simp
    then show ?thesis using A others_advances[OF A(3,4)] by (auto simp: resolved_def)
  next
    case True
    then obtain tm r3 where f: "fetch_chunk K r2 i (diag_fetch_trace r2 \<noteq> None) = Inr (tm, r3)"
      and c: "complete_demand K after r3 i t (f tm) = Inr r'" using rest by (auto simp: rbind_Inr_iff)
    have b: "budget_inv r2 C' (insert i F) X" using C'(2) True by simp
    have s2: "starts_in_file r2 i" using others_ok_file[OF o2 i(1)] fl by simp
    have ii: "i \<in> insert i F" by simp
    note R = fetch_chunk_inv[OF b ii s2 f] and O = fetch_others[OF f b ii s2, of i]
    have o3: "others_ok i X r2 r3" and log3: "uffd_log r3 = uffd_log r2 @ [continue_call r2 i]"
      and c3: "chunks r3 = chunks r2" using O by auto
    have a3: "advances r r3" using advances_trans[OF a2 others_advances[OF o3 log3]] .
    have idle3: "idle_ok r3 X" using idle2 c3 by (simp add: idle_ok_def)
    have aft3: "keeps_pinned i F (X(i := 1)) r1 r5"
      if "budget_inv r1 C F (X(i := 1))" "state (chunk_at r1 i) = CHUNK_RESIDENT" "advances r3 r1"
        "others_ok i X r3 r1" "after r1 = Inr r5" for r1 r5 C
    proof (rule aft[OF that(1,2) advances_trans[OF a3 that(3)] _ that(5)])
      have "idle_ok r1 X" by (rule others_ok_idle[OF that(4) idle3]) (use that(2) in simp)
      then show "idle_ok r1 (X(i := 1))" using that(2) by (auto simp: idle_ok_def)
    qed
    note N = complete_demand_inv[where X = X, OF R(1) iF i(3) R(2) aft3 c]
    have D: "(\<exists>C. budget_inv r' C F X) \<and> state (chunk_at r' i) = CHUNK_RESIDENT \<and> advances r3 r'"
      by (intro conjI N)
    then obtain l where "uffd_log r' = uffd_log r3 @ l" by (auto simp: advances_def)
    then show ?thesis
      using D advances_trans[OF others_advances[OF o3 log3]] log3 by (auto simp: resolved_def)
  qed
  then show ?thesis by (rule resolved_after[OF a2 i(1)])
qed

lemma inline_prefetch_keeps:
  assumes "budget_inv r C F X" "idle_ok r X" "i < n_chunks r" "X i = 1" "\<forall>j<n_chunks r. starts_in_file r j"
    and "maybe_prefetch K r i = Inr r'"
  shows "keeps_pinned i F X r r'"
proof -
  from maybe_prefetch_settles[OF assms] consider "r' = r"
    | j where "j \<noteq> i" "settled F X j r r'" by blast
  then show ?thesis
  proof cases
    case 1
    then show ?thesis using assms(1) by (auto simp: keeps_pinned_def advances_refl)
  next
    case 2
    then have "others_ok j X r r'" by (simp add: settled_def)
    then have "chunk_at r' i = chunk_at r i" using assms(3,4) 2(1) by (simp add: others_ok_def)
    then show ?thesis using 2(2) settled_advances[OF 2(2)] by (auto simp: keeps_pinned_def settled_def)
  qed
qed

lemma handle_absent_begins:
  assumes inv: "budget_inv r C F X" and i: "i < n_chunks r" "state (chunk_at r i) = CHUNK_ABSENT" "idle_ok r X"
    and rec: "record_fault K (mark_fetching t i (r\<lparr>clk_pos := p\<rparr>)) sq i ft 0 = Inr r2"
  defines "r3 \<equiv> policy_fault r2 i"
  shows "budget_inv r3 C F X" "idle_ok r3 X" "state (chunk_at r3 i) = CHUNK_FETCHING" "advances r r3"
    "i \<notin> C \<union> F" "X i = 0"
proof -
  let ?r1 = "mark_fetching t i (r\<lparr>clk_pos := p\<rparr>)"
  show "i \<notin> C \<union> F" "X i = 0" using absent_unheld[OF inv i(1,2)] i by (auto simp: idle_ok_def)
  from record_fault_effect[OF rec] obtain tr p2 where r2: "r2 = ?r1\<lparr>clk_pos := p2, trace_of := tr\<rparr>" .
  have ch: "chunks r3 = (chunks r)[i := (chunk_at r i)\<lparr>state := CHUNK_FETCHING, fetching_since_ns := t,
      last_fault_seq := fault_seq r + 1\<rparr>]"
    by (simp add: r3_def policy_fault_def r2 mark_fetching_def upd_chunk_def)
  have "budget_inv (r\<lparr>clk_pos := p\<rparr>) C F X"
    using budget_inv_cong[of "r\<lparr>clk_pos := p\<rparr>" r] inv by (simp add: inv_part_def)
  then have "budget_inv ?r1 C F X" using mark_fetching_inv(1)[of "r\<lparr>clk_pos := p\<rparr>" C F X i t] i by simp
  moreover have "inv_part r3 = inv_part ?r1" by (simp add: r3_def policy_fault_def r2 inv_part_def)
  ultimately show "budget_inv r3 C F X" using budget_inv_cong by metis
  show "state (chunk_at r3 i) = CHUNK_FETCHING" using i(1) by (simp add: ch)
  show "idle_ok r3 X" using i by (auto simp: idle_ok_def ch nth_list_update)
  have "config_part r3 = config_part r" "uffd_log r3 = uffd_log r"
    by (simp_all add: r3_def policy_fault_def r2 mark_fetching_def upd_chunk_def config_part_def)
  then show "advances r r3" using i(1) by (auto simp: advances_def ch nth_list_update geom_def)
qed

lemma handle_absent_steps:
  assumes inv: "budget_inv r C F X" "idle_ok r X"
    and i: "i < n_chunks r" "state (chunk_at r i) = CHUNK_ABSENT" "\<forall>j<n_chunks r. starts_in_file r j"
    and h: "handle_absent K r i ft = Inr r'"
  obtains r3 where "budget_inv r3 C F X" "idle_ok r3 X" "state (chunk_at r3 i) = CHUNK_FETCHING" "advances r r3"
    "i \<notin> C \<union> F" "X i = 0" "i < n_chunks r3" "starts_in_file r3 i" "prefetch_depth r3 = prefetch_depth r"
    "serve_demand K (if prefetch_depth r > 1 then 200 else 0)
       (\<lambda>r. if prefetch_depth r \<le> 1 then maybe_prefetch K r i else Inr (prefetch_pool_top_up K r i)) r3 i
       (k_clock K (clk_pos r)) (\<lambda>tm t_exit l. fetch_record i False (k_clock K (clk_pos r)) tm t_exit l) = Inr r'"
proof -
  let ?t = "k_clock K (clk_pos r)"
  let ?r1 = "mark_fetching ?t i (r\<lparr>clk_pos := clk_pos r + 1\<rparr>)"
  let ?after = "\<lambda>r. if prefetch_depth r \<le> 1 then maybe_prefetch K r i else Inr (prefetch_pool_top_up K r i)"
  obtain r2 where rec: "record_fault K ?r1 (fault_seq ?r1) i ft 0 = Inr r2"
    and sd: "serve_demand K (if prefetch_depth r2 > 1 then 200 else 0) ?after (policy_fault r2 i) i ?t
        (\<lambda>tm t_exit l. fetch_record i False ?t tm t_exit l) = Inr r'"
    using h by (auto simp: handle_absent_def now_ns_def Let_def rbind_Inr_iff)
  note B = handle_absent_begins[OF inv(1) i(1,2) inv(2) rec]
  have d: "prefetch_depth (policy_fault r2 i) = prefetch_depth r" "prefetch_depth r2 = prefetch_depth (policy_fault r2 i)"
    using B(4) by (simp_all add: advances_def config_part_def policy_fault_def)
  have n3: "i < n_chunks (policy_fault r2 i)" "starts_in_file (policy_fault r2 i) i"
    using B(4) i(1,3) advances_file[OF B(4) i(1)] by (auto simp: advances_def)
  show ?thesis by (rule that[OF B(1-6) n3 d(1) sd[unfolded d(2), unfolded d(1)]])
qed

lemma handle_absent_inline:
  assumes inv: "budget_inv r C F X" "idle_ok r X"
    and i: "i < n_chunks r" "state (chunk_at r i) = CHUNK_ABSENT" "\<forall>j<n_chunks r. starts_in_file r j"
    and d: "prefetch_depth r \<le> 1" and h: "handle_absent K r i ft = Inr r'"
  shows "resolved F X i r r'"
proof -
  from handle_absent_steps[OF inv i h] obtain r3 where
    B: "budget_inv r3 C F X" "idle_ok r3 X" "state (chunk_at r3 i) = CHUNK_FETCHING" "advances r r3"
      "i \<notin> C \<union> F" "X i = 0" "i < n_chunks r3" "starts_in_file r3 i" "prefetch_depth r3 = prefetch_depth r"
    and sd: "serve_demand K (if prefetch_depth r > 1 then 200 else 0)
       (\<lambda>r. if prefetch_depth r \<le> 1 then maybe_prefetch K r i else Inr (prefetch_pool_top_up K r i)) r3 i
       (k_clock K (clk_pos r)) (\<lambda>tm t_exit l. fetch_record i False (k_clock K (clk_pos r)) tm t_exit l) = Inr r'" .
  have "resolved F X i r3 r'"
  proof (rule serve_demand_inline[OF B(1,7,5,6,3,2,8)])
    show "serve_demand K 0 (\<lambda>r. if prefetch_depth r \<le> 1 then maybe_prefetch K r i else Inr (prefetch_pool_top_up K r i))
      r3 i (k_clock K (clk_pos r)) (\<lambda>tm t_exit l. fetch_record i False (k_clock K (clk_pos r)) tm t_exit l) = Inr r'"
      using sd d by simp
    fix r1 r5 C
    assume b: "budget_inv r1 C F (X(i := 1))" "advances r3 r1" "idle_ok r1 (X(i := 1))"
      "(if prefetch_depth r1 \<le> 1 then maybe_prefetch K r1 i else Inr (prefetch_pool_top_up K r1 i)) = Inr r5"
    have a1: "advances r r1" by (rule advances_trans[OF B(4) b(2)])
    then have "maybe_prefetch K r1 i = Inr r5" "n_chunks r1 = n_chunks r"
      using b(4) d by (auto simp: advances_def config_part_def)
    then show "keeps_pinned i F (X(i := 1)) r1 r5"
      using inline_prefetch_keeps[OF b(1,3)] i(1,3) advances_file[OF a1] by simp
  qed
  then show ?thesis by (rule resolved_after[OF B(4) i(1)])
qed

lemma handle_absent_resolves:
  assumes inv: "budget_inv r C F X" "idle_ok r X"
    and i: "i < n_chunks r" "state (chunk_at r i) = CHUNK_ABSENT" "\<forall>j<n_chunks r. starts_in_file r j"
    and ry: "prefetch_depth r > 1 \<longrightarrow> (\<forall>n s. unserved i s \<longrightarrow> rely i s (k_others K n s))"
    and h: "handle_absent K r i ft = Inr r'"
  shows "\<exists>F X. i \<notin> F \<and> X i = 0 \<and> resolved F X i r r'"
proof -
  from handle_absent_steps[OF inv i h] obtain r3 where
    B: "budget_inv r3 C F X" "idle_ok r3 X" "state (chunk_at r3 i) = CHUNK_FETCHING" "advances r r3"
      "i \<notin> C \<union> F" "X i = 0" "i < n_chunks r3" "starts_in_file r3 i" "prefetch_depth r3 = prefetch_depth r"
    and sd: "serve_demand K (if prefetch_depth r > 1 then 200 else 0)
       (\<lambda>r. if prefetch_depth r \<le> 1 then maybe_prefetch K r i else Inr (prefetch_pool_top_up K r i)) r3 i
       (k_clock K (clk_pos r)) (\<lambda>tm t_exit l. fetch_record i False (k_clock K (clk_pos r)) tm t_exit l) = Inr r'" .
  show ?thesis
  proof (cases "prefetch_depth r > 1")
    case True
    have u: "unserved i r3" by (rule unservedI[OF B(1,5,6,7,3)])
    have "\<exists>F X. i \<notin> F \<and> X i = 0 \<and> resolved F X i r3 r'"
    proof (rule serve_demand_resolves[OF u B(8) _ _ sd])
      show "\<forall>n s. unserved i s \<longrightarrow> rely i s (k_others K n s)" using ry True by simp
      fix C F X r1 r5
      assume b: "budget_inv r1 C F (X(i := 1))" "advances r3 r1"
        "(if prefetch_depth r1 \<le> 1 then maybe_prefetch K r1 i else Inr (prefetch_pool_top_up K r1 i)) = Inr r5"
      have "prefetch_depth r1 = prefetch_depth r" using b(2) B(9) by (simp add: advances_def config_part_def)
      then have "r5 = prefetch_pool_top_up K r1 i" using b(3) True by simp
      then show "keeps_pinned i F (X(i := 1)) r1 r5" using top_up_keeps[OF b(1)] by simp
    qed
    then show ?thesis using resolved_after[OF B(4) i(1)] by blast
  next
    case False
    then have "resolved F X i r r'" using handle_absent_inline[OF inv i _ h] by simp
    then show ?thesis using B(5,6) by blast
  qed
qed

text \<open>
  C12. The synchronous handler resolves the fault it is given before it returns, at every prefetch
  depth: the chunk ends RESIDENT after its \<^verbatim>\<open>UFFDIO_CONTINUE\<close>, or ABSENT after a
  \<^verbatim>\<open>UFFDIO_WAKE\<close> when it does not fit, and the invariant holds again. (Other threads
  exist only at depth 2 and above.)
\<close>

theorem sync_fault_resolves:
  assumes "budget_inv r C F X" "idle_ok r X"
    and "i < n_chunks r" "state (chunk_at r i) = CHUNK_ABSENT" "\<forall>j<n_chunks r. starts_in_file r j"
    and "prefetch_depth r > 1 \<longrightarrow> (\<forall>n s. unserved i s \<longrightarrow> rely i s (k_others K n s))"
    and "handle_absent K r i ft = Inr r'"
  shows "\<exists>F X. i \<notin> F \<and> X i = 0 \<and> resolved F X i r r'"
  using assms by (rule handle_absent_resolves)


section \<open>The watchdog\<close>

abbreviation watchdog_timeout :: "region \<Rightarrow> u64" where
  "watchdog_timeout r \<equiv> ucast (if fetching_timeout_ms r \<noteq> 0 then fetching_timeout_ms r else 30000) * 1000000"

text \<open>The chunks one pass reclaims, and what it makes of the table.\<close>

definition reclaimed :: "u64 \<Rightarrow> u64 \<Rightarrow> (nat \<Rightarrow> bool) \<Rightarrow> region \<Rightarrow> nat \<Rightarrow> bool" where
  "reclaimed now tmo busy r i \<longleftrightarrow> expired now tmo (chunk_at r i) \<and> \<not> busy i"

definition reclaims :: "(nat \<Rightarrow> bool) \<Rightarrow> nat \<Rightarrow> region \<Rightarrow> region \<Rightarrow> bool" where
  "reclaims P k r r' \<longleftrightarrow> n_chunks r' = n_chunks r \<and> config_part r' = config_part r
     \<and> prefetch_pool_handle r' = prefetch_pool_handle r \<and> clk_pos r' = clk_pos r
     \<and> (\<forall>i<n_chunks r. chunk_at r' i = (if i < k \<and> P i
          then (chunk_at r i)\<lparr>state := CHUNK_ABSENT, fetching_since_ns := 0\<rparr> else chunk_at r i))
     \<and> uffd_log r' = uffd_log r @ map (wake_call r) (filter P [0..<k])
     \<and> stat_fetching_timeout r' = stat_fetching_timeout r + of_nat (length (filter P [0..<k]))"

lemma watchdog_pass:
  assumes inv: "budget_inv r C F X" "idle_ok r X"
    and own: "\<forall>i<n_chunks r. reclaimed now tmo busy r i \<longrightarrow> i \<notin> C \<union> F \<and> X i = 0"
    and k: "k \<le> n_chunks r"
  shows "budget_inv (foldl (watchdog_one now tmo busy) r [0..<k]) C F X
      \<and> idle_ok (foldl (watchdog_one now tmo busy) r [0..<k]) X
      \<and> reclaims (reclaimed now tmo busy r) k r (foldl (watchdog_one now tmo busy) r [0..<k])"
  using k
proof (induction k)
  case 0
  then show ?case using inv by (simp add: reclaims_def)
next
  case (Suc k)
  let ?s = "foldl (watchdog_one now tmo busy) r [0..<k]" and ?P = "reclaimed now tmo busy r"
  have IH: "budget_inv ?s C F X" "idle_ok ?s X" "reclaims ?P k r ?s" using Suc by auto
  have at: "chunk_at ?s k = chunk_at r k" and n: "n_chunks ?s = n_chunks r"
    using IH(3) Suc.prems by (simp_all add: reclaims_def)
  have unf: "foldl (watchdog_one now tmo busy) r [0..<Suc k] = watchdog_one now tmo busy ?s k" by simp
  show ?case
  proof (cases "?P k")
    case False
    then have "foldl (watchdog_one now tmo busy) r [0..<Suc k] = ?s"
      unfolding unf using at by (auto simp: watchdog_one_def reclaimed_def)
    moreover have "reclaims ?P (Suc k) r ?s" using IH(3) False by (auto simp: reclaims_def less_Suc_eq)
    ultimately show ?thesis using IH(1,2) by simp
  next
    case True
    let ?a = "pager_abandon_fetch ?s k"
    let ?t = "?a\<lparr>stat_fetching_timeout := stat_fetching_timeout ?a + 1\<rparr>"
    have t: "foldl (watchdog_one now tmo busy) r [0..<Suc k] = ?t"
      unfolding unf using at True by (simp add: watchdog_one_def reclaimed_def Let_def)
    have kn: "k < n_chunks ?s" "k \<notin> C \<union> F" "X k = 0" using Suc.prems own True n by auto
    note A = abandon_inv[OF IH(1) kn(1,2)]
    have ib: "budget_inv ?t C F X" using budget_inv_cong[of ?t ?a] A(1) by (simp add: inv_part_def)
    have io: "idle_ok ?t X"
      using IH(2) kn by (auto simp: idle_ok_def pager_abandon_fetch_def wake_range_def upd_chunk_def nth_list_update)
    have "geom (chunk_at ?s k) = geom (chunk_at r k)" using at by simp
    then have w: "wake_call ?s k = wake_call r k" by (simp add: geom_def)
    have "chunks ?t = (chunks ?s)[k := (chunk_at r k)\<lparr>state := CHUNK_ABSENT, fetching_since_ns := 0\<rparr>]"
      by (simp add: pager_abandon_fetch_def wake_range_def upd_chunk_def at)
    moreover have "stat_fetching_timeout ?a = stat_fetching_timeout ?s"
      "prefetch_pool_handle ?a = prefetch_pool_handle ?s" "clk_pos ?a = clk_pos ?s" "config_part ?t = config_part ?s"
      by (simp_all add: pager_abandon_fetch_def wake_range_def upd_chunk_def config_part_def)
    ultimately have "reclaims ?P (Suc k) r ?t"
      using IH(3) True A(4) w kn(1) n unfolding reclaims_def
      by (auto simp: nth_list_update less_Suc_eq)
    then show ?thesis using ib io t by simp
  qed
qed

lemma watchdog_reclaims_core:
  assumes "budget_inv r C F X" "idle_ok r X"
    and "\<forall>i<n_chunks r. reclaimed (k_clock K (clk_pos r)) (watchdog_timeout r) busy r i \<longrightarrow> i \<notin> C \<union> F \<and> X i = 0"
  shows "budget_inv (pager_fetching_watchdog K busy r) C F X
    \<and> reclaims (reclaimed (k_clock K (clk_pos r)) (watchdog_timeout r) busy r) (n_chunks r)
        (r\<lparr>clk_pos := clk_pos r + 1\<rparr>) (pager_fetching_watchdog K busy r)"
proof -
  let ?r = "r\<lparr>clk_pos := clk_pos r + 1\<rparr>" and ?now = "k_clock K (clk_pos r)"
  have inv: "budget_inv ?r C F X" "idle_ok ?r X"
    using budget_inv_cong[of ?r r] assms(1,2) by (simp_all add: inv_part_def idle_ok_def)
  have P: "reclaimed ?now tmo busy ?r = reclaimed ?now tmo busy r" for tmo by (simp add: reclaimed_def fun_eq_iff)
  have w: "pager_fetching_watchdog K busy r
      = foldl (watchdog_one ?now (watchdog_timeout r) busy) ?r [0..<n_chunks ?r]"
    by (simp add: pager_fetching_watchdog_def now_ns_def Let_def)
  show ?thesis
    using watchdog_pass[OF inv, of ?now "watchdog_timeout r" busy "n_chunks ?r"] assms(3) unfolding w P by simp
qed


text \<open>
  A FETCHING chunk whose lock is free need not be an orphan: it may still be waiting in the demand
  queue. If it waits there past the timeout, the watchdog resets it and the worker that picks the job
  up then aborts the program.
\<close>

lemma watchdog_breaks_queued_job:
  assumes "dispatch_inv r C F X" and "i \<in> set (demand_list r)"
    and "expired (k_clock K (clk_pos r)) (watchdog_timeout r) (chunk_at r i)" and "\<not> busy i"
    and "\<forall>j<n_chunks r. reclaimed (k_clock K (clk_pos r)) (watchdog_timeout r) busy r j \<longrightarrow> j \<notin> C \<union> F \<and> X j = 0"
  shows "i \<in> set (demand_list (pager_fetching_watchdog K busy r))"
    and "do_one_demand K' (pager_fetching_watchdog K busy r) i = Inl Demand_not_fetching"
proof -
  have inv: "budget_inv r C F X" "idle_ok r X" using assms(1) by (simp_all add: dispatch_inv_def)
  obtain pool where h: "prefetch_pool_handle r = Some pool" "pool_ok (n_chunks r) pool"
    using assms(1) by (auto simp: dispatch_inv_def)
  then have i: "i < n_chunks r" using assms(2) by (auto simp: demand_list_def pool_ok_def)
  note W = watchdog_reclaims_core[OF inv assms(5), THEN conjunct2, unfolded reclaims_def]
  show "i \<in> set (demand_list (pager_fetching_watchdog K busy r))"
    using W assms(2) h(1) by (simp add: demand_list_def)
  have "state (chunk_at (pager_fetching_watchdog K busy r) i) = CHUNK_ABSENT"
    using W i assms(3,4) by (simp add: reclaimed_def)
  then show "do_one_demand K' (pager_fetching_watchdog K busy r) i = Inl Demand_not_fetching"
    by (simp add: do_one_demand_def now_ns_def)
qed

section \<open>Access notifications\<close>

lemma notify_core:
  assumes "budget_inv r C F X"
  shows "budget_inv (pager_notify_access r i) C F X
    \<and> retained (pager_notify_access r i) = (if prefetch_retention_pinned r then retained r - {i} else retained r)
    \<and> (prefetch_retention_pinned r \<and> i \<in> retained r \<longrightarrow> evictable (chunks (pager_notify_access r i)) i)
    \<and> (\<forall>j. j \<noteq> i \<longrightarrow> chunk_at (pager_notify_access r i) j = chunk_at r j)
    \<and> policy_of (pager_notify_access r i) = map_option (\<lambda>p. policy_on_access p i) (policy_of r)"
proof -
  let ?r = "r\<lparr>policy_of := map_option (\<lambda>p. policy_on_access p i) (policy_of r)\<rparr>"
  have inv: "budget_inv ?r C F X" using budget_inv_cong[of ?r r] assms by (simp add: inv_part_def)
  have same: "retained ?r = retained r" by (simp add: retained_def)
  show ?thesis
  proof (cases "prefetch_retention_pinned r \<and> i \<in> retained r")
    case True
    then have "i \<in> retained ?r" using same by simp
    note R = retain_release_inv[OF inv this]
    have "chunk_at (prefetch_retain_release ?r i) j = chunk_at r j" if "j \<noteq> i" for j
      using that by (simp add: prefetch_retain_release_def upd_chunk_def split: option.split)
    moreover have "policy_of (prefetch_retain_release ?r i) = policy_of ?r"
      by (simp add: prefetch_retain_release_def upd_chunk_def split: option.split)
    ultimately show ?thesis using R(1,2,5) True same by (simp add: pager_notify_access_def)
  next
    case False
    have wf: "ring_wf (pinned_prefetch r)" using assms by (auto simp: pins_ok_def)
    have "pager_notify_access r i = ?r"
    proof (cases "prefetch_retention_pinned r")
      case True
      then have "i \<notin> set (ring_list (pinned_prefetch ?r))" using False by (simp add: retained_def)
      then have "ring_remove (pinned_prefetch ?r) i = None"
        using ring_fifo.remove_None[of "pinned_prefetch ?r" i] wf by simp
      then show ?thesis using True by (simp add: pager_notify_access_def prefetch_retain_release_def)
    qed (simp add: pager_notify_access_def)
    then show ?thesis using inv same False by (simp add: retained_def)
  qed
qed

text \<open>
  The workload's notification of an access gives up exactly the retention pin of that chunk, if
  it has one, and leaves it evictable; no other chunk, pin, reservation or byte changes, and the
  policy sees the access in either retention mode.
\<close>

lemma notify_releases_retention:
  assumes "budget_inv r C F X"
  shows "budget_inv (pager_notify_access r i) C F X
    \<and> retained (pager_notify_access r i) = (if prefetch_retention_pinned r then retained r - {i} else retained r)
    \<and> (prefetch_retention_pinned r \<and> i \<in> retained r \<longrightarrow> evictable (chunks (pager_notify_access r i)) i)
    \<and> (\<forall>j. j \<noteq> i \<longrightarrow> chunk_at (pager_notify_access r i) j = chunk_at r j)
    \<and> policy_of (pager_notify_access r i) = map_option (\<lambda>p. policy_on_access p i) (policy_of r)"
  using assms by (rule notify_core)

section \<open>A run of the dispatcher\<close>

text \<open>
  What the loop assumes of the workers between two rounds: they keep the dispatcher's invariant
  (reserving, committing and pinning for themselves), leave the configuration alone, and no chunk
  whose lock is free has been FETCHING for as long as the timeout.
\<close>

definition workers_behave :: "kernel \<Rightarrow> (nat \<Rightarrow> nat \<Rightarrow> bool) \<Rightarrow> bool" where
  "workers_behave K busy \<longleftrightarrow> (\<forall>n r C F X. dispatch_inv r C F X \<longrightarrow>
     (let r' = k_others K n r
      in config_part r' = config_part r \<and> (\<exists>C F X. dispatch_inv r' C F X)
         \<and> (\<forall>i. \<not> reclaimed (k_clock K (clk_pos r')) (watchdog_timeout r') (busy n) r' i)))"

definition in_region :: "region \<Rightarrow> uffd_read \<Rightarrow> bool" where
  "in_region r m = (case m of U_fault rel was_minor \<Rightarrow> rel < region_len r | _ \<Rightarrow> True)"

definition polls_in_region :: "region \<Rightarrow> poll_outcome \<Rightarrow> bool" where
  "polls_in_region r p = (case p of Poll_ready ms \<Rightarrow> list_all (in_region r) ms | _ \<Rightarrow> True)"

lemma in_region_cong: "region_len r' = region_len r \<Longrightarrow> in_region r' = in_region r"
  by (rule ext) (simp add: in_region_def split: uffd_read.split)

lemma polls_in_region_cong: "region_len r' = region_len r \<Longrightarrow> polls_in_region r' = polls_in_region r"
  using in_region_cong[of r' r] by (auto simp: polls_in_region_def fun_eq_iff list_all_iff split: poll_outcome.split)

definition kernel_failure :: "failure \<Rightarrow> bool" where
  "kernel_failure e \<longleftrightarrow>
     e \<in> {Trace_write_failed, Poll_failed, Uffd_read_failed, Uffd_short_read, Uffd_unexpected_event}"

definition still_running :: "region \<Rightarrow> region \<Rightarrow> bool" where
  "still_running r r' \<longleftrightarrow> config_part r' = config_part r \<and> (\<exists>C F X. dispatch_inv r' C F X)"

lemma drain_safe:
  "dispatch_inv r C F X \<Longrightarrow> async_handler r \<Longrightarrow> list_all (in_region r) ms \<Longrightarrow>
   case drain K ms r n of Inl e \<Rightarrow> kernel_failure e | Inr (r', n') \<Rightarrow> config_part r' = config_part r \<and> dispatch_inv r' C F X"
proof (induction K ms r n rule: drain.induct)
  case (7 K rel m ms r n)
  have g: "geometry_ok r" and rl: "rel < region_len r"
    using 7(2,4) by (auto simp: dispatch_inv_def in_region_def)
  then obtain i where i: "pager_lookup (chunks r) rel = Some i" "i < n_chunks r" by (rule lookup_in_region)
  note D = handle_fault_dispatches[OF 7(2,3) i, of K m]
  show ?case
  proof (cases "handle_fault K r rel m")
    case (Inl e)
    then show ?thesis using D by (simp add: kernel_failure_def)
  next
    case (Inr r1)
    then have d1: "dispatch_inv r1 C F X" and c1: "config_part r1 = config_part r"
      using D by (auto simp: dispatched_def)
    have "async_handler r1" "list_all (in_region r1) ms"
      using 7(3,4) c1 in_region_cong[of r1 r] by (auto simp: config_part_def)
    from 7(1)[OF Inr d1 this] show ?thesis using Inr c1 by (auto split: sum.splits)
  qed
qed (simp_all add: kernel_failure_def)

lemma watchdog_idle:
  assumes "dispatch_inv r C F X" "\<forall>i. \<not> reclaimed (k_clock K (clk_pos r)) (watchdog_timeout r) busy r i"
  shows "dispatch_inv (pager_fetching_watchdog K busy r) C F X"
    and "config_part (pager_fetching_watchdog K busy r) = config_part r"
proof -
  have inv: "budget_inv r C F X" "idle_ok r X" using assms(1) by (simp_all add: dispatch_inv_def)
  have W: "budget_inv (pager_fetching_watchdog K busy r) C F X"
    "reclaims (reclaimed (k_clock K (clk_pos r)) (watchdog_timeout r) busy r) (n_chunks r)
        (r\<lparr>clk_pos := clk_pos r + 1\<rparr>) (pager_fetching_watchdog K busy r)"
    using watchdog_reclaims_core[OF inv, of K busy] assms(2) by auto
  show "config_part (pager_fetching_watchdog K busy r) = config_part r"
    using W(2) by (simp add: reclaims_def config_part_def)
  have ch: "chunks (pager_fetching_watchdog K busy r) = chunks r"
    using W(2) assms(2) by (intro nth_equalityI) (auto simp: reclaims_def)
  show "dispatch_inv (pager_fetching_watchdog K busy r) C F X"
    using assms(1) W(1,2) ch by (simp add: dispatch_inv_def idle_ok_def demand_list_def reclaims_def)
qed

lemma round_safe:
  assumes "dispatch_inv r C F X" "async_handler r" "polls_in_region r p"
    and "\<forall>i. \<not> reclaimed (k_clock K (clk_pos r)) (watchdog_timeout r) busy r i"
  shows "case pager_round K busy p r of Inl e \<Rightarrow> kernel_failure e | Inr r' \<Rightarrow> still_running r r'"
proof -
  let ?w = "pager_fetching_watchdog K busy r"
  note W = watchdog_idle[OF assms(1,4)]
  have aw: "async_handler ?w" using W(2) assms(2) by (simp add: config_part_def)
  show ?thesis
  proof (cases p)
    case (Poll_ready ms)
    have "list_all (in_region ?w) ms"
      using assms(3) W(2) Poll_ready in_region_cong[of ?w r] by (auto simp: polls_in_region_def config_part_def)
    note D = drain_safe[OF W(1) aw this, of K 0]
    show ?thesis
    proof (cases "drain K ms ?w 0")
      case (Inl e)
      then show ?thesis using D assms(2) Poll_ready by (simp add: pager_round_def)
    next
      case (Inr rn)
      obtain r1 n where rn: "rn = (r1, n)" by (cases rn)
      have d: "dispatch_inv r1 C F X" "config_part r1 = config_part ?w" using D Inr rn by auto
      have "dispatch_inv (note_queue_depth n r1) C F X"
        using dispatch_inv_cong[of "note_queue_depth n r1" r1] d(1) by (simp add: note_queue_depth_def inv_part_def)
      moreover have "config_part (note_queue_depth n r1) = config_part r1"
        by (simp add: note_queue_depth_def config_part_def)
      ultimately show ?thesis using Inr rn d(2) W(2) assms(2) Poll_ready
        by (auto simp: pager_round_def still_running_def)
    qed
  qed (use assms(2) W in \<open>auto simp: pager_round_def still_running_def kernel_failure_def\<close>)
qed



section \<open>Concrete runs\<close>

definition demo_running :: region where
  "demo_running = prefetch_pool_start demo_region 4"

lemma demo_running_inv: "dispatch_inv demo_running {} {} (\<lambda>_. 0)" "async_handler demo_running"
    "region_len demo_running = 12288" "chunks demo_running = chunks demo_region" "trace_of demo_running = None"
    "clk_pos demo_running = 0" "fetching_timeout_ms demo_running = 30000" "demand_list demo_running = []"
proof -
  have ch: "chunks demo_running = chunks demo_region" by (simp add: demo_running_def prefetch_pool_start_def)
  have n: "n_chunks demo_region < 2147483648" using demo_n by simp
  obtain pool where pool: "prefetch_pool_handle demo_running = Some pool" "pool_ok (n_chunks demo_region) pool"
    "ring_list (demand_queue pool) = []" using pool_start_ok[OF n, of 4] by (auto simp: demo_running_def)
  then show "demand_list demo_running = []" by (simp add: demand_list_def)
  have "budget_inv demo_running {} {} (\<lambda>_. 0)"
    using budget_inv_cong[of demo_running demo_region] demo_inv_start(1)
    by (simp add: inv_part_def demo_running_def prefetch_pool_start_def)
  then show "dispatch_inv demo_running {} {} (\<lambda>_. 0)"
    using pool ch by (simp add: dispatch_inv_def idle_ok_def demand_list_def)
  show "chunks demo_running = chunks demo_region" by (rule ch)
  show "async_handler demo_running" "region_len demo_running = 12288" "trace_of demo_running = None"
    "clk_pos demo_running = 0" "fetching_timeout_ms demo_running = 30000"
    by (simp_all add: demo_running_def prefetch_pool_start_def demo_region_def zero_region_def)
qed

lemma demo_lookup: "pager_lookup (chunks demo_region) 5000 = Some 1"
  by code_simp

lemma demo_absent: "state (chunk_at demo_running 1) = CHUNK_ABSENT"
  using demo_inv_start(2)[of 1] demo_n by (simp add: demo_running_inv(4))


lemma fault_type_is_only_counted_witness:
  "map_sum id forget_type (handle_fault demo_kernel demo_running 5000 True)
   = map_sum id forget_type (handle_fault demo_kernel demo_running 5000 False)"
  by (rule fault_type_is_only_counted[OF demo_running_inv(2,5)])

theorem sync_fault_resolves_witness:
  "\<exists>r' F X. handle_absent demo_kernel demo_region 0 TRACE_FAULT_MINOR = Inr r' \<and> resolved F X 0 demo_region r'"
proof -
  let ?after = "\<lambda>r. if prefetch_depth r \<le> 1 then maybe_prefetch demo_kernel r 0
      else Inr (prefetch_pool_top_up demo_kernel r 0)"
  let ?r3 = "policy_fault (mark_fetching 1000 0 (demo_region\<lparr>clk_pos := 1\<rparr>)) 0"
  have n0: "0 < n_chunks demo_region" "state (chunk_at demo_region 0) = CHUNK_ABSENT" "idle_ok demo_region (\<lambda>_. 0)"
    using demo_n demo_inv_start(2)[of 0] by (simp_all add: idle_ok_def)
  have fields: "trace_of demo_region = None" "clk_pos demo_region = 0" "prefetch_depth demo_region = 2"
    "diag_fetch_trace demo_region = None" "region_len demo_region = 12288" "prefetch_enabled demo_region = False"
    by (simp_all add: demo_region_def zero_region_def)
  have rec: "record_fault demo_kernel (mark_fetching 1000 0 (demo_region\<lparr>clk_pos := 1\<rparr>)) sq 0 ft 0
      = Inr (mark_fetching 1000 0 (demo_region\<lparr>clk_pos := 1\<rparr>))" for sq ft
    by (simp add: record_fault_def mark_fetching_def upd_chunk_def fields)
  note B = handle_absent_begins[OF demo_inv_start(1) n0 rec]
  have n3: "0 < n_chunks ?r3" "len (chunk_at ?r3 0) = 4096"
    using n0(1) demo_len_at[of 0] by (simp_all add: policy_fault_def mark_fetching_def)
  have u: "unserved 0 ?r3" by (rule unservedI[OF B(1,5,6) n3(1) B(3)])
  have fs: "\<forall>j<n_chunks demo_region. starts_in_file demo_region j"
    using demo_n by (auto simp: starts_in_file_def demo_region_def new_chunk_def less_Suc_eq numeral_3_eq_3)
  have f3: "starts_in_file ?r3 0" using advances_file[OF B(4) n0(1)] fs n0(1) by simp
  have "map_sum id fst (ensure_budget demo_kernel ?r3 4096) = Inr True" by code_simp
  then have e: "map_sum id fst (ensure_budget demo_kernel ?r3 (len (chunk_at ?r3 0))) = Inr True" by (simp only: n3)
  have g3: "region_len ?r3 = 12288" "diag_fetch_trace ?r3 = None" "prefetch_enabled ?r3 = False"
    by (simp_all add: policy_fault_def mark_fetching_def upd_chunk_def fields)
  have "\<exists>r4. serve_demand demo_kernel 200 ?after ?r3 0 1000 (\<lambda>tm t_exit l. fetch_record 0 False 1000 tm t_exit l)
      = Inr r4" by (rule demo_serve_returns[OF u f3 e g3(1,2) disjI2[OF g3(3)]])
  then obtain r4 where "serve_demand demo_kernel 200 ?after ?r3 0 1000 (\<lambda>tm t_exit l. fetch_record 0 False 1000 tm t_exit l)
      = Inr r4" by blast
  moreover have "prefetch_depth (mark_fetching 1000 0 (demo_region\<lparr>clk_pos := 1\<rparr>)) = 2"
    by (simp add: mark_fetching_def upd_chunk_def fields)
  moreover have "k_clock demo_kernel 0 = 1000" by (simp add: demo_kernel_def)
  ultimately have "handle_absent demo_kernel demo_region 0 TRACE_FAULT_MINOR = Inr r4"
    by (simp add: handle_absent_def now_ns_def Let_def rec[unfolded One_nat_def] fields)
  with sync_fault_resolves[OF demo_inv_start(1) n0(3,1,2) fs _ this] demo_alone show ?thesis by blast
qed


text \<open>
  Chunk 1 faulted and queued; the clock then stands 40 s later while no worker has picked it up.
\<close>

definition demo_late :: kernel where
  "demo_late = demo_kernel\<lparr>k_clock := (\<lambda>n. if n \<le> 1 then 1000 else 40000001000)\<rparr>"

definition demo_queued :: region where
  "demo_queued = projr (handle_fault demo_late demo_running 5000 True)"

lemma demo_queued_inv:
  "handle_fault demo_late demo_running 5000 True = Inr demo_queued"
  "dispatch_inv demo_queued {} {} (\<lambda>_. 0)" "demand_list demo_queued = [1]"
  "fetching_since_ns (chunk_at demo_queued 1) = 1000" "state (chunk_at demo_queued 1) = CHUNK_FETCHING"
  "fetching_timeout_ms demo_queued = 30000" "clk_pos demo_queued = 2" "n_chunks demo_queued = 3"
proof -
  have i: "pager_lookup (chunks demo_running) 5000 = Some 1" "1 < n_chunks demo_running"
    using demo_n by (simp_all add: demo_running_inv(4) demo_lookup)
  note D = handle_fault_dispatches[OF demo_running_inv(1,2) i, of demo_late True]
  obtain pool where h: "prefetch_pool_handle demo_running = Some pool"
    using demo_running_inv(1) by (auto simp: dispatch_inv_def)
  have "\<exists>r'. handle_fault demo_late demo_running 5000 True = Inr r' \<and> fetching_since_ns (chunk_at r' 1) = 1000
      \<and> fetching_timeout_ms r' = 30000 \<and> clk_pos r' = 2"
  proof (cases "handle_fault demo_late demo_running 5000 True")
    case (Inl e)
    then show ?thesis using D i demo_absent h demo_running_inv(2,5)
      by (auto simp: handle_fault_def Let_def handle_absent_dispatch_def now_ns_def record_fault_def mark_fetching_def
          upd_chunk_def policy_fault_def prefetch_pool_enqueue_demand_def count_fault_def split: if_splits)
  next
    case (Inr r')
    then show ?thesis using i demo_absent h demo_running_inv(2,5,6,7)
      by (auto simp: handle_fault_def Let_def handle_absent_dispatch_def now_ns_def record_fault_def mark_fetching_def
          upd_chunk_def policy_fault_def prefetch_pool_enqueue_demand_def count_fault_def demo_late_def split: if_splits)
  qed
  then show r: "handle_fault demo_late demo_running 5000 True = Inr demo_queued"
    "fetching_since_ns (chunk_at demo_queued 1) = 1000" "fetching_timeout_ms demo_queued = 30000"
    "clk_pos demo_queued = 2" by (auto simp: demo_queued_def)
  have d: "dispatch_inv demo_queued {} {} (\<lambda>_. 0)" "dispatched 1 demo_running demo_queued" using D r(1) by auto
  then show "dispatch_inv demo_queued {} {} (\<lambda>_. 0)" "demand_list demo_queued = [1]"
    "state (chunk_at demo_queued 1) = CHUNK_FETCHING" "n_chunks demo_queued = 3"
    using demo_absent demo_running_inv(4,8) demo_n by (auto simp: dispatched_def)
qed

lemma demo_expired: "expired (k_clock demo_late (clk_pos demo_queued)) (watchdog_timeout demo_queued) (chunk_at demo_queued 1)"
  using demo_queued_inv by (simp add: expired_def demo_late_def)


lemma watchdog_breaks_queued_job_demo:
  "do_one_demand demo_late (pager_fetching_watchdog demo_late (\<lambda>_. False) demo_queued) 1 = Inl Demand_not_fetching"
  using watchdog_breaks_queued_job(2)[OF demo_queued_inv(2), of 1 demo_late "\<lambda>_. False"] demo_queued_inv(3) demo_expired
  by simp

lemma notify_releases_retention_witness:
  "budget_inv (pager_notify_access demo_region 1) {} {} (\<lambda>_. 0)"
  using notify_releases_retention[OF demo_inv_start(1)] by simp

lemma demo_workers_behave: "workers_behave demo_kernel (\<lambda>_ _. True)"
  by (auto simp: workers_behave_def demo_kernel_def reclaimed_def)


end
