(* ===== verification/Threads.thy ===== *)
theory Threads
  imports Pager
begin

text \<open>
  The threads together: the workers of the pool as small-step machines over one region, with the
  mutex of every chunk and \<^verbatim>\<open>budget_lock\<close>, interleaved with each other, with the
  dispatcher and with the application's access notifications. A step is what a thread does between two
  points where it may be delayed. The theory proves of every reachable state what the other theories
  prove of one operation at a time, discharging what they assume of the other threads.
\<close>

section \<open>Workers\<close>

text \<open>What a worker carries from the start of a job to its end.\<close>

record job_ctx =
  cx_chunk :: nat
  cx_start :: u64
  cx_timing :: fetch_timing
  cx_entry :: u64
  cx_enqueue :: u64

datatype kind = Dem | Pre

text \<open>
  The point a worker has reached in \<^verbatim>\<open>worker_main\<close>, \<^verbatim>\<open>do_one_demand\<close> or
  \<^verbatim>\<open>do_one_prefetch\<close>: it has taken a job and waits for the chunk's mutex; it is about to pin
  and mark a prefetch target; to enter the reservation (with so many attempts left); it is inside the
  reservation, holding \<^verbatim>\<open>budget_lock\<close>; it was refused; it reads, resolves, commits, marks
  RESIDENT, tops up, releases its pin; it records and unlocks; it reports a prefetch done.
\<close>

datatype phase =
    Idle
  | Wants_lock kind nat
  | At_begin job_ctx
  | At_reserve kind nat job_ctx
  | At_evict kind nat job_ctx
  | At_drop job_ctx
  | At_abandon kind job_ctx
  | At_read kind job_ctx
  | At_continue kind job_ctx
  | At_commit kind job_ctx
  | At_mark kind job_ctx
  | At_top_up job_ctx
  | At_release kind job_ctx
  | At_exit kind job_ctx
  | At_finish nat

record sys =
  reg :: region
  workers :: "phase list"

text \<open>The chunk whose mutex a worker holds, the chunk whose job it has, and the lock on the budget.\<close>

fun mutex :: "phase \<Rightarrow> nat option" where
  "mutex Idle = None"
| "mutex (Wants_lock k i) = None"
| "mutex (At_begin x) = Some (cx_chunk x)"
| "mutex (At_reserve k n x) = Some (cx_chunk x)"
| "mutex (At_evict k n x) = Some (cx_chunk x)"
| "mutex (At_drop x) = Some (cx_chunk x)"
| "mutex (At_abandon k x) = Some (cx_chunk x)"
| "mutex (At_read k x) = Some (cx_chunk x)"
| "mutex (At_continue k x) = Some (cx_chunk x)"
| "mutex (At_commit k x) = Some (cx_chunk x)"
| "mutex (At_mark k x) = Some (cx_chunk x)"
| "mutex (At_top_up x) = Some (cx_chunk x)"
| "mutex (At_release k x) = Some (cx_chunk x)"
| "mutex (At_exit k x) = Some (cx_chunk x)"
| "mutex (At_finish i) = None"

definition claims :: "phase \<Rightarrow> nat option" where
  "claims p = (case p of Wants_lock Dem i \<Rightarrow> Some i | _ \<Rightarrow> mutex p)"

fun in_budget :: "phase \<Rightarrow> bool" where
  "in_budget (At_evict k n x) = True"
| "in_budget _ = False"

definition lock_free :: "sys \<Rightarrow> nat \<Rightarrow> bool" where
  "lock_free s i \<longleftrightarrow> list_all (\<lambda>p. mutex p \<noteq> Some i) (workers s)"

definition budget_free :: "sys \<Rightarrow> bool" where
  "budget_free s \<longleftrightarrow> list_all (\<lambda>p. \<not> in_budget p) (workers s)"

definition go :: "sys \<Rightarrow> nat \<Rightarrow> phase \<Rightarrow> region \<Rightarrow> sys" where
  "go s w p r = \<lparr>reg = r, workers = (workers s)[w := p]\<rparr>"

section \<open>What a worker does next\<close>

text \<open>
  One round of the loop of \<^verbatim>\<open>ensure_budget\<close> (\<open>Dem\<close>) or
  \<^verbatim>\<open>ensure_budget_prefetch\<close> (\<open>Pre\<close>): \<open>None\<close> while the victim's mutex is held by
  another thread; otherwise whether the reservation was made, was refused, or goes on.
\<close>

definition reserve_round :: "kernel \<Rightarrow> kind \<Rightarrow> nat \<Rightarrow> sys \<Rightarrow> (failure + (bool option \<times> region)) option" where
  "reserve_round K k i s =
     (let r = reg s; need = len (chunk_at r i)
      in if \<not> over_budget r need then Some (Inr (Some True, reserve need r))
         else case select_victim r of
           Some v \<Rightarrow>
             if k = Pre \<and> \<not> prefetch_admit r v i
             then Some (Inr (Some False, r\<lparr>stat_prefetch_declined := stat_prefetch_declined r + 1\<rparr>))
             else if lock_free s v
             then Some (rbind (record_policy_trace r v) (\<lambda>r0.
                        rbind (evict_and_reconcile K r0 v) (\<lambda>r1. Inr (None, r1))))
             else None
         | None \<Rightarrow>
             (case (if k = Dem \<and> prefetch_retention_pinned r then pin_break_select_victim r else None) of
                Some v \<Rightarrow>
                  if \<not> v < n_chunks r then Some (Inl Evict_not_resident)
                  else if lock_free s v
                  then Some (rbind (evict_and_reconcile K (broken_pin r v) v) (\<lambda>r1. Inr (None, r1)))
                  else None
              | None \<Rightarrow> Some (Inr (Some False, r\<lparr>stat_infeasible := stat_infeasible r + 1\<rparr>))))"

fun next_phase :: "kind \<Rightarrow> nat \<Rightarrow> job_ctx \<Rightarrow> bool option \<Rightarrow> phase" where
  "next_phase k n x (Some True) = At_read k x"
| "next_phase Dem n x (Some False) = (if n = 0 then At_abandon Dem x else At_reserve Dem (n - 1) x)"
| "next_phase Pre n x (Some False) = At_drop x"
| "next_phase k n x None = At_evict k n x"

definition stamp :: "kernel \<Rightarrow> region \<Rightarrow> u64 \<times> region" where
  "stamp K r = (if diag_fetch_trace r \<noteq> None then now_ns K r else (0, r))"

text \<open>Every other point: the next point and what happens to the region on the way.\<close>

fun work :: "kernel \<Rightarrow> phase \<Rightarrow> region \<Rightarrow> failure + (phase \<times> region)" where
  "work K (Wants_lock Dem i) r =
     (let (t, r0) = now_ns K r; c = chunk_at r0 i
      in if state c \<noteq> CHUNK_FETCHING then Inl Demand_not_fetching
         else Inr (At_reserve Dem 200
                     \<lparr>cx_chunk = i, cx_start = t,
                      cx_timing = \<lparr>read_start_ns = 0, read_end_ns = 0, continue_end_ns = 0\<rparr>,
                      cx_entry = diag_dispatch_entry_ns c, cx_enqueue = diag_dispatch_enqueue_ns c\<rparr>, r0))"
| "work K (Wants_lock Pre i) r =
     (if state (chunk_at r i) \<noteq> CHUNK_ABSENT then Inr (At_finish i, r)
      else let (t, r1) = now_ns K r
           in Inr (At_begin \<lparr>cx_chunk = i, cx_start = t,
                      cx_timing = \<lparr>read_start_ns = 0, read_end_ns = 0, continue_end_ns = 0\<rparr>,
                      cx_entry = 0, cx_enqueue = 0\<rparr>, r1))"
| "work K (At_begin x) r =
     (let r2 = mark_fetching (cx_start x) (cx_chunk x) (pin_chunk r (cx_chunk x))
      in rbind (record_fault K r2 (fault_seq r2) (cx_chunk x) TRACE_FAULT_MISSING 1) (\<lambda>r3.
         Inr (At_reserve Pre 0 x, r3)))"
| "work K (At_reserve k n x) r = rbind (scheduled_reconcile K r) (\<lambda>r1. Inr (At_evict k n x, r1))"
| "work K (At_drop x) r = Inr (At_abandon Pre x, unpin_chunk r (cx_chunk x))"
| "work K (At_abandon Dem x) r = Inr (Idle, pager_abandon_fetch r (cx_chunk x))"
| "work K (At_abandon Pre x) r =
     (let (now, r6) = now_ns K (pager_abandon_fetch r (cx_chunk x));
          r7 = upd_chunk (cx_chunk x) (\<lambda>c. c\<lparr>decline_until_ns := now + 100000000\<rparr>) r6
      in Inr (At_finish (cx_chunk x), r7\<lparr>stat_prefetch_infeasible := stat_prefetch_infeasible r7 + 1\<rparr>))"
| "work K (At_read k x) r =
     (let (t0, r0) = stamp K r
      in rbind (fetch_read K r0 (cx_chunk x)) (\<lambda>r1.
         let (t1, r2) = stamp K r1
         in Inr (At_continue k (x\<lparr>cx_timing := \<lparr>read_start_ns = t0, read_end_ns = t1, continue_end_ns = 0\<rparr>\<rparr>), r2)))"
| "work K (At_continue k x) r =
     rbind (fetch_resolve K r (cx_chunk x)) (\<lambda>r1.
     let (t2, r2) = stamp K r1
     in Inr (At_commit k (x\<lparr>cx_timing := (cx_timing x)\<lparr>continue_end_ns := t2\<rparr>\<rparr>), r2))"
| "work K (At_commit k x) r =
     Inr (At_mark k x, if k = Dem then commit_reserved_and_pin r (cx_chunk x) (len (chunk_at r (cx_chunk x)))
                       else commit_reserved r (len (chunk_at r (cx_chunk x))))"
| "work K (At_mark k x) r =
     Inr (if k = Dem then At_top_up x else At_release Pre x, mark_resident (cx_chunk x) r)"
| "work K (At_top_up x) r =
     Inr (At_release Dem x, if prefetch_enabled r then prefetch_pool_top_up K r (cx_chunk x) else r)"
| "work K (At_release Dem x) r =
     (let r1 = unpin_chunk r (cx_chunk x)
      in Inr (At_exit Dem x, r1\<lparr>stat_absent_handled := stat_absent_handled r1 + 1\<rparr>))"
| "work K (At_release Pre x) r =
     (let r1 = (if prefetch_retention_pinned r then prefetch_retain_on_resident r (cx_chunk x)
                else unpin_chunk r (cx_chunk x))
      in Inr (At_exit Pre x, r1\<lparr>stat_prefetches := stat_prefetches r1 + 1\<rparr>))"
| "work K (At_exit Dem x) r =
     (let i = cx_chunk x; (t_exit, r1) = now_ns K r;
          r2 = r1\<lparr>metrics_of := map_option (\<lambda>m. m\<lparr>handler_latency :=
                 latency_hist_record (handler_latency m) (t_exit - cx_start x)\<rparr>) (metrics_of r1)\<rparr>
      in rbind (trace_fetch (demand_record i (cx_start x) (cx_timing x) t_exit (len (chunk_at r2 i))
                               (cx_entry x) (cx_enqueue x)) r2) (\<lambda>r3.
         if state (chunk_at r3 i) = CHUNK_FETCHING then Inl Left_fetching else Inr (Idle, r3)))"
| "work K (At_exit Pre x) r =
     (if policy_of r = None then Inl Null_policy
      else let i = cx_chunk x; (t_exit, r1) = now_ns K r
           in rbind (trace_fetch (fetch_record i True (cx_start x) (cx_timing x) t_exit (len (chunk_at r1 i))) r1) (\<lambda>r2.
              if state (chunk_at r2 i) = CHUNK_FETCHING then Inl Left_fetching else Inr (At_finish i, r2)))"
| "work K (At_finish i) r =
     Inr (Idle, r\<lparr>prefetch_pool_handle := map_option (job_done i) (prefetch_pool_handle r)\<rparr>)"
| "work K Idle r = Inr (Idle, r)"
| "work K (At_evict k n x) r = Inr (At_evict k n x, r)"

text \<open>The locks that a step waits for; \<^verbatim>\<open>At_evict\<close> waits in \<open>reserve_round\<close>.\<close>

fun ready :: "sys \<Rightarrow> phase \<Rightarrow> bool" where
  "ready s (Wants_lock k i) = lock_free s i"
| "ready s (At_begin x) = budget_free s"
| "ready s (At_reserve k n x) = budget_free s"
| "ready s (At_drop x) = budget_free s"
| "ready s (At_commit k x) = budget_free s"
| "ready s (At_top_up x) = budget_free s"
| "ready s (At_release k x) = budget_free s"
| "ready s p = True"

text \<open>A worker's next step: \<open>None\<close> when it waits, for a job or a lock; \<open>Inl\<close> when it aborts.\<close>

definition act :: "kernel \<Rightarrow> sys \<Rightarrow> nat \<Rightarrow> (failure + sys) option" where
  "act K s w =
     (case workers s ! w of
        Idle \<Rightarrow>
          (case prefetch_pool_handle (reg s) of
             None \<Rightarrow> None
           | Some pool \<Rightarrow>
               (case worker_take pool of
                  None \<Rightarrow> None
                | Some (j, pool') \<Rightarrow>
                    Some (Inr (go s w (case j of Demand i \<Rightarrow> Wants_lock Dem i | Speculative i \<Rightarrow> Wants_lock Pre i)
                                 ((reg s)\<lparr>prefetch_pool_handle := Some pool'\<rparr>)))))
      | At_evict k n x \<Rightarrow>
          map_option (map_sum id (\<lambda>(b, r). go s w (next_phase k n x b) r)) (reserve_round K k (cx_chunk x) s)
      | p \<Rightarrow> if ready s p then Some (map_sum id (\<lambda>(p', r). go s w p' r) (work K p (reg s))) else None)"

text \<open>
  The system: any worker, the asynchronous dispatcher (which holds the chunk's mutex, and
  \<^verbatim>\<open>budget_lock\<close> for the policy when the chunk is ABSENT; its watchdog only tries each mutex)
  and the application. What the kernel answers may differ from step to step. A watchdog pass that finds
  an expired FETCHING chunk with a free mutex is left out: \<open>watchdog_reclaims_waiting_jobs\<close> in
  \<open>Interleaving\<close> says what it would then reset.
\<close>

inductive step :: "sys \<Rightarrow> sys \<Rightarrow> bool" where
  step_worker: "w < length (workers s) \<Longrightarrow> act K s w = Some (Inr s') \<Longrightarrow> step s s'"
| step_fault: "pager_lookup (chunks (reg s)) rel = Some i \<Longrightarrow> lock_free s i \<Longrightarrow>
    state (chunk_at (reg s) i) = CHUNK_ABSENT \<longrightarrow> budget_free s \<Longrightarrow>
    handle_fault K (reg s) rel m = Inr r' \<Longrightarrow> step s (s\<lparr>reg := r'\<rparr>)"
| step_watchdog: "\<forall>i. \<not> reclaimed (k_clock K (clk_pos (reg s))) (watchdog_timeout (reg s)) (\<lambda>i. \<not> lock_free s i) (reg s) i \<Longrightarrow>
    step s (s\<lparr>reg := pager_fetching_watchdog K (\<lambda>i. \<not> lock_free s i) (reg s)\<rparr>)"
| step_access: "budget_free s \<Longrightarrow> step s (s\<lparr>reg := pager_notify_access (reg s) i\<rparr>)"

inductive reachable :: "sys \<Rightarrow> sys \<Rightarrow> bool" for s0 where
  reach_start: "reachable s0 s0"
| reach_step: "reachable s0 s \<Longrightarrow> step s s' \<Longrightarrow> reachable s0 s'"

section \<open>The invariant\<close>

text \<open>
  What holds of the chunk a worker works on, at each point: its state, whether its bytes are reserved,
  the pins the worker has on it, whether its bytes are committed, and that they are there.
\<close>

definition chunk_is :: "region \<Rightarrow> nat set \<Rightarrow> nat set \<Rightarrow> (nat \<Rightarrow> u32) \<Rightarrow> nat \<Rightarrow> chunk_state \<Rightarrow> bool \<Rightarrow> u32 \<Rightarrow> bool \<Rightarrow> bool" where
  "chunk_is r C F X i st f x c \<longleftrightarrow> i < n_chunks r \<and> state (chunk_at r i) = st \<and> (i \<in> F) = f \<and> X i = x \<and> (i \<in> C) = c"

definition has_bytes :: "region \<Rightarrow> nat \<Rightarrow> bool" where
  "has_bytes r i \<longleftrightarrow> (\<forall>b. in_chunk (chunk_at r i) b \<longrightarrow> memfd r b = Some (model_byte r b))"

definition pin_of :: "kind \<Rightarrow> u32" where
  "pin_of k = (case k of Dem \<Rightarrow> 0 | Pre \<Rightarrow> 1)"

fun phase_ok :: "region \<Rightarrow> nat set \<Rightarrow> nat set \<Rightarrow> (nat \<Rightarrow> u32) \<Rightarrow> phase \<Rightarrow> bool" where
  "phase_ok r C F X Idle = True"
| "phase_ok r C F X (Wants_lock Dem i) = chunk_is r C F X i CHUNK_FETCHING False 0 False"
| "phase_ok r C F X (Wants_lock Pre i) = (i < n_chunks r)"
| "phase_ok r C F X (At_begin x) = chunk_is r C F X (cx_chunk x) CHUNK_ABSENT False 0 False"
| "phase_ok r C F X (At_reserve k n x) = chunk_is r C F X (cx_chunk x) CHUNK_FETCHING False (pin_of k) False"
| "phase_ok r C F X (At_evict k n x) = chunk_is r C F X (cx_chunk x) CHUNK_FETCHING False (pin_of k) False"
| "phase_ok r C F X (At_drop x) = chunk_is r C F X (cx_chunk x) CHUNK_FETCHING False 1 False"
| "phase_ok r C F X (At_abandon k x) = chunk_is r C F X (cx_chunk x) CHUNK_FETCHING False 0 False"
| "phase_ok r C F X (At_read k x) = chunk_is r C F X (cx_chunk x) CHUNK_FETCHING True (pin_of k) False"
| "phase_ok r C F X (At_continue k x) =
     (chunk_is r C F X (cx_chunk x) CHUNK_FETCHING True (pin_of k) False \<and> has_bytes r (cx_chunk x))"
| "phase_ok r C F X (At_commit k x) =
     (chunk_is r C F X (cx_chunk x) CHUNK_FETCHING True (pin_of k) False \<and> has_bytes r (cx_chunk x))"
| "phase_ok r C F X (At_mark k x) = chunk_is r C F X (cx_chunk x) CHUNK_FETCHING False 1 True"
| "phase_ok r C F X (At_top_up x) = chunk_is r C F X (cx_chunk x) CHUNK_RESIDENT False 1 True"
| "phase_ok r C F X (At_release k x) = chunk_is r C F X (cx_chunk x) CHUNK_RESIDENT False 1 True"
| "phase_ok r C F X (At_exit k x) = (cx_chunk x < n_chunks r \<and> state (chunk_at r (cx_chunk x)) \<noteq> CHUNK_FETCHING
     \<and> cx_chunk x \<notin> F \<and> X (cx_chunk x) = 0)"
| "phase_ok r C F X (At_finish i) = (i < n_chunks r)"

text \<open>The chunk of a prefetch in flight.\<close>

fun flight :: "phase \<Rightarrow> nat option" where
  "flight (Wants_lock Pre i) = Some i"
| "flight (At_begin x) = Some (cx_chunk x)"
| "flight (At_reserve Pre n x) = Some (cx_chunk x)"
| "flight (At_evict Pre n x) = Some (cx_chunk x)"
| "flight (At_drop x) = Some (cx_chunk x)"
| "flight (At_abandon Pre x) = Some (cx_chunk x)"
| "flight (At_read Pre x) = Some (cx_chunk x)"
| "flight (At_continue Pre x) = Some (cx_chunk x)"
| "flight (At_commit Pre x) = Some (cx_chunk x)"
| "flight (At_mark Pre x) = Some (cx_chunk x)"
| "flight (At_release Pre x) = Some (cx_chunk x)"
| "flight (At_exit Pre x) = Some (cx_chunk x)"
| "flight (At_finish i) = Some i"
| "flight _ = None"

text \<open>No two workers have the same chunk.\<close>

definition apart :: "(phase \<Rightarrow> nat option) \<Rightarrow> phase list \<Rightarrow> bool" where
  "apart f ps \<longleftrightarrow> (\<forall>w<length ps. \<forall>v<length ps. w \<noteq> v \<longrightarrow> f (ps ! w) \<noteq> None \<longrightarrow> f (ps ! w) \<noteq> f (ps ! v))"

definition claimed :: "sys \<Rightarrow> nat \<Rightarrow> bool" where
  "claimed s i \<longleftrightarrow> (\<exists>w<length (workers s). claims (workers s ! w) = Some i)"

text \<open>The prefetch jobs tracked are those queued and those in flight.\<close>

definition jobs_ok :: "sys \<Rightarrow> bool" where
  "jobs_ok s \<longleftrightarrow> apart flight (workers s)
     \<and> (\<forall>pool. prefetch_pool_handle (reg s) = Some pool \<longrightarrow>
          (\<forall>i. i \<in> tracked pool \<longleftrightarrow> i \<in> set (ring_list (pf_queue pool))
             \<or> (\<exists>w<length (workers s). flight (workers s ! w) = Some i))
        \<and> (\<forall>w<length (workers s). \<forall>i. flight (workers s ! w) = Some i \<longrightarrow> i \<notin> set (ring_list (pf_queue pool))))"

text \<open>Nobody but its owner reserves, pins or fetches a chunk.\<close>

definition unowned :: "region \<Rightarrow> nat set \<Rightarrow> nat set \<Rightarrow> (nat \<Rightarrow> u32) \<Rightarrow> nat \<Rightarrow> bool" where
  "unowned r C F X i \<longleftrightarrow> i \<notin> F \<and> X i = 0 \<and> (state (chunk_at r i) = CHUNK_FETCHING \<longrightarrow> i \<in> set (demand_list r))
     \<and> (i \<in> C \<longrightarrow> state (chunk_at r i) = CHUNK_RESIDENT)"

definition sys_ok :: "sys \<Rightarrow> nat set \<Rightarrow> nat set \<Rightarrow> (nat \<Rightarrow> u32) \<Rightarrow> bool" where
  "sys_ok s C F X \<longleftrightarrow> dispatch_inv (reg s) C F X
     \<and> list_all (phase_ok (reg s) C F X) (workers s)
     \<and> apart claims (workers s) \<and> (\<forall>i\<in>set (demand_list (reg s)). \<not> claimed s i)
     \<and> (\<forall>i<n_chunks (reg s). \<not> claimed s i \<longrightarrow> unowned (reg s) C F X i)
     \<and> jobs_ok s \<and> apart (\<lambda>p. if in_budget p then Some 0 else None) (workers s)
     \<and> unat (resident_bytes (reg s)) + unat (reserved_bytes (reg s)) \<le> unat (budget_bytes (reg s))
     \<and> async_handler (reg s) \<and> (\<forall>i<n_chunks (reg s). starts_in_file (reg s) i)"

text \<open>
  What a step on chunk \<open>i\<close> may do elsewhere: evict unpinned RESIDENT chunks.
\<close>

definition frame :: "nat \<Rightarrow> region \<Rightarrow> nat set \<Rightarrow> nat set \<Rightarrow> (nat \<Rightarrow> u32) \<Rightarrow> region \<Rightarrow> nat set \<Rightarrow> nat set \<Rightarrow> (nat \<Rightarrow> u32) \<Rightarrow> bool" where
  "frame i r C F X r' C' F' X' \<longleftrightarrow> n_chunks r' = n_chunks r \<and> config_part r' = config_part r
     \<and> (\<forall>j<n_chunks r. geom (chunk_at r' j) = geom (chunk_at r j))
     \<and> (\<forall>j<n_chunks r. j \<noteq> i \<longrightarrow> (j \<in> F' \<longleftrightarrow> j \<in> F) \<and> X' j = X j \<and> (j \<in> C' \<longrightarrow> j \<in> C)
          \<and> (if state (chunk_at r j) = CHUNK_RESIDENT \<and> X j = 0
             then state (chunk_at r' j) = CHUNK_RESIDENT \<or> state (chunk_at r' j) = CHUNK_ABSENT
             else state (chunk_at r' j) = state (chunk_at r j) \<and> (j \<in> C' \<longleftrightarrow> j \<in> C))
          \<and> (state (chunk_at r j) = CHUNK_FETCHING \<longrightarrow> (\<forall>b. in_chunk (chunk_at r j) b \<longrightarrow> memfd r' b = memfd r b)))"

lemma config_model_byte: "config_part r' = config_part r \<Longrightarrow> model_byte r' b = model_byte r b"
  by (simp add: config_part_def model_byte_def)

lemma frame_chunk_is:
  assumes "frame i r C F X r' C' F' X'" "j \<noteq> i" "chunk_is r C F X j st f x c"
    and "st = CHUNK_RESIDENT \<longrightarrow> x \<noteq> 0"
  shows "chunk_is r' C' F' X' j st f x c"
  using assms by (auto simp: frame_def chunk_is_def split: if_splits)

lemma frame_has_bytes:
  assumes "frame i r C F X r' C' F' X'" "j \<noteq> i" "j < n_chunks r" "state (chunk_at r j) = CHUNK_FETCHING" "has_bytes r j"
  shows "has_bytes r' j"
proof -
  have "in_chunk (chunk_at r' j) b = in_chunk (chunk_at r j) b" for b
    using assms(1,3) by (intro in_chunk_geom) (simp add: frame_def)
  moreover have "model_byte r' b = model_byte r b" for b using assms(1) by (intro config_model_byte) (simp add: frame_def)
  ultimately show ?thesis using assms by (simp add: frame_def has_bytes_def)
qed

lemma frame_at:
  assumes "frame i r C F X r' C' F' X'" "j < n_chunks r" "j \<noteq> i"
  shows "j \<in> F' \<longleftrightarrow> j \<in> F" "X' j = X j" "j \<in> C' \<Longrightarrow> j \<in> C"
    "state (chunk_at r j) = CHUNK_RESIDENT \<and> X j = 0 \<Longrightarrow>
       state (chunk_at r' j) = CHUNK_RESIDENT \<or> state (chunk_at r' j) = CHUNK_ABSENT"
    "\<not> (state (chunk_at r j) = CHUNK_RESIDENT \<and> X j = 0) \<Longrightarrow>
       state (chunk_at r' j) = state (chunk_at r j) \<and> (j \<in> C' \<longleftrightarrow> j \<in> C)"
  using assms by (auto simp: frame_def split: if_splits)

lemma frame_bound: "frame i r C F X r' C' F' X' \<Longrightarrow> n_chunks r' = n_chunks r"
  by (simp add: frame_def)

lemma frame_exit:
  assumes "frame i r C F X r' C' F' X'" "j \<noteq> i" "j < n_chunks r" "state (chunk_at r j) \<noteq> CHUNK_FETCHING"
    "j \<notin> F" "X j = 0"
  shows "state (chunk_at r' j) \<noteq> CHUNK_FETCHING" "j \<notin> F'" "X' j = 0"
  using assms by (auto simp: frame_def split: if_splits)

lemma frame_phase_ok:
  assumes f: "frame i r C F X r' C' F' X'" and p: "phase_ok r C F X p" and c: "claims p \<noteq> Some i"
  shows "phase_ok r' C' F' X' p"
proof -
  note R = frame_chunk_is[OF f]
  have B: "has_bytes r' j" if "j \<noteq> i" "chunk_is r C F X j CHUNK_FETCHING fl x c" "has_bytes r j" for j fl x c
    using frame_has_bytes[OF f that(1)] that(2,3) by (simp add: chunk_is_def)
  show ?thesis
    using p c frame_bound[OF f]
    by (cases "(r, C, F, X, p)" rule: phase_ok.cases)
      (simp_all add: claims_def R frame_exit[OF f], (use B in blast)+)
qed

lemma acct_absent: "budget_inv r C F X \<Longrightarrow> i \<in> C \<Longrightarrow> state (chunk_at r i) \<noteq> CHUNK_ABSENT"
  by (auto simp: budget_inv_def acct_def)

lemma go_simps [simp]:
  "reg (go s w p r) = r" "workers (go s w p r) = (workers s)[w := p]"
  by (simp_all add: go_def)

lemma apart_update:
  assumes "apart f ps" "w < length ps" "f p' = None \<or> (\<forall>v<length ps. v \<noteq> w \<longrightarrow> f (ps ! v) \<noteq> f p')"
  shows "apart f (ps[w := p'])"
  using assms by (auto simp: apart_def nth_list_update)

lemma apart_other:
  assumes "apart f ps" "w < length ps" "f (ps ! w) = Some i" "v < length ps" "v \<noteq> w"
  shows "f (ps ! v) \<noteq> Some i"
  using assms(1)[unfolded apart_def, rule_format, OF assms(2,4)] assms(3,5) by auto

lemma jobs_ok_same:
  assumes j: "jobs_ok s" and w: "w < length (workers s)" and f: "flight p' = flight (workers s ! w)"
    and h: "prefetch_pool_handle r' = prefetch_pool_handle (reg s)"
  shows "jobs_ok (go s w p' r')"
proof -
  have fl: "flight ((workers s)[w := p'] ! v) = flight (workers s ! v)" if "v < length (workers s)" for v
    using f that by (cases "v = w") simp_all
  have "apart flight ((workers s)[w := p'])" using j by (simp add: jobs_ok_def apart_def fl)
  then show ?thesis using j by (simp add: jobs_ok_def h fl cong: conj_cong)
qed

lemma sys_okD:
  assumes "sys_ok s C F X"
  shows "dispatch_inv (reg s) C F X" "budget_inv (reg s) C F X" "idle_ok (reg s) X"
    "w < length (workers s) \<Longrightarrow> phase_ok (reg s) C F X (workers s ! w)"
    "apart claims (workers s)" "jobs_ok s"
    "unat (resident_bytes (reg s)) + unat (reserved_bytes (reg s)) \<le> unat (budget_bytes (reg s))"
    "\<forall>i<n_chunks (reg s). starts_in_file (reg s) i" "async_handler (reg s)"
  using assms by (auto simp: sys_ok_def dispatch_inv_def list_all_length)

text \<open>A step of a worker on its own chunk.\<close>

lemma sys_step:
  assumes ok: "sys_ok s C F X" and w: "w < length (workers s)"
    and cl: "claims (workers s ! w) = Some i \<or> claims (workers s ! w) = None"
    and others: "\<And>v. v < length (workers s) \<Longrightarrow> v \<noteq> w \<Longrightarrow> claims (workers s ! v) \<noteq> Some i"
    and inv: "budget_inv r' C' F' X'" and fr: "frame i (reg s) C F X r' C' F' X'"
    and new: "phase_ok r' C' F' X' p'"
    and fin: "claims p' = Some i \<or> claims p' = None \<and> i \<notin> F' \<and> X' i = 0 \<and> state (chunk_at r' i) \<noteq> CHUNK_FETCHING
        \<and> (i \<in> C' \<longrightarrow> state (chunk_at r' i) = CHUNK_RESIDENT)"
    and idle: "state (chunk_at r' i) = CHUNK_ABSENT \<Longrightarrow> X' i = 0"
    and jobs: "jobs_ok (go s w p' r')" and dl: "set (demand_list r') = set (demand_list (reg s)) - {i}"
    and pool: "\<exists>pool. prefetch_pool_handle r' = Some pool \<and> pool_ok (n_chunks (reg s)) pool"
    and room: "unat (resident_bytes r') + unat (reserved_bytes r') \<le> unat (budget_bytes r')"
    and bud: "in_budget p' \<Longrightarrow> in_budget (workers s ! w) \<or> budget_free s"
  shows "sys_ok (go s w p' r') C' F' X'"
proof -
  let ?r = "reg s" and ?ps = "workers s"
  have n: "n_chunks r' = n_chunks ?r" using fr by (simp add: frame_def)
  have di: "dispatch_inv ?r C F X" by (rule sys_okD(1)[OF ok])
  have idl: "idle_ok r' X'"
    unfolding idle_ok_def
  proof (intro allI impI)
    fix j assume j: "j < n_chunks r'" "state (chunk_at r' j) = CHUNK_ABSENT"
    show "X' j = 0"
    proof (cases "j = i")
      case True
      then show ?thesis using idle j by simp
    next
      case False
      have "X j = 0 \<or> state (chunk_at ?r j) = CHUNK_ABSENT"
        using fr j(2) False n j(1) by (auto simp: frame_def split: if_splits)
      then have "X j = 0" using sys_okD(3)[OF ok] j(1) n by (auto simp: idle_ok_def)
      then show ?thesis using fr False j(1) n by (simp add: frame_def)
    qed
  qed
  have di': "dispatch_inv r' C' F' X'"
    unfolding dispatch_inv_def
  proof (intro conjI ballI)
    fix j assume "j \<in> set (demand_list r')"
    then have j: "j \<in> set (demand_list ?r)" "j \<noteq> i" using dl by simp_all
    then have jn: "j < n_chunks ?r" using di by (auto simp: dispatch_inv_def demand_list_def pool_ok_def)
    have st: "state (chunk_at ?r j) = CHUNK_FETCHING" "j \<notin> C \<union> F" "X j = 0"
      using di j by (auto simp: dispatch_inv_def)
    then have "chunk_is ?r C F X j CHUNK_FETCHING False 0 False" using jn by (simp add: chunk_is_def)
    from frame_chunk_is[OF fr j(2) this]
    show "state (chunk_at r' j) = CHUNK_FETCHING" "j \<notin> C' \<union> F'" "X' j = 0" by (auto simp: chunk_is_def)
  qed (use inv idl pool n in auto)
  have ph: "list_all (phase_ok r' C' F' X') (?ps[w := p'])"
    unfolding list_all_length
  proof (intro allI impI)
    fix v assume v: "v < length (?ps[w := p'])"
    show "phase_ok r' C' F' X' (?ps[w := p'] ! v)"
    proof (cases "v = w")
      case True
      then show ?thesis using new w by simp
    next
      case False
      then show ?thesis using frame_phase_ok[OF fr sys_okD(4)[OF ok] others] v by simp
    qed
  qed
  have ap: "apart claims (?ps[w := p'])"
    using fin others w by (intro apart_update[OF sys_okD(5)[OF ok]]) auto
  have clm: "claimed (go s w p' r') j \<longleftrightarrow> (if j = i then claims p' = Some i else claimed s j)" for j
  proof -
    have "claimed (go s w p' r') j \<longleftrightarrow> claims p' = Some j \<or> (\<exists>v<length ?ps. v \<noteq> w \<and> claims (?ps ! v) = Some j)"
      using w by (auto simp: claimed_def nth_list_update)
    moreover have "claimed s j \<longleftrightarrow> (\<exists>v<length ?ps. v \<noteq> w \<and> claims (?ps ! v) = Some j)" if "j \<noteq> i"
      using w cl that by (auto simp: claimed_def)
    ultimately show ?thesis using others fin by auto
  qed
  have d2: "\<forall>j\<in>set (demand_list r'). \<not> claimed (go s w p' r') j"
    using dl ok clm by (auto simp: sys_ok_def)
  have un: "unowned r' C' F' X' j" if j: "j < n_chunks r'" "\<not> claimed (go s w p' r') j" for j
  proof (cases "j = i")
    case True
    then show ?thesis using j(2) clm fin by (auto simp: unowned_def)
  next
    case False
    then have "unowned ?r C F X j" using j clm n ok by (simp add: sys_ok_def)
    then have u: "j \<notin> F" "X j = 0" "state (chunk_at ?r j) = CHUNK_FETCHING \<Longrightarrow> j \<in> set (demand_list ?r)"
      "j \<in> C \<Longrightarrow> state (chunk_at ?r j) = CHUNK_RESIDENT" by (auto simp: unowned_def)
    have jn: "j < n_chunks ?r" using j(1) n by (simp only:)
    note f = frame_at[OF fr jn False]
    have "state (chunk_at r' j) = CHUNK_RESIDENT" if c: "j \<in> C'"
      using f(4) u(2) u(4)[OF f(3)[OF c]] acct_absent[OF inv c] by simp
    moreover have "j \<in> set (demand_list r')" if st: "state (chunk_at r' j) = CHUNK_FETCHING"
    proof -
      have "\<not> (state (chunk_at ?r j) = CHUNK_RESIDENT \<and> X j = 0)" using f(4) st by auto
      from f(5)[OF this] show ?thesis using st u(3) dl False by simp
    qed
    ultimately show ?thesis using f(1,2) u(1,2) by (simp add: unowned_def)
  qed
  have bu: "apart (\<lambda>p. if in_budget p then Some (0::nat) else None) (?ps[w := p'])"
  proof (rule apart_update[OF _ w])
    show A: "apart (\<lambda>p. if in_budget p then Some (0::nat) else None) ?ps" using ok by (simp add: sys_ok_def)
    have "\<not> in_budget (?ps ! v)" if "in_budget (?ps ! w)" "v < length ?ps" "v \<noteq> w" for v
      using apart_other[OF A w, of 0 v] that by (simp split: if_split_asm)
    then show "(if in_budget p' then Some (0::nat) else None) = None
        \<or> (\<forall>v<length ?ps. v \<noteq> w \<longrightarrow> (if in_budget (?ps ! v) then Some (0::nat) else None) \<noteq> (if in_budget p' then Some 0 else None))"
      using bud by (auto simp: budget_free_def list_all_length)
  qed
  have cfg: "config_part r' = config_part ?r" using fr by (simp add: frame_def)
  have sf: "starts_in_file r' j" if "j < n_chunks r'" for j
  proof -
    have "geom (chunk_at r' j) = geom (chunk_at ?r j)" using fr that n by (simp add: frame_def)
    then show ?thesis using starts_in_file_cong[OF cfg] sys_okD(8)[OF ok] that n by simp
  qed
  have "async_handler r'" using cfg sys_okD(9)[OF ok] by (simp add: config_part_def)
  then show ?thesis
    unfolding sys_ok_def go_simps using di' ph ap d2 un jobs bu room sf by blast
qed

lemma phase_ok_cong:
  assumes "inv_part r' = inv_part r"
  shows "phase_ok r' C F X p = phase_ok r C F X p"
proof -
  have "chunks r' = chunks r" "memfd r' = memfd r" "\<And>b. model_byte r' b = model_byte r b"
    using assms by (auto simp: inv_part_def model_byte_def)
  then have "chunk_is r' = chunk_is r" "has_bytes r' = has_bytes r"
    by (auto simp: chunk_is_def has_bytes_def fun_eq_iff)
  then show ?thesis using \<open>chunks r' = chunks r\<close>
    by (cases "(r, C, F, X, p)" rule: phase_ok.cases) simp_all
qed

lemma frame_same:
  assumes "inv_part r' = inv_part r" "config_part r' = config_part r"
  shows "frame i r C F X r' C F X"
  using assms by (auto simp: frame_def inv_part_def)

lemma own_claim:
  assumes "sys_ok s C F X" "w < length (workers s)" "claims (workers s ! w) = Some i"
  shows "v < length (workers s) \<Longrightarrow> v \<noteq> w \<Longrightarrow> claims (workers s ! v) \<noteq> Some i"
    and "i \<notin> set (demand_list (reg s))"
  using apart_other[OF sys_okD(5)[OF assms(1)] assms(2,3)] assms by (auto simp: sys_ok_def claimed_def)

lemma handle_demand_list: "prefetch_pool_handle r' = prefetch_pool_handle r \<Longrightarrow> demand_list r' = demand_list r"
  by (simp add: demand_list_def)

text \<open>A step that changes nothing the invariant speaks of.\<close>

lemma sys_step_same:
  assumes ok: "sys_ok s C F X" and w: "w < length (workers s)" and cl: "claims (workers s ! w) = Some i"
    and same: "inv_part r' = inv_part (reg s)" "config_part r' = config_part (reg s)"
      "prefetch_pool_handle r' = prefetch_pool_handle (reg s)"
    and new: "phase_ok (reg s) C F X p'" and fl: "flight p' = flight (workers s ! w)"
    and fin: "claims p' = Some i \<or> claims p' = None \<and> i \<notin> F \<and> X i = 0 \<and> state (chunk_at (reg s) i) \<noteq> CHUNK_FETCHING"
    and bud: "in_budget p' \<Longrightarrow> in_budget (workers s ! w) \<or> budget_free s"
  shows "sys_ok (go s w p' r') C F X"
proof -
  note O = own_claim[OF ok w cl]
  have ch: "chunks r' = chunks (reg s)" "resident_bytes r' = resident_bytes (reg s)"
    "reserved_bytes r' = reserved_bytes (reg s)" using same(1) by (simp_all add: inv_part_def)
  have bb: "budget_bytes r' = budget_bytes (reg s)" using same(2) by (simp add: config_part_def)
  have inv: "budget_inv r' C F X" using budget_inv_cong[OF same(1)] sys_okD(2)[OF ok] by simp
  have i: "i < n_chunks (reg s)"
    using sys_okD(4)[OF ok w] cl
    by (cases "(reg s, C, F, X, workers s ! w)" rule: phase_ok.cases) (auto simp: claims_def chunk_is_def)
  have idle: "state (chunk_at r' i) = CHUNK_ABSENT \<Longrightarrow> X i = 0"
    using sys_okD(3)[OF ok] i ch by (simp add: idle_ok_def)
  have cres: "i \<in> C \<Longrightarrow> state (chunk_at r' i) \<noteq> CHUNK_FETCHING \<Longrightarrow> state (chunk_at r' i) = CHUNK_RESIDENT"
    using acct_absent[OF inv] by (cases "state (chunk_at r' i)") auto
  show ?thesis
  proof (rule sys_step[OF ok w _ O(1) inv frame_same[OF same(1,2)]])
    show "phase_ok r' C F X p'" using new phase_ok_cong[OF same(1)] by simp
    show "jobs_ok (go s w p' r')" by (rule jobs_ok_same[OF sys_okD(6)[OF ok] w fl same(3)])
    show "set (demand_list r') = set (demand_list (reg s)) - {i}"
      using O(2) handle_demand_list[OF same(3)] by simp
    show "\<exists>pool. prefetch_pool_handle r' = Some pool \<and> pool_ok (n_chunks (reg s)) pool"
      using sys_okD(1)[OF ok] same(3) by (simp add: dispatch_inv_def)
    show "unat (resident_bytes r') + unat (reserved_bytes r') \<le> unat (budget_bytes r')"
      using sys_okD(7)[OF ok] ch bb by simp
    show "claims p' = Some i \<or> claims p' = None \<and> i \<notin> F \<and> X i = 0 \<and> state (chunk_at r' i) \<noteq> CHUNK_FETCHING
        \<and> (i \<in> C \<longrightarrow> state (chunk_at r' i) = CHUNK_RESIDENT)" using fin cres ch by auto
  qed (use cl idle bud in auto)
qed

lemma frameI:
  assumes "n_chunks r' = n_chunks r" "config_part r' = config_part r"
    and "\<forall>j<n_chunks r. geom (chunk_at r' j) = geom (chunk_at r j)"
    and "\<forall>j<n_chunks r. j \<noteq> i \<longrightarrow> state (chunk_at r' j) = state (chunk_at r j)"
    and "\<forall>j<n_chunks r. j \<noteq> i \<longrightarrow> (j \<in> F' \<longleftrightarrow> j \<in> F) \<and> X' j = X j \<and> (j \<in> C' \<longleftrightarrow> j \<in> C)"
    and "\<forall>j<n_chunks r. j \<noteq> i \<longrightarrow> state (chunk_at r j) = CHUNK_FETCHING \<longrightarrow>
          (\<forall>b. in_chunk (chunk_at r j) b \<longrightarrow> memfd r' b = memfd r b)"
  shows "frame i r C F X r' C' F' X'"
  using assms unfolding frame_def by auto

lemma frame_upd:
  assumes "chunks r' = (chunks r)[i := c]" "geom c = geom (chunk_at r i)" "i < n_chunks r"
    and "config_part r' = config_part r" "memfd r' = memfd r"
    and "\<forall>j<n_chunks r. j \<noteq> i \<longrightarrow> (j \<in> F' \<longleftrightarrow> j \<in> F) \<and> X' j = X j \<and> (j \<in> C' \<longleftrightarrow> j \<in> C)"
  shows "frame i r C F X r' C' F' X'"
  using assms by (intro frameI) (auto simp: nth_list_update)

lemma room_same:
  assumes "budget_inv r C F X" "budget_inv r' C' F' X'"
    and "resident_bytes r' + reserved_bytes r' = resident_bytes r + reserved_bytes r"
  shows "unat (resident_bytes r') + unat (reserved_bytes r') = unat (resident_bytes r) + unat (reserved_bytes r)"
proof -
  have "unat (resident_bytes r + reserved_bytes r) = unat (resident_bytes r) + unat (reserved_bytes r)"
    using populated_bounds(3)[OF assms(1)] u64_bound[of "region_len r"] by (intro unat_add_exact) simp
  moreover have "unat (resident_bytes r' + reserved_bytes r') = unat (resident_bytes r') + unat (reserved_bytes r')"
    using populated_bounds(3)[OF assms(2)] u64_bound[of "region_len r'"] by (intro unat_add_exact) simp
  ultimately show ?thesis using assms(3) by simp
qed

lemma frame_trans:
  assumes f: "frame i r C F X r1 C1 F1 X1" and g: "frame i r1 C1 F1 X1 r2 C2 F2 X2"
  shows "frame i r C F X r2 C2 F2 X2"
proof -
  have n: "n_chunks r1 = n_chunks r" by (rule frame_bound[OF f])
  have *: "(j \<in> F2 \<longleftrightarrow> j \<in> F) \<and> X2 j = X j \<and> (j \<in> C2 \<longrightarrow> j \<in> C)
      \<and> (if state (chunk_at r j) = CHUNK_RESIDENT \<and> X j = 0
         then state (chunk_at r2 j) = CHUNK_RESIDENT \<or> state (chunk_at r2 j) = CHUNK_ABSENT
         else state (chunk_at r2 j) = state (chunk_at r j) \<and> (j \<in> C2 \<longleftrightarrow> j \<in> C))" if j: "j < n_chunks r" "j \<noteq> i" for j
  proof -
    have j1: "j < n_chunks r1" using j n by simp
    note a = frame_at[OF f j] and b = frame_at[OF g j1 j(2)]
    show ?thesis
    proof (cases "state (chunk_at r j) = CHUNK_RESIDENT \<and> X j = 0")
      case True
      then consider "state (chunk_at r1 j) = CHUNK_RESIDENT" | "state (chunk_at r1 j) = CHUNK_ABSENT" using a(4) by blast
      then show ?thesis using a(1-3) b True by cases auto
    next
      case False
      from a(5)[OF this] show ?thesis using a(1-3) b False by auto
    qed
  qed
  have "memfd r2 b = memfd r b" if j: "j < n_chunks r" "j \<noteq> i" "state (chunk_at r j) = CHUNK_FETCHING" "in_chunk (chunk_at r j) b" for j b
  proof -
    have "state (chunk_at r1 j) = CHUNK_FETCHING" using frame_at(5)[OF f j(1,2)] j(3) by simp
    moreover have "in_chunk (chunk_at r1 j) b" using f j in_chunk_geom[of "chunk_at r1 j" "chunk_at r j"] by (simp add: frame_def)
    ultimately have "memfd r2 b = memfd r1 b" using g j n by (simp add: frame_def)
    also have "\<dots> = memfd r b" using f j by (simp add: frame_def)
    finally show ?thesis .
  qed
  moreover have "n_chunks r2 = n_chunks r" "config_part r2 = config_part r"
    "\<forall>j<n_chunks r. geom (chunk_at r2 j) = geom (chunk_at r j)" using f g n by (simp_all add: frame_def)
  ultimately show ?thesis using * unfolding frame_def by blast
qed

text \<open>A step of a worker that leaves the queues alone.\<close>

lemma sys_step_at:
  assumes ok: "sys_ok s C F X" and w: "w < length (workers s)" and cl: "claims (workers s ! w) = Some i"
    and inv: "budget_inv r' C' F' X'" and fr: "frame i (reg s) C F X r' C' F' X'"
    and h: "prefetch_pool_handle r' = prefetch_pool_handle (reg s)"
    and new: "phase_ok r' C' F' X' p'" and fl: "flight p' = flight (workers s ! w)"
    and fin: "claims p' = Some i \<or> claims p' = None \<and> i \<notin> F' \<and> X' i = 0 \<and> state (chunk_at r' i) \<noteq> CHUNK_FETCHING
        \<and> (i \<in> C' \<longrightarrow> state (chunk_at r' i) = CHUNK_RESIDENT)"
    and idle: "state (chunk_at r' i) = CHUNK_ABSENT \<Longrightarrow> X' i = 0"
    and room: "unat (resident_bytes r') + unat (reserved_bytes r') \<le> unat (budget_bytes r')"
    and bud: "in_budget p' \<Longrightarrow> in_budget (workers s ! w) \<or> budget_free s"
  shows "sys_ok (go s w p' r') C' F' X'"
proof -
  note O = own_claim[OF ok w cl]
  show ?thesis
  proof (rule sys_step[OF ok w _ O(1) inv fr new fin idle _ _ _ room bud])
    show "jobs_ok (go s w p' r')" by (rule jobs_ok_same[OF sys_okD(6)[OF ok] w fl h])
    show "set (demand_list r') = set (demand_list (reg s)) - {i}" using O(2) handle_demand_list[OF h] by simp
    show "\<exists>pool. prefetch_pool_handle r' = Some pool \<and> pool_ok (n_chunks (reg s)) pool"
      using sys_okD(1)[OF ok] h by (simp add: dispatch_inv_def)
  qed (use cl in auto)
qed

lemma room_words:
  assumes "sys_ok s C F X" "budget_inv r' C' F' X'" "config_part r' = config_part (reg s)"
    and "resident_bytes r' + reserved_bytes r' = resident_bytes (reg s) + reserved_bytes (reg s)"
  shows "unat (resident_bytes r') + unat (reserved_bytes r') \<le> unat (budget_bytes r')"
  using room_same[OF sys_okD(2)[OF assms(1)] assms(2,4)] sys_okD(7)[OF assms(1)] assms(3)
  by (simp add: config_part_def)

end
