(* ===== verification/Worker_Steps.thy ===== *)
theory Worker_Steps
  imports Threads
begin

text \<open>
  Every step of a worker keeps the invariant of theory \<open>Threads\<close>, one lemma for each point of the
  code: beginning a prefetch, reserving and evicting, reading, resolving, committing, marking
  RESIDENT, topping up, releasing the pin, giving up, recording.
\<close>

section \<open>Each step keeps it\<close>

lemma step_begin:
  assumes ok: "sys_ok s C F X" and w: "w < length (workers s)" and p: "workers s ! w = At_begin x"
    and f: "work K (At_begin x) (reg s) = Inr (p', r')"
  shows "\<exists>C F X. sys_ok (go s w p' r') C F X"
proof -
  let ?r = "reg s" and ?i = "cx_chunk x"
  let ?r2 = "mark_fetching (cx_start x) ?i (pin_chunk ?r ?i)"
  have ci: "chunk_is ?r C F X ?i CHUNK_ABSENT False 0 False" using sys_okD(4)[OF ok w] p by simp
  then have i: "?i < n_chunks ?r" "state (chunk_at ?r ?i) = CHUNK_ABSENT" "X ?i = 0" by (simp_all add: chunk_is_def)
  have rec: "record_fault K ?r2 (fault_seq ?r2) ?i TRACE_FAULT_MISSING 1 = Inr r'" and p': "p' = At_reserve Pre 0 x"
    using f by (auto simp: Let_def rbind_Inr_iff)
  have e: "?r\<lparr>clk_pos := clk_pos ?r\<rparr> = ?r" by simp
  note B = begin_prefetch_inv[OF sys_okD(2)[OF ok] i, where p = "clk_pos (reg s)", unfolded e, OF rec]
  from record_fault_effect[OF rec] obtain t c where r': "r' = ?r2\<lparr>clk_pos := c, trace_of := t\<rparr>" .
  have cfg: "config_part r' = config_part ?r" using B(3) by (simp add: others_ok_def)
  have oth: "memfd r' = memfd ?r" "prefetch_pool_handle r' = prefetch_pool_handle ?r"
    "resident_bytes r' = resident_bytes ?r" "reserved_bytes r' = reserved_bytes ?r"
    by (simp_all add: r' mark_fetching_def pin_chunk_def upd_chunk_def)
  have fr: "frame ?i ?r C F X r' C F (X(?i := 1))"
    using B(3,6) oth(1) by (intro frameI) (simp_all add: others_ok_def)
  have "sys_ok (go s w p' r') C F (X(?i := 1))"
  proof (rule sys_step_at[OF ok w _ B(1) fr oth(2)])
    show "unat (resident_bytes r') + unat (reserved_bytes r') \<le> unat (budget_bytes r')"
      using sys_okD(7)[OF ok] oth(3,4) cfg by (simp add: config_part_def)
    show "phase_ok r' C F (X(?i := 1)) p'"
      using ci B(2,3) by (simp add: p' chunk_is_def pin_of_def others_ok_def)
  qed (use p B(2) in \<open>simp_all add: p' claims_def\<close>)
  then show ?thesis by blast
qed

lemma owned_not_retained:
  assumes "budget_inv r C F X" "chunk_is r C F X i st f x c" "st \<noteq> CHUNK_RESIDENT \<or> x \<noteq> 0"
  shows "i \<notin> retained r"
  using assms by (auto simp: budget_inv_def pins_ok_def retained_def chunk_is_def)

lemma unpin_frame:
  assumes "i < n_chunks r"
  shows "frame i r C F X (unpin_chunk r i) C F (X(i := y))"
  using assms by (intro frame_upd[where c = "(chunk_at r i)\<lparr>pin := pin (chunk_at r i) - 1\<rparr>"])
    (simp_all add: unpin_chunk_def upd_chunk_def geom_def config_part_def)

lemma unpin_simps [simp]:
  "prefetch_pool_handle (unpin_chunk r i) = prefetch_pool_handle r" "memfd (unpin_chunk r i) = memfd r"
  "resident_bytes (unpin_chunk r i) = resident_bytes r" "reserved_bytes (unpin_chunk r i) = reserved_bytes r"
  "budget_bytes (unpin_chunk r i) = budget_bytes r" "n_chunks (unpin_chunk r i) = n_chunks r"
  "i < n_chunks r \<Longrightarrow> state (chunk_at (unpin_chunk r i) j) = state (chunk_at r j)"
  by (auto simp: unpin_chunk_def upd_chunk_def nth_list_update)

lemma step_drop:
  assumes ok: "sys_ok s C F X" and w: "w < length (workers s)" and p: "workers s ! w = At_drop x"
    and f: "work K (At_drop x) (reg s) = Inr (p', r')"
  shows "\<exists>C F X. sys_ok (go s w p' r') C F X"
proof -
  let ?r = "reg s" and ?i = "cx_chunk x"
  have ci: "chunk_is ?r C F X ?i CHUNK_FETCHING False 1 False" using sys_okD(4)[OF ok w] p by simp
  then have i: "?i < n_chunks ?r" "X ?i = 1" by (simp_all add: chunk_is_def)
  have r': "p' = At_abandon Pre x" "r' = unpin_chunk ?r ?i" using f by simp_all
  have inv: "budget_inv r' C F (X(?i := 0))"
    using pin_update_inv(2)[OF sys_okD(2)[OF ok] i(1) owned_not_retained[OF sys_okD(2)[OF ok] ci]] i(2) r' by simp
  have "sys_ok (go s w p' r') C F (X(?i := 0))"
  proof (rule sys_step_at[OF ok w _ inv])
    show "frame ?i ?r C F X r' C F (X(?i := 0))" using unpin_frame[OF i(1)] r'(2) by simp
  qed (use p ci sys_okD(7)[OF ok] in \<open>simp_all add: r' claims_def chunk_is_def\<close>)
  then show ?thesis by blast
qed

lemma abandon_frame:
  assumes "i < n_chunks r"
  shows "frame i r C F X (pager_abandon_fetch r i) C F X"
  using assms by (intro frame_upd[where c = "(chunk_at r i)\<lparr>state := CHUNK_ABSENT, fetching_since_ns := 0\<rparr>"])
    (simp_all add: pager_abandon_fetch_def wake_range_def upd_chunk_def geom_def config_part_def)

lemma abandon_simps [simp]:
  "prefetch_pool_handle (pager_abandon_fetch r i) = prefetch_pool_handle r"
  "resident_bytes (pager_abandon_fetch r i) = resident_bytes r" "reserved_bytes (pager_abandon_fetch r i) = reserved_bytes r"
  "budget_bytes (pager_abandon_fetch r i) = budget_bytes r" "n_chunks (pager_abandon_fetch r i) = n_chunks r"
  by (auto simp: pager_abandon_fetch_def wake_range_def upd_chunk_def)

lemma step_abandon:
  assumes ok: "sys_ok s C F X" and w: "w < length (workers s)" and p: "workers s ! w = At_abandon k x"
    and f: "work K (At_abandon k x) (reg s) = Inr (p', r')"
  shows "\<exists>C F X. sys_ok (go s w p' r') C F X"
proof -
  let ?r = "reg s" and ?i = "cx_chunk x"
  have ci: "chunk_is ?r C F X ?i CHUNK_FETCHING False 0 False" using sys_okD(4)[OF ok w] p by simp
  then have i: "?i < n_chunks ?r" "?i \<notin> C \<union> F" "X ?i = 0" by (simp_all add: chunk_is_def)
  let ?a = "pager_abandon_fetch ?r ?i"
  note A = abandon_inv[OF sys_okD(2)[OF ok] i(1,2)]
  show ?thesis
  proof (cases k)
    case Dem
    then have r': "p' = Idle" "r' = ?a" using f by simp_all
    have "sys_ok (go s w p' r') C F X"
      unfolding r' by (rule sys_step_at[OF ok w _ A(1) abandon_frame[OF i(1)]])
        (use p Dem i A(2) sys_okD(7)[OF ok] in \<open>simp_all add: claims_def\<close>)
    then show ?thesis by blast
  next
    case Pre
    let ?b = "?a\<lparr>clk_pos := clk_pos ?a + 1\<rparr>"
    let ?f = "\<lambda>c. c\<lparr>decline_until_ns := k_clock K (clk_pos ?a) + 100000000\<rparr>"
    have r': "p' = At_finish ?i"
      "r' = (upd_chunk ?i ?f ?b)\<lparr>stat_prefetch_infeasible := stat_prefetch_infeasible ?a + 1\<rparr>"
      using f Pre by (simp_all add: now_ns_def Let_def upd_chunk_def)
    have bi: "budget_inv ?b C F X" using budget_inv_cong[of ?b ?a] A(1) by (simp add: inv_part_def)
    have "budget_inv (upd_chunk ?i ?f ?b) C F X"
      using i A(2) by (intro upd_unheld_inv[OF bi]) (simp_all add: geom_def)
    then have inv: "budget_inv r' C F X"
      using budget_inv_cong[of r' "upd_chunk ?i ?f ?b"] by (simp add: r' inv_part_def)
    have ch: "chunks r' = (chunks ?r)[?i := ?f (chunk_at ?a ?i)]"
      by (simp add: r' upd_chunk_def pager_abandon_fetch_def wake_range_def)
    have fr: "frame ?i ?r C F X r' C F X"
    proof (rule frame_upd[OF ch _ i(1)])
      show "geom (?f (chunk_at ?a ?i)) = geom (chunk_at ?r ?i)" using A(3) i(1) by (simp add: others_ok_def geom_def)
      show "config_part r' = config_part ?r" using A(3) by (simp add: r' others_ok_def config_part_def upd_chunk_def)
      show "memfd r' = memfd ?r" by (simp add: r' upd_chunk_def pager_abandon_fetch_def wake_range_def)
    qed simp
    have st: "state (chunk_at r' ?i) = CHUNK_ABSENT" using A(2) i(1) by (simp add: ch)
    have oth: "prefetch_pool_handle r' = prefetch_pool_handle ?r" "n_chunks r' = n_chunks ?r"
      "resident_bytes r' = resident_bytes ?r" "reserved_bytes r' = reserved_bytes ?r" "budget_bytes r' = budget_bytes ?r"
      by (simp_all add: r' upd_chunk_def)
    have "sys_ok (go s w p' r') C F X"
      by (rule sys_step_at[OF ok w _ inv fr])
        (use p Pre i st oth sys_okD(7)[OF ok] in \<open>simp_all add: r'(1) claims_def\<close>)
    then show ?thesis by blast
  qed
qed

lemma stamp_effect: "snd (stamp K r) = r\<lparr>clk_pos := clk_pos (snd (stamp K r))\<rparr>"
  by (simp add: stamp_def now_ns_def)

lemma stamp_inv_part:
  assumes "stamp K r = (t, r')"
  shows "inv_part r' = inv_part r" "config_part r' = config_part r" "prefetch_pool_handle r' = prefetch_pool_handle r"
    "chunks r' = chunks r" "memfd r' = memfd r"
  using assms by (auto simp: stamp_def now_ns_def inv_part_def config_part_def split: if_splits)

lemma step_read:
  assumes ok: "sys_ok s C F X" and w: "w < length (workers s)" and p: "workers s ! w = At_read k x"
    and f: "work K (At_read k x) (reg s) = Inr (p', r')"
  shows "\<exists>C F X. sys_ok (go s w p' r') C F X"
proof -
  let ?r = "reg s" and ?i = "cx_chunk x"
  have ci: "chunk_is ?r C F X ?i CHUNK_FETCHING True (pin_of k) False" using sys_okD(4)[OF ok w] p by simp
  then have i: "?i < n_chunks ?r" "?i \<in> F" by (simp_all add: chunk_is_def)
  obtain t0 r0 where s0: "stamp K ?r = (t0, r0)" by force
  from f s0 obtain r1 where f1: "fetch_read K r0 ?i = Inr r1" and s1: "stamp K r1 = (fst (stamp K r1), r')"
    and p': "p' = At_continue k (x\<lparr>cx_timing :=
        \<lparr>read_start_ns = t0, read_end_ns = fst (stamp K r1), continue_end_ns = 0\<rparr>\<rparr>)"
    by (auto simp: rbind_Inr_iff Let_def case_prod_beta)
  note S0 = stamp_inv_part[OF s0] and S1 = stamp_inv_part[OF s1]
  have inv0: "budget_inv r0 C F X" using budget_inv_cong[OF S0(1)] sys_okD(2)[OF ok] by simp
  have sf: "starts_in_file r0 ?i"
    using starts_in_file_cong[OF S0(2)] S0(4) sys_okD(8)[OF ok] i(1) by simp
  note R = fetch_read_inv[OF inv0 i(2) sf f1]
  have g0: "geometry_ok r0" using inv0 by blast
  have i0: "?i < n_chunks r0" using S0(4) i(1) by simp
  note E = fetch_read_effect[OF g0 i0 sf f1]
  have inv: "budget_inv r' C F X" using budget_inv_cong[OF S1(1)] R(1) by simp
  have "chunks r1 = chunks r0" by (subst R(3)) simp
  then have ch: "chunks r' = chunks ?r" using S1(4) S0(4) by simp
  have cfg1: "config_part r1 = config_part r0"
    by (subst R(3)) (simp add: config_part_def)
  have mem: "memfd r' b = memfd ?r b" if "j < n_chunks ?r" "j \<noteq> ?i" "in_chunk (chunk_at ?r j) b" for j b
  proof -
    have "j < n_chunks r0" "in_chunk (chunk_at r0 j) b" using that S0(4) by simp_all
    from pages_disjoint[OF g0 i0 this(1) that(2) this(2)] have "memfd r1 b = memfd r0 b" by (subst E) auto
    then show ?thesis using S0(5) S1(5) by simp
  qed
  have fr: "frame ?i ?r C F X r' C F X"
    using mem S0(2) S1(2) cfg1 by (intro frameI) (simp_all add: ch)
  have oth: "inv_part r' = inv_part r1" by (rule S1(1))
  have rb: "resident_bytes r1 = resident_bytes r0" "reserved_bytes r1 = reserved_bytes r0"
    "prefetch_pool_handle r1 = prefetch_pool_handle r0" by (subst R(3), simp)+
  have rb0: "resident_bytes r' = resident_bytes ?r" "reserved_bytes r' = reserved_bytes ?r"
    using S1(1) S0(1) rb by (simp_all add: inv_part_def)
  have cfg: "config_part r' = config_part ?r" using S0(2) S1(2) cfg1 by simp
  have hb: "has_bytes r' ?i"
    using R(2) S1(1) by (simp add: has_bytes_def inv_part_def model_byte_def)
  have "sys_ok (go s w p' r') C F X"
  proof (rule sys_step_at[OF ok w _ inv fr])
    show "prefetch_pool_handle r' = prefetch_pool_handle ?r" using S0(3) S1(3) rb(3) by simp
    show "phase_ok r' C F X p'" using ci hb by (simp add: p' chunk_is_def ch)
    show "flight p' = flight (workers s ! w)" using p by (cases k) (simp_all add: p')
    show "unat (resident_bytes r') + unat (reserved_bytes r') \<le> unat (budget_bytes r')"
      using sys_okD(7)[OF ok] rb0 cfg by (simp add: config_part_def)
  qed (use p ci in \<open>simp_all add: p' claims_def chunk_is_def ch\<close>)
  then show ?thesis by blast
qed

lemma step_continue:
  assumes ok: "sys_ok s C F X" and w: "w < length (workers s)" and p: "workers s ! w = At_continue k x"
    and f: "work K (At_continue k x) (reg s) = Inr (p', r')"
  shows "\<exists>C F X. sys_ok (go s w p' r') C F X"
proof -
  let ?r = "reg s" and ?i = "cx_chunk x"
  have ci: "phase_ok ?r C F X (At_continue k x)" using sys_okD(4)[OF ok w] p by simp
  from f obtain r1 where f1: "fetch_resolve K ?r ?i = Inr r1" and s1: "stamp K r1 = (fst (stamp K r1), r')"
    and p': "p' = At_commit k (x\<lparr>cx_timing := (cx_timing x)\<lparr>continue_end_ns := fst (stamp K r1)\<rparr>\<rparr>)"
    by (auto simp: rbind_Inr_iff Let_def case_prod_beta)
  from f1 obtain l where "r1 = ?r\<lparr>uffd_log := l\<rparr>"
    by (auto simp: fetch_resolve_def Let_def split: continue_result.splits if_splits)
  then have same: "inv_part r' = inv_part ?r" "config_part r' = config_part ?r"
    "prefetch_pool_handle r' = prefetch_pool_handle ?r"
    using stamp_inv_part[OF s1] by (simp_all add: inv_part_def config_part_def)
  have "sys_ok (go s w p' r') C F X"
  proof (rule sys_step_same[OF ok w _ same])
    show "flight p' = flight (workers s ! w)" using p by (cases k) (simp_all add: p')
  qed (use ci p in \<open>simp_all add: p' claims_def\<close>)
  then show ?thesis by blast
qed

lemma step_reserve:
  assumes ok: "sys_ok s C F X" and w: "w < length (workers s)" and p: "workers s ! w = At_reserve k n x"
    and b: "budget_free s" and f: "work K (At_reserve k n x) (reg s) = Inr (p', r')"
  shows "\<exists>C F X. sys_ok (go s w p' r') C F X"
proof -
  let ?r = "reg s"
  have p': "p' = At_evict k n x" and r': "scheduled_reconcile K ?r = Inr r'" using f by (auto simp: rbind_Inr_iff)
  then obtain c where "r' = ?r\<lparr>fetches_since_reconcile := c\<rparr>"
    by (auto simp: scheduled_reconcile_def Let_def rbind_Inr_iff split: if_splits)
  then have same: "inv_part r' = inv_part ?r" "config_part r' = config_part ?r"
    "prefetch_pool_handle r' = prefetch_pool_handle ?r" by (simp_all add: inv_part_def config_part_def)
  have "sys_ok (go s w p' r') C F X"
  proof (rule sys_step_same[OF ok w _ same])
    show "flight p' = flight (workers s ! w)" using p by (cases k) (simp_all add: p')
  qed (use sys_okD(4)[OF ok w] p b in \<open>simp_all add: p' claims_def\<close>)
  then show ?thesis by blast
qed

lemma step_commit:
  assumes ok: "sys_ok s C F X" and w: "w < length (workers s)" and p: "workers s ! w = At_commit k x"
    and f: "work K (At_commit k x) (reg s) = Inr (p', r')"
  shows "\<exists>C F X. sys_ok (go s w p' r') C F X"
proof -
  let ?r = "reg s" and ?i = "cx_chunk x" and ?F = "F - {cx_chunk x}"
  let ?c = "commit_reserved ?r (len (chunk_at ?r ?i))"
  have ci: "chunk_is ?r C F X ?i CHUNK_FETCHING True (pin_of k) False" and hb: "has_bytes ?r ?i"
    using sys_okD(4)[OF ok w] p by simp_all
  then have i: "?i < n_chunks ?r" "X ?i = pin_of k" and iF: "insert ?i ?F = F" by (auto simp: chunk_is_def)
  have ret: "?i \<notin> retained ?r" using owned_not_retained[OF sys_okD(2)[OF ok] ci] by simp
  have inv0: "budget_inv ?r C (insert ?i ?F) X" using sys_okD(2)[OF ok] iF by simp
  have ic: "budget_inv ?c (insert ?i C) ?F X"
    using hb i(1) by (intro commit_inv[OF inv0]) (simp_all add: has_bytes_def)
  have sum: "resident_bytes ?c + reserved_bytes ?c = resident_bytes ?r + reserved_bytes ?r"
    by (simp add: commit_reserved_def)
  have cc: "chunks ?c = chunks ?r" "memfd ?c = memfd ?r" "config_part ?c = config_part ?r"
    "prefetch_pool_handle ?c = prefetch_pool_handle ?r"
    by (simp_all add: commit_reserved_def config_part_def)
  have inv: "budget_inv r' (insert ?i C) ?F (X(?i := 1))"
  proof (cases k)
    case Dem
    have "?i < n_chunks ?c" "?i \<notin> retained ?c" using i(1) ret by (simp_all add: commit_reserved_def retained_def)
    from pin_update_inv(1)[OF ic this] show ?thesis
      using f Dem i(2) by (simp add: commit_reserved_and_pin_def pin_of_def)
  next
    case Pre
    then have "X(?i := 1) = X" using i(2) by (auto simp: pin_of_def)
    then show ?thesis using f Pre ic by simp
  qed
  have p': "p' = At_mark k x" using f by simp
  have r': "r' = (if k = Dem then pin_chunk ?c ?i else ?c)"
    using f by (cases k) (auto simp: commit_reserved_and_pin_def)
  obtain c where ch: "chunks r' = (chunks ?r)[?i := c]" "geom c = geom (chunk_at ?r ?i)"
    "state c = state (chunk_at ?r ?i)"
  proof (cases k)
    case Dem
    then have "chunks r' = (chunks ?r)[?i := (chunk_at ?r ?i)\<lparr>pin := pin (chunk_at ?r ?i) + 1\<rparr>]"
      by (simp add: r' pin_chunk_def upd_chunk_def cc)
    then show thesis by (rule that) (simp_all add: geom_def)
  next
    case Pre
    then have "chunks r' = (chunks ?r)[?i := chunk_at ?r ?i]" by (simp add: r' cc)
    then show thesis by (rule that) simp_all
  qed
  have oth: "memfd r' = memfd ?r" "config_part r' = config_part ?r"
    "prefetch_pool_handle r' = prefetch_pool_handle ?r"
    "resident_bytes r' + reserved_bytes r' = resident_bytes ?r + reserved_bytes ?r"
    using cc sum by (simp_all add: r' pin_chunk_def upd_chunk_def config_part_def)
  have fr: "frame ?i ?r C F X r' (insert ?i C) ?F (X(?i := 1))"
    by (rule frame_upd[OF ch(1,2) i(1) oth(2,1)]) simp
  have "sys_ok (go s w p' r') (insert ?i C) ?F (X(?i := 1))"
  proof (rule sys_step_at[OF ok w _ inv fr oth(3)])
    show "phase_ok r' (insert ?i C) ?F (X(?i := 1)) p'"
      using ci by (simp add: p' chunk_is_def ch)
    show "flight p' = flight (workers s ! w)" using p by (cases k) (simp_all add: p')
    show "unat (resident_bytes r') + unat (reserved_bytes r') \<le> unat (budget_bytes r')"
      by (rule room_words[OF ok inv oth(2,4)])
    show "state (chunk_at r' ?i) = CHUNK_ABSENT \<Longrightarrow> (X(?i := 1)) ?i = 0"
      using ci by (simp add: ch chunk_is_def)
  qed (use p in \<open>simp_all add: p' claims_def\<close>)
  then show ?thesis by blast
qed

lemma step_mark:
  assumes ok: "sys_ok s C F X" and w: "w < length (workers s)" and p: "workers s ! w = At_mark k x"
    and f: "work K (At_mark k x) (reg s) = Inr (p', r')"
  shows "\<exists>C F X. sys_ok (go s w p' r') C F X"
proof -
  let ?r = "reg s" and ?i = "cx_chunk x" and ?g = "\<lambda>c. c\<lparr>state := CHUNK_RESIDENT, fetching_since_ns := 0\<rparr>"
  have ci: "chunk_is ?r C F X ?i CHUNK_FETCHING False 1 True" using sys_okD(4)[OF ok w] p by simp
  then have i: "?i < n_chunks ?r" "X ?i = 1" "?i \<in> C" "?i \<notin> F" by (simp_all add: chunk_is_def)
  have ret: "?i \<notin> retained ?r" using owned_not_retained[OF sys_okD(2)[OF ok] ci] by simp
  have pn: "pin (chunk_at ?r ?i) = 1"
    using sys_okD(2)[OF ok] ret i by (auto simp: budget_inv_def pins_ok_def retained_def)
  have X: "X = X(?i := 1)" using i(2) by auto
  have "budget_inv (upd_chunk ?i ?g ?r) C F X"
    using i pn ret X by (intro upd_chunk_inv[OF sys_okD(2)[OF ok] i(1), where p = 1]) (simp_all add: geom_def)
  moreover have r': "r' = (upd_chunk ?i ?g ?r)\<lparr>stat_bytes_fetched := stat_bytes_fetched ?r + len (chunk_at ?r ?i)\<rparr>"
    and p': "p' = (if k = Dem then At_top_up x else At_release Pre x)"
    using f by (simp_all add: mark_resident_def)
  ultimately have inv: "budget_inv r' C F X"
    using budget_inv_cong[of r' "upd_chunk ?i ?g ?r"] by (simp add: inv_part_def)
  have ch: "chunks r' = (chunks ?r)[?i := ?g (chunk_at ?r ?i)]" by (simp add: r' upd_chunk_def)
  have oth: "memfd r' = memfd ?r" "config_part r' = config_part ?r"
    "prefetch_pool_handle r' = prefetch_pool_handle ?r"
    "resident_bytes r' + reserved_bytes r' = resident_bytes ?r + reserved_bytes ?r"
    by (simp_all add: r' upd_chunk_def config_part_def)
  have fr: "frame ?i ?r C F X r' C F X"
    by (rule frame_upd[OF ch _ i(1) oth(2,1)]) (simp_all add: geom_def)
  have "sys_ok (go s w p' r') C F X"
  proof (rule sys_step_at[OF ok w _ inv fr oth(3)])
    show "phase_ok r' C F X p'" using ci by (simp add: p' chunk_is_def ch)
    show "flight p' = flight (workers s ! w)" using p by (cases k) (simp_all add: p')
    show "unat (resident_bytes r') + unat (reserved_bytes r') \<le> unat (budget_bytes r')"
      by (rule room_words[OF ok inv oth(2,4)])
    show "state (chunk_at r' ?i) = CHUNK_ABSENT \<Longrightarrow> X ?i = 0" using i(1) by (simp add: ch)
    show "claims p' = Some ?i \<or> claims p' = None \<and> ?i \<notin> F \<and> X ?i = 0 \<and> state (chunk_at r' ?i) \<noteq> CHUNK_FETCHING
        \<and> (?i \<in> C \<longrightarrow> state (chunk_at r' ?i) = CHUNK_RESIDENT)" by (simp add: p' claims_def)
  qed (use p in \<open>simp_all add: p' claims_def split: if_splits\<close>)
  then show ?thesis by blast
qed

lemma step_release:
  assumes ok: "sys_ok s C F X" and w: "w < length (workers s)" and p: "workers s ! w = At_release k x"
    and f: "work K (At_release k x) (reg s) = Inr (p', r')"
  shows "\<exists>C F X. sys_ok (go s w p' r') C F X"
proof -
  let ?r = "reg s" and ?i = "cx_chunk x"
  have ci: "chunk_is ?r C F X ?i CHUNK_RESIDENT False 1 True" using sys_okD(4)[OF ok w] p by simp
  then have i: "?i < n_chunks ?r" "X ?i = 1" "state (chunk_at ?r ?i) = CHUNK_RESIDENT" "?i \<notin> F"
    by (simp_all add: chunk_is_def)
  have ret: "?i \<notin> retained ?r" using owned_not_retained[OF sys_okD(2)[OF ok] ci] by simp
  have p': "p' = At_exit k x" using f by (cases k) (simp_all add: Let_def)
  define r1 where "r1 = (if k = Pre \<and> prefetch_retention_pinned ?r then prefetch_retain_on_resident ?r ?i
      else unpin_chunk ?r ?i)"
  have r1: "inv_part r' = inv_part r1" "config_part r' = config_part r1"
      "prefetch_pool_handle r' = prefetch_pool_handle r1"
    using f by (cases k; auto simp: r1_def Let_def inv_part_def config_part_def)+
  have c1: "r1 = unpin_chunk ?r ?i \<or> r1 = prefetch_retain_on_resident ?r ?i" by (simp add: r1_def)
  have "budget_inv r1 C F (X(?i := 0)) \<and> frame ?i ?r C F X r1 C F (X(?i := 0))
      \<and> prefetch_pool_handle r1 = prefetch_pool_handle ?r \<and> state (chunk_at r1 ?i) = CHUNK_RESIDENT
      \<and> resident_bytes r1 = resident_bytes ?r \<and> reserved_bytes r1 = reserved_bytes ?r"
    using c1
  proof
    assume "r1 = unpin_chunk ?r ?i"
    then show ?thesis
      using pin_update_inv(2)[OF sys_okD(2)[OF ok] i(1) ret] unpin_frame[OF i(1), of C F X 0] i by simp
  next
    assume e: "r1 = prefetch_retain_on_resident ?r ?i"
    note R = retain_on_resident_inv[OF sys_okD(2)[OF ok] i(1) ret i(2,3)]
    have o: "others_ok ?i X ?r r1" using others_ok_retain[OF sys_okD(2)[OF ok] i(1) ret] e by simp
    have m: "memfd r1 = memfd ?r" "prefetch_pool_handle r1 = prefetch_pool_handle ?r"
      "resident_bytes r1 = resident_bytes ?r" "reserved_bytes r1 = reserved_bytes ?r"
      by (simp_all add: e prefetch_retain_on_resident_def upd_chunk_def Let_def)
    have st: "state (chunk_at r1 j) = state (chunk_at ?r j)" if "j < n_chunks ?r" for j
      using that by (cases "j = ring_front (pinned_prefetch ?r)")
        (simp_all add: e prefetch_retain_on_resident_def Let_def upd_chunk_def)
    have "frame ?i ?r C F X r1 C F (X(?i := 0))"
      using o m(1) st by (intro frameI) (simp_all add: others_ok_def)
    then show ?thesis using R(1) e m st i by simp
  qed
  then have B: "budget_inv r1 C F (X(?i := 0))" "frame ?i ?r C F X r1 C F (X(?i := 0))"
    "prefetch_pool_handle r1 = prefetch_pool_handle ?r" "state (chunk_at r1 ?i) = CHUNK_RESIDENT"
    "resident_bytes r1 = resident_bytes ?r" "reserved_bytes r1 = reserved_bytes ?r" by blast+
  have same: "chunks r' = chunks r1" "memfd r' = memfd r1" "resident_bytes r' = resident_bytes r1"
    "reserved_bytes r' = reserved_bytes r1" using r1(1) by (simp_all add: inv_part_def)
  have inv: "budget_inv r' C F (X(?i := 0))" using budget_inv_cong[OF r1(1)] B(1) by simp
  have fr: "frame ?i ?r C F X r' C F (X(?i := 0))" using B(2) same(1,2) r1(2) by (simp add: frame_def)
  have cfg: "config_part r' = config_part ?r" "n_chunks r' = n_chunks ?r" using fr by (simp_all add: frame_def)
  have "sys_ok (go s w p' r') C F (X(?i := 0))"
  proof (rule sys_step_at[OF ok w _ inv fr])
    show "flight p' = flight (workers s ! w)" using p by (cases k) (simp_all add: p')
    show "unat (resident_bytes r') + unat (reserved_bytes r') \<le> unat (budget_bytes r')"
      using sys_okD(7)[OF ok] same B(5,6) cfg(1) by (simp add: config_part_def)
    show "prefetch_pool_handle r' = prefetch_pool_handle ?r" using r1(3) B(3) by simp
  qed (use p i B(4) same cfg in \<open>simp_all add: p' claims_def\<close>)
  then show ?thesis by blast
qed

lemma step_exit:
  assumes ok: "sys_ok s C F X" and w: "w < length (workers s)" and p: "workers s ! w = At_exit k x"
    and f: "work K (At_exit k x) (reg s) = Inr (p', r')"
  shows "\<exists>C F X. sys_ok (go s w p' r') C F X"
proof -
  let ?r = "reg s"
  have tf: "\<exists>r0 g. trace_fetch g r0 = Inr r' \<and> inv_part r0 = inv_part ?r \<and> config_part r0 = config_part ?r
      \<and> prefetch_pool_handle r0 = prefetch_pool_handle ?r"
    and p': "p' = (if k = Dem then Idle else At_finish (cx_chunk x))"
    using f by (cases k; auto simp: now_ns_def Let_def rbind_Inr_iff inv_part_def config_part_def split: if_splits;
        fastforce)+
  then obtain r0 g where g: "trace_fetch g r0 = Inr r'" and r0: "inv_part r0 = inv_part ?r"
    "config_part r0 = config_part ?r" "prefetch_pool_handle r0 = prefetch_pool_handle ?r" by blast
  from trace_fetch_effect[OF g] obtain d where "r' = r0\<lparr>diag_fetch_trace := d\<rparr>" .
  then have same: "inv_part r' = inv_part ?r" "config_part r' = config_part ?r"
    "prefetch_pool_handle r' = prefetch_pool_handle ?r" using r0 by (simp_all add: inv_part_def config_part_def)
  have "sys_ok (go s w p' r') C F X"
  proof (rule sys_step_same[OF ok w _ same])
    show "flight p' = flight (workers s ! w)" using p by (cases k) (simp_all add: p')
  qed (use sys_okD(4)[OF ok w] p in \<open>auto simp: p' claims_def split: if_splits\<close>)
  then show ?thesis by blast
qed

lemma step_lock_demand:
  assumes ok: "sys_ok s C F X" and w: "w < length (workers s)" and p: "workers s ! w = Wants_lock Dem i"
    and f: "work K (Wants_lock Dem i) (reg s) = Inr (p', r')"
  shows "\<exists>C F X. sys_ok (go s w p' r') C F X"
proof -
  let ?r = "reg s"
  have p': "\<exists>x. p' = At_reserve Dem 200 x \<and> cx_chunk x = i" and r': "r' = ?r\<lparr>clk_pos := clk_pos ?r + 1\<rparr>"
    using f by (auto simp: now_ns_def Let_def split: if_splits)
  then obtain x where x: "p' = At_reserve Dem 200 x" "cx_chunk x = i" by blast
  have same: "inv_part r' = inv_part ?r" "config_part r' = config_part ?r"
    "prefetch_pool_handle r' = prefetch_pool_handle ?r" by (simp_all add: r' inv_part_def config_part_def)
  have "sys_ok (go s w p' r') C F X"
    by (rule sys_step_same[OF ok w _ same]) (use sys_okD(4)[OF ok w] p x in \<open>simp_all add: claims_def pin_of_def\<close>)
  then show ?thesis by blast
qed

lemma step_top_up:
  assumes ok: "sys_ok s C F X" and w: "w < length (workers s)" and p: "workers s ! w = At_top_up x"
    and f: "work K (At_top_up x) (reg s) = Inr (p', r')"
  shows "\<exists>C F X. sys_ok (go s w p' r') C F X"
proof (cases "prefetch_enabled (reg s)")
  case False
  then have r': "p' = At_release Dem x" "r' = reg s" using f by simp_all
  have "sys_ok (go s w p' r') C F X"
    by (rule sys_step_same[OF ok w]) (use sys_okD(4)[OF ok w] p r' in \<open>simp_all add: claims_def\<close>)
  then show ?thesis by blast
next
  case True
  let ?r = "reg s" and ?i = "cx_chunk x"
  have r': "p' = At_release Dem x" "r' = prefetch_pool_top_up K ?r ?i" using f True by simp_all
  have ci: "chunk_is ?r C F X ?i CHUNK_RESIDENT False 1 True" using sys_okD(4)[OF ok w] p by simp
  have cl: "claims (workers s ! w) = Some ?i" using p by (simp add: claims_def)
  obtain pool where h: "prefetch_pool_handle ?r = Some pool" and pk: "pool_ok (n_chunks ?r) pool"
    using sys_okD(1)[OF ok] by (auto simp: dispatch_inv_def)
  from top_up_ok[OF h pk, of K ?i] obtain pool' where
    h': "prefetch_pool_handle r' = Some pool'" and T: "topped_up ?r ?i pool pool'" using r'(2) by blast
  from top_up_effect[of K ?r ?i] obtain c hh where e: "r' = ?r\<lparr>clk_pos := c, prefetch_pool_handle := hh\<rparr>"
    using r'(2) by blast
  have same: "inv_part r' = inv_part ?r" "config_part r' = config_part ?r" "chunks r' = chunks ?r"
    "resident_bytes r' = resident_bytes ?r" "reserved_bytes r' = reserved_bytes ?r" "budget_bytes r' = budget_bytes ?r"
    by (simp_all add: e inv_part_def config_part_def)
  have inv: "budget_inv r' C F X" using budget_inv_cong[OF same(1)] sys_okD(2)[OF ok] by simp
  note O = own_claim[OF ok w cl]
  have fl: "flight ((workers s)[w := p'] ! v) = flight (workers s ! v)" if "v < length (workers s)" for v
    using that p by (cases "v = w") (simp_all add: r')
  have jb: "apart flight (workers s)"
    "\<And>i. i \<in> tracked pool \<longleftrightarrow> i \<in> set (ring_list (pf_queue pool)) \<or> (\<exists>v<length (workers s). flight (workers s ! v) = Some i)"
    "\<And>v i. v < length (workers s) \<Longrightarrow> flight (workers s ! v) = Some i \<Longrightarrow> i \<notin> set (ring_list (pf_queue pool))"
    using sys_okD(6)[OF ok] h by (auto simp: jobs_ok_def)
  obtain l where l: "ring_list (pf_queue pool') = ring_list (pf_queue pool) @ l" "set l = tracked pool' - tracked pool"
    "tracked pool \<subseteq> tracked pool'" using T by (auto simp: topped_up_def)
  have tr: "i \<in> tracked pool' \<longleftrightarrow> i \<in> set (ring_list (pf_queue pool'))
      \<or> (\<exists>v<length (workers s). flight (workers s ! v) = Some i)" for i
    using l jb(2)[of i] by auto
  have nq: "i \<notin> set (ring_list (pf_queue pool'))" if "v < length (workers s)" "flight (workers s ! v) = Some i" for v i
    using l jb(2)[of i] jb(3)[OF that] that by auto
  have "sys_ok (go s w p' r') C F X"
  proof (rule sys_step[OF ok w _ O(1) inv frame_same[OF same(1,2)]])
    have "apart flight ((workers s)[w := p'])" using jb(1) by (simp add: apart_def fl)
    then show "jobs_ok (go s w p' r')" using tr nq by (simp add: jobs_ok_def h' fl cong: conj_cong)
    have "demand_queue pool' = demand_queue pool" using T by (simp add: topped_up_def)
    then show "set (demand_list r') = set (demand_list ?r) - {?i}"
      using O(2) h h' by (simp add: demand_list_def)
    show "\<exists>pool. prefetch_pool_handle r' = Some pool \<and> pool_ok (n_chunks ?r) pool"
      using h' T by (simp add: topped_up_def)
    show "phase_ok r' C F X p'" using ci same(3) by (simp add: r'(1) chunk_is_def)
  qed (use cl ci sys_okD(7)[OF ok] same in \<open>simp_all add: r'(1) claims_def chunk_is_def\<close>)
  then show ?thesis by blast
qed

text \<open>An eviction, seen from the chunk of the thread that makes it.\<close>

lemma evict_frame:
  assumes inv: "budget_inv r C F X" and ev: "evict_and_reconcile K r v = Inr r'" and v: "v < n_chunks r"
    and i: "i < n_chunks r" "state (chunk_at r i) = CHUNK_FETCHING"
  shows "budget_inv r' (C - {v}) F X" "frame i r C F X r' (C - {v}) F X" "chunk_at r' i = chunk_at r i"
    "prefetch_pool_handle r' = prefetch_pool_handle r"
    "unat (resident_bytes r') \<le> unat (resident_bytes r)" "reserved_bytes r' = reserved_bytes r"
proof -
  from evict_and_reconcile_effect[OF ev] obtain r1 where e1: "evict_chunk K r v = Inr r1"
    and r': "r' = r1\<lparr>fetches_since_reconcile := 0\<rparr>" by blast
  note E = evict_chunk_effect[OF e1 v] and I = evict_chunk_inv[OF inv e1 v]
  have part: "inv_part r' = inv_part r1" by (simp add: r' inv_part_def)
  show inv': "budget_inv r' (C - {v}) F X" using budget_inv_cong[OF part] I(1) by simp
  have st: "state (chunk_at r v) = CHUNK_RESIDENT" "pin (chunk_at r v) = 0" using E(1) by (auto simp: evictable_def)
  have ne: "i \<noteq> v" using i st by auto
  have ch: "chunks r' = (chunks r)[v := (chunk_at r v)\<lparr>state := CHUNK_ABSENT\<rparr>]"
    and mem: "memfd r' = (\<lambda>b. if in_chunk (chunk_at r v) b then None else memfd r b)"
    and oth: "prefetch_pool_handle r' = prefetch_pool_handle r" "resident_bytes r' = resident_bytes r - len (chunk_at r v)"
      "reserved_bytes r' = reserved_bytes r"
    using E(2) by (auto simp: r' upd_chunk_def punch_def in_chunk_def)
  show "chunk_at r' i = chunk_at r i" using ne by (simp add: ch)
  show "prefetch_pool_handle r' = prefetch_pool_handle r" "reserved_bytes r' = reserved_bytes r" by (rule oth)+
  have t: "tiles 0 (chunks r) (unat (region_len r))" using inv by (auto simp: budget_inv_def geometry_ok_def)
  have cfg: "config_part r' = config_part r"
    using static_config[OF I(2)] by (simp add: r' config_part_def)
  have Xv: "X v = 0" using inv v st by (auto simp: budget_inv_def pins_ok_def split: if_splits)
  show "frame i r C F X r' (C - {v}) F X"
    unfolding frame_def
  proof (intro conjI allI impI)
    fix j assume j: "j < n_chunks r"
    show "geom (chunk_at r' j) = geom (chunk_at r j)" using j v by (simp add: ch nth_list_update geom_def)
    show "if state (chunk_at r j) = CHUNK_RESIDENT \<and> X j = 0
        then state (chunk_at r' j) = CHUNK_RESIDENT \<or> state (chunk_at r' j) = CHUNK_ABSENT
        else state (chunk_at r' j) = state (chunk_at r j) \<and> (j \<in> C - {v} \<longleftrightarrow> j \<in> C)"
      using j v st(1) Xv by (auto simp: ch nth_list_update)
    fix b assume "state (chunk_at r j) = CHUNK_FETCHING" "in_chunk (chunk_at r j) b"
    then have "\<not> in_chunk (chunk_at r v) b" using in_chunk_unique[OF t j v] st(1) by (cases "j = v") auto
    then show "memfd r' b = memfd r b" by (simp add: mem)
  qed (use cfg ch in auto)
  have vC: "v \<in> C" "C \<subseteq> {..<n_chunks r}" using inv v st(1) by (auto simp: budget_inv_def acct_def)
  have fin: "finite C" using vC(2) finite_subset by blast
  have u: "unat (resident_bytes r) = nbytes_of (chunks r) C"
    using inv unat_bytes_of[OF t _ vC(2)] u64_bound[of "region_len r"] by (simp add: budget_inv_def acct_def)
  have "unat (len (chunk_at r v)) \<le> nbytes_of (chunks r) C"
    using nbytes_of_mono[OF fin, of "{v}" "chunks r"] vC(1) by (simp add: nbytes_of_def)
  then have "len (chunk_at r v) \<le> resident_bytes r" using u by (simp add: word_le_nat_alt)
  then show "unat (resident_bytes r') \<le> unat (resident_bytes r)"
    by (simp add: oth(2) unat_sub)
qed

lemma reserve_room:
  assumes "budget_inv r C F X" "i < n_chunks r" "i \<notin> C \<union> F" "state (chunk_at r i) = CHUNK_FETCHING"
    and "\<not> over_budget r (len (chunk_at r i))"
  shows "unat (resident_bytes (reserve (len (chunk_at r i)) r)) + unat (reserved_bytes (reserve (len (chunk_at r i)) r))
      \<le> unat (budget_bytes r)"
  using reserve_after_evictions[OF assms(1-4) evict_ok_refl[OF assms(1) refl refl] assms(5)]
  by (simp add: reserved_for_def)

lemma step_evict_victim:
  assumes ok: "sys_ok s C F X" and w: "w < length (workers s)" and p: "workers s ! w = At_evict k n x"
    and inv: "budget_inv r0 C F X" and f0: "frame (cx_chunk x) (reg s) C F X r0 C F X"
    and r0: "chunk_at r0 (cx_chunk x) = chunk_at (reg s) (cx_chunk x)"
      "prefetch_pool_handle r0 = prefetch_pool_handle (reg s)"
      "resident_bytes r0 = resident_bytes (reg s)" "reserved_bytes r0 = reserved_bytes (reg s)"
    and v: "v < n_chunks (reg s)" and ev: "evict_and_reconcile K r0 v = Inr r'"
  shows "\<exists>C F X. sys_ok (go s w (At_evict k n x) r') C F X"
proof -
  let ?r = "reg s" and ?i = "cx_chunk x"
  have n: "n_chunks r0 = n_chunks ?r" by (rule frame_bound[OF f0])
  have ci: "chunk_is ?r C F X ?i CHUNK_FETCHING False (pin_of k) False" using sys_okD(4)[OF ok w] p by simp
  then have i: "?i < n_chunks r0" "state (chunk_at r0 ?i) = CHUNK_FETCHING" using r0(1) n by (simp_all add: chunk_is_def)
  have v0: "v < n_chunks r0" using v n by simp
  note E = evict_frame[OF inv ev v0 i]
  note fr = frame_trans[OF f0 E(2)]
  have bb: "budget_bytes r' = budget_bytes ?r" "n_chunks r' = n_chunks ?r" using fr by (simp_all add: frame_def config_part_def)
  have "sys_ok (go s w (At_evict k n x) r') (C - {v}) F X"
    by (rule sys_step_at[OF ok w _ E(1) fr])
      (use p ci E(3-6) r0 bb sys_okD(7)[OF ok] in \<open>auto simp: claims_def chunk_is_def\<close>)
  then show ?thesis by blast
qed

lemma broken_pin_frame:
  "frame i r C F X (broken_pin r v) C F X \<and> (i \<noteq> v \<longrightarrow> chunk_at (broken_pin r v) i = chunk_at r i)
     \<and> prefetch_pool_handle (broken_pin r v) = prefetch_pool_handle r
     \<and> resident_bytes (broken_pin r v) = resident_bytes r \<and> reserved_bytes (broken_pin r v) = reserved_bytes r"
proof (cases "ring_remove (pinned_prefetch r) v")
  case None
  then show ?thesis
    by (auto simp: broken_pin_def prefetch_retain_release_def config_part_def intro!: frameI)
next
  case (Some q)
  let ?c = "(chunk_at r v)\<lparr>pin := pin (chunk_at r v) - 1\<rparr>"
  have ch: "chunks (broken_pin r v) = (chunks r)[v := ?c]"
    by (simp add: broken_pin_def prefetch_retain_release_def Some upd_chunk_def)
  have "geom ((chunks r)[v := ?c] ! j) = geom (chunk_at r j)" "state ((chunks r)[v := ?c] ! j) = state (chunk_at r j)"
    if "j < n_chunks r" for j using that by (cases "j = v"; simp add: geom_def)+
  then have "frame i r C F X (broken_pin r v) C F X"
    by (intro frameI) (simp_all add: ch, simp_all add: broken_pin_def prefetch_retain_release_def Some upd_chunk_def config_part_def)
  then show ?thesis
    by (simp add: ch) (simp add: broken_pin_def prefetch_retain_release_def Some upd_chunk_def)
qed

lemma step_evict:
  assumes ok: "sys_ok s C F X" and w: "w < length (workers s)" and p: "workers s ! w = At_evict k n x"
    and f: "reserve_round K k (cx_chunk x) s = Some (Inr (b, r'))"
  shows "\<exists>C F X. sys_ok (go s w (next_phase k n x b) r') C F X"
proof -
  let ?r = "reg s" and ?i = "cx_chunk x"
  let ?need = "len (chunk_at ?r ?i)"
  have ci: "chunk_is ?r C F X ?i CHUNK_FETCHING False (pin_of k) False" using sys_okD(4)[OF ok w] p by simp
  then have i: "?i < n_chunks ?r" "?i \<notin> C \<union> F" "state (chunk_at ?r ?i) = CHUNK_FETCHING" by (auto simp: chunk_is_def)
  note inv = sys_okD(2)[OF ok]
  have cl: "claims (workers s ! w) = Some ?i" using p by (simp add: claims_def)
  consider (room) "\<not> over_budget ?r ?need" "b = Some True" "r' = reserve ?need ?r"
    | (refused) "b = Some False" "inv_part r' = inv_part ?r" "config_part r' = config_part ?r"
        "prefetch_pool_handle r' = prefetch_pool_handle ?r"
    | (victim) v r0 where "b = None" "select_victim ?r = Some v" "record_policy_trace ?r v = Inr r0"
        "evict_and_reconcile K r0 v = Inr r'"
    | (pinned) v where "b = None" "pin_break_select_victim ?r = Some v" "v < n_chunks ?r"
        "evict_and_reconcile K (broken_pin ?r v) v = Inr r'"
    using f by (auto simp: reserve_round_def Let_def rbind_Inr_iff inv_part_def config_part_def
        split: if_splits option.splits)
  then show ?thesis
  proof cases
    case room
    have iv: "budget_inv r' C (insert ?i F) X" using reserve_inv[OF inv i] room(3) by simp
    have same: "chunks r' = chunks ?r" "memfd r' = memfd ?r" "config_part r' = config_part ?r"
      "prefetch_pool_handle r' = prefetch_pool_handle ?r" "budget_bytes r' = budget_bytes ?r"
      by (simp_all add: room(3) reserve_def config_part_def)
    have "frame ?i ?r C F X r' C (insert ?i F) X" using same by (intro frameI) simp_all
    then have "sys_ok (go s w (At_read k x) r') C (insert ?i F) X"
    proof (rule sys_step_at[OF ok w cl iv])
      show "flight (At_read k x) = flight (workers s ! w)" using p by (cases k) simp_all
      show "unat (resident_bytes r') + unat (reserved_bytes r') \<le> unat (budget_bytes r')"
        using reserve_room[OF inv i room(1)] room(3) same(5) by simp
    qed (use ci same in \<open>simp_all add: claims_def chunk_is_def\<close>)
    then show ?thesis using room(2) by auto
  next
    case refused
    have "sys_ok (go s w (next_phase k n x b) r') C F X"
    proof (rule sys_step_same[OF ok w cl refused(2-4)])
      show "flight (next_phase k n x b) = flight (workers s ! w)"
        using p by (cases k) (simp_all add: refused(1))
      show "phase_ok ?r C F X (next_phase k n x b)"
        using ci by (cases k) (simp_all add: refused(1) pin_of_def)
      show "claims (next_phase k n x b) = Some ?i \<or> claims (next_phase k n x b) = None \<and> ?i \<notin> F \<and> X ?i = 0
          \<and> state (chunk_at ?r ?i) \<noteq> CHUNK_FETCHING"
        by (cases k) (simp_all add: refused(1) claims_def)
    qed (use p in \<open>simp add: refused(1)\<close>)
    then show ?thesis by blast
  next
    case victim
    from record_policy_trace_effect[OF victim(3)] obtain pt where r0: "r0 = ?r\<lparr>diag_policy_trace := pt\<rparr>" .
    have iv: "budget_inv r0 C F X" by (rule record_policy_trace_ok(2)[OF inv victim(3)])
    have "frame ?i ?r C F X r0 C F X" by (rule frame_same) (simp_all add: r0 inv_part_def config_part_def)
    from step_evict_victim[OF ok w p iv this _ _ _ _ _ victim(4)] show ?thesis
      using select_victim_sound[OF victim(2)] by (simp add: r0 victim(1))
  next
    case pinned
    have vr: "v \<in> retained ?r" using pin_break_spec[of ?r X] inv pinned(2) by auto
    have ne: "?i \<noteq> v"
      using owned_not_retained[OF inv ci] vr by auto
    from step_evict_victim[OF ok w p broken_pin_ok(2)[OF inv vr] _ _ _ _ _ pinned(3,4)] show ?thesis
      using broken_pin_frame[of ?i ?r C F X v] ne by (simp add: pinned(1))
  qed
qed

section \<open>Taking and ending a job\<close>

lemma ex_update:
  "w < length ps \<Longrightarrow> (\<exists>v<length ps. f (ps[w := p] ! v) = Some j) \<longleftrightarrow>
     f p = Some j \<or> (\<exists>v<length ps. v \<noteq> w \<and> f (ps ! v) = Some j)"
  by (auto simp: nth_list_update)

lemma ex_other:
  "w < length ps \<Longrightarrow> (\<exists>v<length ps. f (ps ! v) = Some j) \<longleftrightarrow>
     f (ps ! w) = Some j \<or> (\<exists>v<length ps. v \<noteq> w \<and> f (ps ! v) = Some j)"
  by auto

lemma phase_bound: "phase_ok r C F X p \<Longrightarrow> claims p = Some i \<Longrightarrow> i < n_chunks r"
  by (cases "(r, C, F, X, p)" rule: phase_ok.cases) (auto simp: claims_def chunk_is_def)

lemma sys_step_idle:
  assumes ok: "sys_ok s C F X" and w: "w < length (workers s)"
    and cl: "claims (workers s ! w) = None" "claims p' = None" "\<not> in_budget p'"
    and same: "inv_part r' = inv_part (reg s)" "config_part r' = config_part (reg s)"
    and new: "phase_ok (reg s) C F X p'" and jobs: "jobs_ok (go s w p' r')"
    and dl: "demand_list r' = demand_list (reg s)"
    and pool: "\<exists>pool. prefetch_pool_handle r' = Some pool \<and> pool_ok (n_chunks (reg s)) pool"
  shows "sys_ok (go s w p' r') C F X"
proof -
  let ?r = "reg s"
  have ch: "chunks r' = chunks ?r" "resident_bytes r' = resident_bytes ?r" "reserved_bytes r' = reserved_bytes ?r"
    using same(1) by (simp_all add: inv_part_def)
  have cfg: "budget_bytes r' = budget_bytes ?r" "async_handler r' = async_handler ?r"
    using same(2) by (simp_all add: config_part_def)
  have clm: "claimed (go s w p' r') j = claimed s j" for j
    using cl ex_update[OF w, of claims p' j] ex_other[OF w, of claims j] by (simp add: claimed_def)
  have "dispatch_inv r' C F X"
    using sys_okD(1)[OF ok] budget_inv_cong[OF same(1)] pool by (simp add: dispatch_inv_def idle_ok_def ch dl)
  moreover have "list_all (phase_ok r' C F X) ((workers s)[w := p'])"
    using sys_okD(4)[OF ok] new w by (simp add: phase_ok_cong[OF same(1)] list_all_length nth_list_update)
  moreover have "apart claims ((workers s)[w := p'])"
    using cl by (intro apart_update[OF sys_okD(5)[OF ok] w]) simp
  moreover have "apart (\<lambda>p. if in_budget p then Some (0::nat) else None) ((workers s)[w := p'])"
    using ok cl(3) by (intro apart_update[OF _ w]) (simp_all add: sys_ok_def)
  moreover have "starts_in_file r' j" if "j < n_chunks ?r" for j
    using starts_in_file_cong[OF same(2)] sys_okD(8)[OF ok] that ch by simp
  moreover have "unowned r' C F X = unowned ?r C F X" by (simp add: unowned_def ch dl fun_eq_iff)
  ultimately show ?thesis
    using ok jobs by (simp add: sys_ok_def clm ch cfg dl)
qed

lemma jobs_okD:
  assumes "jobs_ok s" "prefetch_pool_handle (reg s) = Some pool"
  shows "apart flight (workers s)"
    and "i \<in> tracked pool \<longleftrightarrow> i \<in> set (ring_list (pf_queue pool)) \<or> (\<exists>v<length (workers s). flight (workers s ! v) = Some i)"
    and "v < length (workers s) \<Longrightarrow> flight (workers s ! v) = Some i \<Longrightarrow> i \<notin> set (ring_list (pf_queue pool))"
  using assms unfolding jobs_ok_def by blast+

lemma sys_pool:
  assumes "sys_ok s C F X"
  obtains pool where "prefetch_pool_handle (reg s) = Some pool" "pool_ok (n_chunks (reg s)) pool"
  using sys_okD(1)[OF assms] by (auto simp: dispatch_inv_def)

lemma step_lock_prefetch:
  assumes ok: "sys_ok s C F X" and w: "w < length (workers s)" and p: "workers s ! w = Wants_lock Pre i"
    and l: "lock_free s i" and f: "work K (Wants_lock Pre i) (reg s) = Inr (p', r')"
  shows "\<exists>C F X. sys_ok (go s w p' r') C F X"
proof -
  let ?r = "reg s"
  have iN: "i < n_chunks ?r" using sys_okD(4)[OF ok w] p by simp
  obtain pool where h: "prefetch_pool_handle ?r = Some pool" "pool_ok (n_chunks ?r) pool" by (rule sys_pool[OF ok])
  show ?thesis
  proof (cases "state (chunk_at ?r i) = CHUNK_ABSENT")
    case False
    then have r': "p' = At_finish i" "r' = ?r" using f by simp_all
    have "jobs_ok (go s w p' r')" using p by (intro jobs_ok_same[OF sys_okD(6)[OF ok] w]) (simp_all add: r')
    then have "sys_ok (go s w p' r') C F X"
      using p iN h by (intro sys_step_idle[OF ok w]) (simp_all add: r' claims_def)
    then show ?thesis by blast
  next
    case True
    then obtain x where x: "p' = At_begin x" "cx_chunk x = i" and r': "r' = ?r\<lparr>clk_pos := clk_pos ?r + 1\<rparr>"
      using f by (auto simp: now_ns_def Let_def)
    have same: "inv_part r' = inv_part ?r" "config_part r' = config_part ?r" "chunks r' = chunks ?r"
      "prefetch_pool_handle r' = prefetch_pool_handle ?r" "resident_bytes r' = resident_bytes ?r"
      "reserved_bytes r' = reserved_bytes ?r" "budget_bytes r' = budget_bytes ?r"
      by (simp_all add: r' inv_part_def config_part_def)
    have X0: "X i = 0" using sys_okD(3)[OF ok] iN True by (simp add: idle_ok_def)
    have un: "i \<notin> C \<union> F" by (rule absent_unheld(1)[OF sys_okD(2)[OF ok] iN True])
    have ci: "chunk_is ?r C F X i CHUNK_ABSENT False 0 False" using iN True X0 un by (simp add: chunk_is_def)
    have oth: "claims (workers s ! v) \<noteq> Some i" if "v < length (workers s)" for v
    proof
      assume c: "claims (workers s ! v) = Some i"
      have "mutex (workers s ! v) \<noteq> Some i" using l that by (simp add: lock_free_def list_all_length)
      with c have "workers s ! v = Wants_lock Dem i"
        by (auto simp: claims_def split: phase.splits kind.splits)
      then show False using sys_okD(4)[OF ok that] True by (simp add: chunk_is_def)
    qed
    have nd: "i \<notin> set (demand_list ?r)" using sys_okD(1)[OF ok] True by (auto simp: dispatch_inv_def)
    have "sys_ok (go s w p' r') C F X"
    proof (rule sys_step[OF ok w _ oth _ frame_same[OF same(1,2)]])
      show "jobs_ok (go s w p' r')"
        using p by (intro jobs_ok_same[OF sys_okD(6)[OF ok] w]) (simp_all add: same x)
      show "budget_inv r' C F X" using budget_inv_cong[OF same(1)] sys_okD(2)[OF ok] by simp
      show "set (demand_list r') = set (demand_list ?r) - {i}" using nd handle_demand_list[OF same(4)] by simp
      show "phase_ok r' C F X p'" using ci x same(3) by (simp add: chunk_is_def)
    qed (use p x same h X0 sys_okD(7)[OF ok] in \<open>simp_all add: claims_def\<close>)
    then show ?thesis by blast
  qed
qed

lemma step_take_demand:
  assumes ok: "sys_ok s C F X" and w: "w < length (workers s)" and p: "workers s ! w = Idle"
    and h: "prefetch_pool_handle (reg s) = Some pool" and t: "worker_take pool = Some (Demand i, pool')"
  shows "\<exists>C F X. sys_ok (go s w (Wants_lock Dem i) ((reg s)\<lparr>prefetch_pool_handle := Some pool'\<rparr>)) C F X"
proof -
  let ?r = "reg s" and ?r' = "(reg s)\<lparr>prefetch_pool_handle := Some pool'\<rparr>"
  have pk: "pool_ok (n_chunks ?r) pool" using sys_okD(1)[OF ok] h by (simp add: dispatch_inv_def)
  from worker_take_ok[OF pk] t have T: "ring_list (demand_queue pool) = i # ring_list (demand_queue pool')"
    "pool_ok (n_chunks ?r) pool'" "tracked pool' = tracked pool" "pf_queue pool' = pf_queue pool" by simp_all
  have dl: "demand_list ?r = i # demand_list ?r'" using T(1) h by (simp add: demand_list_def)
  have di: "distinct (demand_list ?r)" using pk h by (simp add: demand_list_def pool_ok_def)
  have iN: "i < n_chunks ?r" using pk T(1) by (auto simp: pool_ok_def)
  have ci: "chunk_is ?r C F X i CHUNK_FETCHING False 0 False"
    using sys_okD(1)[OF ok] dl iN by (auto simp: dispatch_inv_def chunk_is_def)
  have same: "inv_part ?r' = inv_part ?r" "config_part ?r' = config_part ?r" by (simp_all add: inv_part_def config_part_def)
  have fl: "flight ((workers s)[w := Wants_lock Dem i] ! v) = flight (workers s ! v)" if "v < length (workers s)" for v
    using that p by (cases "v = w") simp_all
  have oth: "claims (workers s ! v) \<noteq> Some i" if "v < length (workers s)" for v
    using ok dl that by (auto simp: sys_ok_def claimed_def)
  note J = jobs_okD[OF sys_okD(6)[OF ok] h]
  have "sys_ok (go s w (Wants_lock Dem i) ?r') C F X"
  proof (rule sys_step[OF ok w _ oth _ frame_same[OF same]])
    have "apart flight ((workers s)[w := Wants_lock Dem i])" using J(1) by (simp add: apart_def fl)
    then show "jobs_ok (go s w (Wants_lock Dem i) ?r')"
      using J(2,3) T(3,4) by (simp add: jobs_ok_def fl cong: conj_cong)
    show "budget_inv ?r' C F X" using budget_inv_cong[OF same(1)] sys_okD(2)[OF ok] by simp
    show "set (demand_list ?r') = set (demand_list ?r) - {i}" using dl di by auto
    show "phase_ok ?r' C F X (Wants_lock Dem i)" using ci by (simp add: chunk_is_def)
  qed (use p ci T(2) sys_okD(7)[OF ok] in \<open>simp_all add: claims_def chunk_is_def\<close>)
  then show ?thesis by blast
qed

lemma step_take_prefetch:
  assumes ok: "sys_ok s C F X" and w: "w < length (workers s)" and p: "workers s ! w = Idle"
    and h: "prefetch_pool_handle (reg s) = Some pool" and t: "worker_take pool = Some (Speculative i, pool')"
  shows "\<exists>C F X. sys_ok (go s w (Wants_lock Pre i) ((reg s)\<lparr>prefetch_pool_handle := Some pool'\<rparr>)) C F X"
proof -
  let ?r = "reg s" and ?r' = "(reg s)\<lparr>prefetch_pool_handle := Some pool'\<rparr>" and ?ps = "(workers s)[w := Wants_lock Pre i]"
  have pk: "pool_ok (n_chunks ?r) pool" using sys_okD(1)[OF ok] h by (simp add: dispatch_inv_def)
  from worker_take_ok[OF pk] t have T: "ring_list (pf_queue pool) = i # ring_list (pf_queue pool')"
    "pool_ok (n_chunks ?r) pool'" "tracked pool' = tracked pool" "demand_queue pool' = demand_queue pool" by simp_all
  have di: "distinct (ring_list (pf_queue pool))" using pk by (simp add: pool_ok_def)
  note J = jobs_okD[OF sys_okD(6)[OF ok] h]
  have it: "i \<in> tracked pool" using J(2)[of i] T(1) by simp
  then have iN: "i < n_chunks ?r" using tracked_bounds[OF pk] by auto
  have nf: "flight (workers s ! v) \<noteq> Some i" if "v < length (workers s)" for v using J(3)[OF that, of i] T(1) by auto
  have fw: "flight (?ps ! v) = (if v = w then Some i else flight (workers s ! v))" if "v < length (workers s)" for v
    using that by simp
  have "apart flight ?ps" using nf by (intro apart_update[OF J(1) w]) simp
  moreover have "(j \<in> tracked pool') = (j \<in> set (ring_list (pf_queue pool')) \<or> (\<exists>v<length (workers s). flight (?ps ! v) = Some j))" for j
  proof -
    have "(\<exists>v<length (workers s). flight (?ps ! v) = Some j) \<longleftrightarrow> j = i \<or> (\<exists>v<length (workers s). flight (workers s ! v) = Some j)"
      using p ex_update[OF w, of flight "Wants_lock Pre i" j] ex_other[OF w, of flight j] by auto
    then show ?thesis using J(2)[of j] T(1,3) by auto
  qed
  moreover have "j \<notin> set (ring_list (pf_queue pool'))" if "v < length (workers s)" "flight (?ps ! v) = Some j" for v j
    using that fw[OF that(1)] J(3)[OF that(1), of j] T(1) di by (auto split: if_splits)
  ultimately have jobs: "jobs_ok (go s w (Wants_lock Pre i) ?r')" by (simp add: jobs_ok_def)
  have "sys_ok (go s w (Wants_lock Pre i) ?r') C F X"
    using p iN T h by (intro sys_step_idle[OF ok w _ _ _ _ _ _ jobs])
      (simp_all add: claims_def inv_part_def config_part_def demand_list_def)
  then show ?thesis by blast
qed

lemma step_finish:
  assumes ok: "sys_ok s C F X" and w: "w < length (workers s)" and p: "workers s ! w = At_finish i"
    and f: "work K (At_finish i) (reg s) = Inr (p', r')"
  shows "\<exists>C F X. sys_ok (go s w p' r') C F X"
proof -
  let ?r = "reg s" and ?ps = "(workers s)[w := Idle]"
  obtain pool where h: "prefetch_pool_handle ?r = Some pool" "pool_ok (n_chunks ?r) pool" by (rule sys_pool[OF ok])
  have r': "p' = Idle" "r' = ?r\<lparr>prefetch_pool_handle := Some (job_done i pool)\<rparr>" using f h(1) by simp_all
  note J = jobs_okD[OF sys_okD(6)[OF ok] h(1)]
  have fw: "flight (workers s ! w) = Some i" using p by simp
  have it: "i \<in> tracked pool" "i \<notin> set (ring_list (pf_queue pool))" using J(2)[of i] J(3)[OF w fw] w fw by auto
  note D = job_done_ok[OF h(2) it]
  have q: "pf_queue (job_done i pool) = pf_queue pool" "demand_queue (job_done i pool) = demand_queue pool"
    by (simp_all add: job_done_def)
  have fv: "flight (?ps ! v) = (if v = w then None else flight (workers s ! v))" if "v < length (workers s)" for v
    using that by simp
  have "apart flight ?ps" by (intro apart_update[OF J(1) w]) simp
  moreover have "(j \<in> tracked (job_done i pool)) = (j \<in> set (ring_list (pf_queue pool)) \<or> (\<exists>v<length (workers s). flight (?ps ! v) = Some j))" for j
  proof -
    have o: "flight (workers s ! v) \<noteq> Some i" if "v < length (workers s)" "v \<noteq> w" for v
      by (rule apart_other[OF J(1) w fw that])
    have "(\<exists>v<length (workers s). flight (?ps ! v) = Some j) \<longleftrightarrow> (\<exists>v<length (workers s). v \<noteq> w \<and> flight (workers s ! v) = Some j)"
      using ex_update[OF w, of flight Idle j] by simp
    moreover have "(\<exists>v<length (workers s). flight (workers s ! v) = Some j) \<longleftrightarrow> j = i
        \<or> (\<exists>v<length (workers s). v \<noteq> w \<and> flight (workers s ! v) = Some j)"
      using ex_other[OF w, of flight j] fw by auto
    ultimately have "(\<exists>v<length (workers s). flight (?ps ! v) = Some j) \<longleftrightarrow> j \<noteq> i \<and> (\<exists>v<length (workers s). flight (workers s ! v) = Some j)"
      using o by auto
    then show ?thesis using J(2)[of j] D(2) it(2) by auto
  qed
  moreover have "j \<notin> set (ring_list (pf_queue pool))" if "v < length (workers s)" "flight (?ps ! v) = Some j" for v j
    using that fv[OF that(1)] J(3)[OF that(1), of j] by (auto split: if_splits)
  ultimately have jobs: "jobs_ok (go s w p' r')" by (simp add: jobs_ok_def r' q)
  have "sys_ok (go s w p' r') C F X"
    using p D(1) h q by (intro sys_step_idle[OF ok w _ _ _ _ _ _ jobs])
      (simp_all add: r' claims_def inv_part_def config_part_def demand_list_def)
  then show ?thesis by blast
qed

end
