(* ===== verification/Interleaving.thy ===== *)
theory Interleaving
  imports Worker_Steps
begin

text \<open>
  The whole system under every interleaving: the dispatcher's and the application's steps keep the
  invariant too, so it holds in every reachable state. From it: the byte bound on what is populated,
  no orphaned FETCHING chunk, no assertion of the code fails, and no deadlock over the two kinds of lock.
\<close>

section \<open>Any step of a worker\<close>

lemma act_eq:
  assumes "workers s ! w \<noteq> Idle" "\<not> in_budget (workers s ! w)"
  shows "act K s w = (if ready s (workers s ! w)
           then Some (map_sum id (\<lambda>(p', r). go s w p' r) (work K (workers s ! w) (reg s))) else None)"
  using assms by (cases "workers s ! w") (simp_all add: act_def)

lemma act_work:
  assumes "act K s w = Some (Inr s')" "workers s ! w = p" "p \<noteq> Idle" "\<not> in_budget p"
  obtains p' r' where "ready s p" "work K p (reg s) = Inr (p', r')" "s' = go s w p' r'"
proof -
  note e = act_eq[of s w K, unfolded assms(2), OF assms(3,4)]
  then have rd: "ready s p" using assms(1) by (simp split: if_splits)
  obtain y where y: "work K p (reg s) = Inr y" using e rd assms(1) by (cases "work K p (reg s)") auto
  obtain p' r' where "y = (p', r')" by force
  then show thesis using that rd y e assms(1) by auto
qed

lemma act_evict:
  assumes "act K s w = Some (Inr s')" "workers s ! w = At_evict k n x"
  obtains b r' where "reserve_round K k (cx_chunk x) s = Some (Inr (b, r'))" "s' = go s w (next_phase k n x b) r'"
proof -
  obtain y where y: "reserve_round K k (cx_chunk x) s = Some y" "map_sum id (\<lambda>(b, r). go s w (next_phase k n x b) r) y = Inr s'"
    using assms by (auto simp: act_def)
  obtain z where "y = Inr z" using y(2) by (cases y) simp_all
  moreover obtain b r' where "z = (b, r')" by force
  ultimately show thesis using that y by simp
qed

lemma act_keeps:
  assumes ok: "sys_ok s C F X" and w: "w < length (workers s)" and a: "act K s w = Some (Inr s')"
  shows "\<exists>C F X. sys_ok s' C F X"
proof (cases "workers s ! w = Idle \<or> in_budget (workers s ! w)")
  case True
  then consider "workers s ! w = Idle" | k n x where "workers s ! w = At_evict k n x"
    by (cases "workers s ! w") auto
  then show ?thesis
  proof cases
    case 1
    then obtain pool where h: "prefetch_pool_handle (reg s) = Some pool"
      using a by (cases "prefetch_pool_handle (reg s)") (simp_all add: act_def)
    obtain j pool' where t: "worker_take pool = Some (j, pool')"
      using a 1 h by (cases "worker_take pool") (auto simp: act_def)
    show ?thesis
    proof (cases j)
      case (Demand i)
      then show ?thesis using step_take_demand[OF ok w 1 h] t a 1 h by (simp add: act_def)
    next
      case (Speculative i)
      then show ?thesis using step_take_prefetch[OF ok w 1 h] t a 1 h by (simp add: act_def)
    qed
  next
    case 2
    then show ?thesis using step_evict[OF ok w 2] act_evict[OF a 2] by metis
  qed
next
  case False
  then obtain p' r' where rd: "ready s (workers s ! w)" and f: "work K (workers s ! w) (reg s) = Inr (p', r')"
    and s': "s' = go s w p' r'" using act_work[OF a refl] by blast
  have *: "\<And>p. workers s ! w = p \<Longrightarrow> work K p (reg s) = Inr (p', r')" using f by simp
  show ?thesis
  proof (cases "workers s ! w")
    case (Wants_lock k i)
    then have "lock_free s i" using rd by simp
    then show ?thesis
      using step_lock_demand[OF ok w _ *] step_lock_prefetch[OF ok w _ _ *] Wants_lock s' by (cases k) simp_all
  next
    case (At_begin x) then show ?thesis using step_begin[OF ok w _ *] s' by simp
  next
    case (At_reserve k n x)
    then have "budget_free s" using rd by simp
    then show ?thesis using step_reserve[OF ok w At_reserve _ *[OF At_reserve]] s' by simp
  next
    case (At_drop x) then show ?thesis using step_drop[OF ok w _ *] s' by simp
  next
    case (At_abandon k x) then show ?thesis using step_abandon[OF ok w _ *] s' by simp
  next
    case (At_read k x) then show ?thesis using step_read[OF ok w _ *] s' by simp
  next
    case (At_continue k x) then show ?thesis using step_continue[OF ok w _ *] s' by simp
  next
    case (At_commit k x) then show ?thesis using step_commit[OF ok w _ *] s' by simp
  next
    case (At_mark k x) then show ?thesis using step_mark[OF ok w _ *] s' by simp
  next
    case (At_top_up x) then show ?thesis using step_top_up[OF ok w _ *] s' by simp
  next
    case (At_release k x) then show ?thesis using step_release[OF ok w _ *] s' by simp
  next
    case (At_exit k x) then show ?thesis using step_exit[OF ok w _ *] s' by simp
  next
    case (At_finish i) then show ?thesis using step_finish[OF ok w _ *] s' by simp
  qed (use False in simp_all)
qed

section \<open>The dispatcher and the application\<close>

lemma sys_env:
  assumes ok: "sys_ok s C F X" and di: "dispatch_inv r' C F X" and fr: "frame i (reg s) C F X r' C F X"
    and nc: "\<not> claimed s i"
    and bytes: "resident_bytes r' = resident_bytes (reg s)" "reserved_bytes r' = reserved_bytes (reg s)"
    and jobs: "jobs_ok (s\<lparr>reg := r'\<rparr>)"
    and dl: "set (demand_list (reg s)) \<subseteq> set (demand_list r')" "set (demand_list r') \<subseteq> insert i (set (demand_list (reg s)))"
    and own: "i < n_chunks (reg s) \<Longrightarrow> unowned r' C F X i"
  shows "sys_ok (s\<lparr>reg := r'\<rparr>) C F X"
proof -
  let ?r = "reg s"
  have n: "n_chunks r' = n_chunks ?r" and cfg: "config_part r' = config_part ?r"
    and ge: "\<forall>j<n_chunks ?r. geom (chunk_at r' j) = geom (chunk_at ?r j)" using fr by (simp_all add: frame_def)
  have cl: "claimed (s\<lparr>reg := r'\<rparr>) j = claimed s j" for j by (simp add: claimed_def)
  have "list_all (phase_ok r' C F X) (workers s)"
    unfolding list_all_length
  proof (intro allI impI)
    fix w assume w: "w < length (workers s)"
    then have "claims (workers s ! w) \<noteq> Some i" using nc by (auto simp: claimed_def)
    then show "phase_ok r' C F X (workers s ! w)" using frame_phase_ok[OF fr sys_okD(4)[OF ok w]] by simp
  qed
  moreover have "unowned r' C F X j" if j: "j < n_chunks r'" "\<not> claimed s j" for j
  proof (cases "j = i")
    case True
    then show ?thesis using own j n by simp
  next
    case False
    have jn: "j < n_chunks ?r" using j n by simp
    have u: "unowned ?r C F X j" using ok jn j(2) by (simp add: sys_ok_def)
    note f = frame_at[OF fr jn False]
    have "state (chunk_at r' j) = CHUNK_RESIDENT" if c: "j \<in> C"
    proof -
      have "state (chunk_at ?r j) = CHUNK_RESIDENT \<and> X j = 0" using u c by (simp add: unowned_def)
      from f(4)[OF this] show ?thesis using acct_absent[of r' C F X j] di c by (auto simp: dispatch_inv_def)
    qed
    moreover have "j \<in> set (demand_list r')" if st: "state (chunk_at r' j) = CHUNK_FETCHING"
    proof -
      have "\<not> (state (chunk_at ?r j) = CHUNK_RESIDENT \<and> X j = 0)" using f(4) st by auto
      from f(5)[OF this] show ?thesis using st u dl(1) by (auto simp: unowned_def)
    qed
    ultimately show ?thesis using u by (auto simp: unowned_def)
  qed
  moreover have "starts_in_file r' j" if "j < n_chunks r'" for j
    using starts_in_file_cong[OF cfg] ge sys_okD(8)[OF ok] that n by simp
  moreover have "\<forall>j\<in>set (demand_list r'). \<not> claimed s j" using dl(2) nc ok by (auto simp: sys_ok_def)
  ultimately show ?thesis
    using ok di jobs cfg bytes by (simp add: sys_ok_def cl config_part_def)
qed

text \<open>The dispatcher only adds demand jobs to the pool.\<close>

definition pf_part where
  "pf_part pool = (pf_queue pool, tracked pool)"

lemma enqueue_pf_part: "prefetch_pool_enqueue_demand pool i = Inr pool' \<Longrightarrow> pf_part pool' = pf_part pool"
  by (auto simp: prefetch_pool_enqueue_demand_def pf_part_def tracked_def split: if_splits)

lemma jobs_ok_pf_part:
  assumes "jobs_ok s" "map_option pf_part (prefetch_pool_handle r') = map_option pf_part (prefetch_pool_handle (reg s))"
  shows "jobs_ok (s\<lparr>reg := r'\<rparr>)"
proof -
  have "\<exists>q. prefetch_pool_handle (reg s) = Some q \<and> pf_queue pool = pf_queue q \<and> tracked pool = tracked q"
    if "prefetch_pool_handle r' = Some pool" for pool
    using assms(2) that by (cases "prefetch_pool_handle (reg s)") (auto simp: pf_part_def)
  then show ?thesis using assms(1) unfolding jobs_ok_def by fastforce
qed

lemma handle_fault_pf_part:
  assumes "handle_fault K r rel m = Inr r'" "async_handler r"
  shows "map_option pf_part (prefetch_pool_handle r') = map_option pf_part (prefetch_pool_handle r)
    \<and> (\<forall>j<n_chunks r. geom (chunk_at r' j) = geom (chunk_at r j))"
proof -
  have d: "map_option pf_part (prefetch_pool_handle s') = map_option pf_part (prefetch_pool_handle s)
      \<and> (\<forall>j<n_chunks s. geom (chunk_at s' j) = geom (chunk_at s j))"
    if h: "handle_absent_dispatch K s i ft = Inr s'" for s s' i ft
  proof -
    let ?r1 = "mark_fetching (k_clock K (clk_pos s)) i (s\<lparr>clk_pos := clk_pos s + 1\<rparr>)"
    from h obtain r2 where r2: "record_fault K ?r1 (fault_seq ?r1) i ft 0 = Inr r2"
      and rest: "(case prefetch_pool_handle (policy_fault r2 i) of
              None \<Rightarrow> Inl Null_pool
            | Some pool \<Rightarrow>
                rbind (prefetch_pool_enqueue_demand pool i) (\<lambda>pool'.
                let (t_enqueue, r4) = now_ns K ((policy_fault r2 i)\<lparr>prefetch_pool_handle := Some pool'\<rparr>)
                in Inr (upd_chunk i (\<lambda>c. c\<lparr>diag_dispatch_entry_ns := k_clock K (clk_pos s),
                                           diag_dispatch_enqueue_ns := t_enqueue\<rparr>) r4))) = Inr s'"
      by (auto simp: handle_absent_dispatch_def now_ns_def Let_def rbind_Inr_iff)
    from record_fault_effect[OF r2] obtain t p where e: "r2 = ?r1\<lparr>clk_pos := p, trace_of := t\<rparr>" .
    have "prefetch_pool_handle (policy_fault r2 i) = prefetch_pool_handle s"
      using e by (simp add: policy_fault_def mark_fetching_def upd_chunk_def)
    moreover have "chunks (policy_fault r2 i) = (chunks s)[i := (chunk_at s i)
        \<lparr>state := CHUNK_FETCHING, fetching_since_ns := k_clock K (clk_pos s), last_fault_seq := fault_seq s + 1\<rparr>]"
      using e by (simp add: policy_fault_def mark_fetching_def upd_chunk_def)
    moreover obtain pool pool' where "prefetch_pool_handle (policy_fault r2 i) = Some pool"
      "prefetch_pool_enqueue_demand pool i = Inr pool'"
      and s': "s' = upd_chunk i (\<lambda>c. c\<lparr>diag_dispatch_entry_ns := k_clock K (clk_pos s),
             diag_dispatch_enqueue_ns := fst (now_ns K ((policy_fault r2 i)\<lparr>prefetch_pool_handle := Some pool'\<rparr>))\<rparr>)
           (snd (now_ns K ((policy_fault r2 i)\<lparr>prefetch_pool_handle := Some pool'\<rparr>)))"
      using rest by (cases "prefetch_pool_handle (policy_fault r2 i)") (auto simp: rbind_Inr_iff case_prod_beta Let_def)
    moreover have "prefetch_pool_handle s = Some pool" using calculation by simp
    ultimately have p: "map_option pf_part (prefetch_pool_handle s') = map_option pf_part (prefetch_pool_handle s)"
      and c: "chunks s' = (chunks s)[i := ((chunks s)[i := (chunk_at s i)
        \<lparr>state := CHUNK_FETCHING, fetching_since_ns := k_clock K (clk_pos s), last_fault_seq := fault_seq s + 1\<rparr>] ! i)
          \<lparr>diag_dispatch_entry_ns := k_clock K (clk_pos s),
             diag_dispatch_enqueue_ns := fst (now_ns K ((policy_fault r2 i)\<lparr>prefetch_pool_handle := Some pool'\<rparr>))\<rparr>]"
      using enqueue_pf_part[of pool i pool'] by (simp_all add: now_ns_def upd_chunk_def)
    have "geom (chunk_at s' j) = geom (chunk_at s j)" if "j < n_chunks s" for j
      using that unfolding c by (cases "j = i") (simp_all add: geom_def)
    then show ?thesis using p by blast
  qed
  show ?thesis
    using assms d[of "count_fault m r"]
    by (auto simp: handle_fault_def Let_def wake_range_def split: option.splits chunk_state.splits)
qed

lemma lookup_bound:
  assumes "sys_ok s C F X" "pager_lookup (chunks (reg s)) rel = Some i"
  shows "i < n_chunks (reg s)"
  using pager_lookup_iff[of "chunks (reg s)" "region_len (reg s)" rel i] sys_okD(2)[OF assms(1)] assms(2)
  by (auto simp: budget_inv_def geometry_ok_def)

lemma not_claimed_beyond:
  assumes "sys_ok s C F X" "n_chunks (reg s) \<le> i"
  shows "\<not> claimed s i"
  using phase_bound[OF sys_okD(4)[OF assms(1)]] assms(2) unfolding claimed_def by fastforce

lemma absent_free_unclaimed:
  assumes ok: "sys_ok s C F X" and l: "lock_free s i" and st: "state (chunk_at (reg s) i) = CHUNK_ABSENT"
  shows "\<not> claimed s i"
proof
  assume "claimed s i"
  then obtain w where w: "w < length (workers s)" "claims (workers s ! w) = Some i" by (auto simp: claimed_def)
  have "mutex (workers s ! w) \<noteq> Some i" using l w(1) by (simp add: lock_free_def list_all_length)
  with w(2) have "workers s ! w = Wants_lock Dem i" by (auto simp: claims_def split: phase.splits kind.splits)
  then show False using sys_okD(4)[OF ok w(1)] st by (simp add: chunk_is_def)
qed

lemma fault_keeps:
  assumes ok: "sys_ok s C F X" and lk: "pager_lookup (chunks (reg s)) rel = Some i" and l: "lock_free s i"
    and h: "handle_fault K (reg s) rel m = Inr r'"
  shows "sys_ok (s\<lparr>reg := r'\<rparr>) C F X"
proof -
  let ?r = "reg s" and ?N = "n_chunks (reg s)"
  have iN: "i < ?N" by (rule lookup_bound[OF ok lk])
  have D: "dispatch_inv r' C F X" "dispatched i ?r r'"
    using handle_fault_dispatches[OF sys_okD(1,9)[OF ok] lk iN, of K m] h by simp_all
  have d: "n_chunks r' = ?N" "\<And>j. j \<noteq> i \<Longrightarrow> chunk_at r' j = chunk_at ?r j" "memfd r' = memfd ?r"
    "reserved_bytes r' = reserved_bytes ?r" "resident_bytes r' = resident_bytes ?r" "config_part r' = config_part ?r"
    using D(2) by (simp_all add: dispatched_def)
  note jobs = jobs_ok_pf_part[OF sys_okD(6)[OF ok] conjunct1[OF handle_fault_pf_part[OF h sys_okD(9)[OF ok]]]]
  show ?thesis
  proof (cases "state (chunk_at ?r i) = CHUNK_ABSENT")
    case True
    then have e: "state (chunk_at r' i) = CHUNK_FETCHING" "demand_list r' = demand_list ?r @ [i]"
      using D(2) by (simp_all add: dispatched_def)
    have un: "i \<notin> C \<union> F" "X i = 0"
      using absent_unheld(1)[OF sys_okD(2)[OF ok] iN True] sys_okD(3)[OF ok] iN True by (auto simp: idle_ok_def)
    have ge: "geom (chunk_at r' j) = geom (chunk_at ?r j)" if "j < ?N" for j
      using handle_fault_pf_part[OF h sys_okD(9)[OF ok]] that by blast
    have "frame i ?r C F X r' C F X" using d ge by (intro frameI) simp_all
    then show ?thesis
      by (rule sys_env[OF ok D(1) _ absent_free_unclaimed[OF ok l True] d(5,4) jobs])
        (use e un in \<open>auto simp: unowned_def\<close>)
  next
    case False
    then have e: "chunk_at r' i = chunk_at ?r i" "demand_list r' = demand_list ?r"
      using D(2) by (cases "state (chunk_at ?r i)"; simp add: dispatched_def)+
    have "chunk_at r' j = chunk_at ?r j" for j using d(2) e(1) by (cases "j = i") simp_all
    then have "frame ?N ?r C F X r' C F X" using d by (intro frameI) simp_all
    then show ?thesis
      by (rule sys_env[OF ok D(1) _ not_claimed_beyond[OF ok order_refl] d(5,4) jobs]) (use e in auto)
  qed
qed

lemma access_keeps:
  assumes ok: "sys_ok s C F X"
  shows "sys_ok (s\<lparr>reg := pager_notify_access (reg s) i\<rparr>) C F X"
proof -
  let ?r = "reg s" and ?N = "n_chunks (reg s)" and ?r' = "pager_notify_access (reg s) i"
  note inv = conjunct1[OF notify_core[OF sys_okD(2)[OF ok], of i]]
  have same: "config_part ?r' = config_part ?r" "memfd ?r' = memfd ?r" "resident_bytes ?r' = resident_bytes ?r"
    "reserved_bytes ?r' = reserved_bytes ?r" "prefetch_pool_handle ?r' = prefetch_pool_handle ?r" "n_chunks ?r' = ?N"
    by (auto simp: pager_notify_access_def prefetch_retain_release_def upd_chunk_def config_part_def Let_def split: option.splits)
  have ch: "state (chunk_at ?r' j) = state (chunk_at ?r j) \<and> geom (chunk_at ?r' j) = geom (chunk_at ?r j)" if "j < ?N" for j
    using that by (cases "j = i") (auto simp: pager_notify_access_def prefetch_retain_release_def upd_chunk_def geom_def
        Let_def split: option.splits)
  have fr: "frame ?N ?r C F X ?r' C F X" using same ch by (intro frameI) simp_all
  have dl: "demand_list ?r' = demand_list ?r" by (rule handle_demand_list[OF same(5)])
  have bound: "j < ?N" if "j \<in> set (demand_list ?r)" for j
    using that sys_okD(1)[OF ok] by (auto simp: dispatch_inv_def demand_list_def pool_ok_def)
  have "dispatch_inv ?r' C F X"
    using sys_okD(1)[OF ok] inv same ch bound by (auto simp: dispatch_inv_def idle_ok_def dl)
  then show ?thesis
    by (rule sys_env[OF ok _ fr not_claimed_beyond[OF ok order_refl] same(3,4)
          jobs_ok_pf_part[OF sys_okD(6)[OF ok]]]) (simp_all add: same(5) dl subset_insertI)
qed

text \<open>A pass of the watchdog that reclaims nothing only reads the clock.\<close>

lemma watchdog_nothing:
  assumes "\<forall>i. \<not> reclaimed (k_clock K (clk_pos r)) (watchdog_timeout r) busy r i"
  shows "pager_fetching_watchdog K busy r = r\<lparr>clk_pos := clk_pos r + 1\<rparr>"
proof -
  let ?r = "r\<lparr>clk_pos := clk_pos r + 1\<rparr>"
  have "\<not> reclaimed n tmo busy r i \<Longrightarrow> watchdog_one n tmo busy ?r i = ?r" for n tmo i
    by (auto simp: watchdog_one_def reclaimed_def)
  then have "watchdog_one (k_clock K (clk_pos r)) (watchdog_timeout r) busy ?r i = ?r" for i
    using assms by blast
  then have "foldl (watchdog_one (k_clock K (clk_pos r)) (watchdog_timeout r) busy) ?r xs = ?r" for xs
    by (induction xs) simp_all
  then show ?thesis by (simp add: pager_fetching_watchdog_def now_ns_def Let_def)
qed

lemma clock_keeps:
  assumes ok: "sys_ok s C F X"
  shows "sys_ok (s\<lparr>reg := (reg s)\<lparr>clk_pos := t\<rparr>\<rparr>) C F X"
proof -
  let ?r' = "(reg s)\<lparr>clk_pos := t\<rparr>"
  have same: "inv_part ?r' = inv_part (reg s)" "config_part ?r' = config_part (reg s)"
    by (simp_all add: inv_part_def config_part_def)
  have d: "dispatch_inv ?r' C F X" using sys_okD(1)[OF ok] dispatch_inv_cong[OF same(1)] by simp
  have f: "frame (n_chunks (reg s)) (reg s) C F X ?r' C F X" by (rule frame_same[OF same])
  have dl: "demand_list ?r' = demand_list (reg s)" by (simp add: demand_list_def)
  show ?thesis
    by (rule sys_env[OF ok d f not_claimed_beyond[OF ok order_refl] _ _ jobs_ok_pf_part[OF sys_okD(6)[OF ok]]])
      (simp_all add: dl subset_insertI)
qed

section \<open>Every reachable state\<close>

lemma step_keeps:
  assumes "sys_ok s C F X" "step s s'"
  shows "\<exists>C F X. sys_ok s' C F X"
  using assms(2)
proof (cases rule: step.cases)
  case (step_worker w K)
  then show ?thesis using act_keeps[OF assms(1)] by blast
next
  case (step_fault rel i K m r')
  then show ?thesis using fault_keeps[OF assms(1)] by blast
next
  case (step_watchdog K)
  then have "s' = s\<lparr>reg := (reg s)\<lparr>clk_pos := clk_pos (reg s) + 1\<rparr>\<rparr>" using watchdog_nothing by simp
  then show ?thesis using clock_keeps[OF assms(1), of "clk_pos (reg s) + 1"] by blast
next
  case (step_access i)
  then show ?thesis using access_keeps[OF assms(1)] by blast
qed

text \<open>
  The system as \<^verbatim>\<open>pager_run\<close> starts it in the asynchronous mode: a fresh pool, its workers
  idle. The region is as \<open>startup_establishes_invariant\<close> leaves it.
\<close>

definition pager_start :: "region \<Rightarrow> sys" where
  "pager_start r = (let n = fetch_workers r in
     \<lparr>reg = prefetch_pool_start r n, workers = replicate (if n > 0 then n else 1) Idle\<rparr>)"

definition ready_to_run :: "region \<Rightarrow> bool" where
  "ready_to_run r \<longleftrightarrow> budget_inv r {} {} (\<lambda>_. 0) \<and> (\<forall>i<n_chunks r. state (chunk_at r i) = CHUNK_ABSENT)
     \<and> async_handler r \<and> n_chunks r < 2147483648 \<and> (\<forall>i<n_chunks r. starts_in_file r i)"

lemma start_ok:
  assumes "ready_to_run r"
  shows "sys_ok (pager_start r) {} {} (\<lambda>_. 0)"
proof -
  let ?s = "pager_start r" and ?r = "prefetch_pool_start r (fetch_workers r)"
  have R: "budget_inv r {} {} (\<lambda>_. 0)" "n_chunks r < 2147483648"
    "\<And>i. i < n_chunks r \<Longrightarrow> state (chunk_at r i) = CHUNK_ABSENT"
    using assms by (simp_all add: ready_to_run_def)
  obtain pool where h: "prefetch_pool_handle ?r = Some pool" "pool_ok (n_chunks r) pool"
    "ring_list (demand_queue pool) = []" "tracked pool = {}" using pool_start_ok[OF R(2)] by blast
  have reg: "reg ?s = ?r" by (simp add: pager_start_def Let_def)
  have same: "inv_part ?r = inv_part r" "chunks ?r = chunks r" "async_handler ?r = async_handler r"
    "config_part ?r = config_part r"
    by (simp_all add: prefetch_pool_start_def inv_part_def config_part_def)
  have dl: "demand_list ?r = []" using h by (simp add: demand_list_def)
  have idle: "workers ?s ! w = Idle" if "w < length (workers ?s)" for w
    using that by (simp add: pager_start_def Let_def split: if_splits)
  have inv: "budget_inv ?r {} {} (\<lambda>_. 0)" using budget_inv_cong[OF same(1)] R(1) by simp
  have "resident_bytes r = 0 \<and> reserved_bytes r = 0" using R(1) by (simp add: budget_inv_def acct_def bytes_of_def)
  then have z: "resident_bytes ?r = 0" "reserved_bytes ?r = 0" using same(1) by (simp_all add: inv_part_def)
  have pf: "ring_list (pf_queue pool) = []" using h(2,4) by (simp add: pool_ok_def)
  have none: "claims Idle = None" by (simp add: claims_def)
  have cl: "\<not> claimed ?s i" for i using idle none by (auto simp: claimed_def)
  show ?thesis
    unfolding sys_ok_def reg
  proof (intro conjI)
    show "dispatch_inv ?r {} {} (\<lambda>_. 0)" using inv h same(2) by (simp add: dispatch_inv_def idle_ok_def dl)
    show "list_all (phase_ok ?r {} {} (\<lambda>_. 0)) (workers ?s)" using idle by (simp add: list_all_length)
    show "apart claims (workers ?s)" using idle none by (simp add: apart_def)
    show "jobs_ok ?s" using idle h pf by (simp add: jobs_ok_def apart_def reg)
    show "apart (\<lambda>p. if in_budget p then Some 0 else None) (workers ?s)" using idle by (simp add: apart_def)
    show "\<forall>i<n_chunks ?r. \<not> claimed ?s i \<longrightarrow> unowned ?r {} {} (\<lambda>_. 0) i"
      using R(3) same(2) by (simp add: unowned_def)
    show "async_handler ?r" "\<forall>i<n_chunks ?r. starts_in_file ?r i"
      using assms starts_in_file_cong[OF same(4)] by (simp_all add: ready_to_run_def same)
  qed (simp_all add: dl cl z)
qed

lemma reachable_ok:
  assumes "ready_to_run r" "reachable (pager_start r) s"
  shows "\<exists>C F X. sys_ok s C F X"
  using assms(2)
proof induction
  case reach_start
  show ?case using start_ok[OF assms(1)] by blast
next
  case (reach_step s s')
  then show ?case using step_keeps by blast
qed

end
