(* ===== verification/Progress.thy ===== *)
theory Progress
  imports Interleaving
begin

text \<open>
  Progress of the fetch pool. Every step of a worker lowers a measure of the work left, so the workers
  stop when no new fault arrives; and while there is work left some worker can step, whatever the others
  hold. Hence every run of the workers ends with both queues empty and no chunk left FETCHING.
\<close>

section \<open>What a step does to the work left\<close>

definition residents :: "region \<Rightarrow> nat" where
  "residents r = length (filter (\<lambda>c. state c = CHUNK_RESIDENT) (chunks r))"

definition pf_jobs :: "region \<Rightarrow> nat" where
  "pf_jobs r = (case prefetch_pool_handle r of None \<Rightarrow> 0 | Some pool \<Rightarrow> length (ring_list (pf_queue pool)))"

lemma filter_update_le:
  "(P x \<Longrightarrow> i < length xs \<Longrightarrow> P (xs ! i)) \<Longrightarrow> length (filter P (xs[i := x])) \<le> length (filter P xs)"
proof (induction xs arbitrary: i)
  case (Cons y ys)
  then show ?case by (cases i) auto
qed simp

lemma filter_update_Suc: "length (filter P (xs[i := x])) \<le> Suc (length (filter P xs))"
proof (induction xs arbitrary: i)
  case (Cons y ys)
  then show ?case by (cases i) (auto simp: le_SucI)
qed simp

lemma filter_update_less:
  "i < length xs \<Longrightarrow> P (xs ! i) \<Longrightarrow> \<not> P x \<Longrightarrow> length (filter P (xs[i := x])) < length (filter P xs)"
proof (induction xs arbitrary: i)
  case (Cons y ys)
  then show ?case by (cases i) auto
qed simp

text \<open>What no step changes: the configuration, the geometry of the chunks, and which traces and policy there are.\<close>

definition setting where
  "setting r = (config_part r, map geom (chunks r), trace_of r = None, diag_fetch_trace r = None, diag_policy_trace r = None,
     policy_of r = None)"

lemma geom_fields [simp]:
  "geom (c\<lparr>state := st\<rparr>) = geom c" "geom (c\<lparr>pin := p\<rparr>) = geom c" "geom (c\<lparr>fetching_since_ns := t\<rparr>) = geom c"
  "geom (c\<lparr>decline_until_ns := t\<rparr>) = geom c" "geom (c\<lparr>last_fault_seq := q\<rparr>) = geom c"
  "geom (c\<lparr>diag_dispatch_entry_ns := t\<rparr>) = geom c" "geom (c\<lparr>diag_dispatch_enqueue_ns := t\<rparr>) = geom c"
  by (simp_all add: geom_def)

lemma map_geom_update [simp]:
  "map geom (cs[i := c]) = (map geom cs)[i := geom c]" "(map geom cs)[i := geom (cs ! i)] = map geom cs"
  by (rule map_update) (metis list_update_id map_update)

text \<open>A step that neither fetches a chunk nor touches a queue.\<close>

definition light :: "region \<Rightarrow> region \<Rightarrow> bool" where
  "light r r' \<longleftrightarrow> setting r' = setting r \<and> n_chunks r' = n_chunks r
     \<and> prefetch_pool_handle r' = prefetch_pool_handle r \<and> residents r' \<le> residents r"

lemma light_refl [simp]: "light r r"
  by (simp add: light_def)

lemma light_trans [trans]: "light r r1 \<Longrightarrow> light r1 r2 \<Longrightarrow> light r r2"
  by (auto simp: light_def)

lemma light_same:
  assumes "setting r' = setting r" "chunks r' = chunks r" "prefetch_pool_handle r' = prefetch_pool_handle r"
  shows "light r r'"
  using assms by (simp add: light_def residents_def)

lemma light_upd:
  assumes "\<And>c. state (g c) = CHUNK_RESIDENT \<Longrightarrow> state c = CHUNK_RESIDENT" "\<And>c. geom (g c) = geom c"
  shows "light r (upd_chunk i g r)"
  using assms by (simp add: light_def residents_def upd_chunk_def setting_def config_part_def filter_update_le map_update)

lemma light_clock: "light r (snd (now_ns K r))" "light r (snd (stamp K r))"
  by (auto simp: now_ns_def stamp_def intro!: light_same) (simp_all add: setting_def config_part_def)

lemma light_records:
  "record_fault K r sq i ft wp = Inr r' \<Longrightarrow> light r r'"
  "trace_fetch f r = Inr r' \<Longrightarrow> light r r'"
  "scheduled_reconcile K r = Inr r' \<Longrightarrow> light r r'"
  "fetch_resolve K r i = Inr r' \<Longrightarrow> light r r'"
proof -
  show "light r r'" if "record_fault K r sq i ft wp = Inr r'"
    using that by (cases "trace_of r")
      (auto simp: record_fault_def now_ns_def setting_def config_part_def intro!: light_same split: sum.splits)
  show "light r r'" if "trace_fetch f r = Inr r'"
    using that by (cases "diag_fetch_trace r")
      (auto simp: trace_fetch_def rbind_Inr_iff setting_def config_part_def intro!: light_same)
  show "scheduled_reconcile K r = Inr r' \<Longrightarrow> light r r'"
    by (auto simp: scheduled_reconcile_def Let_def rbind_Inr_iff setting_def config_part_def intro!: light_same split: if_splits)
  show "fetch_resolve K r i = Inr r' \<Longrightarrow> light r r'"
    by (auto simp: fetch_resolve_def Let_def setting_def config_part_def intro!: light_same split: if_splits continue_result.splits)
qed

lemma light_policy_trace: "record_policy_trace r v = Inr r' \<Longrightarrow> light r r'"
  by (cases "diag_policy_trace r")
    (auto simp: record_policy_trace_def Let_def rbind_Inr_iff setting_def config_part_def intro!: light_same)

lemma light_pins: "light r (pin_chunk r i)" "light r (unpin_chunk r i)" "light r (commit_reserved r l)"
  "light r (prefetch_retain_on_resident r i)"
proof -
  show "light r (pin_chunk r i)" "light r (unpin_chunk r i)"
    unfolding pin_chunk_def unpin_chunk_def by (rule light_upd; simp)+
  have push: "light s (s\<lparr>pinned_prefetch := q\<rparr>)" for s :: region and q by (simp add: light_same setting_def config_part_def)
  show "light r (commit_reserved r l)" by (simp add: light_same commit_reserved_def setting_def config_part_def)
  have pop: "light s (upd_chunk v (\<lambda>c. c\<lparr>pin := pin c - 1\<rparr>) (s\<lparr>pinned_prefetch := q\<rparr>))" for s :: region and v q
    by (rule light_trans[OF push light_upd]) simp_all
  show "light r (prefetch_retain_on_resident r i)"
    unfolding prefetch_retain_on_resident_def Let_def by (rule light_trans[OF _ push]) (simp add: pop)
qed

lemma light_marks: "light r (mark_fetching t i r)" "light r (pager_abandon_fetch r i)"
proof -
  have "light r (r\<lparr>fault_seq := fault_seq r + 1\<rparr>)" by (simp add: light_same setting_def config_part_def)
  also have "light \<dots> (mark_fetching t i r)" unfolding mark_fetching_def by (rule light_upd) simp_all
  finally show "light r (mark_fetching t i r)" .
  have "light r (upd_chunk i (\<lambda>c. c\<lparr>state := CHUNK_ABSENT, fetching_since_ns := 0\<rparr>) r)" by (rule light_upd) simp_all
  also have "light \<dots> (pager_abandon_fetch r i)"
    by (rule light_same) (simp_all add: pager_abandon_fetch_def wake_range_def setting_def config_part_def)
  finally show "light r (pager_abandon_fetch r i)" .
qed

text \<open>The points where a worker fetches a chunk, adds to a queue or takes from it.\<close>

fun heavy :: "phase \<Rightarrow> bool" where
  "heavy (At_mark k x) = True"
| "heavy (At_top_up x) = True"
| "heavy (At_finish i) = True"
| "heavy p = False"

lemma work_light:
  assumes f: "work K p r = Inr (p', r')" and p: "\<not> heavy p"
    and rd: "\<And>k x. p = At_read k x \<Longrightarrow> geometry_ok r \<and> cx_chunk x < n_chunks r \<and> starts_in_file r (cx_chunk x)"
  shows "light r r'"
proof (cases "(K, p, r)" rule: work.cases)
  case (1 K' i r1)
  then show ?thesis using f light_clock(1)[of r K] by (auto simp: Let_def case_prod_beta split: if_splits)
next
  case (2 K' i r1)
  then show ?thesis using f light_clock(1)[of r K] by (auto simp: Let_def case_prod_beta split: if_splits)
next
  case (3 K' x r1)
  let ?r2 = "mark_fetching (cx_start x) (cx_chunk x) (pin_chunk r (cx_chunk x))"
  have "record_fault K ?r2 (fault_seq ?r2) (cx_chunk x) TRACE_FAULT_MISSING 1 = Inr r'"
    using f 3 by (simp add: Let_def rbind_Inr_iff)
  then show ?thesis using light_trans[OF light_trans[OF light_pins(1) light_marks(1)] light_records(1)] by blast
next
  case (4 K' k n x r1)
  then show ?thesis using f light_records(3)[of K r r'] by (auto simp: rbind_Inr_iff)
next
  case (5 K' x r1)
  then show ?thesis using f light_pins(2)[of r "cx_chunk x"] by simp
next
  case (6 K' x r1)
  then show ?thesis using f light_marks(2)[of r "cx_chunk x"] by simp
next
  case (7 K' x r1)
  let ?r6 = "snd (now_ns K (pager_abandon_fetch r (cx_chunk x)))"
  let ?g = "\<lambda>c. c\<lparr>decline_until_ns := fst (now_ns K (pager_abandon_fetch r (cx_chunk x))) + 100000000\<rparr>"
  have "light r ?r6" using light_trans[OF light_marks(2) light_clock(1)] by blast
  also have "light ?r6 (upd_chunk (cx_chunk x) ?g ?r6)" by (rule light_upd) simp_all
  also have "light (upd_chunk (cx_chunk x) ?g ?r6) r'"
    using f 7 by (intro light_same) (auto simp: Let_def case_prod_beta setting_def config_part_def)
  finally show ?thesis .
next
  case (8 K' k x r1)
  let ?r0 = "snd (stamp K r)"
  obtain r2 where r2: "fetch_read K ?r0 (cx_chunk x) = Inr r2" "r' = snd (stamp K r2)"
    using f 8 by (auto simp: Let_def case_prod_beta rbind_Inr_iff)
  have pe: "p = At_read k x" using 8 by simp
  have c0: "chunks ?r0 = chunks r" "config_part ?r0 = config_part r" "region_len ?r0 = region_len r"
    by (simp_all add: stamp_def now_ns_def setting_def config_part_def)
  have "geometry_ok ?r0" "starts_in_file ?r0 (cx_chunk x)" "cx_chunk x < n_chunks ?r0"
    using rd[OF pe] starts_in_file_cong[OF c0(2)] by (simp_all add: c0 geometry_ok_def)
  from fetch_read_effect[OF this(1,3,2) r2(1)] have "light ?r0 r2" by (simp add: light_same setting_def config_part_def)
  then show ?thesis using light_trans[OF light_trans[OF light_clock(2)] light_clock(2)] r2(2) by blast
next
  case (9 K' k x r1)
  then show ?thesis using f light_trans[OF light_records(4) light_clock(2)]
    by (auto simp: Let_def case_prod_beta rbind_Inr_iff)
next
  case (10 K' k x r1)
  then show ?thesis using f light_trans[OF light_pins(3) light_pins(1)] light_pins(3)
    by (auto simp: commit_reserved_and_pin_def split: if_splits)
next
  case (13 K' x r1)
  have "light (unpin_chunk r (cx_chunk x)) r'" using f 13 by (intro light_same) (auto simp: Let_def setting_def config_part_def)
  then show ?thesis using light_trans[OF light_pins(2)] by blast
next
  case (14 K' x r1)
  let ?r1 = "if prefetch_retention_pinned r then prefetch_retain_on_resident r (cx_chunk x) else unpin_chunk r (cx_chunk x)"
  have "light ?r1 r'" using f 14 by (intro light_same) (auto simp: Let_def setting_def config_part_def)
  moreover have "light r ?r1" using light_pins by simp
  ultimately show ?thesis using light_trans by blast
next
  case (15 K' x r1)
  let ?r1 = "snd (now_ns K r)"
  let ?r2 = "?r1\<lparr>metrics_of := map_option (\<lambda>m. m\<lparr>handler_latency :=
                 latency_hist_record (handler_latency m) (fst (now_ns K r) - cx_start x)\<rparr>) (metrics_of ?r1)\<rparr>"
  have "light r ?r1" by (rule light_clock)
  also have "light ?r1 ?r2" by (simp add: light_same setting_def config_part_def)
  also have "light ?r2 r'" using f 15 light_records(2) by (auto simp: Let_def case_prod_beta rbind_Inr_iff split: if_splits)
  finally show ?thesis .
next
  case (16 K' x r1)
  then show ?thesis using f light_trans[OF light_clock(1)[of r K]] light_records(2)
    by (auto simp: Let_def case_prod_beta rbind_Inr_iff split: if_splits)
qed (use f p in simp_all)

section \<open>The measure\<close>

text \<open>
  A bound on the steps a worker still has before it leaves a point, over a table of \<open>N\<close> chunks: a
  demand job tries 200 times more for room, and its top-up may queue \<open>N\<close> prefetches of 13 steps each.
\<close>

fun rank :: "nat \<Rightarrow> phase \<Rightarrow> nat" where
  "rank N Idle = 0"
| "rank N (Wants_lock k i) = (if k = Dem then 412 + 13 * N else 12)"
| "rank N (At_begin x) = 11"
| "rank N (At_reserve k n x) = (if k = Dem then 11 + 13 * N + 2 * n else 10)"
| "rank N (At_evict k n x) = (if k = Dem then 10 + 13 * N + 2 * n else 9)"
| "rank N (At_drop x) = 3"
| "rank N (At_abandon k x) = 2"
| "rank N (At_read k x) = (if k = Dem then 9 + 13 * N else 8)"
| "rank N (At_continue k x) = (if k = Dem then 8 + 13 * N else 7)"
| "rank N (At_commit k x) = (if k = Dem then 7 + 13 * N else 6)"
| "rank N (At_mark k x) = (if k = Dem then 6 + 13 * N else 5)"
| "rank N (At_top_up x) = 4 + 13 * N"
| "rank N (At_release k x) = 3"
| "rank N (At_exit k x) = 2"
| "rank N (At_finish i) = 1"

definition burden :: "region \<Rightarrow> nat" where
  "burden r = 13 * pf_jobs r + (413 + 13 * n_chunks r) * length (demand_list r) + residents r"

definition load :: "sys \<Rightarrow> nat" where
  "load s = (\<Sum>p\<leftarrow>workers s. rank (n_chunks (reg s)) p) + burden (reg s)"

lemma load_go:
  assumes "w < length (workers s)" "n_chunks r' = n_chunks (reg s)"
    and "rank (n_chunks r') p' + burden r' < rank (n_chunks r') (workers s ! w) + burden (reg s)"
  shows "load (go s w p' r') < load s"
proof -
  let ?N = "n_chunks (reg s)" and ?ps = "workers s"
  have "sum_list (map (rank ?N) (?ps[w := p'])) = sum_list (map (rank ?N) ?ps) + rank ?N p' - rank ?N (?ps ! w)"
    using assms(1) by (simp add: map_update sum_list_update)
  moreover have "rank ?N (?ps ! w) \<le> sum_list (map (rank ?N) ?ps)" using assms(1) by (intro elem_le_sum_list[of w "map (rank ?N) ?ps", simplified]) simp_all
  ultimately show ?thesis using assms(2,3) by (simp add: load_def)
qed

lemma light_burden:
  assumes "light r r'"
  shows "burden r' \<le> burden r" and "setting r' = setting r" and "n_chunks r' = n_chunks r"
  using assms by (simp_all add: light_def burden_def pf_jobs_def demand_list_def)

lemma work_rank: "work K p r = Inr (p', r') \<Longrightarrow> p \<noteq> Idle \<Longrightarrow> \<not> in_budget p \<Longrightarrow> rank N p' < rank N p"
  by (cases "(K, p, r)" rule: work.cases)
    (auto simp: Let_def case_prod_beta rbind_Inr_iff split: if_splits)

lemma top_up_jobs:
  assumes "sys_ok s C F X"
  shows "pf_jobs (prefetch_pool_top_up K (reg s) j) \<le> n_chunks (reg s)"
    and "demand_list (prefetch_pool_top_up K (reg s) j) = demand_list (reg s)"
proof -
  obtain pool where h: "prefetch_pool_handle (reg s) = Some pool" "pool_ok (n_chunks (reg s)) pool"
    by (rule sys_pool[OF assms])
  obtain pool' where t: "prefetch_pool_handle (prefetch_pool_top_up K (reg s) j) = Some pool'" "topped_up (reg s) j pool pool'"
    using top_up_ok[OF h, of K j] by blast
  then have pk: "pool_ok (n_chunks (reg s)) pool'" by (simp add: topped_up_def)
  then have d: "distinct (ring_list (pf_queue pool'))" "set (ring_list (pf_queue pool')) \<subseteq> {..<n_chunks (reg s)}"
    using tracked_bounds[OF pk] by (auto simp: pool_ok_def)
  have "length (ring_list (pf_queue pool')) \<le> n_chunks (reg s)"
    using card_mono[OF _ d(2)] distinct_card[OF d(1)] by simp
  then show "pf_jobs (prefetch_pool_top_up K (reg s) j) \<le> n_chunks (reg s)" using t(1) by (simp add: pf_jobs_def)
  show "demand_list (prefetch_pool_top_up K (reg s) j) = demand_list (reg s)"
    using t h(1) by (simp add: demand_list_def topped_up_def)
qed

text \<open>A step of \<^verbatim>\<open>At_mark\<close>, \<^verbatim>\<open>At_top_up\<close> or \<^verbatim>\<open>At_finish\<close>.\<close>

lemma heavy_step:
  assumes ok: "sys_ok s C F X" and h: "heavy p" and f: "work K p (reg s) = Inr (p', r')"
  shows "setting r' = setting (reg s)" "n_chunks r' = n_chunks (reg s)"
    "rank (n_chunks (reg s)) p' + burden r' < rank (n_chunks (reg s)) p + burden (reg s)"
proof -
  let ?r = "reg s"
  have "setting r' = setting ?r \<and> n_chunks r' = n_chunks ?r
      \<and> rank (n_chunks ?r) p' + burden r' < rank (n_chunks ?r) p + burden ?r"
  proof (cases p)
    case (At_mark k x)
    then have r': "r' = mark_resident (cx_chunk x) ?r" and p': "p' = (if k = Dem then At_top_up x else At_release Pre x)"
      using f by auto
    have "residents r' \<le> Suc (residents ?r)"
      by (simp add: r' residents_def mark_resident_def upd_chunk_def filter_update_Suc)
    then show ?thesis
      by (simp add: At_mark p' r' mark_resident_def upd_chunk_def setting_def config_part_def burden_def pf_jobs_def demand_list_def)
  next
    case (At_top_up x)
    then have r': "r' = (if prefetch_enabled ?r then prefetch_pool_top_up K ?r (cx_chunk x) else ?r)" and p': "p' = At_release Dem x"
      using f by auto
    obtain t q where e: "prefetch_pool_top_up K ?r (cx_chunk x) = ?r\<lparr>clk_pos := t, prefetch_pool_handle := q\<rparr>"
      using top_up_effect by blast
    have c: "setting r' = setting ?r" "n_chunks r' = n_chunks ?r" "residents r' = residents ?r"
      by (simp_all add: r' e setting_def config_part_def residents_def)
    have j: "pf_jobs r' \<le> n_chunks ?r + pf_jobs ?r" "demand_list r' = demand_list ?r"
      using top_up_jobs[OF ok, of K "cx_chunk x"] by (simp_all add: r')
    show ?thesis using c j by (simp add: At_top_up p' burden_def)
  next
    case (At_finish i)
    then show ?thesis using f
      by (cases "prefetch_pool_handle ?r")
        (auto simp: job_done_def setting_def config_part_def burden_def pf_jobs_def demand_list_def residents_def)
  qed (use h in simp_all)
  then show "setting r' = setting (reg s)" "n_chunks r' = n_chunks (reg s)"
    "rank (n_chunks (reg s)) p' + burden r' < rank (n_chunks (reg s)) p + burden (reg s)" by simp_all
qed

text \<open>An eviction leaves one chunk fewer RESIDENT.\<close>

lemma evict_residents:
  assumes ev: "evict_and_reconcile K r v = Inr r'" and v: "v < n_chunks r"
  shows "setting r' = setting r" "n_chunks r' = n_chunks r"
    "prefetch_pool_handle r' = prefetch_pool_handle r" "residents r' < residents r"
proof -
  from evict_and_reconcile_effect[OF ev] obtain r1 where e1: "evict_chunk K r v = Inr r1"
    and r': "r' = r1\<lparr>fetches_since_reconcile := 0\<rparr>" by blast
  note E = evict_chunk_effect[OF e1 v]
  show "setting r' = setting r" "n_chunks r' = n_chunks r" "prefetch_pool_handle r' = prefetch_pool_handle r"
    by (simp_all add: r' E(2) upd_chunk_def punch_def setting_def config_part_def)
  have "state (chunk_at r v) = CHUNK_RESIDENT" using E(1) by (simp add: evictable_def)
  then show "residents r' < residents r"
    using v by (simp add: r' E(2) upd_chunk_def punch_def residents_def filter_update_less)
qed

lemma evict_burden:
  assumes l: "light r r0" and v: "v < n_chunks r" and ev: "evict_and_reconcile K r0 v = Inr r'"
  shows "setting r' = setting r" "n_chunks r' = n_chunks r" "burden r' < burden r"
proof -
  have "v < n_chunks r0" using l v by (simp add: light_def)
  note E = evict_residents[OF ev this]
  show "setting r' = setting r" "n_chunks r' = n_chunks r" "burden r' < burden r"
    using l E by (simp_all add: light_def burden_def pf_jobs_def demand_list_def)
qed

lemma broken_pin_light: "light r (broken_pin r v)"
  using broken_pin_frame[of "n_chunks r" r "{}" "{}" "\<lambda>_. 0" v] light_upd[of "\<lambda>c. c\<lparr>pin := pin c - 1\<rparr>"]
  by (auto simp: broken_pin_def prefetch_retain_release_def light_def setting_def config_part_def residents_def upd_chunk_def
      filter_update_le split: option.splits)

lemma reserve_round_burden:
  assumes ok: "sys_ok s C F X" and f: "reserve_round K k i s = Some (Inr (b, r'))"
  shows "setting r' = setting (reg s)" "n_chunks r' = n_chunks (reg s)"
    "if b = None then burden r' < burden (reg s) else burden r' \<le> burden (reg s)"
proof -
  let ?r = "reg s"
  have "setting r' = setting ?r \<and> n_chunks r' = n_chunks ?r
      \<and> (if b = None then burden r' < burden ?r else burden r' \<le> burden ?r)"
  proof -
    consider (room) "b = Some True" "r' = reserve (len (chunk_at ?r i)) ?r"
      | (refused) "b = Some False" "setting r' = setting ?r" "chunks r' = chunks ?r"
          "prefetch_pool_handle r' = prefetch_pool_handle ?r"
      | (victim) v r0 where "b = None" "select_victim ?r = Some v" "record_policy_trace ?r v = Inr r0"
          "evict_and_reconcile K r0 v = Inr r'"
      | (pinned) v where "b = None" "v < n_chunks ?r" "evict_and_reconcile K (broken_pin ?r v) v = Inr r'"
      using f by (auto simp: reserve_round_def Let_def rbind_Inr_iff setting_def config_part_def
          split: if_splits option.splits)
    then show ?thesis
    proof cases
      case room
      then have "light ?r r'" by (simp add: light_same reserve_def setting_def config_part_def)
      from light_burden[OF this] show ?thesis using room(1) by simp
    next
      case refused
      then show ?thesis using light_burden[OF light_same[OF refused(2-4)]] by simp
    next
      case victim
      have "light ?r r0" by (rule light_policy_trace[OF victim(3)])
      moreover have "v < n_chunks ?r" using select_victim_sound[OF victim(2)] by simp
      ultimately show ?thesis using evict_burden[OF _ _ victim(4)] victim(1) by simp
    next
      case pinned
      then show ?thesis using evict_burden[OF broken_pin_light pinned(2,3)] by simp
    qed
  qed
  then show "setting r' = setting (reg s)" "n_chunks r' = n_chunks (reg s)"
    "if b = None then burden r' < burden (reg s) else burden r' \<le> burden (reg s)" by simp_all
qed

lemma next_phase_rank: "rank N (next_phase k n x b) \<le> rank N (At_evict k n x)"
  "b \<noteq> None \<Longrightarrow> rank N (next_phase k n x b) < rank N (At_evict k n x)"
  by (cases "(k, n, x, b)" rule: next_phase.cases; auto)+

lemma act_progress:
  assumes ok: "sys_ok s C F X" and w: "w < length (workers s)" and a: "act K s w = Some (Inr s')"
  shows "setting (reg s') = setting (reg s) \<and> length (workers s') = length (workers s) \<and> load s' < load s"
proof -
  let ?r = "reg s" and ?p = "workers s ! w"
  consider "?p = Idle" | k n x where "?p = At_evict k n x" | "?p \<noteq> Idle" "\<not> in_budget ?p"
    by (cases ?p) auto
  then show ?thesis
  proof cases
    case 1
    obtain pool where h: "prefetch_pool_handle ?r = Some pool" "pool_ok (n_chunks ?r) pool" by (rule sys_pool[OF ok])
    obtain j pool' where t: "worker_take pool = Some (j, pool')" using a 1 h by (cases "worker_take pool") (auto simp: act_def)
    let ?r' = "?r\<lparr>prefetch_pool_handle := Some pool'\<rparr>"
    have s': "s' = go s w (case j of Demand i \<Rightarrow> Wants_lock Dem i | Speculative i \<Rightarrow> Wants_lock Pre i) ?r'"
      using a 1 h t by (simp add: act_def)
    have "load s' < load s"
    proof (cases j)
      case (Demand i)
      then have "length (ring_list (demand_queue pool)) = Suc (length (ring_list (demand_queue pool')))"
        "pf_queue pool' = pf_queue pool" using worker_take_ok[OF h(2)] t by simp_all
      then show ?thesis
        unfolding s' using h(1) 1 Demand
        by (intro load_go[OF w]) (simp_all add: burden_def pf_jobs_def demand_list_def residents_def)
    next
      case (Speculative i)
      then have "length (ring_list (pf_queue pool)) = Suc (length (ring_list (pf_queue pool')))"
        "demand_queue pool' = demand_queue pool" using worker_take_ok[OF h(2)] t by simp_all
      then show ?thesis
        unfolding s' using h(1) 1 Speculative
        by (intro load_go[OF w]) (simp_all add: burden_def pf_jobs_def demand_list_def residents_def)
    qed
    then show ?thesis by (simp add: s' setting_def config_part_def)
  next
    case 2
    obtain b r' where y: "reserve_round K k (cx_chunk x) s = Some (Inr (b, r'))" "s' = go s w (next_phase k n x b) r'"
      by (rule act_evict[OF a 2])
    note B = reserve_round_burden[OF ok y(1)]
    have "load s' < load s"
      unfolding y(2) using B(2,3) next_phase_rank[where N = "n_chunks ?r" and k = k and n = n and x = x and b = b] 2
      by (intro load_go[OF w B(2)]) (auto split: if_splits)
    then show ?thesis using B(1) by (simp add: y(2))
  next
    case 3
    obtain p' r' where f: "work K ?p ?r = Inr (p', r')" and s': "s' = go s w p' r'"
      using act_work[OF a refl 3] by blast
    have R: "setting r' = setting ?r \<and> n_chunks r' = n_chunks ?r
        \<and> rank (n_chunks ?r) p' + burden r' < rank (n_chunks ?r) ?p + burden ?r"
    proof (cases "heavy ?p")
      case True
      then show ?thesis using heavy_step[OF ok True f] by simp
    next
      case False
      have rd: "geometry_ok ?r \<and> cx_chunk x < n_chunks ?r \<and> starts_in_file ?r (cx_chunk x)" if "?p = At_read k x" for k x
      proof -
        have "chunk_is ?r C F X (cx_chunk x) CHUNK_FETCHING True (pin_of k) False" using sys_okD(4)[OF ok w] that by simp
        then show ?thesis using sys_okD(2,8)[OF ok] by (auto simp: chunk_is_def)
      qed
      have "light ?r r'" by (rule work_light[OF f False]) (rule rd)
      from light_burden[OF this] show ?thesis using work_rank[OF f 3, of "n_chunks ?r"] by simp
    qed
    then have "load s' < load s" unfolding s' by (intro load_go[OF w]) simp_all
    then show ?thesis using R by (simp add: s')
  qed
qed

section \<open>No deadlock\<close>

text \<open>
  The only thread that waits while it holds \<^verbatim>\<open>budget_lock\<close> waits for the mutex of a
  victim. The victim is RESIDENT and nobody else's pin is on it, so a worker that holds its mutex has
  only its records left to write, and needs no lock for that.
\<close>

lemma unpinned_holder:
  assumes ok: "sys_ok s C F X" and w: "w < length (workers s)" and m: "mutex (workers s ! w) = Some v"
    and v: "state (chunk_at (reg s) v) = CHUNK_RESIDENT" "X v = 0"
  obtains k x where "workers s ! w = At_exit k x"
  using sys_okD(4)[OF ok w] m v that
  by (cases "workers s ! w") (auto simp: chunk_is_def)

lemma victim_unpinned:
  assumes inv: "budget_inv r C F X" and v: "select_victim r = Some v"
  shows "state (chunk_at r v) = CHUNK_RESIDENT" "X v = 0"
proof -
  note S = select_victim_sound[OF v]
  show "state (chunk_at r v) = CHUNK_RESIDENT" using S by (simp add: evictable_def)
  have "pin (chunk_at r v) = 0" using S by (simp add: evictable_def)
  then show "X v = 0" using inv S by (auto simp: budget_inv_def pins_ok_def split: if_splits)
qed

lemma pinned_victim_unpinned:
  assumes inv: "budget_inv r C F X" and v: "pin_break_select_victim r = Some v"
  shows "v < n_chunks r" "state (chunk_at r v) = CHUNK_RESIDENT" "X v = 0"
proof -
  have "v \<in> retained r" using pin_break_spec[of r X] inv v by auto
  then show "v < n_chunks r" "state (chunk_at r v) = CHUNK_RESIDENT" "X v = 0"
    using inv by (auto simp: budget_inv_def pins_ok_def retained_def)
qed

lemma evict_waits:
  assumes ok: "sys_ok s C F X" and n: "reserve_round K k i s = None"
  shows "\<exists>w<length (workers s). \<exists>k x. workers s ! w = At_exit k x"
proof -
  note inv = sys_okD(2)[OF ok]
  have "\<exists>v. \<not> lock_free s v \<and> (select_victim (reg s) = Some v \<or> pin_break_select_victim (reg s) = Some v)"
  proof (cases "select_victim (reg s)")
    case None
    then show ?thesis using n
      by (cases "pin_break_select_victim (reg s)") (auto simp: reserve_round_def Let_def split: if_splits)
  next
    case (Some v)
    then show ?thesis using n by (auto simp: reserve_round_def Let_def split: if_splits)
  qed
  then obtain v where v: "\<not> lock_free s v" "state (chunk_at (reg s) v) = CHUNK_RESIDENT" "X v = 0"
    using victim_unpinned[OF inv] pinned_victim_unpinned(2,3)[OF inv] by blast
  from v(1) obtain w where w: "w < length (workers s)" "mutex (workers s ! w) = Some v"
    by (auto simp: lock_free_def list_all_length)
  obtain k x where "workers s ! w = At_exit k x" by (rule unpinned_holder[OF ok w v(2,3)])
  then show ?thesis using w(1) by blast
qed

definition quiescent :: "sys \<Rightarrow> bool" where
  "quiescent s \<longleftrightarrow> list_all (\<lambda>p. p = Idle) (workers s) \<and> demand_list (reg s) = [] \<and> pf_jobs (reg s) = 0"

lemma act_ready:
  assumes "\<not> in_budget p" "p \<noteq> Idle" "workers s ! w = p"
  shows "act K s w = None \<longleftrightarrow> \<not> ready s p"
  using act_eq[of s w K] assms by simp

lemma stuck_quiescent:
  assumes ok: "sys_ok s C F X" and n: "workers s \<noteq> []" and st: "\<And>w. w < length (workers s) \<Longrightarrow> act K s w = None"
  shows "quiescent s"
proof -
  let ?p = "\<lambda>w. workers s ! w"
  have stuck: "\<not> ready s (?p w)" if "w < length (workers s)" "\<not> in_budget (?p w)" "?p w \<noteq> Idle" for w
    using act_ready[OF that(2,3) refl] st[OF that(1)] by blast
  have exit: "?p w \<noteq> At_exit k x" if "w < length (workers s)" for w k x using stuck[OF that] by auto
  have ev: "\<not> in_budget (?p w)" if w: "w < length (workers s)" for w
  proof
    assume "in_budget (?p w)"
    then obtain k n x where p: "?p w = At_evict k n x" by (cases "?p w") auto
    then have "reserve_round K k (cx_chunk x) s = None" using st[OF w] by (simp add: act_def)
    then show False using evict_waits[OF ok] exit by blast
  qed
  then have bf: "budget_free s" by (simp add: budget_free_def list_all_length)
  have nm: "mutex (?p w) = None" if w: "w < length (workers s)" for w
    using stuck[OF w ev[OF w]] bf by (cases "?p w") auto
  then have lf: "lock_free s i" for i by (simp add: lock_free_def list_all_length)
  have idle: "?p w = Idle" if w: "w < length (workers s)" for w
    using stuck[OF w ev[OF w]] nm[OF w] lf by (cases "?p w") auto
  have w0: "0 < length (workers s)" using n by simp
  obtain pool where h: "prefetch_pool_handle (reg s) = Some pool" "pool_ok (n_chunks (reg s)) pool" by (rule sys_pool[OF ok])
  have "worker_take pool = None"
    using st[OF w0] idle[OF w0] h(1) by (cases "worker_take pool") (auto simp: act_def)
  then have "ring_list (demand_queue pool) = []" "ring_list (pf_queue pool) = []"
    using worker_take_ok[OF h(2)] by simp_all
  then show ?thesis using idle h(1) by (simp add: quiescent_def list_all_length demand_list_def pf_jobs_def)
qed

text \<open>What is settled: nothing is FETCHING, reserved, claimed or pinned by an operation.\<close>

lemma quiescent_clean:
  assumes ok: "sys_ok s C F X" and se: "quiescent s"
  shows "\<forall>i<n_chunks (reg s). state (chunk_at (reg s) i) \<noteq> CHUNK_FETCHING"
    and "reserved_bytes (reg s) = 0"
    and "populated (reg s) = unat (resident_bytes (reg s))"
    and "\<forall>pool. prefetch_pool_handle (reg s) = Some pool \<longrightarrow> tracked pool = {}"
proof -
  have idle: "workers s ! w = Idle" if "w < length (workers s)" for w using se that by (simp add: quiescent_def list_all_length)
  have nc: "\<not> claimed s i" for i using idle by (auto simp: claimed_def claims_def)
  have un: "unowned (reg s) C F X i" if "i < n_chunks (reg s)" for i using ok nc that by (simp add: sys_ok_def)
  show "\<forall>i<n_chunks (reg s). state (chunk_at (reg s) i) \<noteq> CHUNK_FETCHING"
    using un se by (simp add: unowned_def quiescent_def)
  have "F \<subseteq> {..<n_chunks (reg s)}" using sys_okD(2)[OF ok] by (simp add: budget_inv_def acct_def)
  then have "F = {}" using un by (auto simp: unowned_def)
  then show z: "reserved_bytes (reg s) = 0" using sys_okD(2)[OF ok] by (simp add: budget_inv_def acct_def bytes_of_def)
  then show "populated (reg s) = unat (resident_bytes (reg s))"
    using populated_bounds(1,2)[OF sys_okD(2)[OF ok]] by simp
  show "\<forall>pool. prefetch_pool_handle (reg s) = Some pool \<longrightarrow> tracked pool = {}"
  proof (intro allI impI)
    fix pool assume h: "prefetch_pool_handle (reg s) = Some pool"
    have "length (ring_list (pf_queue pool)) = 0" using se h by (simp add: quiescent_def pf_jobs_def)
    then have "ring_list (pf_queue pool) = []" by (simp only: length_0_conv)
    then have "i \<notin> tracked pool" for i
      using jobs_okD(2)[OF sys_okD(6)[OF ok] h, of i] idle by simp
    then show "tracked pool = {}" by blast
  qed
qed

end
