(* ===== verification/Cooperation.thy ===== *)
theory Cooperation
  imports Progress
begin

text \<open>
  The aborts of the workers. Whatever the kernel answers, no assertion about the program's own state
  fails in a reachable state; and when the kernel reports the truth, delivers the reads and maps the
  pages, no worker aborts at all, so every run of the workers can go on until the system is settled.
\<close>

section \<open>Assertions\<close>

lemma reserve_round_no_fatal:
  assumes ok: "sys_ok s C F X" and f: "reserve_round K k i s = Some (Inl e)"
  shows "\<not> fatal_evict e"
proof -
  let ?r = "reg s"
  note inv = sys_okD(2)[OF ok]
  show ?thesis
  proof (cases "select_victim ?r")
    case None
    then obtain v where v: "pin_break_select_victim ?r = Some v"
      "\<not> v < n_chunks ?r \<or> evict_and_reconcile K (broken_pin ?r v) v = Inl e"
      using f by (auto simp: reserve_round_def Let_def rbind_Inl_iff split: if_splits option.splits)
    have vr: "v \<in> retained ?r" "v < n_chunks ?r" using pin_break_spec[of ?r X] inv v(1) by auto
    then show ?thesis using v(2) evict_and_reconcile_no_fatal broken_pin_ok(3)[OF inv vr(1)] by blast
  next
    case (Some v)
    then consider "record_policy_trace ?r v = Inl e"
      | r0 where "record_policy_trace ?r v = Inr r0" "evict_and_reconcile K r0 v = Inl e"
      using f by (auto simp: reserve_round_def Let_def rbind_Inl_iff split: if_splits)
    then show ?thesis
    proof cases
      case 1
      then show ?thesis by (rule record_policy_trace_no_fatal)
    next
      case 2
      from record_policy_trace_effect[OF 2(1)] obtain pt where "r0 = ?r\<lparr>diag_policy_trace := pt\<rparr>" .
      then have "evictable (chunks r0) v" using select_victim_sound[OF Some] by simp
      with 2(2) show ?thesis by (rule evict_and_reconcile_no_fatal)
    qed
  qed
qed

lemma read_no_fatal: "fetch_read K r i = Inl e \<Longrightarrow> \<not> fatal_evict e"
  by (auto simp: fetch_read_def rbind_Inl_iff Let_def dest!: pread_loop_failures split: if_splits)
    (simp_all add: fatal_evict_def)

lemma resolve_no_fatal: "fetch_resolve K r i = Inl e \<Longrightarrow> \<not> fatal_evict e"
  by (auto simp: fetch_resolve_def Let_def fatal_evict_def split: if_splits continue_result.splits)

lemma record_no_fatal: "record_fault K r sq i ft wp = Inl e \<Longrightarrow> \<not> fatal_evict e"
  by (auto simp: record_fault_def now_ns_def fatal_evict_def split: option.splits sum.splits)

lemma trace_fetch_chunks: "trace_fetch f r = Inr r' \<Longrightarrow> chunks r' = chunks r"
  by (erule trace_fetch_effect) simp

lemma work_no_fatal:
  assumes ok: "sys_ok s C F X" and w: "w < length (workers s)" and p: "workers s ! w = p"
    and f: "work K p (reg s) = Inl e"
  shows "\<not> fatal_evict e"
proof (cases p)
  case (Wants_lock k i)
  then show ?thesis using f sys_okD(4)[OF ok w] p
    by (cases k) (simp_all add: chunk_is_def now_ns_def Let_def split: if_splits)
next
  case (At_begin x)
  then show ?thesis using f by (auto simp: Let_def rbind_Inl_iff dest: record_no_fatal)
next
  case (At_reserve k n x)
  then have "scheduled_reconcile K (reg s) = Inl e" using f by (simp add: rbind_Inl_iff)
  then show ?thesis using scheduled_reconcile_spec[OF sys_okD(2)[OF ok], of K] by simp
next
  case (At_abandon k x)
  then show ?thesis using f by (cases k) (simp_all add: Let_def case_prod_beta)
next
  case (At_read k x)
  then show ?thesis using f by (auto simp: Let_def case_prod_beta rbind_Inl_iff dest: read_no_fatal)
next
  case (At_continue k x)
  then show ?thesis using f by (auto simp: Let_def case_prod_beta rbind_Inl_iff dest: resolve_no_fatal)
next
  case (At_release k x)
  then show ?thesis using f by (cases k) (simp_all add: Let_def)
next
  case (At_exit k x)
  have "state (chunk_at (reg s) (cx_chunk x)) \<noteq> CHUNK_FETCHING" using sys_okD(4)[OF ok w] p At_exit by simp
  then show ?thesis using f At_exit
    by (cases k) (auto simp: Let_def case_prod_beta rbind_Inl_iff now_ns_def fatal_evict_def
        split: if_splits dest: trace_fetch_failures trace_fetch_chunks)
qed (use f in simp_all)

lemma act_no_fatal:
  assumes ok: "sys_ok s C F X" and w: "w < length (workers s)" and a: "act K s w = Some (Inl e)"
  shows "\<not> fatal_evict e"
proof -
  let ?p = "workers s ! w"
  consider "?p = Idle" | k n x where "?p = At_evict k n x" | "?p \<noteq> Idle" "\<not> in_budget ?p" by (cases ?p) auto
  then show ?thesis
  proof cases
    case 1
    then show ?thesis using a by (auto simp: act_def split: option.splits)
  next
    case 2
    then obtain y where "reserve_round K k (cx_chunk x) s = Some y" "map_sum id (\<lambda>(b, r). go s w (next_phase k n x b) r) y = Inl e"
      using a by (auto simp: act_def)
    then have "reserve_round K k (cx_chunk x) s = Some (Inl e)" by (cases y) simp_all
    then show ?thesis by (rule reserve_round_no_fatal[OF ok])
  next
    case 3
    then have "work K ?p (reg s) = Inl e" using a act_eq[OF 3, of K] by (cases "work K ?p (reg s)") (simp_all split: if_splits)
    then show ?thesis by (rule work_no_fatal[OF ok w refl])
  qed
qed

section \<open>A kernel that cooperates\<close>

text \<open>
  \<^verbatim>\<open>memory.stat\<close> counts the overhead and the pages the region holds; a page range can be
  given back; reads deliver what is asked for, in pieces or not; the pages of a chunk are mapped.
\<close>

definition obliging :: "kernel \<Rightarrow> region \<Rightarrow> bool" where
  "obliging K r \<longleftrightarrow>
     (\<forall>s. config_part s = config_part r \<longrightarrow>
        (\<exists>v. read_memory_stat_shmem K s = Inr v \<and> unat v = unat (known_overhead_bytes s) + populated s))
     \<and> (\<forall>s i. k_punch_ok K s i)
     \<and> (\<forall>s i tail. P_error \<notin> set (k_preads K s i tail) \<and> P_bytes 0 \<notin> set (k_preads K s i tail)
          \<and> unat (region_len r) + 4096 \<le> delivered (k_preads K s i tail))
     \<and> (\<forall>s i. k_continue K s i = C_mapped (sint (len (chunk_at s i))))
     \<and> unat (known_overhead_bytes r) + 3 * unat (region_len r) < 2 ^ 64"

lemma obliging_cong: "config_part r' = config_part r \<Longrightarrow> obliging K r' = obliging K r"
  by (simp add: obliging_def) (simp add: config_part_def)

text \<open>The diagnostics are off and there is a policy.\<close>

definition plain :: "region \<Rightarrow> bool" where
  "plain r \<longleftrightarrow> trace_of r = None \<and> diag_fetch_trace r = None \<and> diag_policy_trace r = None \<and> policy_of r \<noteq> None"

lemma plain_cong: "setting r' = setting r \<Longrightarrow> plain r' = plain r"
  by (simp add: plain_def setting_def)

lemma reconcile_returns:
  assumes inv: "budget_inv r C F X" and o: "obliging K r" and n: "n_chunks r > 0"
  shows "reconcile K r = Inr ()"
proof -
  obtain v where v: "read_memory_stat_shmem K r = Inr v" "unat v = unat (known_overhead_bytes r) + populated r"
    using o by (auto simp: obliging_def)
  have l0: "unat (len (chunk_at r 0)) \<le> unat (region_len r)"
    using tiles_within[of 0 "chunks r" "unat (region_len r)" 0] inv n by (auto simp: budget_inv_def geometry_ok_def)
  have b: "unat (known_overhead_bytes r) + 3 * unat (region_len r) < 2 ^ 64" using o by (simp add: obliging_def)
  note B = populated_bounds[OF inv]
  have "unat v + unat (len (chunk_at r 0)) < 2 ^ 64" using v(2) B l0 b by linarith
  then show ?thesis using reconcile_iff[OF inv v(1) n] v(2) B b by simp
qed

lemma eviction_returns:
  assumes inv: "budget_inv r C F X" and o: "obliging K r" and v: "v < n_chunks r" "evictable (chunks r) v"
  shows "\<exists>r'. evict_and_reconcile K r v = Inr r'"
proof -
  have "k_punch_ok K r v" using o by (simp add: obliging_def)
  then obtain r1 where r1: "evict_chunk K r v = Inr r1" using v(2) by (auto simp: evict_chunk_def evictable_def Let_def)
  note I = evict_chunk_inv[OF inv r1 v(1)]
  have "obliging K r1" using obliging_cong[OF static_config[OF I(2)]] o by simp
  moreover have "n_chunks r1 > 0" using evict_chunk_effect(2)[OF r1 v(1)] v(1) by (cases "chunks r") (simp_all add: upd_chunk_def punch_def split: nat.splits)
  ultimately have "reconcile K r1 = Inr ()" by (rule reconcile_returns[OF I(1)])
  then show ?thesis using r1 by (simp add: evict_and_reconcile_def)
qed

lemma reserve_round_returns:
  assumes ok: "sys_ok s C F X" and o: "obliging K (reg s)" and p: "plain (reg s)"
  shows "reserve_round K k i s \<noteq> Some (Inl e)"
proof
  let ?r = "reg s"
  assume f: "reserve_round K k i s = Some (Inl e)"
  note inv = sys_okD(2)[OF ok]
  show False
  proof (cases "select_victim ?r")
    case None
    then obtain v where v: "pin_break_select_victim ?r = Some v"
      "\<not> v < n_chunks ?r \<or> evict_and_reconcile K (broken_pin ?r v) v = Inl e"
      using f by (auto simp: reserve_round_def Let_def rbind_Inl_iff split: if_splits option.splits)
    have vr: "v \<in> retained ?r" "v < n_chunks ?r" using pin_break_spec[of ?r X] inv v(1) by auto
    note B = broken_pin_ok[OF inv vr(1)]
    have "config_part (broken_pin ?r v) = config_part ?r" using broken_pin_light[of ?r v] by (simp add: light_def setting_def)
    then have ob: "obliging K (broken_pin ?r v)" by (rule iffD2[OF obliging_cong o])
    have n: "v < n_chunks (broken_pin ?r v)" using B(4) vr(2) by (simp only:)
    obtain r' where "evict_and_reconcile K (broken_pin ?r v) v = Inr r'"
      using eviction_returns[OF B(2) ob n B(3)] by blast
    then show False using v(2) vr(2) by simp
  next
    case (Some v)
    have "record_policy_trace ?r v = Inl e \<or> (\<exists>r0. record_policy_trace ?r v = Inr r0 \<and> evict_and_reconcile K r0 v = Inl e)"
      using f Some by (auto simp: reserve_round_def Let_def rbind_Inl_iff split: if_splits)
    moreover have "record_policy_trace ?r v = Inr ?r" using p by (simp add: plain_def record_policy_trace_def)
    ultimately have "evict_and_reconcile K ?r v = Inl e" by simp
    moreover obtain r' where "evict_and_reconcile K ?r v = Inr r'"
      using eviction_returns[OF inv o, of v] select_victim_sound[OF Some] by blast
    ultimately show False by simp
  qed
qed

lemma work_returns:
  assumes ok: "sys_ok s C F X" and w: "w < length (workers s)" and p: "workers s ! w = p"
    and o: "obliging K (reg s)" and pl: "plain (reg s)"
  shows "work K p (reg s) \<noteq> Inl e"
proof -
  let ?r = "reg s"
  note ph = sys_okD(4)[OF ok w, unfolded p] and inv = sys_okD(2)[OF ok]
  have tf: "trace_fetch f s = Inr s" if "diag_fetch_trace s = None" for f s using that by (simp add: trace_fetch_def)
  have off: "trace_of ?r = None" "diag_fetch_trace ?r = None" "policy_of ?r \<noteq> None" using pl by (simp_all add: plain_def)
  show ?thesis
  proof (cases p)
    case (Wants_lock k i)
    then show ?thesis using ph by (cases k) (simp_all add: chunk_is_def now_ns_def Let_def)
  next
    case (At_begin x)
    then show ?thesis using off(1)
      by (simp add: Let_def rbind_def record_fault_def mark_fetching_def pin_chunk_def upd_chunk_def)
  next
    case (At_reserve k n x)
    let ?a = "?r\<lparr>fetches_since_reconcile := fetches_since_reconcile ?r + 1\<rparr>"
    have "cx_chunk x < n_chunks ?r" using ph At_reserve by (simp add: chunk_is_def)
    then have "n_chunks ?a > 0" by (cases "chunks ?r") simp_all
    moreover have "budget_inv ?a C F X" using budget_inv_cong[of ?a ?r] inv by (simp add: inv_part_def)
    moreover have "obliging K ?a" using obliging_cong[of ?a ?r] o by (simp add: config_part_def)
    ultimately have "reconcile K ?a = Inr ()" using reconcile_returns by blast
    then show ?thesis using At_reserve by (simp add: scheduled_reconcile_def Let_def rbind_def)
  next
    case (At_abandon k x)
    then show ?thesis by (cases k) (simp_all add: Let_def case_prod_beta)
  next
    case (At_read k x)
    have "chunk_is ?r C F X (cx_chunk x) CHUNK_FETCHING True (pin_of k) False" using ph At_read by simp
    then have "\<exists>r'. fetch_read K ?r (cx_chunk x) = Inr r' \<and> chunks r' = chunks ?r"
      using inv o by (intro fetch_read_progress) (auto simp: chunk_is_def obliging_def)
    then show ?thesis using At_read off(2) by (auto simp: stamp_def rbind_Inl_iff case_prod_beta)
  next
    case (At_continue k x)
    then show ?thesis using o by (simp add: fetch_resolve_def obliging_def rbind_def case_prod_beta Let_def)
  next
    case (At_release k x)
    then show ?thesis by (cases k) (simp_all add: Let_def)
  next
    case (At_exit k x)
    then show ?thesis using ph off
      by (cases k) (auto simp: Let_def now_ns_def rbind_def tf)
  qed simp_all
qed

lemma act_returns:
  assumes ok: "sys_ok s C F X" and w: "w < length (workers s)" and o: "obliging K (reg s)" and pl: "plain (reg s)"
  shows "act K s w \<noteq> Some (Inl e)"
proof
  let ?p = "workers s ! w"
  assume a: "act K s w = Some (Inl e)"
  consider "?p = Idle" | k n x where "?p = At_evict k n x" | "?p \<noteq> Idle" "\<not> in_budget ?p" by (cases ?p) auto
  then show False
  proof cases
    case 1
    then show ?thesis using a by (auto simp: act_def split: option.splits)
  next
    case 2
    then obtain y where "reserve_round K k (cx_chunk x) s = Some y" "map_sum id (\<lambda>(b, r). go s w (next_phase k n x b) r) y = Inl e"
      using a by (auto simp: act_def)
    then show ?thesis using reserve_round_returns[OF ok o pl] by (cases y) simp_all
  next
    case 3
    then show ?thesis using a act_eq[OF 3, of K] work_returns[OF ok w refl o pl]
      by (cases "work K ?p (reg s)") (simp_all split: if_splits)
  qed
qed

end
