(* ===== verification/Concurrency.thy ===== *)
theory Concurrency
  imports Cooperation
begin

text \<open>
  What holds of the pager with all its threads: in every state that any interleaving of the workers, the
  dispatcher, its watchdog and the application reaches from \<open>pager_start\<close>, for any answers of
  the kernel; and what every run of the workers comes to.
\<close>

section \<open>Reachable states\<close>

lemma dispatch_setting:
  assumes "handle_absent_dispatch K s i ft = Inr s'"
  shows "setting s' = setting s"
proof -
  let ?r1 = "mark_fetching (k_clock K (clk_pos s)) i (s\<lparr>clk_pos := clk_pos s + 1\<rparr>)"
  obtain r2 pool pool' where r2: "record_fault K ?r1 (fault_seq ?r1) i ft 0 = Inr r2"
    and s': "s' = upd_chunk i (\<lambda>c. c\<lparr>diag_dispatch_entry_ns := k_clock K (clk_pos s),
             diag_dispatch_enqueue_ns := fst (now_ns K ((policy_fault r2 i)\<lparr>prefetch_pool_handle := Some pool'\<rparr>))\<rparr>)
           (snd (now_ns K ((policy_fault r2 i)\<lparr>prefetch_pool_handle := Some pool'\<rparr>)))"
    using assms by (auto simp: handle_absent_dispatch_def now_ns_def Let_def rbind_Inr_iff split: option.splits)
  have "setting r2 = setting ?r1" using light_records(1)[OF r2] by (simp add: light_def)
  also have "\<dots> = setting (s\<lparr>clk_pos := clk_pos s + 1\<rparr>)" using light_marks(1) by (simp add: light_def)
  finally have r2s: "setting r2 = setting s" by (simp add: setting_def config_part_def)
  have "setting s' = setting r2"
    by (simp add: s' policy_fault_def now_ns_def upd_chunk_def setting_def config_part_def)
  then show ?thesis using r2s by simp
qed

lemma fault_setting:
  assumes "handle_fault K r rel m = Inr r'" "async_handler r"
  shows "setting r' = setting r"
  using assms dispatch_setting[of K "count_fault m r"]
  by (auto simp: handle_fault_def Let_def wake_range_def count_fault_def setting_def config_part_def
      split: option.splits chunk_state.splits if_splits)

lemma access_setting: "setting (pager_notify_access r i) = setting r"
  by (auto simp: pager_notify_access_def prefetch_retain_release_def upd_chunk_def setting_def config_part_def
      Let_def split: option.splits)

lemma step_setting:
  assumes ok: "sys_ok s C F X" and st: "step s s'"
  shows "setting (reg s') = setting (reg s) \<and> length (workers s') = length (workers s)"
  using st
proof (cases rule: step.cases)
  case (step_worker w K)
  then show ?thesis using act_progress[OF ok] by blast
next
  case (step_fault rel i K m r')
  then show ?thesis using fault_setting sys_okD(9)[OF ok] by simp
next
  case (step_watchdog K)
  then show ?thesis using watchdog_nothing by (simp add: setting_def config_part_def)
next
  case (step_access i)
  then show ?thesis by (simp add: access_setting)
qed

lemma reachable_core:
  assumes r: "ready_to_run r" and s: "reachable (pager_start r) s"
  obtains C F X where "sys_ok s C F X" "setting (reg s) = setting r" "workers s \<noteq> []"
proof -
  have "setting (reg s) = setting r \<and> length (workers s) = length (workers (pager_start r))"
    using s
  proof induction
    case reach_start
    show ?case by (simp add: pager_start_def Let_def prefetch_pool_start_def setting_def config_part_def)
  next
    case (reach_step s s')
    obtain C F X where "sys_ok s C F X" using reachable_ok[OF r reach_step.hyps(1)] by blast
    from step_setting[OF this reach_step.hyps(2)] show ?case using reach_step.IH by simp
  qed
  moreover have "length (workers (pager_start r)) > 0" by (simp add: pager_start_def Let_def)
  moreover obtain C F X where "sys_ok s C F X" using reachable_ok[OF r s] by blast
  ultimately show thesis using that[of C F X] by (cases "workers s") simp_all
qed

lemma absent_unpopulated:
  assumes inv: "budget_inv r C F X" and i: "i < n_chunks r" "state (chunk_at r i) = CHUNK_ABSENT" "in_chunk (chunk_at r i) b"
  shows "memfd r b = None"
proof (rule ccontr)
  assume "memfd r b \<noteq> None"
  have t: "tiles 0 (chunks r) (unat (region_len r))" using inv by (auto simp: budget_inv_def geometry_ok_def)
  have "b < unat (region_len r)" using tiles_within[OF t i(1)] i(3) by (simp add: in_chunk_def)
  then obtain j where j: "j \<in> C \<union> F" "in_chunk (chunk_at r j) b"
    using inv \<open>memfd r b \<noteq> None\<close> unfolding budget_inv_def data_ok_def by blast
  have "j < n_chunks r" "state (chunk_at r j) \<noteq> CHUNK_ABSENT" using inv j(1) by (auto simp: budget_inv_def acct_def)
  then have "j \<noteq> i" using i(2) by auto
  then show False using in_chunk_unique[OF t \<open>j < n_chunks r\<close> i(1)] j(2) i(3) by blast
qed

text \<open>
  C1. The byte bound of the whole pager. However the workers, the dispatcher and the application are
  interleaved, and whatever the kernel answers, the pages the region holds never exceed the byte
  budget, which never changes; every RESIDENT chunk holds the bytes of the model file; a chunk that is
  ABSENT has no page, so that the next touch of it faults.
\<close>

theorem reachable_within_budget:
  assumes "ready_to_run r" and "reachable (pager_start r) s"
  shows "populated (reg s) \<le> unat (budget_bytes r)
    \<and> (\<forall>i<n_chunks (reg s). \<forall>b. in_chunk (chunk_at (reg s) i) b \<longrightarrow>
         (case state (chunk_at (reg s) i) of
            CHUNK_RESIDENT \<Rightarrow> memfd (reg s) b = Some (model_byte r b)
          | CHUNK_ABSENT \<Rightarrow> memfd (reg s) b = None
          | CHUNK_FETCHING \<Rightarrow> True))"
proof -
  obtain C F X where ok: "sys_ok s C F X" and se: "setting (reg s) = setting r" by (rule reachable_core[OF assms])
  note inv = sys_okD(2)[OF ok]
  have cfg: "budget_bytes (reg s) = budget_bytes r" "model_byte (reg s) b = model_byte r b" for b
    using se by (simp_all add: setting_def config_part_def model_byte_def)
  have "populated (reg s) \<le> unat (budget_bytes r)"
    using populated_bounds(2)[OF inv] sys_okD(7)[OF ok] cfg(1) by simp
  moreover have "memfd (reg s) b = Some (model_byte r b)"
    if "i < n_chunks (reg s)" "state (chunk_at (reg s) i) = CHUNK_RESIDENT" "in_chunk (chunk_at (reg s) i) b" for i b
    using inv that cfg(2) by (auto simp: budget_inv_def acct_def data_ok_def)
  ultimately show ?thesis using absent_unpopulated[OF inv] by (auto split: chunk_state.splits)
qed

lemma owner_core:
  assumes ok: "sys_ok s C F X" and i: "i < n_chunks (reg s)" "state (chunk_at (reg s) i) = CHUNK_FETCHING"
  shows "if i \<in> set (demand_list (reg s)) then \<not> claimed s i
         else \<exists>!w. w < length (workers s) \<and> claims (workers s ! w) = Some i"
proof (cases "i \<in> set (demand_list (reg s))")
  case True
  then show ?thesis using ok by (simp add: sys_ok_def)
next
  case False
  have "claimed s i"
  proof (rule ccontr)
    assume "\<not> claimed s i"
    then have "unowned (reg s) C F X i" using ok i(1) by (simp add: sys_ok_def)
    then show False using i(2) False by (simp add: unowned_def)
  qed
  then obtain w where w: "w < length (workers s)" "claims (workers s ! w) = Some i" by (auto simp: claimed_def)
  have "v = w" if "v < length (workers s)" "claims (workers s ! v) = Some i" for v
    using apart_other[OF sys_okD(5)[OF ok] w that(1)] that(2) by blast
  then show ?thesis using False w by auto
qed

text \<open>
  C5. No fetch is lost and none is done twice. In every reachable state the demand queue holds no chunk
  twice, and a FETCHING chunk is either in it, and then no worker has it, or exactly one worker has it.
  So there is no orphan for the watchdog to reclaim: what it would reset is a demand job that waits, in
  the queue or for the chunk's mutex.
\<close>

theorem fetching_has_one_owner:
  assumes "ready_to_run r" and "reachable (pager_start r) s"
    and "i < n_chunks (reg s)" and "state (chunk_at (reg s) i) = CHUNK_FETCHING"
  shows "distinct (demand_list (reg s))
    \<and> (if i \<in> set (demand_list (reg s)) then \<forall>w<length (workers s). claims (workers s ! w) \<noteq> Some i
       else \<exists>!w. w < length (workers s) \<and> claims (workers s ! w) = Some i)
    \<and> (lock_free s i \<longrightarrow> i \<in> set (demand_list (reg s)) \<or> Wants_lock Dem i \<in> set (workers s))"
proof -
  obtain C F X where ok: "sys_ok s C F X" by (rule reachable_core[OF assms(1,2)])
  note O = owner_core[OF ok assms(3,4)]
  obtain pool where h: "prefetch_pool_handle (reg s) = Some pool" "pool_ok (n_chunks (reg s)) pool" by (rule sys_pool[OF ok])
  have "distinct (demand_list (reg s))" using h by (simp add: demand_list_def pool_ok_def)
  moreover have "Wants_lock Dem i \<in> set (workers s)" if l: "lock_free s i" and q: "i \<notin> set (demand_list (reg s))"
  proof -
    obtain w where w: "w < length (workers s)" "claims (workers s ! w) = Some i" using O q by auto
    have "mutex (workers s ! w) \<noteq> Some i" using l w(1) by (simp add: lock_free_def list_all_length)
    with w(2) have "workers s ! w = Wants_lock Dem i" by (auto simp: claims_def split: phase.splits kind.splits)
    then show ?thesis using w(1) by (metis nth_mem)
  qed
  ultimately show ?thesis using O by (auto simp: claimed_def split: if_split_asm)
qed

text \<open>
  C3. No deadlock over the mutexes of the chunks and \<^verbatim>\<open>budget_lock\<close>. In every reachable
  state in which no worker can step, all of them are idle and both queues are empty; then no chunk is
  FETCHING, nothing is reserved, no prefetch is tracked, and the pages held are those accounted resident.
\<close>

theorem workers_never_deadlock:
  assumes "ready_to_run r" and "reachable (pager_start r) s"
    and "\<forall>w<length (workers s). act K s w = None"
  shows "list_all (\<lambda>p. p = Idle) (workers s) \<and> demand_list (reg s) = [] \<and> pf_jobs (reg s) = 0
    \<and> list_all (\<lambda>c. state c \<noteq> CHUNK_FETCHING) (chunks (reg s)) \<and> reserved_bytes (reg s) = 0
    \<and> populated (reg s) = unat (resident_bytes (reg s))
    \<and> map_option tracked (prefetch_pool_handle (reg s)) = Some {}"
proof -
  obtain C F X where ok: "sys_ok s C F X" and n: "workers s \<noteq> []" by (rule reachable_core[OF assms(1,2)])
  have se: "quiescent s" using stuck_quiescent[OF ok n] assms(3) by blast
  obtain pool where "prefetch_pool_handle (reg s) = Some pool" by (rule sys_pool[OF ok])
  then show ?thesis using quiescent_clean[OF ok se] se by (simp add: quiescent_def list_all_length)
qed

section \<open>Runs of the workers\<close>

text \<open>\<open>n\<close> steps of workers, each under some behaviour of the kernel from \<open>Ks\<close>.\<close>

inductive worker_run :: "kernel set \<Rightarrow> sys \<Rightarrow> nat \<Rightarrow> sys \<Rightarrow> bool" for Ks where
  run_stop: "worker_run Ks s 0 s"
| run_step: "K \<in> Ks \<Longrightarrow> w < length (workers s) \<Longrightarrow> act K s w = Some (Inr s') \<Longrightarrow> worker_run Ks s' n s'' \<Longrightarrow>
    worker_run Ks s (Suc n) s''"

lemma run_keeps:
  assumes "worker_run Ks s n s'" "sys_ok s C F X"
  shows "(\<exists>C F X. sys_ok s' C F X) \<and> n + load s' \<le> load s \<and> setting (reg s') = setting (reg s)
    \<and> length (workers s') = length (workers s)"
  using assms
proof (induction arbitrary: C F X)
  case (run_stop s)
  then show ?case by auto
next
  case (run_step K w s s' n s'')
  obtain C' F' X' where ok: "sys_ok s' C' F' X'" using act_keeps[OF run_step.prems run_step.hyps(2,3)] by blast
  show ?case using run_step.IH[OF ok] act_progress[OF run_step.prems run_step.hyps(2,3)] by simp
qed

text \<open>
  C4. The workers stop. From every reachable state a run of the workers, whichever of them steps and
  whatever the kernel answers, has at most \<open>load s\<close> steps: as long as no new fault arrives, the
  evictions, the bounded retries and the prefetches that the fetches queue come to an end.
\<close>

theorem worker_runs_bounded:
  assumes "ready_to_run r" and "reachable (pager_start r) s" and "worker_run Ks s n s'"
  shows "n + load s' \<le> load s"
proof -
  obtain C F X where "sys_ok s C F X" by (rule reachable_core[OF assms(1,2)])
  then show ?thesis using run_keeps[OF assms(3)] by blast
qed



section \<open>Concrete runs\<close>

text \<open>The demo region with four workers and a fault on chunk 1; a worker takes the job and the mutex.\<close>

lemma demo_ready: "ready_to_run demo_region"
proof -
  have "starts_in_file demo_region i" if "i < 3" for i
    using that by (auto simp: starts_in_file_def demo_region_def new_chunk_def less_Suc_eq numeral_3_eq_3)
  moreover have "async_handler demo_region" by (simp add: demo_region_def)
  ultimately show ?thesis using demo_inv_start demo_n by (simp add: ready_to_run_def)
qed

lemma demo_workers: "workers (pager_start demo_region) = replicate 4 Idle" "reg (pager_start demo_region) = demo_running"
proof -
  have "fetch_workers demo_region = 4" by (simp add: demo_region_def)
  then show "workers (pager_start demo_region) = replicate 4 Idle" "reg (pager_start demo_region) = demo_running"
    by (simp_all add: pager_start_def Let_def demo_running_def)
qed

lemma fault_reachable:
  assumes s: "s0 = pager_start r" and h: "handle_fault K (reg s0) rel m = Inr r'"
    and lk: "pager_lookup (chunks (reg s0)) rel = Some i"
  shows "reachable s0 (s0\<lparr>reg := r'\<rparr>)"
proof -
  have id: "workers s0 = replicate (length (workers s0)) Idle" by (simp add: s pager_start_def Let_def)
  have "lock_free s0 i" "budget_free s0" unfolding lock_free_def budget_free_def by (subst id, simp add: list_all_length)+
  then show ?thesis using reach_step[OF reach_start step_fault[OF lk _ _ h]] by blast
qed

definition demo_faulted :: sys where
  "demo_faulted = (pager_start demo_region)\<lparr>reg := demo_queued\<rparr>"

lemma demo_faulted_reachable:
  "reachable (pager_start demo_region) demo_faulted" "workers demo_faulted = replicate 4 Idle" "reg demo_faulted = demo_queued"
proof -
  have "pager_lookup (chunks demo_running) 5000 = Some 1" by (simp add: demo_running_inv(4) demo_lookup)
  then show "reachable (pager_start demo_region) demo_faulted"
    unfolding demo_faulted_def
    using fault_reachable[OF refl, of demo_late demo_region 5000 True demo_queued 1] demo_workers(2) demo_queued_inv(1) by simp
  show "workers demo_faulted = replicate 4 Idle" "reg demo_faulted = demo_queued"
    by (simp_all add: demo_faulted_def demo_workers(1))
qed

lemma demo_take: "\<exists>r2. act K demo_faulted 0 = Some (Inr (go demo_faulted 0 (Wants_lock Dem 1) r2)) \<and> chunks r2 = chunks demo_queued
    \<and> reconcile_interval r2 = reconcile_interval demo_queued"
proof -
  obtain pool where h: "prefetch_pool_handle demo_queued = Some pool" "pool_ok 3 pool"
    using demo_queued_inv(2,8) by (auto simp: dispatch_inv_def)
  have q: "ring_list (demand_queue pool) = [1]" using demo_queued_inv(3) h(1) by (simp add: demand_list_def)
  obtain j pool' where jt: "worker_take pool = Some (j, pool')"
    using worker_take_ok[OF h(2)] q by (cases "worker_take pool") auto
  have t: "worker_take pool = Some (Demand 1, pool')" using worker_take_ok[OF h(2)] q jt by (cases j) simp_all
  have "act K demo_faulted 0 = Some (Inr (go demo_faulted 0 (Wants_lock Dem 1) (demo_queued\<lparr>prefetch_pool_handle := Some pool'\<rparr>)))"
    by (simp add: act_def demo_faulted_reachable(2,3) h(1) t)
  then show ?thesis by auto
qed

text \<open>The demo kernel with an honest \<^verbatim>\<open>memory.stat\<close>, and one whose file is gone.\<close>

definition demo_honest :: kernel where
  "demo_honest = demo_kernel\<lparr>k_memory_stat := (\<lambda>s. Some [R_bytes (print_file
     [(''shmem'', known_overhead_bytes s + word_of_nat (populated s))]), R_bytes []])\<rparr>"

definition demo_blind :: kernel where
  "demo_blind = demo_kernel\<lparr>k_memory_stat := (\<lambda>s. None)\<rparr>"

lemma print_one_length: "length (print_file [(''shmem'', v)]) \<le> 27"
  using dec_string_u64[of v] by (simp add: print_file_def)

lemma honest_shmem: "read_memory_stat_shmem demo_honest s = Inr (known_overhead_bytes s + word_of_nat (populated s))"
proof -
  let ?v = "known_overhead_bytes s + word_of_nat (populated s)" and ?f = "print_file [(''shmem'', known_overhead_bytes s + word_of_nat (populated s))]"
  have k: "\<forall>(k, v)\<in>set [(''shmem'', ?v)]. key_ok k" by (simp add: key_ok_def isspace_def)
  have "?f \<noteq> []" by (simp add: print_file_def)
  moreover have "length ?f \<le> 27" by (rule print_one_length)
  ultimately have "snapshot_loop ([R_bytes ?f] @ [R_bytes []]) [] = Some ([] @ read_pieces [R_bytes ?f])"
    by (intro snapshot_loop_reads) (simp_all add: CGROUP_STAT_BUF_SIZE_def)
  then have "cgroup_stat_snapshot_read (k_memory_stat demo_honest s) = Some ?f"
    by (simp add: demo_honest_def cgroup_stat_snapshot_read_def)
  moreover have "cgroup_stat_snapshot_field ?f ''shmem'' = Some ?v"
    using find_field_printed[OF k, of "''shmem''"] snapshot_lines_print[OF k] by (simp add: cgroup_stat_snapshot_field_def)
  ultimately show ?thesis by (simp add: read_memory_stat_shmem_def)
qed

lemma populated_le: "populated r \<le> unat (region_len r)"
proof -
  have "{b. b < unat (region_len r) \<and> memfd r b \<noteq> None} \<subseteq> {..<unat (region_len r)}" by auto
  from card_mono[OF _ this] show ?thesis by (simp add: populated_def)
qed

definition demo_lru :: region where
  "demo_lru = demo_region\<lparr>policy_of := Some Lru\<rparr>"

lemma demo_lru_ready: "ready_to_run demo_lru" "plain demo_lru" "obliging demo_honest demo_lru"
proof -
  have "inv_part demo_lru = inv_part demo_region" "config_part demo_lru = config_part demo_region"
    "chunks demo_lru = chunks demo_region" "async_handler demo_lru = async_handler demo_region"
    by (simp_all add: demo_lru_def inv_part_def config_part_def)
  then show "ready_to_run demo_lru"
    using demo_ready budget_inv_cong[of demo_lru demo_region] starts_in_file_cong[of demo_lru demo_region]
    by (simp add: ready_to_run_def)
  show "plain demo_lru" by (simp add: plain_def demo_lru_def demo_region_def zero_region_def)
  have c: "region_len demo_lru = 12288" "known_overhead_bytes demo_lru = 0"
    by (simp_all add: demo_lru_def demo_region_def zero_region_def)
  have "unat (known_overhead_bytes s + word_of_nat (populated s)) = unat (known_overhead_bytes s) + populated s"
    if s: "config_part s = config_part demo_lru" for s
  proof -
    have "region_len s = 12288" "known_overhead_bytes s = 0" using s c by (simp_all add: config_part_def)
    then show ?thesis using populated_le[of s] by (simp add: unat_of_nat take_bit_eq_mod)
  qed
  then show "obliging demo_honest demo_lru"
    by (simp add: obliging_def honest_shmem c) (simp add: demo_honest_def demo_kernel_def)
qed

lemma setting_interval: "setting r' = setting r \<Longrightarrow> reconcile_interval r' = reconcile_interval r"
  by (simp add: setting_def config_part_def)

lemma demo_interval: "reconcile_interval demo_region = 1"
  by (simp add: demo_region_def)

theorem reachable_within_budget_witness:
  "state (chunk_at (reg demo_faulted) 1) = CHUNK_FETCHING \<and> populated (reg demo_faulted) \<le> 8192
    \<and> memfd (reg demo_faulted) 0 = None"
proof -
  have "budget_bytes demo_region = 8192" by (simp add: demo_region_def)
  moreover have "chunk_at demo_queued 0 = chunk_at demo_region 0"
  proof -
    have "dispatched 1 demo_running demo_queued"
      using handle_fault_dispatches[OF demo_running_inv(1,2), of 5000 1 demo_late True] demo_queued_inv(1) demo_n
      by (simp add: demo_running_inv(4) demo_lookup)
    then show ?thesis by (simp add: dispatched_def demo_running_inv(4))
  qed
  moreover have "state (chunk_at demo_region 0) = CHUNK_ABSENT" "in_chunk (chunk_at demo_region 0) 0"
    using demo_inv_start(2)[of 0] demo_n by (simp_all add: in_chunk_def demo_region_def new_chunk_def)
  moreover note T = reachable_within_budget[OF demo_ready demo_faulted_reachable(1)]
  moreover note conjunct2[OF T, rule_format, of 0 0]
  ultimately show ?thesis using demo_queued_inv(5,8) by (simp add: demo_faulted_reachable(3))
qed

theorem fetching_has_one_owner_witness:
  "1 \<in> set (demand_list (reg demo_faulted)) \<and> distinct (demand_list (reg demo_faulted))
    \<and> claims (workers demo_faulted ! 2) \<noteq> Some 1"
  using fetching_has_one_owner[OF demo_ready demo_faulted_reachable(1), of 1] demo_queued_inv(3,5,8)
  by (simp add: demo_faulted_reachable(2,3) claims_def)

theorem workers_never_deadlock_witness:
  "reserved_bytes (reg (pager_start demo_region)) = 0
    \<and> populated (reg (pager_start demo_region)) = unat (resident_bytes (reg (pager_start demo_region)))"
proof -
  obtain pool where h: "prefetch_pool_handle demo_running = Some pool" "pool_ok 3 pool"
    using demo_running_inv(1,4) demo_n by (auto simp: dispatch_inv_def)
  have "tracked pool = {}" using pool_start_ok[of demo_region 4] h(1) demo_n by (auto simp: demo_running_def)
  then have "ring_list (demand_queue pool) = []" "ring_list (pf_queue pool) = []"
    using demo_running_inv(8) h by (simp_all add: demand_list_def pool_ok_def)
  then have t: "worker_take pool = None" by (simp add: worker_take_def flip: length_ring_list)
  have "\<forall>w<length (workers (pager_start demo_region)). act demo_kernel (pager_start demo_region) w = None"
    by (simp add: act_def demo_workers h(1) t)
  from workers_never_deadlock[OF demo_ready reach_start this] show ?thesis by simp
qed

theorem worker_runs_bounded_witness:
  "\<exists>s'. worker_run UNIV demo_faulted 1 s' \<and> 1 + load s' \<le> load demo_faulted"
proof -
  obtain r2 where a: "act demo_kernel demo_faulted 0 = Some (Inr (go demo_faulted 0 (Wants_lock Dem 1) r2))"
    using demo_take by blast
  have "worker_run UNIV demo_faulted (Suc 0) (go demo_faulted 0 (Wants_lock Dem 1) r2)"
    by (rule run_step[OF _ _ a run_stop]) (simp_all add: demo_faulted_reachable(2))
  with worker_runs_bounded[OF demo_ready demo_faulted_reachable(1) this] show ?thesis by auto
qed



end
