(* ===== verification/Simulation.thy ===== *)
theory Simulation
  imports Concurrency
begin

text \<open>
  The two models of the pool agree. A worker alone, taken step by step, does what
  \<open>do_one_demand\<close> and \<open>do_one_prefetch\<close> do in one go: each round of
  \<open>worker_round\<close> that returns is a run of the small steps to the same region.
\<close>

section \<open>One worker\<close>

definition alone :: "phase \<Rightarrow> region \<Rightarrow> sys" where
  "alone p r = \<lparr>reg = r, workers = [p]\<rparr>"

definition runs :: "kernel \<Rightarrow> sys \<Rightarrow> sys \<Rightarrow> bool" where
  "runs K s s' \<longleftrightarrow> (\<exists>n. worker_run {K} s n s')"

lemma alone_simps [simp]:
  "reg (alone p r) = r" "workers (alone p r) = [p]" "go (alone p r) 0 p' r' = alone p' r'"
  by (simp_all add: alone_def go_def)

lemma runs_refl [simp]: "runs K s s"
  unfolding runs_def by (blast intro: run_stop)

lemma run_append: "worker_run Ks s n s' \<Longrightarrow> worker_run Ks s' m s'' \<Longrightarrow> worker_run Ks s (n + m) s''"
  by (induction rule: worker_run.induct) (auto intro: run_step)

lemma runs_trans [trans]: "runs K s s' \<Longrightarrow> runs K s' s'' \<Longrightarrow> runs K s s''"
  unfolding runs_def using run_append by blast

lemma runs_act: "act K (alone p r) 0 = Some (Inr s') \<Longrightarrow> runs K (alone p r) s'"
  unfolding runs_def by (rule exI[of _ "Suc 0"], rule run_step[OF _ _ _ run_stop, of K _ 0]) simp_all

lemma ready_alone: "\<not> in_budget p \<Longrightarrow> ready (alone p r) p"
  by (cases p) (simp_all add: lock_free_def budget_free_def)

lemma runs_work:
  assumes "work K p r = Inr (p', r')" "p \<noteq> Idle" "\<not> in_budget p"
  shows "runs K (alone p r) (alone p' r')"
  using act_eq[of "alone p r" 0 K] assms ready_alone[OF assms(3)] by (intro runs_act) simp

lemma runs_evict:
  assumes "reserve_round K k (cx_chunk x) (alone (At_evict k n x) r) = Some (Inr (b, r'))"
  shows "runs K (alone (At_evict k n x) r) (alone (next_phase k n x b) r')"
  using assms by (intro runs_act) (simp add: act_def)

section \<open>The reservation\<close>

lemma evict_other:
  assumes ev: "evict_and_reconcile K r v = Inr r'" and v: "v < n_chunks r" and i: "state (chunk_at r i) = CHUNK_FETCHING"
  shows "i \<noteq> v" and "chunk_at r' i = chunk_at r i"
proof -
  from evict_and_reconcile_effect[OF ev] obtain r1 where e1: "evict_chunk K r v = Inr r1"
    and r': "r' = r1\<lparr>fetches_since_reconcile := 0\<rparr>" by blast
  note E = evict_chunk_effect[OF e1 v]
  show ne: "i \<noteq> v" using E(1) i by (auto simp: evictable_def)
  then show "chunk_at r' i = chunk_at r i" by (simp add: r' E(2) upd_chunk_def punch_def)
qed

lemma broken_pin_other:
  assumes "evict_and_reconcile K (broken_pin r v) v = Inr r'" "v < n_chunks r"
    and i: "i < n_chunks r" "state (chunk_at r i) = CHUNK_FETCHING"
  shows "i \<noteq> v" and "chunk_at r' i = chunk_at r i"
proof -
  have fr: "frame (n_chunks r) r {} {} (\<lambda>_. 0) (broken_pin r v) {} {} (\<lambda>_. 0)" using broken_pin_frame by blast
  have st: "state (chunk_at (broken_pin r v) i) = CHUNK_FETCHING" using frame_at(5)[OF fr i(1)] i by simp
  have n: "v < n_chunks (broken_pin r v)" using frame_bound[OF fr] assms(2) by simp
  note E = evict_other[OF assms(1) n st]
  show "i \<noteq> v" by (rule E(1))
  then show "chunk_at r' i = chunk_at r i"
    using E(2) broken_pin_frame[of i r "{}" "{}" "\<lambda>_. 0" v] by simp
qed

lemma victim_runs:
  assumes over: "over_budget r (len (chunk_at r (cx_chunk x)))" and v: "select_victim r = Some v"
    and adm: "k = Pre \<Longrightarrow> prefetch_admit r v (cx_chunk x)"
    and r0: "record_policy_trace r v = Inr r0" "evict_and_reconcile K r0 v = Inr r1"
    and i: "state (chunk_at r (cx_chunk x)) = CHUNK_FETCHING"
  shows "runs K (alone (At_evict k n x) r) (alone (At_evict k n x) r1)"
    and "chunk_at r1 (cx_chunk x) = chunk_at r (cx_chunk x)" and "n_chunks r1 = n_chunks r"
proof -
  let ?i = "cx_chunk x" and ?s = "alone (At_evict k n x) r"
  obtain pt where r0': "r0 = r\<lparr>diag_policy_trace := pt\<rparr>" by (rule record_policy_trace_effect[OF r0(1)])
  have vn: "v < n_chunks r0" using select_victim_sound[OF v] by (simp add: r0')
  have O: "?i \<noteq> v" "chunk_at r1 ?i = chunk_at r ?i"
    using evict_other[OF r0(2) vn, of ?i] i by (simp_all add: r0')
  show "chunk_at r1 ?i = chunk_at r ?i" by (rule O(2))
  show "n_chunks r1 = n_chunks r" using evict_residents(2)[OF r0(2) vn] by (simp add: r0')
  have "reserve_round K k ?i ?s = Some (Inr (None, r1))"
    using over v r0 O(1) adm by (auto simp: reserve_round_def Let_def rbind_def lock_free_def)
  from runs_evict[OF this] show "runs K ?s (alone (At_evict k n x) r1)" by (cases k) simp_all
qed

lemma evict_loop_runs:
  "evict_loop K need r = Inr (ok, r2) \<Longrightarrow> need = len (chunk_at r (cx_chunk x)) \<Longrightarrow>
   cx_chunk x < n_chunks r \<Longrightarrow> state (chunk_at r (cx_chunk x)) = CHUNK_FETCHING \<Longrightarrow>
   runs K (alone (At_evict Dem n x) r) (alone (next_phase Dem n x (Some ok)) (if ok then reserve need r2 else r2))
     \<and> chunk_at r2 (cx_chunk x) = chunk_at r (cx_chunk x) \<and> n_chunks r2 = n_chunks r"
proof (induction K need r rule: evict_loop.induct)
  case (1 K need r)
  let ?i = "cx_chunk x" and ?s = "alone (At_evict Dem n x) r"
  have lf: "lock_free ?s v \<longleftrightarrow> ?i \<noteq> v" for v by (simp add: lock_free_def)
  show ?case
  proof (cases "over_budget r need")
    case False
    then have e: "ok" "r2 = r" using 1(3) by (simp_all add: evict_loop_unfold[of K need r])
    have "reserve_round K Dem ?i ?s = Some (Inr (Some True, reserve need r))"
      using False 1(4) by (simp add: reserve_round_def Let_def)
    from runs_evict[OF this] show ?thesis by (simp add: e)
  next
    case over: True
    show ?thesis
    proof (cases "select_victim r")
      case (Some v)
      obtain r0 r1 where r0: "record_policy_trace r v = Inr r0" "evict_and_reconcile K r0 v = Inr r1"
        and rest: "evict_loop K need r1 = Inr (ok, r2)"
        using 1(3) over Some by (auto simp: evict_loop_unfold[of K need r] rbind_Inr_iff)
      have over': "over_budget r (len (chunk_at r ?i))" using over 1(4) by simp
      have V: "runs K ?s (alone (At_evict Dem n x) r1)"
        by (rule victim_runs(1)[OF over' Some _ r0 1(6)]) simp
      have V2: "chunk_at r1 ?i = chunk_at r ?i"
        by (rule victim_runs(2)[OF over' Some _ r0 1(6), of Dem]) simp
      have V3: "n_chunks r1 = n_chunks r"
        by (rule victim_runs(3)[OF over' Some _ r0 1(6), of Dem]) simp
      have "runs K (alone (At_evict Dem n x) r1) (alone (next_phase Dem n x (Some ok)) (if ok then reserve need r2 else r2))
          \<and> chunk_at r2 ?i = chunk_at r1 ?i \<and> n_chunks r2 = n_chunks r1"
        using over Some r0 rest 1(4-6) V2 V3 by (intro 1(2)[of v r0 r1]) simp_all
      then show ?thesis using runs_trans[OF V] V2 V3 by metis
    next
      case None
      let ?p = "if prefetch_retention_pinned r then pin_break_select_victim r else None"
      show ?thesis
      proof (cases ?p)
        case (Some v)
        obtain r1 where v: "v < n_chunks r" and r1: "evict_and_reconcile K (broken_pin r v) v = Inr r1"
          and rest: "evict_loop K need r1 = Inr (ok, r2)"
          using 1(3) over None Some by (auto simp: evict_loop_unfold[of K need r] rbind_Inr_iff split: if_splits)
        note O = broken_pin_other[OF r1 v 1(5,6)]
        have "v < n_chunks (broken_pin r v)" using v by (simp add: broken_pin_def)
        then have n: "n_chunks r1 = n_chunks r" using evict_residents(2)[OF r1] by (simp add: broken_pin_def)
        have "reserve_round K Dem ?i ?s = Some (Inr (None, r1))"
          using over None Some r1 O(1) v lf 1(4) by (simp add: reserve_round_def Let_def rbind_def)
        from runs_evict[OF this] have "runs K ?s (alone (At_evict Dem n x) r1)" by simp
        moreover have "runs K (alone (At_evict Dem n x) r1) (alone (next_phase Dem n x (Some ok)) (if ok then reserve need r2 else r2))
            \<and> chunk_at r2 ?i = chunk_at r1 ?i \<and> n_chunks r2 = n_chunks r1"
          using over None Some r1 rest v 1(4-6) O n by (intro 1(1)[of v r1]) (simp_all add: broken_pin_def)
        ultimately show ?thesis using runs_trans O(2) n by metis
      next
        case p: None
        then have e: "\<not> ok" "r2 = r\<lparr>stat_infeasible := stat_infeasible r + 1\<rparr>"
          using 1(3) over None by (simp_all add: evict_loop_unfold[of K need r])
        have "reserve_round K Dem ?i ?s = Some (Inr (Some False, r2))"
          using over None p e(2) 1(4) by (simp add: reserve_round_def Let_def)
        from runs_evict[OF this] show ?thesis by (simp add: e)
      qed
    qed
  qed
qed

lemma reconcile_chunks: "scheduled_reconcile K r = Inr r' \<Longrightarrow> chunks r' = chunks r"
  by (auto simp: scheduled_reconcile_def Let_def rbind_Inr_iff split: if_splits)

lemma ensure_budget_runs:
  assumes e: "ensure_budget K r (len (chunk_at r (cx_chunk x))) = Inr (ok, r2)"
    and i: "cx_chunk x < n_chunks r" "state (chunk_at r (cx_chunk x)) = CHUNK_FETCHING"
  shows "runs K (alone (At_reserve Dem n x) r) (alone (next_phase Dem n x (Some ok)) r2)"
    and "chunk_at r2 (cx_chunk x) = chunk_at r (cx_chunk x)" "n_chunks r2 = n_chunks r"
proof -
  let ?i = "cx_chunk x" and ?need = "len (chunk_at r (cx_chunk x))"
  obtain r1 r3 where r1: "scheduled_reconcile K r = Inr r1" "evict_loop K ?need r1 = Inr (ok, r3)"
    and r2: "r2 = (if ok then reserve ?need r3 else r3)"
    using e by (auto simp: ensure_budget_def rbind_Inr_iff)
  note c = reconcile_chunks[OF r1(1)]
  have "runs K (alone (At_reserve Dem n x) r) (alone (At_evict Dem n x) r1)"
    using r1(1) by (intro runs_work) (simp_all add: rbind_def)
  also have L: "runs K (alone (At_evict Dem n x) r1) (alone (next_phase Dem n x (Some ok)) (if ok then reserve ?need r3 else r3))
      \<and> chunk_at r3 ?i = chunk_at r1 ?i \<and> n_chunks r3 = n_chunks r1"
    using evict_loop_runs[OF r1(2)] i by (simp add: c)
  then have "runs K (alone (At_evict Dem n x) r1) (alone (next_phase Dem n x (Some ok)) r2)" by (simp only: r2)
  finally show "runs K (alone (At_reserve Dem n x) r) (alone (next_phase Dem n x (Some ok)) r2)" .
  show "chunk_at r2 ?i = chunk_at r ?i" "n_chunks r2 = n_chunks r" using L by (simp_all add: r2 c reserve_def)
qed

text \<open>The retries of a demand job, where nobody else changes the region between them.\<close>

lemma retry_runs:
  assumes id: "\<And>n r. k_others K n r = r"
  shows "retry_budget K n (cx_chunk x) r = Inr (ok, r2) \<Longrightarrow> cx_chunk x < n_chunks r \<Longrightarrow>
    state (chunk_at r (cx_chunk x)) = CHUNK_FETCHING \<Longrightarrow>
    runs K (alone (next_phase Dem n x (Some False)) r) (alone (if ok then At_read Dem x else At_abandon Dem x) r2)
      \<and> chunk_at r2 (cx_chunk x) = chunk_at r (cx_chunk x)"
proof (induction n arbitrary: r)
  case 0
  then show ?case by simp
next
  case (Suc n)
  let ?i = "cx_chunk x"
  obtain ok1 r1 where e: "ensure_budget K r (len (chunk_at r ?i)) = Inr (ok1, r1)"
    and rest: "(if ok1 then Inr (True, r1) else retry_budget K n ?i r1) = Inr (ok, r2)"
    using Suc.prems(1) id by (auto simp: rbind_Inr_iff Let_def)
  note E = ensure_budget_runs[OF e Suc.prems(2,3)]
  have first: "runs K (alone (next_phase Dem (Suc n) x (Some False)) r) (alone (next_phase Dem n x (Some ok1)) r1)"
    using E(1)[of n] by simp
  show ?case
  proof (cases ok1)
    case True
    then show ?thesis using first E(2) rest by simp
  next
    case False
    then have "retry_budget K n ?i r1 = Inr (ok, r2)" using rest by simp
    from Suc.IH[OF this] have "runs K (alone (next_phase Dem n x (Some False)) r1) (alone (if ok then At_read Dem x else At_abandon Dem x) r2)
        \<and> chunk_at r2 ?i = chunk_at r1 ?i" using E(2,3) Suc.prems(2,3) by simp
    then show ?thesis using runs_trans[OF first] E(2) False by simp
  qed
qed

section \<open>The fetch and what follows\<close>

lemma fetch_runs:
  assumes f: "fetch_chunk K r (cx_chunk x) (diag_fetch_trace r \<noteq> None) = Inr (tm, r')"
  shows "runs K (alone (At_read k x) r) (alone (At_commit k (x\<lparr>cx_timing := tm\<rparr>)) r')"
proof -
  let ?i = "cx_chunk x" and ?r0 = "snd (stamp K r)"
  have st: "(if diag_fetch_trace r \<noteq> None then now_ns K s else (0, s)) = stamp K s" if "diag_fetch_trace s = diag_fetch_trace r" for s
    using that by (simp add: stamp_def)
  have d0: "diag_fetch_trace ?r0 = diag_fetch_trace r" by (simp add: stamp_def now_ns_def)
  have dr: "diag_fetch_trace s' = diag_fetch_trace s" if "fetch_read K s ?i = Inr s'" for s s'
    using that by (auto simp: fetch_read_def Let_def rbind_Inr_iff split: if_splits)
  have ds: "diag_fetch_trace (snd (stamp K s)) = diag_fetch_trace s" for s by (simp add: stamp_def now_ns_def)
  have dv: "diag_fetch_trace s' = diag_fetch_trace s" if "fetch_resolve K s ?i = Inr s'" for s s'
    using that by (auto simp: fetch_resolve_def Let_def split: if_splits continue_result.splits)
  obtain r1 where r1: "fetch_read K ?r0 ?i = Inr r1"
    using f st[of r] by (auto simp: fetch_chunk_def Let_def case_prod_beta rbind_Inr_iff)
  let ?r2 = "snd (stamp K r1)"
  have e1: "diag_fetch_trace r1 = diag_fetch_trace r" using dr[OF r1] d0 by simp
  obtain r3 where r3: "fetch_resolve K ?r2 ?i = Inr r3"
    using f st[of r] st[OF e1] r1 by (auto simp: fetch_chunk_def Let_def case_prod_beta rbind_Inr_iff)
  have e3: "diag_fetch_trace r3 = diag_fetch_trace r" using dv[OF r3] ds e1 by simp
  have t: "tm = \<lparr>read_start_ns = fst (stamp K r), read_end_ns = fst (stamp K r1), continue_end_ns = fst (stamp K r3)\<rparr>"
    "r' = snd (stamp K r3)"
    using f st[of r] st[OF e1] st[OF e3] r1 r3 by (simp_all add: fetch_chunk_def Let_def case_prod_beta rbind_def)
  let ?x1 = "x\<lparr>cx_timing := \<lparr>read_start_ns = fst (stamp K r), read_end_ns = fst (stamp K r1), continue_end_ns = 0\<rparr>\<rparr>"
  have "runs K (alone (At_read k x) r) (alone (At_continue k ?x1) ?r2)"
    using r1 by (intro runs_work) (simp_all add: case_prod_beta rbind_def)
  also have "runs K (alone (At_continue k ?x1) ?r2) (alone (At_commit k (x\<lparr>cx_timing := tm\<rparr>)) r')"
    using r3 t by (intro runs_work) (simp_all add: case_prod_beta rbind_def Let_def)
  finally show ?thesis .
qed

lemma complete_demand_runs:
  assumes c: "complete_demand K (\<lambda>r. Inr (prefetch_pool_top_up K r (cx_chunk x))) r (cx_chunk x) (cx_start x)
      (\<lambda>t_exit l. demand_record (cx_chunk x) (cx_start x) (cx_timing x) t_exit l (cx_entry x) (cx_enqueue x)) = Inr r'"
    and fin: "state (chunk_at r' (cx_chunk x)) \<noteq> CHUNK_FETCHING"
  shows "runs K (alone (At_commit Dem x) r) (alone Idle r')"
proof -
  let ?i = "cx_chunk x"
  let ?a = "commit_reserved_and_pin r ?i (len (chunk_at r ?i))"
  let ?b = "mark_resident ?i ?a"
  let ?c = "if prefetch_enabled ?b then prefetch_pool_top_up K ?b ?i else ?b"
  let ?d = "(unpin_chunk ?c ?i)\<lparr>stat_absent_handled := stat_absent_handled (unpin_chunk ?c ?i) + 1\<rparr>"
  have same: "stat_absent_handled (unpin_chunk s i) = stat_absent_handled s" for s i by (simp add: unpin_chunk_def upd_chunk_def)
  have "runs K (alone (At_commit Dem x) r) (alone (At_mark Dem x) ?a)" by (intro runs_work) simp_all
  also have "runs K (alone (At_mark Dem x) ?a) (alone (At_top_up x) ?b)" by (intro runs_work) simp_all
  also have "runs K (alone (At_top_up x) ?b) (alone (At_release Dem x) ?c)" by (intro runs_work) simp_all
  also have "runs K (alone (At_release Dem x) ?c) (alone (At_exit Dem x) ?d)" by (intro runs_work) (simp_all add: Let_def)
  also have "runs K (alone (At_exit Dem x) ?d) (alone Idle r')"
  proof (rule runs_work)
    have "rbind (if prefetch_enabled ?b then Inr (prefetch_pool_top_up K ?b ?i) else Inr ?b) f = f ?c" for f :: "region \<Rightarrow> failure + region"
      by (simp add: rbind_def)
    then show "work K (At_exit Dem x) ?d = Inr (Idle, r')"
      using c fin by (simp add: complete_demand_def Let_def case_prod_beta same rbind_def)
  qed simp_all
  finally show ?thesis .
qed

lemma demand_runs:
  assumes d: "do_one_demand K r i = Inr r'" and i: "i < n_chunks r" and id: "\<And>n r. k_others K n r = r"
  shows "runs K (alone (Wants_lock Dem i) r) (alone Idle r')"
proof -
  let ?t = "k_clock K (clk_pos r)" and ?r0 = "r\<lparr>clk_pos := clk_pos r + 1\<rparr>"
  let ?c = "chunk_at r i"
  let ?x = "\<lparr>cx_chunk = i, cx_start = ?t, cx_timing = \<lparr>read_start_ns = 0, read_end_ns = 0, continue_end_ns = 0\<rparr>,
      cx_entry = diag_dispatch_entry_ns ?c, cx_enqueue = diag_dispatch_enqueue_ns ?c\<rparr>"
  let ?f = "\<lambda>tm t_exit l. demand_record i ?t tm t_exit l (diag_dispatch_entry_ns ?c) (diag_dispatch_enqueue_ns ?c)"
  have st: "state ?c = CHUNK_FETCHING"
    and sd: "serve_demand K 200 (\<lambda>r. Inr (prefetch_pool_top_up K r i)) ?r0 i ?t ?f = Inr r'"
    and fin: "state (chunk_at r' i) \<noteq> CHUNK_FETCHING"
    using d by (auto simp: do_one_demand_def now_ns_def Let_def rbind_Inr_iff split: if_splits)
  obtain ok1 r1 ok r2 where e: "ensure_budget K ?r0 (len (chunk_at ?r0 i)) = Inr (ok1, r1)"
    and ry: "(if ok1 then Inr (True, r1) else retry_budget K 200 i r1) = Inr (ok, r2)"
    and rest: "(if \<not> ok then Inr (pager_abandon_fetch r2 i)
       else rbind (fetch_chunk K r2 i (diag_fetch_trace r2 \<noteq> None)) (\<lambda>(tm, r3).
          complete_demand K (\<lambda>r. Inr (prefetch_pool_top_up K r i)) r3 i ?t (?f tm))) = Inr r'"
    using sd unfolding serve_demand_def by (auto simp: rbind_Inr_iff)
  have E: "runs K (alone (At_reserve Dem 200 ?x) ?r0) (alone (next_phase Dem 200 ?x (Some ok1)) r1)"
    "chunk_at r1 i = ?c" "n_chunks r1 = n_chunks r"
    using ensure_budget_runs(1)[of K ?r0 ?x ok1 r1 200] ensure_budget_runs(2,3)[of K ?r0 ?x ok1 r1] e i st by simp_all
  have "runs K (alone (Wants_lock Dem i) r) (alone (At_reserve Dem 200 ?x) ?r0)"
    using st by (intro runs_work) (simp_all add: now_ns_def Let_def)
  also note E(1)
  also have "runs K (alone (next_phase Dem 200 ?x (Some ok1)) r1) (alone (if ok then At_read Dem ?x else At_abandon Dem ?x) r2)"
  proof (cases ok1)
    case True
    then show ?thesis using ry by simp
  next
    case False
    then have "retry_budget K 200 (cx_chunk ?x) r1 = Inr (ok, r2)" using ry by simp
    from retry_runs[OF id this] show ?thesis using False E(2,3) i st by simp
  qed
  also have "runs K (alone (if ok then At_read Dem ?x else At_abandon Dem ?x) r2) (alone Idle r')"
  proof (cases ok)
    case False
    then show ?thesis using rest by (simp, intro runs_work) simp_all
  next
    case True
    obtain tm r3 where f: "fetch_chunk K r2 i (diag_fetch_trace r2 \<noteq> None) = Inr (tm, r3)"
      and c: "complete_demand K (\<lambda>r. Inr (prefetch_pool_top_up K r i)) r3 i ?t (?f tm) = Inr r'"
      using rest True by (auto simp: rbind_Inr_iff)
    have "runs K (alone (At_read Dem ?x) r2) (alone (At_commit Dem (?x\<lparr>cx_timing := tm\<rparr>)) r3)"
      using f by (intro fetch_runs) simp
    also have "runs K (alone (At_commit Dem (?x\<lparr>cx_timing := tm\<rparr>)) r3) (alone Idle r')"
      using c fin by (intro complete_demand_runs) simp_all
    finally show ?thesis using True by simp
  qed
  finally show ?thesis .
qed

section \<open>A speculative fetch\<close>

lemma prefetch_evict_loop_runs:
  "prefetch_evict_loop K target need r = Inr (ok, r2) \<Longrightarrow> target = cx_chunk x \<Longrightarrow> need = len (chunk_at r (cx_chunk x)) \<Longrightarrow>
   state (chunk_at r (cx_chunk x)) = CHUNK_FETCHING \<Longrightarrow>
   runs K (alone (At_evict Pre n x) r) (alone (next_phase Pre n x (Some ok)) (if ok then reserve need r2 else r2))"
proof (induction K target need r rule: prefetch_evict_loop.induct)
  case (1 K target need r)
  let ?i = "cx_chunk x" and ?s = "alone (At_evict Pre n x) r"
  show ?case
  proof (cases "over_budget r need")
    case False
    then have e: "ok" "r2 = r" using 1(2) by (simp_all add: prefetch_evict_loop.simps[of K target need r])
    have "reserve_round K Pre ?i ?s = Some (Inr (Some True, reserve need r))"
      using False 1(4) by (simp add: reserve_round_def Let_def)
    from runs_evict[OF this] show ?thesis by (simp add: e)
  next
    case over: True
    then have over': "over_budget r (len (chunk_at r ?i))" using 1(4) by simp
    show ?thesis
    proof (cases "select_victim r")
      case None
      then have e: "\<not> ok" "r2 = r\<lparr>stat_infeasible := stat_infeasible r + 1\<rparr>"
        using 1(2) over by (simp_all add: prefetch_evict_loop.simps[of K target need r])
      have "reserve_round K Pre ?i ?s = Some (Inr (Some False, r2))"
        using over' None e(2) by (simp add: reserve_round_def Let_def)
      from runs_evict[OF this] show ?thesis by (simp add: e)
    next
      case (Some v)
      show ?thesis
      proof (cases "prefetch_admit r v target")
        case False
        then have e: "\<not> ok" "r2 = r\<lparr>stat_prefetch_declined := stat_prefetch_declined r + 1\<rparr>"
          using 1(2) over Some by (simp_all add: prefetch_evict_loop.simps[of K target need r])
        have "reserve_round K Pre ?i ?s = Some (Inr (Some False, r2))"
          using over' Some False e(2) 1(3) by (simp add: reserve_round_def Let_def)
        from runs_evict[OF this] show ?thesis by (simp add: e)
      next
        case adm: True
        obtain r0 r1 where r0: "record_policy_trace r v = Inr r0" "evict_and_reconcile K r0 v = Inr r1"
          and rest: "prefetch_evict_loop K target need r1 = Inr (ok, r2)"
          using 1(2) over Some adm by (auto simp: prefetch_evict_loop.simps[of K target need r] rbind_Inr_iff)
        have V: "runs K ?s (alone (At_evict Pre n x) r1)" "chunk_at r1 ?i = chunk_at r ?i"
          using victim_runs(1,2)[OF over' Some _ r0 1(5), of Pre] adm 1(3) by simp_all
        have "runs K (alone (At_evict Pre n x) r1) (alone (next_phase Pre n x (Some ok)) (if ok then reserve need r2 else r2))"
          using over Some adm r0 rest 1(3-5) V(2) by (intro 1(1)[of v r0 r1]) simp_all
        then show ?thesis using runs_trans[OF V(1)] by blast
      qed
    qed
  qed
qed

lemma ensure_budget_prefetch_runs:
  assumes e: "ensure_budget_prefetch K r (cx_chunk x) = Inr (ok, r2)"
    and i: "state (chunk_at r (cx_chunk x)) = CHUNK_FETCHING"
  shows "runs K (alone (At_reserve Pre n x) r) (alone (next_phase Pre n x (Some ok)) r2)"
proof -
  obtain r1 r3 where r1: "scheduled_reconcile K r = Inr r1"
      "prefetch_evict_loop K (cx_chunk x) (len (chunk_at r1 (cx_chunk x))) r1 = Inr (ok, r3)"
    and r2: "r2 = (if ok then reserve (len (chunk_at r1 (cx_chunk x))) r3 else r3)"
    using e by (auto simp: ensure_budget_prefetch_def rbind_Inr_iff Let_def)
  have "runs K (alone (At_reserve Pre n x) r) (alone (At_evict Pre n x) r1)"
    using r1(1) by (intro runs_work) (simp_all add: rbind_def)
  also have "runs K (alone (At_evict Pre n x) r1) (alone (next_phase Pre n x (Some ok)) r2)"
    unfolding r2 using i reconcile_chunks[OF r1(1)] by (intro prefetch_evict_loop_runs[OF r1(2)]) simp_all
  finally show ?thesis .
qed

lemma complete_prefetch_runs:
  assumes c: "complete_prefetch K r (cx_chunk x) (cx_start x) (cx_timing x) = Inr r'"
    and p: "policy_of r \<noteq> None" and fin: "state (chunk_at r' (cx_chunk x)) \<noteq> CHUNK_FETCHING"
  shows "runs K (alone (At_commit Pre x) r) (alone (At_finish (cx_chunk x)) r')"
proof -
  let ?i = "cx_chunk x"
  let ?a = "commit_reserved r (len (chunk_at r ?i))"
  let ?b = "mark_resident ?i ?a"
  let ?c = "if prefetch_retention_pinned ?b then prefetch_retain_on_resident ?b ?i else unpin_chunk ?b ?i"
  let ?d = "?c\<lparr>stat_prefetches := stat_prefetches ?c + 1\<rparr>"
  have pol: "policy_of ?d = policy_of r"
    by (simp add: prefetch_retain_on_resident_def unpin_chunk_def mark_resident_def upd_chunk_def commit_reserved_def Let_def)
  have "runs K (alone (At_commit Pre x) r) (alone (At_mark Pre x) ?a)" by (intro runs_work) simp_all
  also have "runs K (alone (At_mark Pre x) ?a) (alone (At_release Pre x) ?b)" by (intro runs_work) simp_all
  also have "runs K (alone (At_release Pre x) ?b) (alone (At_exit Pre x) ?d)" by (intro runs_work) (simp_all add: Let_def)
  also have "runs K (alone (At_exit Pre x) ?d) (alone (At_finish ?i) r')"
  proof (rule runs_work)
    have "trace_fetch (fetch_record ?i True (cx_start x) (cx_timing x) (fst (now_ns K ?d)) (len (chunk_at (snd (now_ns K ?d)) ?i)))
        (snd (now_ns K ?d)) = Inr r'" using c by (simp add: complete_prefetch_def Let_def case_prod_beta)
    then show "work K (At_exit Pre x) ?d = Inr (At_finish ?i, r')"
      using p fin pol by (simp only: work.simps Let_def case_prod_beta rbind_def) simp
  qed simp_all
  finally show ?thesis .
qed

lemma prefetch_runs:
  assumes d: "do_one_prefetch K r i = Inr r'" and i: "i < n_chunks r"
  shows "runs K (alone (Wants_lock Pre i) r) (alone (At_finish i) r')"
proof (cases "state (chunk_at r i) = CHUNK_ABSENT")
  case False
  then show ?thesis using d by (intro runs_work) (simp_all add: do_one_prefetch_def)
next
  case True
  let ?t = "k_clock K (clk_pos r)" and ?r1 = "r\<lparr>clk_pos := clk_pos r + 1\<rparr>"
  let ?x = "\<lparr>cx_chunk = i, cx_start = ?t, cx_timing = \<lparr>read_start_ns = 0, read_end_ns = 0, continue_end_ns = 0\<rparr>,
      cx_entry = 0, cx_enqueue = 0\<rparr>"
  let ?r2 = "mark_fetching ?t i (pin_chunk ?r1 i)"
  obtain r3 ok r4 where r3: "record_fault K ?r2 (fault_seq ?r2) i TRACE_FAULT_MISSING 1 = Inr r3"
    and e: "ensure_budget_prefetch K r3 i = Inr (ok, r4)"
    and rest: "(if \<not> ok
              then let r5 = pager_abandon_fetch (unpin_chunk r4 i) i;
                       (now, r6) = now_ns K r5;
                       r7 = upd_chunk i (\<lambda>c. c\<lparr>decline_until_ns := now + 100000000\<rparr>) r6
                   in Inr (r7\<lparr>stat_prefetch_infeasible := stat_prefetch_infeasible r7 + 1\<rparr>)
              else rbind (fetch_chunk K r4 i (diag_fetch_trace r4 \<noteq> None)) (\<lambda>(tm, r5).
                   if policy_of r5 = None then Inl Null_policy
                   else rbind (complete_prefetch K r5 i ?t tm) (\<lambda>r6.
                        if state (chunk_at r6 i) = CHUNK_FETCHING then Inl Left_fetching else Inr r6))) = Inr r'"
    using d True unfolding do_one_prefetch_def by (simp only: now_ns_def Let_def rbind_Inr_iff prod.case) (fastforce simp: rbind_Inr_iff)
  have "chunks r3 = chunks ?r2" using r3 by (rule record_fault_effect) simp
  then have st: "state (chunk_at r3 i) = CHUNK_FETCHING"
    using i by (simp add: mark_fetching_def pin_chunk_def upd_chunk_def)
  have "runs K (alone (Wants_lock Pre i) r) (alone (At_begin ?x) ?r1)"
    using True by (intro runs_work) (simp_all add: now_ns_def Let_def)
  also have "runs K (alone (At_begin ?x) ?r1) (alone (At_reserve Pre 0 ?x) r3)"
    using r3 by (intro runs_work) (simp_all add: Let_def rbind_def)
  also have "runs K (alone (At_reserve Pre 0 ?x) r3) (alone (next_phase Pre 0 ?x (Some ok)) r4)"
    using e st by (intro ensure_budget_prefetch_runs) simp_all
  also have "runs K (alone (next_phase Pre 0 ?x (Some ok)) r4) (alone (At_finish i) r')"
  proof (cases ok)
    case False
    have "runs K (alone (At_drop ?x) r4) (alone (At_abandon Pre ?x) (unpin_chunk r4 i))" by (intro runs_work) simp_all
    also have "runs K (alone (At_abandon Pre ?x) (unpin_chunk r4 i)) (alone (At_finish i) r')"
      using rest False by (intro runs_work) (simp_all add: Let_def case_prod_beta)
    finally show ?thesis using False by simp
  next
    case ok: True
    obtain tm r5 where f: "fetch_chunk K r4 i (diag_fetch_trace r4 \<noteq> None) = Inr (tm, r5)"
      and p: "policy_of r5 \<noteq> None" and c: "complete_prefetch K r5 i ?t tm = Inr r'"
      and fin: "state (chunk_at r' i) \<noteq> CHUNK_FETCHING"
      using rest ok by (auto simp: rbind_Inr_iff split: if_splits)
    have "runs K (alone (At_read Pre ?x) r4) (alone (At_commit Pre (?x\<lparr>cx_timing := tm\<rparr>)) r5)"
      using f by (intro fetch_runs) simp
    also have "runs K (alone (At_commit Pre (?x\<lparr>cx_timing := tm\<rparr>)) r5) (alone (At_finish i) r')"
      using complete_prefetch_runs[of K r5 "?x\<lparr>cx_timing := tm\<rparr>" r'] p c fin by simp
    finally show ?thesis using ok by simp
  qed
  finally show ?thesis .
qed

section \<open>A round of the worker\<close>

text \<open>
  C7. The worker's code run in one go is a run of the small steps: when a round of
  \<^verbatim>\<open>worker_main\<close> returns having done a job, the machine of \<open>Threads\<close> with that one
  worker goes from its idle point through the steps of the job back to it, to the same region. So what
  is proved of the rounds and what is proved of the interleaved steps speak of the same code.
\<close>

theorem worker_round_refined:
  assumes "prefetch_pool_handle r = Some pool" and "worker_round K r pool = Inr (Did r')"
    and "\<forall>n s. k_others K n s = s"
    and "pool_ok (n_chunks r) pool"
  shows "\<exists>n. worker_run {K} \<lparr>reg = r, workers = [Idle]\<rparr> n \<lparr>reg = r', workers = [Idle]\<rparr>"
proof -
  obtain j pool' where t: "worker_take pool = Some (j, pool')"
    using assms(2) by (cases "worker_take pool") (auto simp: worker_round_def split: if_splits)
  let ?r1 = "r\<lparr>prefetch_pool_handle := Some pool'\<rparr>"
  have inside: "case j of Demand i \<Rightarrow> i < n_chunks r | Speculative i \<Rightarrow> i < n_chunks r"
    using worker_take_ok[OF assms(4)] t assms(4) tracked_bounds[OF assms(4)] by (auto simp: pool_ok_def split: job.splits)
  have "runs K (alone Idle r) (alone Idle r')"
  proof (cases j)
    case (Demand i)
    have "do_one_demand K ?r1 i = Inr r'"
      using assms(2) t Demand by (cases "do_one_demand K ?r1 i") (auto simp: worker_round_def)
    then have "runs K (alone (Wants_lock Dem i) ?r1) (alone Idle r')"
      using assms(3) inside t Demand by (intro demand_runs) simp_all
    moreover have "runs K (alone Idle r) (alone (Wants_lock Dem i) ?r1)"
      using assms(1) t Demand by (intro runs_act) (simp add: act_def)
    ultimately show ?thesis using runs_trans by blast
  next
    case (Speculative i)
    obtain r2 where d: "do_one_prefetch K ?r1 i = Inr r2"
      and r': "r' = r2\<lparr>prefetch_pool_handle := map_option (job_done i) (prefetch_pool_handle r2)\<rparr>"
      using assms(2) t Speculative by (auto simp: worker_round_def rbind_Inr_iff)
    have "runs K (alone Idle r) (alone (Wants_lock Pre i) ?r1)"
      using assms(1) t Speculative by (intro runs_act) (simp add: act_def)
    also have "runs K (alone (Wants_lock Pre i) ?r1) (alone (At_finish i) r2)"
      using inside t Speculative by (intro prefetch_runs[OF d]) simp
    also have "runs K (alone (At_finish i) r2) (alone Idle r')" by (intro runs_work) (simp_all add: r')
    finally show ?thesis .
  qed
  then show ?thesis by (simp add: runs_def alone_def)
qed

section \<open>A concrete round\<close>

text \<open>Chunk 0 of the demo region marked FETCHING and queued, with one worker.\<close>

definition demo_one_pool :: prefetch_pool where
  "demo_one_pool = projr (prefetch_pool_enqueue_demand (the (prefetch_pool_handle (prefetch_pool_start demo_region 1))) 0)"

definition demo_one :: region where
  "demo_one = (demo_fetching 0)\<lparr>prefetch_pool_handle := Some demo_one_pool\<rparr>"

lemma demo_one_pool_ok: "pool_ok 3 demo_one_pool" "ring_list (demand_queue demo_one_pool) = [0]"
proof -
  obtain pool where h: "prefetch_pool_handle (prefetch_pool_start demo_region 1) = Some pool" "pool_ok 3 pool"
    "ring_list (demand_queue pool) = []" using pool_start_ok[of demo_region 1] demo_n by auto
  have "(0 :: nat) < 3" "0 \<notin> set (ring_list (demand_queue pool))" using h(3) by simp_all
  from enqueue_demand_ok[OF h(2) this] obtain pool' where "prefetch_pool_enqueue_demand pool 0 = Inr pool'"
    "pool_ok 3 pool'" "ring_list (demand_queue pool') = ring_list (demand_queue pool) @ [0]" by metis
  then show "pool_ok 3 demo_one_pool" "ring_list (demand_queue demo_one_pool) = [0]"
    using h(1,3) by (simp_all add: demo_one_pool_def)
qed

lemma demo_demand_returns: "\<exists>r'. do_one_demand demo_kernel ((demo_fetching 0)\<lparr>prefetch_pool_handle := h\<rparr>) 0 = Inr r'"
proof -
  let ?r = "(demo_fetching 0)\<lparr>prefetch_pool_handle := h\<rparr>" and ?s = "(demo_fetching 0)\<lparr>prefetch_pool_handle := h, clk_pos := 1\<rparr>"
    and ?after = "\<lambda>r. Inr (prefetch_pool_top_up demo_kernel r 0)"
  have z: "(0 :: nat) < 3" by simp
  have "clk_pos demo_region = 0" by (simp add: demo_region_def zero_region_def)
  then have c: "clk_pos ?r = 0" by (simp add: demo_fetching_def upd_chunk_def)
  have c2: "region_len ?s = 12288" by (simp add: demo_fetching_def upd_chunk_def demo_region_def)
  have c3: "diag_fetch_trace ?s = None" by (simp add: demo_fetching_def upd_chunk_def demo_region_def zero_region_def)
  have ch: "len (chunk_at ?s 0) = 4096" "state (chunk_at ?s 0) = CHUNK_FETCHING" using demo_fetching_inv(3,4)[OF z] by simp_all
  have u: "unserved 0 ?s"
    using demo_unserved[OF z] budget_inv_cong[of ?s "demo_fetching 0"] by (simp add: unserved_def inv_part_def)
  have f: "starts_in_file ?s 0" using demo_fetching_file[OF z] by (simp add: starts_in_file_def)
  have "map_sum id fst (ensure_budget demo_kernel ?s 4096) = Inr True" by code_simp
  then have e: "map_sum id fst (ensure_budget demo_kernel ?s (len (chunk_at ?s 0))) = Inr True" by (simp only: ch)
  let ?g = "\<lambda>tm t_exit l. demand_record 0 (k_clock demo_kernel 0) tm t_exit l
      (diag_dispatch_entry_ns (chunk_at ?s 0)) (diag_dispatch_enqueue_ns (chunk_at ?s 0))"
  have aft: "(\<forall>s. diag_fetch_trace s = None \<longrightarrow> (\<exists>s'. ?after s = Inr s' \<and> diag_fetch_trace s' = None))
      \<or> prefetch_enabled ?s = False" by (simp add: top_up_diag)
  obtain r4 where sd: "serve_demand demo_kernel 200 ?after ?s 0 (k_clock demo_kernel 0) ?g = Inr r4"
    using demo_serve_returns[OF u f e c2 c3 aft] by blast
  have "\<exists>F X. 0 \<notin> F \<and> X 0 = 0 \<and> resolved F X 0 ?s r4"
    by (rule serve_demand_resolves[OF u f demo_alone _ sd]) (use top_up_keeps in auto)
  then have "state (chunk_at r4 0) \<noteq> CHUNK_FETCHING" by (auto simp: resolved_def)
  then have "do_one_demand demo_kernel ?r 0 = Inr r4"
    unfolding do_one_demand_def now_ns_def c add_0 Let_def prod.case using sd ch(2) by simp
  then show ?thesis by blast
qed

theorem worker_round_refined_witness:
  "\<exists>r' n. worker_round demo_kernel demo_one demo_one_pool = Inr (Did r')
     \<and> worker_run {demo_kernel} \<lparr>reg = demo_one, workers = [Idle]\<rparr> n \<lparr>reg = r', workers = [Idle]\<rparr>"
proof -
  obtain j pool' where "worker_take demo_one_pool = Some (j, pool')"
    using worker_take_ok[OF demo_one_pool_ok(1)] demo_one_pool_ok(2) by (cases "worker_take demo_one_pool") auto
  then have t: "worker_take demo_one_pool = Some (Demand 0, pool')"
    using worker_take_ok[OF demo_one_pool_ok(1)] demo_one_pool_ok(2) by (cases j) simp_all
  obtain r' where "do_one_demand demo_kernel ((demo_fetching 0)\<lparr>prefetch_pool_handle := Some pool'\<rparr>) 0 = Inr r'"
    using demo_demand_returns by blast
  then have d: "worker_round demo_kernel demo_one demo_one_pool = Inr (Did r')"
    by (simp add: worker_round_def t demo_one_def)
  have h: "prefetch_pool_handle demo_one = Some demo_one_pool" "n_chunks demo_one = 3"
    using demo_n by (simp_all add: demo_one_def demo_fetching_def upd_chunk_def)
  have "\<forall>n s. k_others demo_kernel n s = s" by (simp add: demo_kernel_def)
  from worker_round_refined[OF h(1) d this] show ?thesis using d demo_one_pool_ok(1) h(2) by auto
qed

end
