(* ===== verification/Replay.thy ===== *)
theory Replay
  imports Pager
begin

text \<open>
  The replay driver \<^verbatim>\<open>replay_cyclic\<close> of \<^verbatim>\<open>replay.c\<close>: passes over all
  chunks in order, each chunk announced to the policy, read page by page into the sink, computed over
  and recorded in the reference trace. What the driver knows of the memory it reads is one operation,
  the load of a byte, with the laws of \<open>paged_memory\<close>; the synchronous pager of
  \<open>Pager\<close> provides them.
\<close>

section \<open>Loads\<close>

text \<open>
  A load through \<^verbatim>\<open>map_a\<close>: the byte and the region after it, or the failure of the
  pager that was serving it.
\<close>

type_synonym memory = "region \<Rightarrow> nat \<Rightarrow> failure + (u8 \<times> region)"

text \<open>
  With the synchronous pager: a load from a RESIDENT chunk reads the page; any other load faults,
  the handler runs, and the load is tried again (\<open>n\<close> times at most).
\<close>

fun load_byte :: "kernel \<Rightarrow> nat \<Rightarrow> memory" where
  "load_byte K 0 r b = Inl Fetch_incomplete_script"
| "load_byte K (Suc n) r b =
     (case pager_lookup (chunks r) (word_of_nat b) of
        None \<Rightarrow> Inl No_covering_chunk
      | Some i \<Rightarrow>
          if state (chunk_at r i) = CHUNK_RESIDENT then Inr (the (memfd r b), r)
          else rbind (handle_fault K r (word_of_nat b) (memfd r b \<noteq> None)) (\<lambda>r'. load_byte K n r' b))"

section \<open>The driver\<close>

text \<open>
  The globals of \<^verbatim>\<open>replay.c\<close> and the locals of one run. The times are readings of the
  clock; \<open>units ns l\<close> is the number of compute units that the calibrated cost gives for
  \<open>l\<close> bytes at \<open>ns\<close> nanoseconds per MiB, a quotient of measured doubles.
\<close>

record replay =
  rp_region :: region
  g_replay_sink :: u64
  g_compute_sink :: u64
  g_compute_total_ns :: u64
  g_compute_total_bytes :: u64
  bytes_touched :: u64
  ref_seq :: u64
  ref_trace :: "trace option"

record replay_result =
  wall_ns :: u64
  res_passes :: u32
  n_touches :: u32
  res_bytes :: u64

definition COMPUTE_UNIT_OPS :: nat where "COMPUTE_UNIT_OPS = 65536"

fun compute_loop :: "memory \<Rightarrow> nat \<Rightarrow> nat \<Rightarrow> nat list \<Rightarrow> u64 \<Rightarrow> region \<Rightarrow> failure + (u64 \<times> region)" where
  "compute_loop load data l [] acc r = Inr (acc, r)"
| "compute_loop load data l (i # is) acc r =
     rbind (load r (data + i mod l)) (\<lambda>(v, r').
       let acc1 = acc * 2654435761 + ucast v
       in compute_loop load data l is (xor acc1 (drop_bit 17 acc1)) r')"

definition compute_unit :: "memory \<Rightarrow> nat \<Rightarrow> nat \<Rightarrow> region \<Rightarrow> failure + (u64 \<times> region)" where
  "compute_unit load data l r = compute_loop load data l [0..<COMPUTE_UNIT_OPS] 1 r"

fun compute_units :: "memory \<Rightarrow> nat \<Rightarrow> nat \<Rightarrow> nat \<Rightarrow> u64 \<Rightarrow> region \<Rightarrow> failure + (u64 \<times> region)" where
  "compute_units load data l 0 snk r = Inr (snk, r)"
| "compute_units load data l (Suc u) snk r =
     rbind (compute_unit load data l r) (\<lambda>(v, r'). compute_units load data l u (snk + v) r')"

definition compute_busy ::
  "kernel \<Rightarrow> memory \<Rightarrow> (u64 \<Rightarrow> u64 \<Rightarrow> nat) \<Rightarrow> u64 \<Rightarrow> nat \<Rightarrow> u64 \<Rightarrow> replay \<Rightarrow> failure + replay" where
  "compute_busy K load units ns data l p =
     (if ns = 0 \<or> l = 0 then Inr p
      else let (t0, r0) = now_ns K (rp_region p)
           in rbind (compute_units load data (unat l) (units ns l) 0 r0) (\<lambda>(snk, r1).
              let (t1, r2) = now_ns K r1
              in Inr (p\<lparr>rp_region := r2, g_compute_sink := g_compute_sink p + snk,
                        g_compute_total_ns := g_compute_total_ns p + (t1 - t0),
                        g_compute_total_bytes := g_compute_total_bytes p + l\<rparr>)))"

text \<open>The loop over the pages of one chunk, from offset \<open>off\<close>.\<close>

function read_pages :: "memory \<Rightarrow> nat \<Rightarrow> nat \<Rightarrow> nat \<Rightarrow> u64 \<Rightarrow> region \<Rightarrow> failure + (u64 \<times> region)" where
  "read_pages load base l off snk r =
     (if off < l
      then rbind (load r (base + off)) (\<lambda>(v, r'). read_pages load base l (off + 4096) (snk + ucast v) r')
      else Inr (snk, r))"
  by auto
termination by (relation "measure (\<lambda>(load, base, l, off, snk, r). l - off)") auto

declare read_pages.simps [simp del]

text \<open>\<^verbatim>\<open>if (ref_trace) trace_record(ref_trace, ++ref_seq, i, TRACE_NA, TRACE_NA)\<close>\<close>

definition record_reference :: "kernel \<Rightarrow> nat \<Rightarrow> replay \<Rightarrow> failure + replay" where
  "record_reference K i p =
     (case ref_trace p of
        None \<Rightarrow> Inr p
      | Some t \<Rightarrow>
          let (now, r1) = now_ns K (rp_region p)
          in case trace_record_call (k_writes K r1) now t (ref_seq p + 1) (word_of_nat i) TRACE_NA TRACE_NA of
               Inl _ \<Rightarrow> Inl Trace_write_failed
             | Inr t' \<Rightarrow> Inr (p\<lparr>rp_region := r1, ref_seq := ref_seq p + 1, ref_trace := Some t'\<rparr>))"

definition replay_chunk ::
  "kernel \<Rightarrow> memory \<Rightarrow> (u64 \<Rightarrow> u64 \<Rightarrow> nat) \<Rightarrow> u64 \<Rightarrow> nat \<Rightarrow> replay \<Rightarrow> failure + replay" where
  "replay_chunk K load units ns i p =
     (let r = pager_notify_access (rp_region p) i;
          base = unat (region_off (chunk_at r i)); l = len (chunk_at r i)
      in rbind (read_pages load base (unat l) 0 (g_replay_sink p) r) (\<lambda>(snk, r1).
         rbind (compute_busy K load units ns base l
                  (p\<lparr>rp_region := r1, g_replay_sink := snk, bytes_touched := bytes_touched p + l\<rparr>))
           (record_reference K i)))"

fun replay_chunks ::
  "kernel \<Rightarrow> memory \<Rightarrow> (u64 \<Rightarrow> u64 \<Rightarrow> nat) \<Rightarrow> u64 \<Rightarrow> nat list \<Rightarrow> replay \<Rightarrow> failure + replay" where
  "replay_chunks K load units ns [] p = Inr p"
| "replay_chunks K load units ns (i # is) p =
     rbind (replay_chunk K load units ns i p) (replay_chunks K load units ns is)"

fun replay_passes ::
  "kernel \<Rightarrow> memory \<Rightarrow> (u64 \<Rightarrow> u64 \<Rightarrow> nat) \<Rightarrow> u64 \<Rightarrow> nat \<Rightarrow> replay \<Rightarrow> failure + replay" where
  "replay_passes K load units ns 0 p = Inr p"
| "replay_passes K load units ns (Suc n) p =
     rbind (replay_chunks K load units ns [0..<n_chunks (rp_region p)] p) (replay_passes K load units ns n)"

text \<open>
  \<open>p\<close> holds the region, the globals and the trace that the caller opened. The wait after the last
  touch, for the pager's bookkeeping, changes nothing here.
\<close>

definition replay_cyclic ::
  "kernel \<Rightarrow> memory \<Rightarrow> (u64 \<Rightarrow> u64 \<Rightarrow> nat) \<Rightarrow> u32 \<Rightarrow> u64 \<Rightarrow> replay \<Rightarrow> failure + (replay_result \<times> replay)" where
  "replay_cyclic K load units np ns p =
     (let (t_start, r0) = now_ns K (rp_region p)
      in rbind (replay_passes K load units ns (unat np) (p\<lparr>rp_region := r0, bytes_touched := 0, ref_seq := 0\<rparr>)) (\<lambda>p1.
         let (t_end, r1) = now_ns K (rp_region p1)
         in Inr (\<lparr>wall_ns = t_end - t_start, res_passes = np, n_touches = np * word_of_nat (n_chunks r1),
                  res_bytes = bytes_touched p1\<rparr>, p1\<lparr>rp_region := r1\<rparr>)))"

section \<open>What a run reads\<close>

text \<open>
  What the loads are relative to, and the driver never changes: the model file and the geometry of the chunks.
\<close>

definition backing where
  "backing r = (region_len r, model_file_size r, model_data r, map geom (chunks r))"

definition pages :: "u64 \<Rightarrow> nat" where
  "pages l = (unat l + 4095) div 4096"

definition page_value :: "region \<Rightarrow> nat \<Rightarrow> nat \<Rightarrow> u64" where
  "page_value r i p = ucast (model_byte r (unat (region_off (chunk_at r i)) + 4096 * p))"

definition chunk_sum :: "region \<Rightarrow> nat \<Rightarrow> u64" where
  "chunk_sum r i = (\<Sum>p<pages (len (chunk_at r i)). page_value r i p)"

lemma backing_model: "backing r' = backing r \<Longrightarrow> model_byte r' b = model_byte r b"
  by (simp add: backing_def model_byte_def)

lemma backing_chunks:
  assumes "backing r' = backing r"
  shows "n_chunks r' = n_chunks r" "region_len r' = region_len r"
    "i < n_chunks r \<Longrightarrow> len (chunk_at r' i) = len (chunk_at r i)"
    "i < n_chunks r \<Longrightarrow> region_off (chunk_at r' i) = region_off (chunk_at r i)"
proof -
  have g: "same_geometry (chunks r') (chunks r)" and "region_len r' = region_len r"
    using assms by (simp_all add: backing_def same_geometry_def)
  then show "n_chunks r' = n_chunks r" "region_len r' = region_len r" by (simp_all add: same_geometry_length)
  then show "i < n_chunks r \<Longrightarrow> len (chunk_at r' i) = len (chunk_at r i)"
    "i < n_chunks r \<Longrightarrow> region_off (chunk_at r' i) = region_off (chunk_at r i)"
    using same_geometry_nth[OF g, of i] by (simp_all add: geom_def)
qed

lemma backing_values:
  assumes "backing r' = backing r" "i < n_chunks r"
  shows "page_value r' i p = page_value r i p" "chunk_sum r' i = chunk_sum r i"
proof -
  have "page_value r' i p = page_value r i p" for p
    by (simp only: page_value_def backing_chunks(4)[OF assms] backing_model[OF assms(1)])
  then show "page_value r' i p = page_value r i p" "chunk_sum r' i = chunk_sum r i"
    by (simp_all only: chunk_sum_def backing_chunks(3)[OF assms])
qed

lemma pages_less: "4096 * p < unat l \<longleftrightarrow> p < pages l"
  by (auto simp: pages_def)

lemma pages_step:
  assumes "0 < m"
  shows "(m + 4095) div 4096 = Suc ((m - 4096 + 4095) div (4096 :: nat))"
proof (cases "m \<le> 4096")
  case True
  then have "(m + 4095) div 4096 = 1" using assms by (intro div_nat_eqI) simp_all
  then show ?thesis using True by simp
next
  case False
  then have "m + 4095 = m - 4096 + 4095 + 4096" by simp
  then show ?thesis by (metis div_add_self2 Suc_eq_plus1 zero_neq_numeral)
qed

lemma advances_backing: "advances r r' \<Longrightarrow> backing r' = backing r"
proof -
  assume a: "advances r r'"
  then have "map geom (chunks r') = map geom (chunks r)"
    by (intro nth_equalityI) (simp_all add: advances_def)
  with a show ?thesis by (simp add: advances_def backing_def config_part_def)
qed

lemma backing_clock [simp]: "backing (r\<lparr>clk_pos := t\<rparr>) = backing r"
  by (simp add: backing_def)

lemma upd_backing: "(\<And>c. geom (f c) = geom c) \<Longrightarrow> backing (upd_chunk i f r) = backing r"
  using same_geometry_update[of "f (chunk_at r i)" "chunks r" i]
  by (simp add: backing_def upd_chunk_def same_geometry_def)

lemma notify_backing [simp]: "backing (pager_notify_access r i) = backing r"
proof -
  have "backing (upd_chunk i (\<lambda>c. c\<lparr>pin := pin c - 1\<rparr>) (r\<lparr>pinned_prefetch := q\<rparr>)) = backing r" for q and r :: region
    by (subst upd_backing) (simp_all add: geom_def backing_def)
  then have "backing (prefetch_retain_release r i) = backing r" for r
    by (simp add: prefetch_retain_release_def split: option.split)
  then show ?thesis by (simp add: pager_notify_access_def Let_def backing_def)
qed


text \<open>
  The records that the driver appends for the references \<open>is\<close>, numbered after \<open>q\<close>, and what a
  part of a run adds to the sink, the byte count and the trace.
\<close>

definition reference_records :: "u64 \<Rightarrow> nat list \<Rightarrow> trace_record list \<Rightarrow> bool" where
  "reference_records q is recs \<longleftrightarrow> length recs = length is
     \<and> (\<forall>k<length is. tr_seq (recs ! k) = q + word_of_nat (k + 1) \<and> chunk_id (recs ! k) = word_of_nat (is ! k)
          \<and> fault_type (recs ! k) = TRACE_NA \<and> was_prefetched (recs ! k) = TRACE_NA)"

definition traced :: "nat list \<Rightarrow> replay \<Rightarrow> replay \<Rightarrow> bool" where
  "traced is p p' \<longleftrightarrow>
     (case ref_trace p of
        None \<Rightarrow> ref_trace p' = None \<and> ref_seq p' = ref_seq p
      | Some t \<Rightarrow> ref_seq p' = ref_seq p + word_of_nat (length is)
          \<and> (\<exists>t' recs. ref_trace p' = Some t' \<and> reference_records (ref_seq p) is recs
               \<and> trace_file t' = trace_file t @ concat (map record_bytes recs)))"

definition replayed :: "region \<Rightarrow> nat list \<Rightarrow> replay \<Rightarrow> replay \<Rightarrow> bool" where
  "replayed r is p p' \<longleftrightarrow> backing (rp_region p') = backing r \<and> traced is p p'
     \<and> g_replay_sink p' = g_replay_sink p + sum_list (map (chunk_sum r) is)
     \<and> bytes_touched p' = bytes_touched p + sum_list (map (\<lambda>i. len (chunk_at r i)) is)"

lemma reference_records_append:
  assumes "reference_records q is recs" "reference_records (q + word_of_nat (length is)) js recs'"
  shows "reference_records q (is @ js) (recs @ recs')"
  unfolding reference_records_def
proof (intro conjI allI impI)
  show "length (recs @ recs') = length (is @ js)" using assms by (simp add: reference_records_def)
  fix k assume k: "k < length (is @ js)"
  show "tr_seq ((recs @ recs') ! k) = q + word_of_nat (k + 1)"
    "chunk_id ((recs @ recs') ! k) = word_of_nat ((is @ js) ! k)"
    "fault_type ((recs @ recs') ! k) = TRACE_NA" "was_prefetched ((recs @ recs') ! k) = TRACE_NA"
    using assms k by (auto simp: reference_records_def nth_append algebra_simps simp flip: of_nat_add split: if_splits)
qed

lemma traced_trans:
  assumes "traced is p p1" "traced js p1 p2"
  shows "traced (is @ js) p p2"
proof (cases "ref_trace p")
  case None
  then show ?thesis using assms by (simp add: traced_def)
next
  case (Some t)
  with assms(1) obtain t1 recs1 where 1: "ref_trace p1 = Some t1" "reference_records (ref_seq p) is recs1"
    "trace_file t1 = trace_file t @ concat (map record_bytes recs1)" "ref_seq p1 = ref_seq p + word_of_nat (length is)"
    by (auto simp: traced_def)
  with assms(2) obtain t2 recs2 where 2: "ref_trace p2 = Some t2" "reference_records (ref_seq p1) js recs2"
    "trace_file t2 = trace_file t1 @ concat (map record_bytes recs2)" "ref_seq p2 = ref_seq p1 + word_of_nat (length js)"
    by (auto simp: traced_def)
  have "reference_records (ref_seq p) (is @ js) (recs1 @ recs2)"
    using reference_records_append[OF 1(2)] 2(2) 1(4) by simp
  moreover have "trace_file t2 = trace_file t @ concat (map record_bytes (recs1 @ recs2))" using 1(3) 2(3) by simp
  ultimately show ?thesis using Some 1(4) 2(1,4) by (auto simp: traced_def algebra_simps)
qed

lemma replayed_nil: "backing (rp_region p) = backing r \<Longrightarrow> replayed r [] p p"
  by (auto simp: replayed_def traced_def reference_records_def split: option.split)

lemma replayed_trans: "replayed r is p p1 \<Longrightarrow> replayed r js p1 p2 \<Longrightarrow> replayed r (is @ js) p p2"
  using traced_trans[of "is" p p1 js p2] by (auto simp add: replayed_def add.assoc)

lemma replayed_base:
  assumes "replayed r' is p p'" "backing r' = backing r" "set is \<subseteq> {..<n_chunks r}"
  shows "replayed r is p p'"
proof -
  have "map (chunk_sum r') is = map (chunk_sum r) is"
    using assms(3) backing_values(2)[OF assms(2)] by (intro map_cong) auto
  moreover have "map (\<lambda>i. len (chunk_at r' i)) is = map (\<lambda>i. len (chunk_at r i)) is"
    using assms(3) backing_chunks(3)[OF assms(2)] by (intro map_cong) auto
  ultimately show ?thesis using assms(1,2) unfolding replayed_def by (metis (mono_tags, lifting))
qed

lemma record_reference_effect:
  assumes "record_reference K i p = Inr p'"
  obtains t sq tr where "p' = p\<lparr>rp_region := (rp_region p)\<lparr>clk_pos := t\<rparr>, ref_seq := sq, ref_trace := tr\<rparr>" "traced [i] p p'"
proof (cases "ref_trace p")
  case None
  then have "p' = p\<lparr>rp_region := (rp_region p)\<lparr>clk_pos := clk_pos (rp_region p)\<rparr>, ref_seq := ref_seq p, ref_trace := ref_trace p\<rparr>"
    using assms by (simp add: record_reference_def)
  moreover have "traced [i] p p'" using assms None by (simp add: record_reference_def traced_def)
  ultimately show ?thesis by (rule that)
next
  case (Some t)
  let ?r1 = "(rp_region p)\<lparr>clk_pos := clk_pos (rp_region p) + 1\<rparr>" and ?now = "k_clock K (clk_pos (rp_region p))"
  from assms Some obtain t' where
    c: "trace_record_call (k_writes K ?r1) ?now t (ref_seq p + 1) (word_of_nat i) TRACE_NA TRACE_NA = Inr t'"
    and p': "p' = p\<lparr>rp_region := ?r1, ref_seq := ref_seq p + 1, ref_trace := Some t'\<rparr>"
    by (auto simp: record_reference_def now_ns_def Let_def split: sum.splits)
  let ?rec = "\<lparr>tr_seq = ref_seq p + 1, timestamp_ns = ?now, chunk_id = word_of_nat i, fault_type = TRACE_NA,
      was_prefetched = TRACE_NA\<rparr>"
  have "reference_records (ref_seq p) [i] [?rec]" by (simp add: reference_records_def)
  moreover have "trace_file t' = trace_file t @ concat (map record_bytes [?rec])"
    using trace_record_file[OF c] by simp
  moreover have "ref_trace p' = Some t'" "ref_seq p' = ref_seq p + word_of_nat (length [i])" by (simp_all add: p')
  ultimately have "traced [i] p p'" unfolding traced_def Some option.case by blast
  with p' show ?thesis by (rule that)
qed

section \<open>The laws of a memory\<close>

text \<open>
  A state that is \<open>ok\<close> stays so under loads, access notifications and clock readings, and a load that
  returns gives the byte of the model file.
\<close>

locale paged_memory =
  fixes load :: "region \<Rightarrow> nat \<Rightarrow> failure + (u8 \<times> region)" and ok :: "region \<Rightarrow> bool"
  assumes load_reads: "ok r \<Longrightarrow> b < unat (region_len r) \<Longrightarrow> load r b = Inr (v, r') \<Longrightarrow>
      v = model_byte r b \<and> ok r' \<and> backing r' = backing r"
    and notify_ok: "ok r \<Longrightarrow> ok (pager_notify_access r i)"
    and clock_ok: "ok r \<Longrightarrow> ok (r\<lparr>clk_pos := t\<rparr>)"
    and ok_geometry: "ok r \<Longrightarrow> geometry_ok r"
begin

lemma read_pages_reads:
  assumes "ok r" "base + l \<le> unat (region_len r)" "read_pages load base l off snk r = Inr (snk', r')"
  shows "ok r' \<and> backing r' = backing r
    \<and> snk' = snk + (\<Sum>p<(l - off + 4095) div 4096. ucast (model_byte r (base + off + 4096 * p)))"
  using assms
proof (induction "l - off" arbitrary: off snk r rule: less_induct)
  case less
  note unfold = read_pages.simps[of load base l off snk r]
  show ?case
  proof (cases "off < l")
    case False
    then show ?thesis using less.prems by (simp add: unfold)
  next
    case True
    then obtain v r1 where l1: "load r (base + off) = Inr (v, r1)"
      and rest: "read_pages load base l (off + 4096) (snk + ucast v) r1 = Inr (snk', r')"
      using less.prems(3) by (auto simp: unfold rbind_Inr_iff)
    have b: "base + off < unat (region_len r)" using True less.prems(2) by simp
    note R = load_reads[OF less.prems(1) b l1]
    then have r1: "ok r1" "backing r1 = backing r" "base + l \<le> unat (region_len r1)"
      using less.prems(2) backing_chunks(2)[of r1 r] by simp_all
    have "l - (off + 4096) < l - off" using True by simp
    note IH = less.hyps[OF this r1(1,3) rest]
    have v: "v = model_byte r (base + off)" using R by simp
    have m: "model_byte r1 b = model_byte r b" for b by (rule backing_model[OF r1(2)])
    have n: "(l - off + 4095) div 4096 = Suc ((l - (off + 4096) + 4095) div 4096)"
      using pages_step[of "l - off"] True by simp
    have "(\<Sum>p<(l - off + 4095) div 4096. ucast (model_byte r (base + off + 4096 * p)))
      = ucast v + (\<Sum>p<(l - (off + 4096) + 4095) div 4096. (ucast (model_byte r1 (base + (off + 4096) + 4096 * p)) :: u64))"
      by (simp add: n sum.lessThan_Suc_shift v m add.assoc del: sum.lessThan_Suc)
    then show ?thesis using IH r1(2) by (simp add: add.assoc)
  qed
qed

lemma compute_loop_keeps:
  assumes "ok r" "0 < l" "data + l \<le> unat (region_len r)" "compute_loop load data l is acc r = Inr (v, r')"
  shows "ok r' \<and> backing r' = backing r"
  using assms
proof (induction "is" arbitrary: acc r)
  case Nil
  then show ?case by simp
next
  case (Cons i js)
  then obtain w r1 acc1 where l1: "load r (data + i mod l) = Inr (w, r1)"
    and rest: "compute_loop load data l js acc1 r1 = Inr (v, r')"
    by (auto simp: rbind_Inr_iff Let_def)
  have "data + i mod l < unat (region_len r)"
    using Cons.prems(2,3) mod_less_divisor[of l i] by linarith
  note R = load_reads[OF Cons.prems(1) this l1]
  then have "data + l \<le> unat (region_len r1)" using Cons.prems(3) backing_chunks(2)[of r1 r] by simp
  then show ?case using Cons.IH[OF _ Cons.prems(2) _ rest] R by simp
qed

lemma compute_units_keeps:
  assumes "ok r" "0 < l" "data + l \<le> unat (region_len r)" "compute_units load data l n snk r = Inr (v, r')"
  shows "ok r' \<and> backing r' = backing r"
  using assms
proof (induction n arbitrary: snk r)
  case 0
  then show ?case by simp
next
  case (Suc n)
  then obtain w r1 where u: "compute_unit load data l r = Inr (w, r1)"
    and rest: "compute_units load data l n (snk + w) r1 = Inr (v, r')"
    by (auto simp: rbind_Inr_iff)
  note R = compute_loop_keeps[OF Suc.prems(1-3) u[unfolded compute_unit_def]]
  then have "data + l \<le> unat (region_len r1)" using Suc.prems(3) backing_chunks(2)[of r1 r] by simp
  then show ?case using Suc.IH[OF _ Suc.prems(2) _ rest] R by simp
qed

lemma compute_busy_keeps:
  assumes "ok (rp_region p)" "data + unat l \<le> unat (region_len (rp_region p))"
    and "compute_busy K load units ns data l p = Inr p'"
  shows "ok (rp_region p') \<and> backing (rp_region p') = backing (rp_region p) \<and> g_replay_sink p' = g_replay_sink p
    \<and> bytes_touched p' = bytes_touched p \<and> ref_seq p' = ref_seq p \<and> ref_trace p' = ref_trace p"
proof (cases "ns = 0 \<or> l = 0")
  case True
  then show ?thesis using assms by (auto simp: compute_busy_def)
next
  case False
  let ?r0 = "(rp_region p)\<lparr>clk_pos := clk_pos (rp_region p) + 1\<rparr>"
  from assms(3) False obtain snk r1 where u: "compute_units load data (unat l) (units ns l) 0 ?r0 = Inr (snk, r1)"
    and p': "rp_region p' = r1\<lparr>clk_pos := clk_pos r1 + 1\<rparr>" "g_replay_sink p' = g_replay_sink p"
      "bytes_touched p' = bytes_touched p" "ref_seq p' = ref_seq p" "ref_trace p' = ref_trace p"
    by (auto simp: compute_busy_def now_ns_def Let_def rbind_Inr_iff)
  have "0 < unat l" using False by (simp add: unat_gt_0)
  then have "ok r1 \<and> backing r1 = backing ?r0"
    by (rule compute_units_keeps[OF clock_ok[OF assms(1)] _ _ u]) (use assms(2) in simp)
  then show ?thesis using p' clock_ok by simp
qed

lemma replay_chunk_replays:
  assumes "ok (rp_region p)" "i < n_chunks (rp_region p)" "replay_chunk K load units ns i p = Inr p'"
  shows "ok (rp_region p') \<and> replayed (rp_region p) [i] p p'"
proof -
  let ?r = "pager_notify_access (rp_region p) i"
  let ?c = "chunk_at ?r i"
  from assms(3) obtain snk r1 p2 where
    rd: "read_pages load (unat (region_off ?c)) (unat (len ?c)) 0 (g_replay_sink p) ?r = Inr (snk, r1)"
    and cb: "compute_busy K load units ns (unat (region_off ?c)) (len ?c)
        (p\<lparr>rp_region := r1, g_replay_sink := snk, bytes_touched := bytes_touched p + len ?c\<rparr>) = Inr p2"
    and rec: "record_reference K i p2 = Inr p'"
    by (auto simp: replay_chunk_def Let_def rbind_Inr_iff)
  have ok: "ok ?r" by (rule notify_ok[OF assms(1)])
  have i: "i < n_chunks ?r" using assms(2) backing_chunks(1)[OF notify_backing[of "rp_region p" i]] by simp
  have fits: "unat (region_off ?c) + unat (len ?c) \<le> unat (region_len ?r)"
    by (rule chunk_bounds(3)[OF ok_geometry[OF ok] i])
  note R = read_pages_reads[OF ok fits rd]
  then have b1: "backing r1 = backing (rp_region p)" and ok1: "ok r1" by simp_all
  then have fits1: "unat (region_off ?c) + unat (len ?c) \<le> unat (region_len r1)"
    using fits R backing_chunks(2)[of r1 ?r] by simp
  note C = compute_busy_keeps[OF _ _ cb, simplified, OF ok1 fits1]
  from record_reference_effect[OF rec] obtain t sq tr where
    p': "p' = p2\<lparr>rp_region := (rp_region p2)\<lparr>clk_pos := t\<rparr>, ref_seq := sq, ref_trace := tr\<rparr>" "traced [i] p2 p'" .
  have "ref_seq p2 = ref_seq p" "ref_trace p2 = ref_trace p" using C by simp_all
  then have "traced [i] p p'" using p'(2) by (simp only: traced_def)
  moreover have "ok (rp_region p') \<and> backing (rp_region p') = backing (rp_region p)"
    using p'(1) C clock_ok b1 by simp
  moreover have "snk = g_replay_sink p + chunk_sum (rp_region p) i"
    using R backing_values(2)[OF notify_backing assms(2)]
    by (simp add: chunk_sum_def page_value_def pages_def)
  moreover have "len ?c = len (chunk_at (rp_region p) i)" by (rule backing_chunks(3)[OF notify_backing assms(2)])
  ultimately show ?thesis using p'(1) C by (simp add: replayed_def)
qed

lemma replay_chunks_replays:
  assumes "ok (rp_region p)" "set is \<subseteq> {..<n_chunks (rp_region p)}" "replay_chunks K load units ns is p = Inr p'"
  shows "ok (rp_region p') \<and> replayed (rp_region p) is p p'"
  using assms
proof (induction "is" arbitrary: p)
  case Nil
  then show ?case by (simp add: replayed_nil)
next
  case (Cons i js)
  then obtain p1 where c: "replay_chunk K load units ns i p = Inr p1"
    and rest: "replay_chunks K load units ns js p1 = Inr p'" by (auto simp: rbind_Inr_iff)
  have i: "i < n_chunks (rp_region p)" using Cons.prems(2) by simp
  note C = replay_chunk_replays[OF Cons.prems(1) i c]
  then have b: "backing (rp_region p1) = backing (rp_region p)" by (simp add: replayed_def)
  have "set js \<subseteq> {..<n_chunks (rp_region p1)}" using Cons.prems(2) backing_chunks(1)[OF b] by simp
  then have R: "ok (rp_region p') \<and> replayed (rp_region p1) js p1 p'" using Cons.IH C rest by blast
  then have "replayed (rp_region p) js p1 p'" using replayed_base[OF _ b] Cons.prems(2) by simp
  then show ?case using C R replayed_trans[of "rp_region p" "[i]" p p1 js p'] by simp
qed

lemma replay_passes_replays:
  assumes "ok (rp_region p)" "replay_passes K load units ns n p = Inr p'"
  shows "ok (rp_region p') \<and> replayed (rp_region p) (concat (replicate n [0..<n_chunks (rp_region p)])) p p'"
  using assms
proof (induction n arbitrary: p)
  case 0
  then show ?case by (simp add: replayed_nil)
next
  case (Suc n)
  let ?l = "[0..<n_chunks (rp_region p)]"
  obtain p1 where c: "replay_chunks K load units ns ?l p = Inr p1"
    and rest: "replay_passes K load units ns n p1 = Inr p'" using Suc.prems(2) by (auto simp: rbind_Inr_iff)
  have C: "ok (rp_region p1) \<and> replayed (rp_region p) ?l p p1"
    by (rule replay_chunks_replays[OF Suc.prems(1) _ c]) auto
  then have b: "backing (rp_region p1) = backing (rp_region p)" by (simp add: replayed_def)
  let ?is = "concat (replicate n ?l)"
  have R: "ok (rp_region p') \<and> replayed (rp_region p1) ?is p1 p'"
    using Suc.IH[OF _ rest] C backing_chunks(1)[OF b] by simp
  have "set ?is \<subseteq> {..<n_chunks (rp_region p)}" by auto
  then have "replayed (rp_region p) ?is p1 p'" using replayed_base[OF conjunct2[OF R] b] by blast
  then show ?case using C R replayed_trans[of "rp_region p" ?l p p1 ?is p'] by simp
qed

lemma replay_cyclic_replays:
  assumes "ok (rp_region p)" "replay_cyclic K load units np ns p = Inr (res, p')"
  shows "ok (rp_region p')
    \<and> replayed (rp_region p) (concat (replicate (unat np) [0..<n_chunks (rp_region p)])) (p\<lparr>bytes_touched := 0, ref_seq := 0\<rparr>) p'
    \<and> res_bytes res = bytes_touched p' \<and> n_touches res = np * word_of_nat (n_chunks (rp_region p)) \<and> res_passes res = np"
proof -
  let ?r0 = "(rp_region p)\<lparr>clk_pos := clk_pos (rp_region p) + 1\<rparr>"
  let ?p0 = "p\<lparr>rp_region := ?r0, bytes_touched := 0, ref_seq := 0\<rparr>"
  from assms(2) obtain p1 where run: "replay_passes K load units ns (unat np) ?p0 = Inr p1"
    and p': "p' = p1\<lparr>rp_region := (rp_region p1)\<lparr>clk_pos := clk_pos (rp_region p1) + 1\<rparr>\<rparr>"
    and res: "res_bytes res = bytes_touched p1" "n_touches res = np * word_of_nat (n_chunks (rp_region p1))" "res_passes res = np"
    by (auto simp: replay_cyclic_def now_ns_def Let_def rbind_Inr_iff)
  have "ok (rp_region ?p0)" using clock_ok[OF assms(1)] by simp
  note R = replay_passes_replays[OF this run]
  then have b: "backing (rp_region p1) = backing (rp_region p)" by (simp add: replayed_def)
  let ?is = "concat (replicate (unat np) [0..<n_chunks (rp_region p)])"
  have "replayed ?r0 ?is ?p0 p1" using R by simp
  then have "replayed (rp_region p) ?is ?p0 p1" by (rule replayed_base) auto
  then have "replayed (rp_region p) ?is (p\<lparr>bytes_touched := 0, ref_seq := 0\<rparr>) p'"
    by (cases "ref_trace p") (simp_all add: p' replayed_def traced_def)
  moreover have "ok (rp_region p')" using R clock_ok p' by simp
  ultimately show ?thesis using p' res backing_chunks(1)[OF b] by simp
qed

end

section \<open>The synchronous pager is such a memory\<close>

text \<open>The pager between two faults, with every fault served in line: no reservation, no pin but retention.\<close>

definition inline_ok :: "region \<Rightarrow> bool" where
  "inline_ok r \<longleftrightarrow> (\<exists>C. budget_inv r C {} (\<lambda>_. 0)) \<and> \<not> async_handler r \<and> prefetch_depth r \<le> 1
     \<and> (\<forall>i<n_chunks r. starts_in_file r i)"

lemma inline_ok_advances:
  assumes "inline_ok r" "advances r r'" "budget_inv r' C {} (\<lambda>_. 0)"
  shows "inline_ok r'"
  using assms advances_file[OF assms(2)]
  by (auto simp: inline_ok_def advances_def config_part_def)

lemma inline_fault:
  assumes ok: "inline_ok r" and f: "handle_fault K r rel m = Inr r'"
  shows "inline_ok r' \<and> backing r' = backing r"
proof -
  let ?r = "count_fault m r"
  have a0: "advances r ?r" by (intro advances_refl) simp_all
  have "inv_part ?r = inv_part r" by simp
  then have "inline_ok ?r" using inline_ok_advances[OF ok a0] ok budget_inv_cong by (metis inline_ok_def)
  then obtain C where inv: "budget_inv ?r C {} (\<lambda>_. 0)" and depth: "\<not> async_handler ?r" "prefetch_depth ?r \<le> 1"
    and fl: "\<forall>j<n_chunks ?r. starts_in_file ?r j" unfolding inline_ok_def by blast
  have keep: "inline_ok r' \<and> backing r' = backing r" if "advances ?r r'" "budget_inv r' C' {} (\<lambda>_. 0)" for C'
    using inline_ok_advances[OF ok advances_trans[OF a0 that(1)] that(2)] advances_backing[OF advances_trans[OF a0 that(1)]]
    by simp
  obtain i where i: "pager_lookup (chunks ?r) rel = Some i" using f by (auto simp: handle_fault_def Let_def split: option.splits)
  have iN: "i < n_chunks ?r"
    using i pager_lookup_iff[of "chunks ?r" "region_len ?r" rel i] inv by (auto simp: budget_inv_def geometry_ok_def)
  show ?thesis
  proof (cases "state (chunk_at ?r i)")
    case CHUNK_ABSENT
    then have h: "handle_absent K ?r i (if m then TRACE_FAULT_MINOR else TRACE_FAULT_MISSING) = Inr r'"
      using f i depth by (simp add: handle_fault_def Let_def)
    have "idle_ok ?r (\<lambda>_. 0)" by (simp add: idle_ok_def)
    from handle_absent_inline[OF inv this iN CHUNK_ABSENT fl depth(2) h] keep show ?thesis
      by (auto simp: resolved_def)
  next
    case CHUNK_FETCHING
    then have "r' = ?r\<lparr>stat_dedup_fetching := stat_dedup_fetching ?r + 1\<rparr>"
      using f i by (simp add: handle_fault_def Let_def)
    then have "advances ?r r'" "inv_part r' = inv_part ?r"
      by (auto intro!: advances_refl simp: config_part_def inv_part_def)
    then show ?thesis using keep inv budget_inv_cong by metis
  next
    case CHUNK_RESIDENT
    then have r': "r' = (wake_range ?r i)\<lparr>stat_dedup_resident := stat_dedup_resident (wake_range ?r i) + 1\<rparr>"
      using f i by (simp add: handle_fault_def Let_def)
    then have "advances ?r r'" by (auto simp: advances_def wake_range_def config_part_def)
    moreover have "inv_part r' = inv_part ?r" by (simp add: r' wake_range_def inv_part_def)
    ultimately show ?thesis using keep inv budget_inv_cong by metis
  qed
qed

lemma load_byte_reads:
  assumes "inline_ok r" "b < unat (region_len r)" "load_byte K n r b = Inr (v, r')"
  shows "v = model_byte r b \<and> inline_ok r' \<and> backing r' = backing r"
  using assms
proof (induction n arbitrary: r)
  case 0
  then show ?case by simp
next
  case (Suc n)
  from Suc.prems(1) obtain C where inv: "budget_inv r C {} (\<lambda>_. 0)" by (auto simp: inline_ok_def)
  have b: "unat (word_of_nat b :: u64) = b"
    using Suc.prems(2) u64_bound[of "region_len r"] by (simp add: unat_of_nat)
  obtain i where i: "pager_lookup (chunks r) (word_of_nat b) = Some i"
    using Suc.prems(3) by (auto split: option.splits)
  then have c: "i < n_chunks r" "in_chunk (chunk_at r i) b"
    using pager_lookup_iff[of "chunks r" "region_len r" "word_of_nat b" i] inv b
    by (auto simp: budget_inv_def geometry_ok_def covers_def in_chunk_def)
  show ?case
  proof (cases "state (chunk_at r i) = CHUNK_RESIDENT")
    case True
    then have "i \<in> C" using inv c(1) by (auto simp: budget_inv_def acct_def)
    then have "memfd r b = Some (model_byte r b)" using inv c(2) by (auto simp: budget_inv_def data_ok_def)
    then show ?thesis using Suc.prems i True by auto
  next
    case False
    then obtain r1 where f: "handle_fault K r (word_of_nat b) (memfd r b \<noteq> None) = Inr r1"
      and rest: "load_byte K n r1 b = Inr (v, r')" using Suc.prems(3) i by (auto simp: rbind_Inr_iff)
    note F = inline_fault[OF Suc.prems(1) f]
    then have "b < unat (region_len r1)" using Suc.prems(2) backing_chunks(2)[of r1 r] by simp
    with Suc.IH[OF _ this rest] F backing_model[of r1 r] show ?thesis by simp
  qed
qed

lemma inline_ok_cong: "inline_ok r \<Longrightarrow> inline_ok (r\<lparr>clk_pos := t\<rparr>)"
  using budget_inv_cong[of "r\<lparr>clk_pos := t\<rparr>" r] by (simp add: inline_ok_def inv_part_def starts_in_file_def)

lemma notify_advances: "advances r (pager_notify_access r i)"
proof -
  have "config_part (pager_notify_access r i) = config_part r" "uffd_log (pager_notify_access r i) = uffd_log r"
    by (auto simp: pager_notify_access_def prefetch_retain_release_def upd_chunk_def config_part_def Let_def split: option.splits)
  moreover have g: "same_geometry (chunks (pager_notify_access r i)) (chunks r)"
    using notify_backing[of r i] by (simp add: backing_def same_geometry_def)
  ultimately show ?thesis
    using same_geometry_nth[OF g] same_geometry_length[OF g] by (simp add: advances_def)
qed

lemma inline_ok_notify: "inline_ok r \<Longrightarrow> inline_ok (pager_notify_access r i)"
  using inline_ok_advances[OF _ notify_advances] notify_core by (metis inline_ok_def)

interpretation sync: paged_memory "load_byte K n" inline_ok
proof
  fix r :: region and b v r' i t
  show "inline_ok r \<Longrightarrow> b < unat (region_len r) \<Longrightarrow> load_byte K n r b = Inr (v, r') \<Longrightarrow>
      v = model_byte r b \<and> inline_ok r' \<and> backing r' = backing r" by (rule load_byte_reads)
  show "inline_ok r \<Longrightarrow> inline_ok (pager_notify_access r i)" by (rule inline_ok_notify)
  show "inline_ok r \<Longrightarrow> inline_ok (r\<lparr>clk_pos := t\<rparr>)" by (rule inline_ok_cong)
  show "inline_ok r \<Longrightarrow> geometry_ok r" by (auto simp: inline_ok_def budget_inv_def)
qed

section \<open>A whole run\<close>

lemma sum_list_passes:
  fixes f :: "nat \<Rightarrow> u64"
  shows "sum_list (map f (concat (replicate p [0..<n]))) = of_nat p * (\<Sum>i<n. f i)"
  by (induction p) (simp_all add: interv_sum_list_conv_sum_set_nat atLeast0LessThan algebra_simps)

lemma sum_lens_region: "geometry_ok r \<Longrightarrow> (\<Sum>i<n_chunks r. len (chunk_at r i)) = region_len r"
proof -
  assume "geometry_ok r"
  then have "unat (region_len r) = (\<Sum>i<n_chunks r. unat (len (chunk_at r i)))"
    using tiles_end[of 0 "chunks r"] by (simp add: geometry_ok_def)
  then have "(of_nat (unat (region_len r)) :: u64) = (\<Sum>i<n_chunks r. of_nat (unat (len (chunk_at r i))))"
    by (simp only: of_nat_sum)
  then show ?thesis by simp
qed


lemma replay_trace_loads:
  assumes "inline_ok (rp_region p)" "ref_trace p = Some t" "trace_open ws TRACE_TYPE_REFERENCE = Inr t"
    and "replay_cyclic K (load_byte K fuel) units np ns p = Inr (res, p')"
  shows "\<exists>t'. ref_trace p' = Some t' \<and> load_reference_string (trace_file t')
      = Inr (map (\<lambda>s. word_of_nat (s mod n_chunks (rp_region p))) [0..<unat np * n_chunks (rp_region p)])"
proof -
  let ?is = "concat (replicate (unat np) [0..<n_chunks (rp_region p)])"
  from sync.replay_cyclic_replays[OF assms(1,4)] assms(2) obtain t' recs where
    t': "ref_trace p' = Some t'" "trace_file t' = trace_file t @ concat (map record_bytes recs)"
    and recs: "reference_records 0 ?is recs"
    by (auto simp: replayed_def traced_def)
  have "map chunk_id recs = map word_of_nat ?is"
    using recs by (intro nth_equalityI) (simp_all add: reference_records_def)
  then show ?thesis using t' load_of_records[OF assms(3)] by (simp add: concat_replicate_upt)
qed

text \<open>Two resident chunks, read twice; the trace is opened and written with interrupted and short writes.\<close>

definition demo_hot :: region where
  "demo_hot = zero_region\<lparr>region_len := 8192, model_file_size := 8000, used_o_direct := True,
     chunks := map (\<lambda>c. c\<lparr>state := CHUNK_RESIDENT\<rparr>) [new_chunk 0 0 4096 0, new_chunk 4096 4096 4096 1],
     resident_bytes := 8192, budget_bytes := 8192, reconcile_interval := 1, prefetch_depth := 1,
     fetch_workers := 4, fetching_timeout_ms := 30000, pinned_prefetch := ring_new 1,
     memfd := (\<lambda>b. if b < 8192 then Some (if 8000 \<le> b then 0 else word_of_nat b) else None),
     model_data := (\<lambda>b. word_of_nat b)\<rparr>"

definition demo_driver :: "trace \<Rightarrow> replay" where
  "demo_driver t = \<lparr>rp_region = demo_hot, g_replay_sink = 0, g_compute_sink = 0, g_compute_total_ns = 0,
     g_compute_total_bytes = 0, bytes_touched = 0, ref_seq = 0, ref_trace = Some t\<rparr>"

lemma demo_hot_ok: "inline_ok demo_hot"
proof -
  have two: "{..<2 :: nat} = {0, 1}" by auto
  have ch: "chunks demo_hot = [(new_chunk 0 0 4096 0)\<lparr>state := CHUNK_RESIDENT\<rparr>, (new_chunk 4096 4096 4096 1)\<lparr>state := CHUNK_RESIDENT\<rparr>]"
    by (simp add: demo_hot_def)
  have ring: "ring_wf (pinned_prefetch demo_hot)" "ring_list (pinned_prefetch demo_hot) = []"
    by (simp_all add: demo_hot_def ring_wf_new ring_list_new)
  have "geometry_ok demo_hot" by (simp add: geometry_ok_def demo_hot_def UINT32_MAX_def)
  moreover have "acct demo_hot {0, 1} {}"
    by (auto simp: acct_def ch bytes_of_def demo_hot_def zero_region_def less_Suc_eq)
  moreover have "pins_ok demo_hot (\<lambda>_. 0)" using ring by (auto simp: pins_ok_def ch less_Suc_eq)
  moreover have "data_ok demo_hot {0, 1} {}"
    by (auto simp: data_ok_def ch in_chunk_def model_byte_def demo_hot_def)
  ultimately have "budget_inv demo_hot {0, 1} {} (\<lambda>_. 0)" by (simp add: budget_inv_def)
  then show ?thesis
    by (auto simp: inline_ok_def starts_in_file_def demo_hot_def zero_region_def less_Suc_eq)
qed

lemma demo_replay_returns:
  obtains t res p' where "trace_open demo_script TRACE_TYPE_REFERENCE = Inr t"
    "replay_cyclic demo_kernel (load_byte demo_kernel 1) (\<lambda>_ _. 0) 2 0 (demo_driver t) = Inr (res, p')"
proof -
  have run: "map_sum id (\<lambda>t. \<not> isl (replay_cyclic demo_kernel (load_byte demo_kernel 1) (\<lambda>_ _. 0) 2 0 (demo_driver t)))
     (trace_open demo_script TRACE_TYPE_REFERENCE) = Inr True" by code_simp
  then obtain t where t: "trace_open demo_script TRACE_TYPE_REFERENCE = Inr t"
    by (cases "trace_open demo_script TRACE_TYPE_REFERENCE") auto
  with run have "\<not> isl (replay_cyclic demo_kernel (load_byte demo_kernel 1) (\<lambda>_ _. 0) 2 0 (demo_driver t))" by simp
  then show ?thesis using that[OF t] by (auto elim!: not_islE)
qed


end
