(* ===== verification/Lookahead.thy ===== *)
theory Lookahead
  imports Replay Concurrency
begin

text \<open>
  The multi-threaded driver \<^verbatim>\<open>replay_cyclic_mt\<close> of \<^verbatim>\<open>replay.c\<close> over the
  machine of \<open>Threads\<close>: each driver thread is a point of its loop, the bounded lookahead is the
  counters \<^verbatim>\<open>completed[]\<close> with one condition variable, and a page is read in a state in which the pager
  has made its chunk RESIDENT. The driver's steps and the pager's interleave freely. The driver is
  modelled with \<^verbatim>\<open>compute_ns_per_mib\<close> 0, its default, where the compute phase is no operation.
\<close>

section \<open>State\<close>

record replay_job =
  j_threads :: u32
  j_window :: u32
  j_passes :: u32
  j_all :: bool

text \<open>
  Where a thread is in the round of one step: about to test the gate (or asleep there), about to announce the chunk,
  at page number \<open>k\<close> at offset \<open>off\<close>, about to count its completion, about to signal the completed chunk,
  and, for thread 0, waiting for the others (or asleep there) and about to emit the reference.
\<close>

datatype spot = Gate | Announce | Page (page_off: nat) (page_idx: nat) | Mark | Signal | Full | Emit

record thread =
  th_step :: nat
  spot :: spot
  asleep :: bool
  my_bytes :: u64

text \<open>
  \<^verbatim>\<open>lookahead_state_t\<close>, the contexts of the threads, and the sink. \<open>announced\<close> is the history of the chunks
  passed to \<^verbatim>\<open>pager_notify_access\<close>, which the code does not keep.
\<close>

record driver =
  completed :: "u32 list"
  notify_count :: u64
  threads :: "thread list"
  sink :: u64
  touched :: u64
  dr_seq :: u64
  dr_trace :: "trace option"
  announced :: "nat list"

record whole =
  pager :: sys
  drv :: driver

section \<open>Steps\<close>

text \<open>\<^verbatim>\<open>total_steps = n_passes * n_chunks\<close>, a 32-bit product.\<close>

definition total_steps :: "replay_job \<Rightarrow> region \<Rightarrow> nat" where
  "total_steps j r = unat (j_passes j * word_of_nat (n_chunks r))"

text \<open>The conditions of \<^verbatim>\<open>lookahead_wait_to_start\<close> and \<^verbatim>\<open>lookahead_wait_full\<close>.\<close>

definition gate_open :: "replay_job \<Rightarrow> driver \<Rightarrow> nat \<Rightarrow> bool" where
  "gate_open j d s =
     (let gate = int s - int (unat (j_window j)) - 1
      in gate < 0 \<or> \<not> completed d ! nat gate < j_threads j)"

definition full :: "replay_job \<Rightarrow> driver \<Rightarrow> nat \<Rightarrow> bool" where
  "full j d s = (\<not> completed d ! s < j_threads j)"

text \<open>The critical section of \<^verbatim>\<open>lookahead_mark_done\<close>; the broadcast wakes every sleeper.\<close>

definition mark_done :: "replay_job \<Rightarrow> driver \<Rightarrow> nat \<Rightarrow> bool \<times> driver" where
  "mark_done j d s =
     (let c = completed d ! s + 1; d1 = d\<lparr>completed := (completed d)[s := c]\<rparr>
      in if c = j_threads j
         then (True, d1\<lparr>notify_count := (if j_all j then notify_count d1 + 1 else notify_count d1),
                        threads := map (\<lambda>th. th\<lparr>asleep := False\<rparr>) (threads d1)\<rparr>)
         else (False, d1))"

definition put :: "nat \<Rightarrow> thread \<Rightarrow> driver \<Rightarrow> driver" where
  "put t th d = d\<lparr>threads := (threads d)[t := th]\<rparr>"

definition access :: "nat \<Rightarrow> whole \<Rightarrow> whole" where
  "access i w = \<lparr>pager = (pager w)\<lparr>reg := pager_notify_access (reg (pager w)) i\<rparr>,
                 drv = (drv w)\<lparr>announced := announced (drv w) @ [i]\<rparr>\<rparr>"

text \<open>A load that does not wait: the byte, once its chunk is RESIDENT.\<close>

definition visible :: "sys \<Rightarrow> nat \<Rightarrow> u8 option" where
  "visible s b =
     (case pager_lookup (chunks (reg s)) (word_of_nat b) of
        None \<Rightarrow> None
      | Some i \<Rightarrow> if state (chunk_at (reg s) i) = CHUNK_RESIDENT then memfd (reg s) b else None)"

definition next_step :: "thread \<Rightarrow> thread" where
  "next_step th = th\<lparr>th_step := th_step th + 1, spot := Gate\<rparr>"

text \<open>
  What thread \<open>t\<close> does next in \<^verbatim>\<open>replay_thread_main\<close>; \<open>None\<close> when it has finished, sleeps, or
  waits for \<^verbatim>\<open>budget_lock\<close> or for a page. \<open>ws\<close> and \<open>now\<close> are the writes and the clock
  of its next trace record.
\<close>

definition turn :: "replay_job \<Rightarrow> write_result list \<Rightarrow> u64 \<Rightarrow> whole \<Rightarrow> nat \<Rightarrow> (failure + whole) option" where
  "turn j ws now w t =
     (let d = drv w; th = threads d ! t; s = th_step th; r = reg (pager w);
          i = s mod n_chunks r; c = chunk_at r i
      in if total_steps j r \<le> s \<or> asleep th then None
         else case spot th of
           Gate \<Rightarrow>
             Some (Inr (w\<lparr>drv := put t (if gate_open j d s then th\<lparr>spot := Announce\<rparr> else th\<lparr>asleep := True\<rparr>) d\<rparr>))
         | Announce \<Rightarrow>
             let w1 = w\<lparr>drv := put t (th\<lparr>spot := Page 0 0, my_bytes := 0\<rparr>) d\<rparr>
             in if t = 0 \<and> \<not> j_all j
                then if budget_free (pager w) then Some (Inr (access i w1)) else None
                else Some (Inr w1)
         | Page off k \<Rightarrow>
             if \<not> off < unat (len c) then Some (Inr (w\<lparr>drv := put t (th\<lparr>spot := Mark\<rparr>) d\<rparr>))
             else if k mod unat (j_threads j) \<noteq> t
             then Some (Inr (w\<lparr>drv := put t (th\<lparr>spot := Page (off + 4096) (k + 1)\<rparr>) d\<rparr>))
             else (case visible (pager w) (unat (region_off c) + off) of
                     None \<Rightarrow> None
                   | Some v \<Rightarrow>
                       let rest = len c - word_of_nat off;
                           th1 = th\<lparr>spot := Page (off + 4096) (k + 1),
                                    my_bytes := my_bytes th + (if rest < RESIDCTL_ALIGN then rest else RESIDCTL_ALIGN)\<rparr>
                       in Some (Inr (w\<lparr>drv := (put t th1 d)\<lparr>sink := sink d + ucast v\<rparr>\<rparr>)))
         | Mark \<Rightarrow>
             let (now_full, d1) = mark_done j d s
             in Some (Inr (w\<lparr>drv := put t (th\<lparr>spot := if now_full \<and> j_all j then Signal else Full\<rparr>) d1\<rparr>))
         | Signal \<Rightarrow>
             if budget_free (pager w) then Some (Inr (access i (w\<lparr>drv := put t (th\<lparr>spot := Full\<rparr>) d\<rparr>))) else None
         | Full \<Rightarrow>
             Some (Inr (w\<lparr>drv := put t (if t \<noteq> 0 then next_step th
                                         else if full j d s then th\<lparr>spot := Emit\<rparr> else th\<lparr>asleep := True\<rparr>) d\<rparr>))
         | Emit \<Rightarrow>
             let d1 = (put t (next_step th) d)\<lparr>touched := touched d + len c\<rparr>
             in (case dr_trace d of
                   None \<Rightarrow> Some (Inr (w\<lparr>drv := d1\<rparr>))
                 | Some tr \<Rightarrow>
                     (case trace_record_call ws now tr (dr_seq d + 1) (word_of_nat i) TRACE_NA TRACE_NA of
                        Inl _ \<Rightarrow> Some (Inl Trace_write_failed)
                      | Inr tr' \<Rightarrow> Some (Inr (w\<lparr>drv := d1\<lparr>dr_seq := dr_seq d + 1, dr_trace := Some tr'\<rparr>\<rparr>)))))"

text \<open>
  The driver and the pager together; \<open>replays j w n w'\<close>: a run from \<open>w\<close> to \<open>w'\<close> with \<open>n\<close> steps of driver threads.
\<close>

inductive replays :: "replay_job \<Rightarrow> whole \<Rightarrow> nat \<Rightarrow> whole \<Rightarrow> bool" for j w0 where
  replays_none: "replays j w0 0 w0"
| replays_pager: "replays j w0 n w \<Longrightarrow> step (pager w) s' \<Longrightarrow> replays j w0 n (w\<lparr>pager := s'\<rparr>)"
| replays_turn: "replays j w0 n w \<Longrightarrow> t < length (threads (drv w)) \<Longrightarrow> turn j ws now w t = Some (Inr w') \<Longrightarrow>
    replays j w0 (Suc n) w'"

definition mt_start :: "replay_job \<Rightarrow> sys \<Rightarrow> u64 \<Rightarrow> trace option \<Rightarrow> whole" where
  "mt_start j s snk tr =
     \<lparr>pager = s,
      drv = \<lparr>completed = replicate (total_steps j (reg s)) 0, notify_count = 0,
             threads = replicate (unat (j_threads j)) \<lparr>th_step = 0, spot = Gate, asleep = False, my_bytes = 0\<rparr>,
             sink = snk, touched = 0, dr_seq = 0, dr_trace = tr, announced = []\<rparr>\<rparr>"

text \<open>All threads joined, the check of the signals and the result.\<close>

definition finished :: "replay_job \<Rightarrow> whole \<Rightarrow> bool" where
  "finished j w \<longleftrightarrow> list_all (\<lambda>th. total_steps j (reg (pager w)) \<le> th_step th) (threads (drv w))"

definition mt_result :: "replay_job \<Rightarrow> u64 \<Rightarrow> whole \<Rightarrow> replay_result option" where
  "mt_result j wall w =
     (if j_all j \<and> notify_count (drv w) \<noteq> word_of_nat (total_steps j (reg (pager w))) then None
      else Some \<lparr>wall_ns = wall, res_passes = j_passes j,
                 n_touches = j_passes j * word_of_nat (n_chunks (reg (pager w))),
                 res_bytes = touched (drv w)\<rparr>)"

section \<open>What the threads have marked\<close>

text \<open>The number of steps that a thread has counted as done, and the least such number.\<close>

fun past_mark :: "spot \<Rightarrow> bool" where
  "past_mark Signal = True"
| "past_mark Full = True"
| "past_mark Emit = True"
| "past_mark _ = False"

definition marks :: "thread \<Rightarrow> nat" where
  "marks th = th_step th + (if past_mark (spot th) then 1 else 0)"

definition marked :: "driver \<Rightarrow> nat \<Rightarrow> nat" where
  "marked d s = length (filter (\<lambda>th. s < marks th) (threads d))"

definition low :: "driver \<Rightarrow> nat" where
  "low d = Min (marks ` set (threads d))"

text \<open>The counters count: with \<open>T\<close> steps and \<open>j\<close>'s threads.\<close>

definition counts_ok :: "replay_job \<Rightarrow> nat \<Rightarrow> driver \<Rightarrow> bool" where
  "counts_ok j T d \<longleftrightarrow> length (threads d) = unat (j_threads j) \<and> threads d \<noteq> [] \<and> length (completed d) = T
     \<and> (\<forall>th\<in>set (threads d). th_step th \<le> T \<and> (th_step th = T \<longrightarrow> spot th = Gate \<and> \<not> asleep th))
     \<and> (\<forall>s<T. completed d ! s = word_of_nat (marked d s))"

lemma low_iff: "threads d \<noteq> [] \<Longrightarrow> s < low d \<longleftrightarrow> (\<forall>th\<in>set (threads d). s < marks th)"
  by (simp add: low_def)

lemma marks_bound: "counts_ok j T d \<Longrightarrow> th \<in> set (threads d) \<Longrightarrow> marks th \<le> T"
  by (fastforce simp: counts_ok_def marks_def le_less split: if_splits)

lemma low_bound: "counts_ok j T d \<Longrightarrow> low d \<le> T"
proof -
  assume c: "counts_ok j T d"
  then have ne: "threads d \<noteq> []" by (simp add: counts_ok_def)
  then have "low d \<in> marks ` set (threads d)" unfolding low_def by (intro Min_in) simp_all
  then show ?thesis using marks_bound[OF c] by auto
qed

lemma low_le: "th \<in> set (threads d) \<Longrightarrow> low d \<le> marks th"
  by (simp add: low_def)

lemma marked_word:
  assumes "counts_ok j T d"
  shows "word_of_nat (marked d s) < j_threads j \<longleftrightarrow> \<not> s < low d"
    and "(word_of_nat (marked d s) :: u32) = j_threads j \<longleftrightarrow> s < low d"
proof -
  have ne: "threads d \<noteq> []" and n: "length (threads d) = unat (j_threads j)" using assms by (simp_all add: counts_ok_def)
  have le: "marked d s \<le> unat (j_threads j)" using length_filter_le[of _ "threads d"] n by (simp add: marked_def)
  then have u: "unat (word_of_nat (marked d s) :: u32) = marked d s"
    using u32_bound[of "j_threads j"] by (simp add: unat_of_nat)
  have all: "marked d s = unat (j_threads j) \<longleftrightarrow> s < low d"
    unfolding low_iff[OF ne] marked_def n[symmetric] by (metis filter_True length_filter_less less_irrefl)
  show "word_of_nat (marked d s) < j_threads j \<longleftrightarrow> \<not> s < low d"
    using le all u by (auto simp: word_less_nat_alt)
  show "(word_of_nat (marked d s) :: u32) = j_threads j \<longleftrightarrow> s < low d"
    using all u by (auto simp: word_unat_eq_iff)
qed

lemma full_iff: "counts_ok j T d \<Longrightarrow> s < T \<Longrightarrow> full j d s \<longleftrightarrow> s < low d"
  using marked_word(1)[of j T d s] by (simp add: full_def counts_ok_def)

lemma gate_at:
  "(let gate = int s - int W - 1 in gate < 0 \<or> \<not> cs ! nat gate < m) \<longleftrightarrow> s \<le> W \<or> \<not> cs ! (s - W - 1) < m"
  by (cases "s \<le> W") (auto simp: Let_def nat_diff_distrib' intro: arg_cong)

lemma gate_iff:
  assumes "counts_ok j T d" "s < T"
  shows "gate_open j d s \<longleftrightarrow> s \<le> low d + unat (j_window j)"
proof -
  have "gate_open j d s \<longleftrightarrow> s \<le> unat (j_window j) \<or> full j d (s - unat (j_window j) - 1)"
    unfolding gate_open_def full_def by (rule gate_at)
  then show ?thesis using full_iff[OF assms(1), of "s - unat (j_window j) - 1"] assms(2)
    by (cases "s \<le> unat (j_window j)") auto
qed

text \<open>What a step of a thread does, by the place where the thread is.\<close>

lemma turnE:
  assumes turn: "turn j ws now w t = Some (Inr w')"
  defines "d \<equiv> drv w"
  defines "th \<equiv> threads d ! t"
  defines "i \<equiv> th_step th mod n_chunks (reg (pager w))"
  defines "c \<equiv> chunk_at (reg (pager w)) i"
  obtains
    (gate) "spot th = Gate" "gate_open j d (th_step th)" "w' = w\<lparr>drv := put t (th\<lparr>spot := Announce\<rparr>) d\<rparr>"
  | (gate_sleep) "spot th = Gate" "\<not> gate_open j d (th_step th)" "w' = w\<lparr>drv := put t (th\<lparr>asleep := True\<rparr>) d\<rparr>"
  | (announce) "spot th = Announce" "t = 0" "\<not> j_all j" "budget_free (pager w)"
      "w' = access i (w\<lparr>drv := put t (th\<lparr>spot := Page 0 0, my_bytes := 0\<rparr>) d\<rparr>)"
  | (silent) "spot th = Announce" "t \<noteq> 0 \<or> j_all j" "w' = w\<lparr>drv := put t (th\<lparr>spot := Page 0 0, my_bytes := 0\<rparr>) d\<rparr>"
  | (pages_done) off k where "spot th = Page off k" "unat (len c) \<le> off" "w' = w\<lparr>drv := put t (th\<lparr>spot := Mark\<rparr>) d\<rparr>"
  | (skip) off k where "spot th = Page off k" "off < unat (len c)" "k mod unat (j_threads j) \<noteq> t"
      "w' = w\<lparr>drv := put t (th\<lparr>spot := Page (off + 4096) (k + 1)\<rparr>) d\<rparr>"
  | (read) off k v b where "spot th = Page off k" "off < unat (len c)" "k mod unat (j_threads j) = t"
      "visible (pager w) (unat (region_off c) + off) = Some v"
      "w' = w\<lparr>drv := (put t (th\<lparr>spot := Page (off + 4096) (k + 1), my_bytes := b\<rparr>) d)\<lparr>sink := sink d + ucast v\<rparr>\<rparr>"
  | (mark) "spot th = Mark" "w' = w\<lparr>drv := put t (th\<lparr>spot := if fst (mark_done j d (th_step th)) \<and> j_all j then Signal else Full\<rparr>)
        (snd (mark_done j d (th_step th)))\<rparr>"
  | (signal) "spot th = Signal" "budget_free (pager w)" "w' = access i (w\<lparr>drv := put t (th\<lparr>spot := Full\<rparr>) d\<rparr>)"
  | (leave) "spot th = Full" "t \<noteq> 0" "w' = w\<lparr>drv := put t (next_step th) d\<rparr>"
  | (full_sleep) "spot th = Full" "t = 0" "\<not> full j d (th_step th)" "w' = w\<lparr>drv := put t (th\<lparr>asleep := True\<rparr>) d\<rparr>"
  | (full) "spot th = Full" "t = 0" "full j d (th_step th)" "w' = w\<lparr>drv := put t (th\<lparr>spot := Emit\<rparr>) d\<rparr>"
  | (emit) "spot th = Emit" "dr_trace d = None" "w' = w\<lparr>drv := (put t (next_step th) d)\<lparr>touched := touched d + len c\<rparr>\<rparr>"
  | (emit_traced) tr tr' where "spot th = Emit" "dr_trace d = Some tr"
      "trace_record_call ws now tr (dr_seq d + 1) (word_of_nat i) TRACE_NA TRACE_NA = Inr tr'"
      "w' = w\<lparr>drv := (put t (next_step th) d)\<lparr>touched := touched d + len c, dr_seq := dr_seq d + 1, dr_trace := Some tr'\<rparr>\<rparr>"
proof (cases "spot th")
  case Gate
  then show ?thesis using turn gate gate_sleep unfolding turn_def d_def th_def by (auto simp: Let_def split: if_splits)
next
  case Announce
  then show ?thesis using turn announce silent unfolding turn_def d_def th_def i_def by (auto simp: Let_def split: if_splits)
next
  case (Page off k)
  then show ?thesis using turn pages_done skip read unfolding turn_def d_def th_def i_def c_def
    by (auto simp: Let_def not_less split: if_splits option.splits)
next
  case Mark
  then show ?thesis using turn mark unfolding turn_def d_def th_def by (auto simp: Let_def case_prod_beta split: if_splits)
next
  case Signal
  then show ?thesis using turn signal unfolding turn_def d_def th_def i_def by (auto simp: Let_def split: if_splits)
next
  case Full
  then show ?thesis using turn leave full_sleep full unfolding turn_def d_def th_def by (auto simp: Let_def split: if_splits)
next
  case Emit
  then show ?thesis using turn emit emit_traced unfolding turn_def d_def th_def i_def c_def
    by (auto simp: Let_def split: if_splits option.splits sum.splits)
qed

lemma turn_active: "turn j ws now w t = Some x \<Longrightarrow>
    th_step (threads (drv w) ! t) < total_steps j (reg (pager w)) \<and> \<not> asleep (threads (drv w) ! t)"
  by (auto simp: turn_def Let_def split: if_splits)

section \<open>The counters stay true\<close>

lemma low_map: "low d = Min (set (map marks (threads d)))"
  by (simp add: low_def)

lemma marked_map: "marked d s = length (filter (\<lambda>m. s < m) (map marks (threads d)))"
  by (simp add: marked_def filter_map o_def)

lemma map_marks_same:
  assumes "threads d' = (threads d)[t := th']" "marks th' = marks (threads d ! t)"
  shows "map marks (threads d') = map marks (threads d)"
  using assms by (metis list_update_id map_update)

lemma counts_ok_same:
  assumes "counts_ok j T d" "threads d' = (threads d)[t := th']" "marks th' = marks (threads d ! t)"
    and "completed d' = completed d" "th_step th' \<le> T" "th_step th' = T \<Longrightarrow> spot th' = Gate \<and> \<not> asleep th'"
  shows "counts_ok j T d'" "low d' = low d"
proof -
  note m = map_marks_same[OF assms(2,3)]
  show "low d' = low d" by (simp only: low_map m)
  have "marked d' s = marked d s" for s by (simp only: marked_map m)
  moreover have "set (threads d') \<subseteq> insert th' (set (threads d))" using set_update_subset_insert assms(2) by metis
  ultimately show "counts_ok j T d'" using assms by (auto simp: counts_ok_def)
qed

lemma marks_simps [simp]:
  "marks (th\<lparr>asleep := a\<rparr>) = marks th" "marks (th\<lparr>my_bytes := b\<rparr>) = marks th"
  "marks (th\<lparr>spot := p\<rparr>) = th_step th + (if past_mark p then 1 else 0)"
  by (simp_all add: marks_def)

lemma filter_update:
  "i < length xs \<Longrightarrow> length (filter P (xs[i := x])) + (if P (xs ! i) then 1 else 0)
     = length (filter P xs) + (if P x then 1 else 0)"
proof (induction xs arbitrary: i)
  case (Cons y ys)
  then show ?case by (cases i) fastforce+
qed simp

lemma low_at: "threads d \<noteq> [] \<Longrightarrow> x < low d \<longleftrightarrow> (\<forall>k<length (map marks (threads d)). x < map marks (threads d) ! k)"
  by (simp add: low_iff all_set_conv_all_nth)

text \<open>One completion counted by thread \<open>t\<close> at step \<open>s\<close>.\<close>

lemma mark_effect:
  assumes ok: "counts_ok j T d" and t: "t < length (threads d)" and m: "spot (threads d ! t) = Mark"
    and s: "th_step (threads d ! t) = s" "s < T" and th': "th_step th' = s" "past_mark (spot th')"
    and d': "d' = put t th' (snd (mark_done j d s))"
  shows "counts_ok j T d'" "fst (mark_done j d s) \<longleftrightarrow> s < low d'"
    and "low d' = (if s < low d' then Suc s else low d)" "s < low d' \<Longrightarrow> low d = s"
proof -
  let ?ms = "map marks (threads d)"
  have ms: "map marks (threads d') = ?ms[t := Suc s]"
  proof -
    have "marks th' = Suc s" using th' by (simp add: marks_def)
    then show ?thesis by (simp add: d' put_def mark_done_def Let_def map_update o_def)
  qed
  have at: "?ms ! t = s" using t m s by (simp add: marks_def)
  have n: "t < length ?ms" using t by simp
  have len: "length (threads d') = length (threads d)" using arg_cong[OF ms, of length] by simp
  then have ne: "threads d \<noteq> []" "threads d' \<noteq> []" using t by auto
  have mk: "marked d' x = (if x = s then marked d x + 1 else marked d x)" for x
    using filter_update[OF n, of "\<lambda>m. x < m" "Suc s", unfolded at] unfolding marked_map ms
    by (cases "x < s"; cases "x = s") simp_all
  have cp: "completed d' = (completed d)[s := completed d ! s + 1]"
    by (simp add: d' put_def mark_done_def Let_def)
  have th: "th \<in> set (threads d') \<Longrightarrow> th = th' \<or> (\<exists>th0\<in>set (threads d). th = th0 \<or> th = th0\<lparr>asleep := False\<rparr>)" for th
    using set_update_subset_insert by (fastforce simp: d' put_def mark_done_def Let_def split: if_splits)
  have "completed d' ! x = word_of_nat (marked d' x)" if "x < T" for x
    using ok that s(2) by (auto simp: counts_ok_def cp mk nth_list_update)
  moreover have "th_step th \<le> T \<and> (th_step th = T \<longrightarrow> spot th = Gate \<and> \<not> asleep th)" if "th \<in> set (threads d')" for th
    using th[OF that] ok th'(1) s(2) by (auto simp: counts_ok_def)
  ultimately show ok': "counts_ok j T d'" using ok ne(2) len by (auto simp: counts_ok_def cp)
  have "fst (mark_done j d s) \<longleftrightarrow> completed d' ! s = j_threads j"
    using ok s(2) by (simp add: cp counts_ok_def mark_done_def Let_def)
  then show "fst (mark_done j d s) \<longleftrightarrow> s < low d'"
    using marked_word(2)[OF ok', of s] ok' s(2) by (simp add: counts_ok_def)
  define Q where "Q x \<longleftrightarrow> (\<forall>k<length ?ms. k \<noteq> t \<longrightarrow> x < ?ms ! k)" for x
  have l: "x < low d \<longleftrightarrow> Q x \<and> x < s" for x using low_at[OF ne(1), of x] n at by (auto simp: Q_def)
  have l': "x < low d' \<longleftrightarrow> Q x \<and> x < Suc s" for x
    using low_at[OF ne(2), of x] n unfolding ms by (auto simp: Q_def nth_list_update)
  have anti: "Q y" if "Q x" "y \<le> x" for x y using that unfolding Q_def by (meson le_less_trans)
  show "low d' = (if s < low d' then Suc s else low d)"
  proof (cases "s < low d'")
    case True
    moreover have "\<not> Suc s < low d'" using l' by simp
    ultimately show ?thesis by simp
  next
    case False
    then have "x < low d' \<longleftrightarrow> x < low d" for x using l[of x] l'[of x] l'[of s] by (auto simp: less_Suc_eq)
    then have "low d' = low d" by (metis nat_neq_iff)
    then show ?thesis using False by simp
  qed
  show "low d = s" if "s < low d'"
  proof -
    have "x < low d \<longleftrightarrow> x < s" for x using that l[of x] l'[of s] anti[of s x] by auto
    then show ?thesis by (metis nat_neq_iff)
  qed
qed

definition same_marks :: "nat \<Rightarrow> driver \<Rightarrow> driver \<Rightarrow> bool" where
  "same_marks t d d' \<longleftrightarrow> (\<exists>th'. threads d' = (threads d)[t := th'] \<and> marks th' = marks (threads d ! t)
     \<and> (th_step th' = th_step (threads d ! t) \<and> \<not> asleep (threads d ! t)
        \<or> th_step th' = Suc (th_step (threads d ! t)) \<and> spot th' = Gate \<and> \<not> asleep th'))
     \<and> completed d' = completed d \<and> notify_count d' = notify_count d"

lemma turn_same_marks:
  assumes turn: "turn j ws now w t = Some (Inr w')" and s: "spot (threads (drv w) ! t) \<noteq> Mark"
  shows "same_marks t (drv w) (drv w')"
  using turn turn_active[OF turn] s
  by (cases rule: turnE) (auto simp: same_marks_def put_def access_def next_step_def marks_def)

lemma turn_counts:
  assumes turn: "turn j ws now w t = Some (Inr w')" and t: "t < length (threads (drv w))"
    and ok: "counts_ok j T (drv w)" and T: "T = total_steps j (reg (pager w))"
  shows "counts_ok j T (drv w') \<and> length (threads (drv w')) = length (threads (drv w)) \<and> low (drv w) \<le> low (drv w')"
    and "spot (threads (drv w) ! t) \<noteq> Mark \<Longrightarrow> low (drv w') = low (drv w)"
proof -
  let ?d = "drv w" and ?d' = "drv w'" and ?s = "th_step (threads (drv w) ! t)"
  have s: "?s < T" using turn_active[OF turn] T by simp
  have same: "counts_ok j T ?d' \<and> length (threads ?d') = length (threads ?d) \<and> low ?d' = low ?d"
    if "spot (threads ?d ! t) \<noteq> Mark"
  proof -
    from turn_same_marks[OF turn that] obtain th' where
      th': "threads ?d' = (threads ?d)[t := th']" "marks th' = marks (threads ?d ! t)" "completed ?d' = completed ?d"
      and st: "th_step th' = ?s \<and> \<not> asleep (threads ?d ! t) \<or> th_step th' = Suc ?s \<and> spot th' = Gate \<and> \<not> asleep th'"
      by (auto simp: same_marks_def)
    have "th_step th' \<le> T" using st s by auto
    moreover have "th_step th' = T \<Longrightarrow> spot th' = Gate \<and> \<not> asleep th'" using st s by auto
    ultimately show ?thesis using counts_ok_same[OF ok th'] th'(1) by simp
  qed
  have mark: "counts_ok j T ?d' \<and> length (threads ?d') = length (threads ?d) \<and> low ?d \<le> low ?d'"
    if m: "spot (threads ?d ! t) = Mark"
  proof -
    let ?th' = "(threads ?d ! t)\<lparr>spot := if fst (mark_done j ?d ?s) \<and> j_all j then Signal else Full\<rparr>"
    have d': "?d' = put t ?th' (snd (mark_done j ?d ?s))" using turn m by (cases rule: turnE) simp_all
    note M = mark_effect[OF ok t m refl s _ _ d']
    have "length (threads ?d') = length (threads ?d)" by (simp add: d' put_def mark_done_def Let_def)
    then show ?thesis using M by (auto split: if_splits)
  qed
  show "counts_ok j T ?d' \<and> length (threads ?d') = length (threads ?d) \<and> low ?d \<le> low ?d'"
    using same mark by (cases "spot (threads ?d ! t) = Mark") auto
  show "spot (threads ?d ! t) \<noteq> Mark \<Longrightarrow> low ?d' = low ?d" using same by simp
qed

section \<open>Sleepers, the window and the signals\<close>

text \<open>A sleeper has something to wait for: nobody sleeps through the last broadcast that concerns it.\<close>

definition sleepers_ok :: "replay_job \<Rightarrow> driver \<Rightarrow> bool" where
  "sleepers_ok j d \<longleftrightarrow> (\<forall>t<length (threads d). asleep (threads d ! t) \<longrightarrow>
     (case spot (threads d ! t) of
        Gate \<Rightarrow> low d + unat (j_window j) < th_step (threads d ! t)
      | Full \<Rightarrow> t = 0 \<and> low d \<le> th_step (threads d ! t)
      | _ \<Rightarrow> False))"

text \<open>A thread past the gate is at most \<open>window\<close> steps ahead of the slowest; only thread 0 emits, and only a full step.\<close>

definition window_ok :: "replay_job \<Rightarrow> driver \<Rightarrow> bool" where
  "window_ok j d \<longleftrightarrow> (\<forall>t<length (threads d).
     (spot (threads d ! t) \<noteq> Gate \<longrightarrow> th_step (threads d ! t) \<le> low d + unat (j_window j))
     \<and> (spot (threads d ! t) = Emit \<longrightarrow> t = 0 \<and> th_step (threads d ! t) < low d))"

text \<open>Who has announced what: thread 0 as it starts a step, or the last to complete it.\<close>

definition signalling :: "driver \<Rightarrow> nat \<Rightarrow> bool" where
  "signalling d t \<longleftrightarrow> t < length (threads d) \<and> spot (threads d ! t) = Signal"

definition announced_upto :: "replay_job \<Rightarrow> driver \<Rightarrow> nat" where
  "announced_upto j d =
     (if j_all j then low d - (if \<exists>t. signalling d t then 1 else 0)
      else th_step (threads d ! 0) + (if spot (threads d ! 0) \<in> {Gate, Announce} then 0 else 1))"

definition signals_ok :: "replay_job \<Rightarrow> nat \<Rightarrow> driver \<Rightarrow> bool" where
  "signals_ok j n d \<longleftrightarrow> notify_count d = (if j_all j then word_of_nat (low d) else 0)
     \<and> (\<forall>t. signalling d t \<longrightarrow> j_all j \<and> low d = Suc (th_step (threads d ! t)))
     \<and> (\<forall>t u. signalling d t \<longrightarrow> signalling d u \<longrightarrow> t = u)
     \<and> announced d = map (\<lambda>s. s mod n) [0..<announced_upto j d]"

lemma turn_others:
  assumes turn: "turn j ws now w t = Some (Inr w')" and u: "u \<noteq> t" "u < length (threads (drv w))"
  shows "threads (drv w') ! u = threads (drv w) ! u \<and> (spot (threads (drv w) ! t) \<noteq> Mark \<or> \<not> fst (mark_done j (drv w) (th_step (threads (drv w) ! t))))
    \<or> threads (drv w') ! u = (threads (drv w) ! u)\<lparr>asleep := False\<rparr>"
  using turn u by (cases rule: turnE) (auto simp: put_def access_def mark_done_def Let_def)

lemma turn_sleepers:
  assumes turn: "turn j ws now w t = Some (Inr w')" and t: "t < length (threads (drv w))"
    and ok: "counts_ok j T (drv w)" "sleepers_ok j (drv w)" and T: "T = total_steps j (reg (pager w))"
  shows "sleepers_ok j (drv w')"
  unfolding sleepers_ok_def
proof (intro allI impI)
  let ?d = "drv w" and ?d' = "drv w'" and ?th = "threads (drv w) ! t"
  note C = turn_counts[OF turn t ok(1) T]
  have s: "th_step ?th < T" "\<not> asleep ?th" using turn_active[OF turn] T by simp_all
  fix u assume u: "u < length (threads ?d')" "asleep (threads ?d' ! u)"
  show "case spot (threads ?d' ! u) of
        Gate \<Rightarrow> low ?d' + unat (j_window j) < th_step (threads ?d' ! u)
      | Full \<Rightarrow> u = 0 \<and> low ?d' \<le> th_step (threads ?d' ! u) | _ \<Rightarrow> False"
  proof (cases "u = t")
    case True
    have "spot ?th \<noteq> Mark" using turn u(2) s(2) True t
      by (cases rule: turnE) (auto simp: put_def mark_done_def Let_def)
    then have l: "low ?d' = low ?d" using C(2) by simp
    show ?thesis unfolding l using turn u(2) s(2) True t gate_iff[OF ok(1) s(1)] full_iff[OF ok(1) s(1)]
      by (cases rule: turnE) (auto simp: put_def access_def next_step_def mark_done_def Let_def)
  next
    case False
    have n: "u < length (threads ?d)" using u(1) C(1) by simp
    from turn_others[OF turn False n] u(2) have same: "threads ?d' ! u = threads ?d ! u"
      and m: "spot ?th \<noteq> Mark \<or> \<not> fst (mark_done j ?d (th_step ?th))" by auto
    have l: "low ?d' = low ?d"
    proof (cases "spot ?th = Mark")
      case True
      then have nf: "\<not> fst (mark_done j ?d (th_step ?th))" using m by simp
      let ?th' = "?th\<lparr>spot := Full\<rparr>"
      have d': "?d' = put t ?th' (snd (mark_done j ?d (th_step ?th)))" using turn True nf by (cases rule: turnE) simp_all
      show ?thesis using mark_effect[OF ok(1) t True refl s(1) _ _ d'] nf by (auto split: if_splits)
    qed (use C(2) in simp)
    show ?thesis unfolding l same using ok(2)[unfolded sleepers_ok_def] n u(2)[unfolded same] by blast
  qed
qed

lemma turn_window:
  assumes turn: "turn j ws now w t = Some (Inr w')" and t: "t < length (threads (drv w))"
    and ok: "counts_ok j T (drv w)" "window_ok j (drv w)" and T: "T = total_steps j (reg (pager w))"
  shows "window_ok j (drv w')"
  unfolding window_ok_def
proof (intro allI impI)
  let ?d = "drv w" and ?d' = "drv w'" and ?th = "threads (drv w) ! t"
  note C = turn_counts[OF turn t ok(1) T]
  have s: "th_step ?th < T" using turn_active[OF turn] T by simp
  fix u assume u: "u < length (threads ?d')"
  have n: "u < length (threads ?d)" using u C(1) by simp
  note W = ok(2)[unfolded window_ok_def, rule_format, OF n]
  show "(spot (threads ?d' ! u) \<noteq> Gate \<longrightarrow> th_step (threads ?d' ! u) \<le> low ?d' + unat (j_window j))
    \<and> (spot (threads ?d' ! u) = Emit \<longrightarrow> u = 0 \<and> th_step (threads ?d' ! u) < low ?d')"
  proof (cases "u = t")
    case False
    then have "spot (threads ?d' ! u) = spot (threads ?d ! u)" "th_step (threads ?d' ! u) = th_step (threads ?d ! u)"
      using turn_others[OF turn False n] by auto
    then show ?thesis using W C(1) by auto
  next
    case True
    have le: "low ?d \<le> low ?d'" using C(1) by simp
    show ?thesis using turn True t W le gate_iff[OF ok(1) s] full_iff[OF ok(1) s]
      by (cases rule: turnE) (auto simp: put_def access_def next_step_def mark_done_def Let_def)
  qed
qed

lemma announced_upto_same:
  assumes "low d' = low d" "length (threads d') = length (threads d)"
    and "\<And>u. signalling d' u = signalling d u"
    and "th_step (threads d' ! 0) = th_step (threads d ! 0)"
    and "spot (threads d' ! 0) \<in> {Gate, Announce} \<longleftrightarrow> spot (threads d ! 0) \<in> {Gate, Announce}"
  shows "announced_upto j d' = announced_upto j d"
  unfolding announced_upto_def assms by (simp add: assms)

lemma mark_signals:
  assumes turn: "turn j ws now w t = Some (Inr w')" and t: "t < length (threads (drv w))"
    and ok: "counts_ok j T (drv w)" "signals_ok j (n_chunks (reg (pager w))) (drv w)" and T: "T = total_steps j (reg (pager w))"
    and m: "spot (threads (drv w) ! t) = Mark"
  shows "signals_ok j (n_chunks (reg (pager w))) (drv w')"
proof -
  note True = m
  let ?d = "drv w" and ?d' = "drv w'" and ?s = "th_step (threads (drv w) ! t)" and ?n = "n_chunks (reg (pager w))"
  let ?p = "if fst (mark_done j ?d ?s) \<and> j_all j then Signal else Full"
  have d': "?d' = put t ((threads ?d ! t)\<lparr>spot := ?p\<rparr>) (snd (mark_done j ?d ?s))"
    using turn True by (cases rule: turnE) simp_all
  have s: "?s < T" using turn_active[OF turn] T by simp
  note M = mark_effect[OF ok(1) t True refl s _ _ d']
  have low': "low ?d' = (if fst (mark_done j ?d ?s) then Suc ?s else low ?d)" "fst (mark_done j ?d ?s) \<Longrightarrow> low ?d = ?s"
    using M by (auto split: if_splits)
  have sig: "signalling ?d' u \<longleftrightarrow> (if u = t then ?p = Signal else signalling ?d u)" for u
    using t by (auto simp: signalling_def d' put_def mark_done_def Let_def nth_list_update)
  have none: "\<not> signalling ?d u" if f: "fst (mark_done j ?d ?s)" for u
  proof
    assume u: "signalling ?d u"
    then have l: "low ?d = Suc (th_step (threads ?d ! u))" and nt: "u \<noteq> t" using ok(2) True by (auto simp: signals_ok_def signalling_def)
    have "marks (threads ?d' ! u) = marks (threads ?d ! u)" using turn_others[OF turn nt] u by (auto simp: signalling_def)
    also have "\<dots> = low ?d" using u l by (simp add: marks_def signalling_def)
    finally have "marks (threads ?d' ! u) = ?s" using low'(2)[OF f] by simp
    moreover have "u < length (threads ?d')" using u by (simp add: signalling_def d' put_def mark_done_def Let_def)
    ultimately have "low ?d' \<le> ?s" using low_le[of "threads ?d' ! u" ?d'] by simp
    then show False using low'(1) f by simp
  qed
  have nc: "notify_count ?d' = (if fst (mark_done j ?d ?s) \<and> j_all j then notify_count ?d + 1 else notify_count ?d)"
    "announced ?d' = announced ?d" by (simp_all add: d' put_def mark_done_def Let_def)
  have z: "\<not> j_all j \<Longrightarrow> th_step (threads ?d' ! 0) = th_step (threads ?d ! 0) \<and>
      (spot (threads ?d' ! 0) \<in> {Gate, Announce} \<longleftrightarrow> spot (threads ?d ! 0) \<in> {Gate, Announce})"
  proof (cases "t = 0")
    case False
    have "0 < length (threads ?d)" using t by auto
    then show ?thesis using turn_others[OF turn, of 0] False by auto
  qed (use True t in \<open>simp add: d' put_def mark_done_def Let_def\<close>)
  show ?thesis
  proof (cases "fst (mark_done j ?d ?s)")
    case f: True
    have "announced_upto j ?d' = announced_upto j ?d"
      using sig none[OF f] low' f z by (auto simp: announced_upto_def)
    then have "announced ?d' = map (\<lambda>s. s mod ?n) [0..<announced_upto j ?d']" using ok(2) nc(2) by (simp add: signals_ok_def)
    moreover have "th_step (threads ?d' ! t) = ?s" using t by (simp add: d' put_def mark_done_def Let_def)
    moreover have "notify_count ?d' = (if j_all j then word_of_nat (low ?d') else 0)"
      using ok(2) nc(1) low' f by (simp add: signals_ok_def)
    moreover have "signalling ?d' u \<longleftrightarrow> u = t \<and> j_all j" for u using sig[of u] none[OF f] f by simp
    moreover have "low ?d' = Suc ?s" using low'(1) f by simp
    ultimately show ?thesis by (simp add: signals_ok_def)
  next
    case False
    then have sg: "signalling ?d' u = signalling ?d u" for u using sig True by (auto simp: signalling_def)
    have "announced_upto j ?d' = announced_upto j ?d"
      using sg low' False z by (auto simp: announced_upto_def)
    moreover have "th_step (threads ?d' ! u) = th_step (threads ?d ! u)" if "signalling ?d u" for u
      using that True t by (auto simp: d' put_def mark_done_def Let_def nth_list_update signalling_def)
    ultimately show ?thesis using ok(2) low' False sg nc by (auto simp: signals_ok_def)
  qed
qed

lemma quiet_signals:
  assumes turn: "turn j ws now w t = Some (Inr w')" and t: "t < length (threads (drv w))"
    and ok: "counts_ok j T (drv w)" "signals_ok j (n_chunks (reg (pager w))) (drv w)" and T: "T = total_steps j (reg (pager w))"
    and m: "spot (threads (drv w) ! t) \<noteq> Mark"
  shows "signals_ok j (n_chunks (reg (pager w))) (drv w')"
proof -
  note False = m
  let ?d = "drv w" and ?d' = "drv w'" and ?n = "n_chunks (reg (pager w))"
  note nm = False
  have l: "low ?d' = low ?d" by (rule turn_counts(2)[OF turn t ok(1) T False])
  have nc: "notify_count ?d' = notify_count ?d" using turn_same_marks[OF turn False] by (auto simp: same_marks_def)
  have sg: "signalling ?d' u \<longleftrightarrow> u \<noteq> t \<and> signalling ?d u" for u
    using turn False t by (cases rule: turnE)
      (auto simp: signalling_def put_def access_def next_step_def nth_list_update)
  have st: "th_step (threads ?d' ! u) = th_step (threads ?d ! u)" if "signalling ?d' u" for u
  proof -
    from that sg[of u] have "u \<noteq> t" "u < length (threads ?d)" by (simp_all add: signalling_def[of ?d])
    from turn_others[OF turn this] show ?thesis by auto
  qed
  have up: "announced ?d' = map (\<lambda>s. s mod ?n) [0..<announced_upto j ?d']"
  proof (cases "spot (threads ?d ! t) = Signal")
    case True
    then have at: "signalling ?d t" using t by (simp add: signalling_def)
    then have S: "j_all j" "low ?d = Suc (th_step (threads ?d ! t))" "\<And>u. signalling ?d u \<Longrightarrow> u = t"
      using ok(2) unfolding signals_ok_def by blast+
    have "announced ?d' = announced ?d @ [th_step (threads ?d ! t) mod ?n]"
      using turn True by (cases rule: turnE) (simp_all add: access_def put_def)
    moreover have "\<exists>u. signalling ?d u" using at by blast
    then have "announced_upto j ?d = th_step (threads ?d ! t)" unfolding announced_upto_def S(2) using S(1) by simp
    moreover have "\<not> signalling ?d' u" for u using sg[of u] S(3)[of u] by blast
    then have "announced_upto j ?d' = Suc (th_step (threads ?d ! t))" unfolding announced_upto_def l S(2) using S(1) by simp
    ultimately show ?thesis using ok(2) by (simp add: signals_ok_def)
  next
    case ns: False
    then have sg': "signalling ?d' u \<longleftrightarrow> signalling ?d u" for u using sg by (auto simp: signalling_def)
    show ?thesis
    proof (cases "j_all j")
      case True
      have "announced ?d' = announced ?d" using turn ns True nm by (cases rule: turnE) (simp_all add: put_def)
      moreover have "announced_upto j ?d' = announced_upto j ?d" by (simp only: announced_upto_def l sg' True if_True)
      ultimately show ?thesis using ok(2) by (simp add: signals_ok_def)
    next
      case na: False
      show ?thesis
      proof (cases "t = 0")
        case True
        have a: "announced ?d = map (\<lambda>s. s mod ?n) [0..<th_step (threads ?d ! t) + (if spot (threads ?d ! t) \<in> {Gate, Announce} then 0 else 1)]"
          using ok(2) na True by (simp add: signals_ok_def announced_upto_def)
        have up: "announced_upto j ?d' = th_step (threads ?d' ! t) + (if spot (threads ?d' ! t) \<in> {Gate, Announce} then 0 else 1)"
          using na True by (simp add: announced_upto_def)
        have "announced ?d' = (if spot (threads ?d ! t) = Announce then announced ?d @ [th_step (threads ?d ! t) mod ?n] else announced ?d)"
          using turn ns nm na True by (cases rule: turnE) (simp_all add: put_def access_def)
        moreover have "th_step (threads ?d' ! t) + (if spot (threads ?d' ! t) \<in> {Gate, Announce} then 0 else 1)
          = th_step (threads ?d ! t) + (if spot (threads ?d ! t) \<in> {Gate, Announce} then 0 else 1)
            + (if spot (threads ?d ! t) = Announce then 1 else 0)"
          using turn ns nm t by (cases rule: turnE) (simp_all add: put_def access_def next_step_def)
        ultimately show ?thesis unfolding up a by (cases "spot (threads ?d ! t) = Announce") simp_all
      next
        case tn: False
        have "announced ?d' = announced ?d" using turn ns tn na nm by (cases rule: turnE) (simp_all add: put_def)
        moreover have "0 \<noteq> t" "0 < length (threads ?d)" using tn t by linarith+
        from turn_others[OF turn this]
        have "threads ?d' ! 0 = threads ?d ! 0 \<or> threads ?d' ! 0 = (threads ?d ! 0)\<lparr>asleep := False\<rparr>" by auto
        ultimately show ?thesis using ok(2) na by (auto simp: signals_ok_def announced_upto_def)
      qed
    qed
  qed
  have S: "notify_count ?d = (if j_all j then word_of_nat (low ?d) else 0)"
    "signalling ?d u \<Longrightarrow> j_all j \<and> low ?d = Suc (th_step (threads ?d ! u))"
    "signalling ?d u \<Longrightarrow> signalling ?d v \<Longrightarrow> u = v" for u v
    using ok(2) unfolding signals_ok_def by blast+
  have "j_all j \<and> low ?d' = Suc (th_step (threads ?d' ! u))" if "signalling ?d' u" for u
    using S(2)[of u] that unfolding st[OF that] l sg by blast
  then show ?thesis using up S(1,3) unfolding signals_ok_def l nc sg by blast
qed

lemma turn_signals:
  assumes turn: "turn j ws now w t = Some (Inr w')" and t: "t < length (threads (drv w))"
    and ok: "counts_ok j T (drv w)" "signals_ok j (n_chunks (reg (pager w))) (drv w)" and T: "T = total_steps j (reg (pager w))"
  shows "signals_ok j (n_chunks (reg (pager w))) (drv w')"
  using mark_signals[OF assms] quiet_signals[OF assms] by blast

end
