(* ===== verification/Driver_Runs.thy ===== *)
theory Driver_Runs
  imports Lookahead
begin

text \<open>
  Every run of the driver of \<open>Lookahead\<close>: what it has emitted and read at any moment, that it stays
  within its window, cannot get stuck, ends, and ends with what \<^verbatim>\<open>replay_cyclic\<close> computes.
\<close>

section \<open>What has been emitted\<close>

definition steps_upto :: "nat \<Rightarrow> nat \<Rightarrow> nat list" where
  "steps_upto n e = map (\<lambda>s. s mod n) [0..<e]"

definition emitted_ok :: "region \<Rightarrow> trace option \<Rightarrow> driver \<Rightarrow> bool" where
  "emitted_ok r tr0 d \<longleftrightarrow>
     touched d = sum_list (map (\<lambda>i. len (chunk_at r i)) (steps_upto (n_chunks r) (th_step (threads d ! 0))))
     \<and> (case tr0 of
          None \<Rightarrow> dr_trace d = None \<and> dr_seq d = 0
        | Some t \<Rightarrow> dr_seq d = word_of_nat (th_step (threads d ! 0))
            \<and> (\<exists>t' recs. dr_trace d = Some t' \<and> reference_records 0 (steps_upto (n_chunks r) (th_step (threads d ! 0))) recs
                 \<and> trace_file t' = trace_file t @ concat (map record_bytes recs)))"

lemma turn_emits_nothing:
  assumes turn: "turn j ws now w t = Some (Inr w')" and t: "t < length (threads (drv w))"
    and e: "spot (threads (drv w) ! t) \<noteq> Emit"
  shows "touched (drv w') = touched (drv w) \<and> dr_trace (drv w') = dr_trace (drv w) \<and> dr_seq (drv w') = dr_seq (drv w)
    \<and> th_step (threads (drv w') ! 0) = th_step (threads (drv w) ! 0)"
proof -
  have "touched (drv w') = touched (drv w) \<and> dr_trace (drv w') = dr_trace (drv w) \<and> dr_seq (drv w') = dr_seq (drv w)"
    using turn e by (cases rule: turnE) (simp_all add: put_def access_def mark_done_def Let_def)
  moreover have "th_step (threads (drv w') ! 0) = th_step (threads (drv w) ! 0)"
  proof (cases "t = 0")
    case True
    then show ?thesis using turn e t
      by (cases "spot (threads (drv w) ! t)"; cases rule: turnE[OF turn]) (auto simp: put_def access_def mark_done_def Let_def)
  next
    case False
    then have "0 \<noteq> t" "0 < length (threads (drv w))" using t by linarith+
    from turn_others[OF turn this] show ?thesis by auto
  qed
  ultimately show ?thesis by blast
qed

lemma turn_emitted:
  assumes turn: "turn j ws now w t = Some (Inr w')" and t: "t < length (threads (drv w))"
    and ok: "window_ok j (drv w)" "emitted_ok r tr0 (drv w)" and b: "backing (reg (pager w)) = backing r" and n: "0 < n_chunks r"
  shows "emitted_ok r tr0 (drv w')"
proof (cases "spot (threads (drv w) ! t) = Emit")
  case False
  note E = turn_emits_nothing[OF turn t this]
  have "touched (drv w') = touched (drv w)" "dr_trace (drv w') = dr_trace (drv w)" "dr_seq (drv w') = dr_seq (drv w)"
    "th_step (threads (drv w') ! 0) = th_step (threads (drv w) ! 0)" using E by simp_all
  then show ?thesis using ok(2) by (simp only: emitted_ok_def)
next
  case True
  let ?d = "drv w" and ?d' = "drv w'" and ?s = "th_step (threads (drv w) ! 0)"
  have z: "t = 0" using ok(1) t True by (simp add: window_ok_def)
  let ?i = "?s mod n_chunks r"
  have i: "?i < n_chunks r" using n by simp
  have l: "len (chunk_at (reg (pager w)) ?i) = len (chunk_at r ?i)" by (rule backing_chunks(3)[OF b i])
  have nr: "n_chunks (reg (pager w)) = n_chunks r" by (rule backing_chunks(1)[OF b])
  have st: "th_step (threads ?d' ! 0) = Suc ?s"
    using turn True t z by (cases rule: turnE) (simp_all add: put_def next_step_def)
  have tc: "touched ?d' = touched ?d + len (chunk_at r ?i)"
    using turn True z l nr by (cases rule: turnE) (simp_all add: put_def)
  have up: "steps_upto (n_chunks r) (Suc ?s) = steps_upto (n_chunks r) ?s @ [?i]" by (simp add: steps_upto_def)
  show ?thesis
  proof (cases tr0)
    case None
    then have "dr_trace ?d = None" using ok(2) by (simp add: emitted_ok_def)
    have "dr_trace ?d' = None \<and> dr_seq ?d' = dr_seq ?d"
      using turn True \<open>dr_trace ?d = None\<close> by (cases rule: turnE) (simp_all add: put_def)
    then show ?thesis using ok(2) None tc by (simp add: emitted_ok_def st up)
  next
    case (Some t0)
    then obtain tr recs where tr: "dr_trace ?d = Some tr" "reference_records 0 (steps_upto (n_chunks r) ?s) recs"
      "trace_file tr = trace_file t0 @ concat (map record_bytes recs)" "dr_seq ?d = word_of_nat ?s"
      using ok(2) by (auto simp: emitted_ok_def)
    obtain tr' where c: "trace_record_call ws now tr (dr_seq ?d + 1) (word_of_nat ?i) TRACE_NA TRACE_NA = Inr tr'"
      and d': "dr_trace ?d' = Some tr'" "dr_seq ?d' = dr_seq ?d + 1"
    proof -
      from turn show thesis
      proof (cases rule: turnE)
        case (emit_traced tr0 tr')
        then have "tr0 = tr" using tr(1) by simp
        then show thesis using emit_traced that z nr by (simp add: put_def)
      qed (use True tr(1) in simp_all)
    qed
    let ?rec = "\<lparr>tr_seq = dr_seq ?d + 1, timestamp_ns = now, chunk_id = word_of_nat ?i, fault_type = TRACE_NA,
        was_prefetched = TRACE_NA\<rparr>"
    have "reference_records (word_of_nat ?s) [?i] [?rec]" by (simp add: reference_records_def tr(4))
    then have "reference_records 0 (steps_upto (n_chunks r) ?s @ [?i]) (recs @ [?rec])"
      using reference_records_append[OF tr(2), of "[?i]" "[?rec]"] by (simp add: steps_upto_def)
    moreover have "trace_file tr' = trace_file t0 @ concat (map record_bytes (recs @ [?rec]))"
      using trace_record_file[OF c] tr(3) by simp
    ultimately show ?thesis using ok(2) Some tc d' tr(4) unfolding emitted_ok_def st up
      by (auto simp: of_nat_Suc intro!: exI[of _ "recs @ [?rec]"])
  qed
qed

section \<open>What has been read\<close>

text \<open>
  What thread \<open>t\<close> of \<open>N\<close> adds to the sink at step \<open>s\<close> from page \<open>k\<close> on, and all that a thread has still to add
  in a run of \<open>T\<close> steps.
\<close>

definition share :: "region \<Rightarrow> nat \<Rightarrow> nat \<Rightarrow> nat \<Rightarrow> nat \<Rightarrow> u64" where
  "share r N t s k = (\<Sum>p\<in>{k..<pages (len (chunk_at r (s mod n_chunks r)))}.
     if p mod N = t then page_value r (s mod n_chunks r) p else 0)"

fun next_page :: "spot \<Rightarrow> nat option" where
  "next_page Gate = Some 0"
| "next_page Announce = Some 0"
| "next_page (Page off k) = Some k"
| "next_page _ = None"

definition owed :: "region \<Rightarrow> nat \<Rightarrow> nat \<Rightarrow> nat \<Rightarrow> thread \<Rightarrow> u64" where
  "owed r T N t th =
     (if th_step th < T then (case next_page (spot th) of None \<Rightarrow> 0 | Some k \<Rightarrow> share r N t (th_step th) k) else 0)
     + (\<Sum>s\<in>{Suc (th_step th)..<T}. share r N t s 0)"

definition pages_ok :: "driver \<Rightarrow> bool" where
  "pages_ok d \<longleftrightarrow> (\<forall>th\<in>set (threads d). \<forall>off k. spot th = Page off k \<longrightarrow> off = 4096 * k)"

definition owed_all :: "region \<Rightarrow> nat \<Rightarrow> driver \<Rightarrow> u64" where
  "owed_all r T d = (\<Sum>t<length (threads d). owed r T (length (threads d)) t (threads d ! t))"

lemma share_step:
  assumes "k < pages (len (chunk_at r (s mod n_chunks r)))"
  shows "share r N t s k = (if k mod N = t then page_value r (s mod n_chunks r) k else 0) + share r N t s (Suc k)"
  using assms by (simp add: share_def sum.atLeast_Suc_lessThan)

lemma share_end: "pages (len (chunk_at r (s mod n_chunks r))) \<le> k \<Longrightarrow> share r N t s k = 0"
  by (simp add: share_def)

lemma owed_next:
  "th_step th < T \<Longrightarrow> next_page (spot th) = None \<Longrightarrow> owed r T N t (next_step th) = owed r T N t th"
  by (cases "Suc (th_step th) < T") (simp_all add: owed_def next_step_def sum.atLeast_Suc_lessThan)

lemma owed_at: "th_step th' = th_step th \<Longrightarrow> next_page (spot th') = next_page (spot th) \<Longrightarrow> owed r T N t th' = owed r T N t th"
  by (simp only: owed_def)

lemma sum_list_update:
  fixes f :: "nat \<Rightarrow> 'a \<Rightarrow> u64"
  assumes "t < length xs"
  shows "(\<Sum>u<length xs. f u (xs[t := x] ! u)) = (\<Sum>u<length xs. f u (xs ! u)) - f t (xs ! t) + f t x"
proof -
  have "(\<Sum>u<length xs. g u) = g t + (\<Sum>u\<in>{..<length xs} - {t}. g u)" for g :: "nat \<Rightarrow> u64"
    using assms by (intro sum.remove) simp_all
  moreover have "(\<Sum>u\<in>{..<length xs} - {t}. f u (xs[t := x] ! u)) = (\<Sum>u\<in>{..<length xs} - {t}. f u (xs ! u))"
    by (intro sum.cong) auto
  ultimately show ?thesis using assms by simp
qed

text \<open>Every page is read by exactly one thread.\<close>

lemma shares_cover:
  assumes "0 < N"
  shows "(\<Sum>t<N. share r N t s 0) = chunk_sum r (s mod n_chunks r)"
proof -
  let ?f = "page_value r (s mod n_chunks r)" and ?P = "pages (len (chunk_at r (s mod n_chunks r)))"
  have "(\<Sum>t<N. share r N t s 0) = (\<Sum>p<?P. \<Sum>t<N. if p mod N = t then ?f p else 0)"
    unfolding share_def by (subst sum.swap) (simp add: atLeast0LessThan)
  also have "\<dots> = (\<Sum>p<?P. ?f p)" using assms by (intro sum.cong refl) (simp add: sum.delta')
  finally show ?thesis by (simp add: chunk_sum_def)
qed

lemma owed_all_update:
  assumes "threads d' = (threads d)[t := th']" "t < length (threads d)"
  shows "owed_all r T d' = owed_all r T d - owed r T (length (threads d)) t (threads d ! t) + owed r T (length (threads d)) t th'"
  using sum_list_update[OF assms(2), of "owed r T (length (threads d))" th'] by (simp add: owed_all_def assms(1))

lemma turn_quiet_owed:
  assumes turn: "turn j ws now w t = Some (Inr w')" and t: "t < length (threads (drv w))"
    and ok: "pages_ok (drv w)" and b: "backing (reg (pager w)) = backing r" and n: "0 < n_chunks r"
    and N: "N = unat (j_threads j)" and T: "T = total_steps j (reg (pager w))"
    and q: "spot (threads (drv w) ! t) \<noteq> Mark"
  shows "\<exists>th'. threads (drv w') = (threads (drv w))[t := th'] \<and> (\<forall>off k. spot th' = Page off k \<longrightarrow> off = 4096 * k)
    \<and> (sink (drv w') = sink (drv w) \<and> owed r T N t th' = owed r T N t (threads (drv w) ! t)
       \<or> (\<exists>k v. visible (pager w) (unat (region_off (chunk_at r (th_step (threads (drv w) ! t) mod n_chunks r))) + 4096 * k) = Some v
            \<and> k < pages (len (chunk_at r (th_step (threads (drv w) ! t) mod n_chunks r)))
            \<and> sink (drv w') = sink (drv w) + ucast v
            \<and> owed r T N t (threads (drv w) ! t)
                = page_value r (th_step (threads (drv w) ! t) mod n_chunks r) k + owed r T N t th'))"
proof -
  let ?d = "drv w" and ?th = "threads (drv w) ! t"
  let ?i = "th_step ?th mod n_chunks r"
  have i: "?i < n_chunks r" using n by simp
  note nr = backing_chunks(1)[OF b] and geo = backing_chunks(3,4)[OF b i]
  have s: "th_step ?th < T" using turn_active[OF turn] T by simp
  have pg: "off = 4096 * k" if "spot ?th = Page off k" for off k using ok nth_mem[OF t] that unfolding pages_ok_def by blast
  from turn show ?thesis
  proof (cases rule: turnE)
    case gate
    then show ?thesis by (intro exI[of _ "?th\<lparr>spot := Announce\<rparr>"]) (simp add: put_def owed_def)
  next
    case gate_sleep
    then show ?thesis by (intro exI[of _ "?th\<lparr>asleep := True\<rparr>"]) (simp add: put_def owed_def)
  next
    case announce
    then show ?thesis by (intro exI[of _ "?th\<lparr>spot := Page 0 0, my_bytes := 0\<rparr>"]) (simp add: put_def access_def owed_def)
  next
    case silent
    then show ?thesis by (intro exI[of _ "?th\<lparr>spot := Page 0 0, my_bytes := 0\<rparr>"]) (simp add: put_def owed_def)
  next
    case (pages_done off k)
    then have "pages (len (chunk_at r ?i)) \<le> k" using pages_less[of k "len (chunk_at r ?i)"] pg geo nr by simp
    then show ?thesis using pages_done share_end
      by (intro exI[of _ "?th\<lparr>spot := Mark\<rparr>"]) (simp add: put_def owed_def)
  next
    case (skip off k)
    then have "k < pages (len (chunk_at r ?i))" using pages_less[of k "len (chunk_at r ?i)"] pg geo nr by simp
    from share_step[OF this, of N t] show ?thesis using skip pg N
      by (intro exI[of _ "?th\<lparr>spot := Page (off + 4096) (k + 1)\<rparr>"]) (simp add: put_def owed_def)
  next
    case (read off k v bs)
    then have k: "k < pages (len (chunk_at r ?i))" using pages_less[of k "len (chunk_at r ?i)"] pg geo nr by simp
    have o: "off = 4096 * k" using pg read by simp
    let ?th' = "?th\<lparr>spot := Page (off + 4096) (k + 1), my_bytes := bs\<rparr>"
    have "owed r T N t ?th = page_value r ?i k + owed r T N t ?th'"
      using share_step[OF k, of N t] read(1,3) s N by (simp add: owed_def add.assoc)
    moreover have "visible (pager w) (unat (region_off (chunk_at r ?i)) + 4096 * k) = Some v"
      using read(4) geo nr o by simp
    ultimately show ?thesis using read(5) k o by (intro exI[of _ ?th'] conjI disjI2) (auto simp: put_def)
  next
    case mark
    then show ?thesis using q by simp
  next
    case signal
    then show ?thesis by (intro exI[of _ "?th\<lparr>spot := Full\<rparr>"]) (simp add: put_def access_def owed_def)
  next
    case leave
    then show ?thesis using owed_next[OF s, of r N t]
      by (intro exI[of _ "next_step ?th"]) (simp add: put_def, simp add: next_step_def)
  next
    case full_sleep
    then show ?thesis by (intro exI[of _ "?th\<lparr>asleep := True\<rparr>"]) (simp add: put_def owed_def)
  next
    case full
    then show ?thesis by (intro exI[of _ "?th\<lparr>spot := Emit\<rparr>"]) (simp add: put_def owed_def)
  next
    case emit
    then show ?thesis using owed_next[OF s, of r N t]
      by (intro exI[of _ "next_step ?th"]) (simp add: put_def, simp add: next_step_def)
  next
    case (emit_traced tr tr')
    then show ?thesis using owed_next[OF s, of r N t]
      by (intro exI[of _ "next_step ?th"]) (simp add: put_def, simp add: next_step_def)
  qed
qed

lemma turn_sink:
  assumes turn: "turn j ws now w t = Some (Inr w')" and t: "t < length (threads (drv w))"
    and ok: "counts_ok j T (drv w)" "pages_ok (drv w)" and b: "backing (reg (pager w)) = backing r" and n: "0 < n_chunks r"
    and T: "T = total_steps j (reg (pager w))" and g: "geometry_ok r"
    and mem: "\<And>a v. a < unat (region_len r) \<Longrightarrow> visible (pager w) a = Some v \<Longrightarrow> v = model_byte r a"
  shows "sink (drv w') + owed_all r T (drv w') = sink (drv w) + owed_all r T (drv w) \<and> pages_ok (drv w')"
proof (cases "spot (threads (drv w) ! t) = Mark")
  case True
  let ?d = "drv w" and ?d' = "drv w'"
  define ths where "ths = threads (snd (mark_done j ?d (th_step (threads ?d ! t))))"
  have ths: "length ths = length (threads ?d)"
    "u < length (threads ?d) \<Longrightarrow> th_step (ths ! u) = th_step (threads ?d ! u) \<and> spot (ths ! u) = spot (threads ?d ! u)" for u
    by (auto simp: ths_def mark_done_def Let_def)
  obtain p where d': "threads ?d' = ths[t := (threads ?d ! t)\<lparr>spot := p\<rparr>]" "past_mark p" "sink ?d' = sink ?d"
    using turn True by (cases rule: turnE) (auto simp: put_def ths_def mark_done_def Let_def)
  have "owed r T N u (threads ?d' ! u) = owed r T N u (threads ?d ! u)" if "u < length (threads ?d)" for N u
    using True that ths d' by (cases "u = t"; cases p) (auto intro!: owed_at)
  then have "owed_all r T ?d' = owed_all r T ?d" using d'(1) ths(1) by (simp add: owed_all_def)
  moreover have "pages_ok ?d'"
    unfolding pages_ok_def
  proof (intro ballI allI impI)
    fix th off k assume th: "th \<in> set (threads ?d')" "spot th = Page off k"
    then obtain u where u: "u < length (threads ?d)" "th = threads ?d' ! u" using d'(1) ths(1) by (auto simp: in_set_conv_nth)
    then have "u \<noteq> t" using th(2) d'(1,2) ths(1) by (cases "u = t") auto
    then have "spot (threads ?d ! u) = Page off k" using th(2) u ths d'(1) by simp
    then show "off = 4096 * k" using ok(2) nth_mem[OF u(1)] unfolding pages_ok_def by blast
  qed
  ultimately show ?thesis using d'(3) by simp
next
  case False
  let ?d = "drv w" and ?d' = "drv w'" and ?th = "threads (drv w) ! t"
  let ?i = "th_step ?th mod n_chunks r"
  have N: "length (threads ?d) = unat (j_threads j)" using ok(1) by (simp add: counts_ok_def)
  from turn_quiet_owed[OF turn t ok(2) b n N T False] obtain th' where
    th': "threads ?d' = (threads ?d)[t := th']" "\<forall>off k. spot th' = Page off k \<longrightarrow> off = 4096 * k"
    and cases: "sink ?d' = sink ?d \<and> owed r T (length (threads ?d)) t th' = owed r T (length (threads ?d)) t ?th
       \<or> (\<exists>k v. visible (pager w) (unat (region_off (chunk_at r ?i)) + 4096 * k) = Some v
            \<and> k < pages (len (chunk_at r ?i)) \<and> sink ?d' = sink ?d + ucast v
            \<and> owed r T (length (threads ?d)) t ?th = page_value r ?i k + owed r T (length (threads ?d)) t th')"
    by (elim exE conjE) (rule that)
  have i: "?i < n_chunks r" using n by simp
  have "sink ?d' + owed r T (length (threads ?d)) t th' = sink ?d + owed r T (length (threads ?d)) t ?th"
    using cases
  proof (elim disjE exE conjE)
    fix k v assume R: "visible (pager w) (unat (region_off (chunk_at r ?i)) + 4096 * k) = Some v"
      "k < pages (len (chunk_at r ?i))" "sink ?d' = sink ?d + ucast v"
      "owed r T (length (threads ?d)) t ?th = page_value r ?i k + owed r T (length (threads ?d)) t th'"
    have "unat (region_off (chunk_at r ?i)) + 4096 * k < unat (region_len r)"
      using chunk_bounds(3)[OF g i] pages_less[of k "len (chunk_at r ?i)"] R(2) by linarith
    from mem[OF this R(1)] show ?thesis using R(3,4) by (simp add: page_value_def)
  qed simp
  then have "sink ?d' = sink ?d + owed r T (length (threads ?d)) t ?th - owed r T (length (threads ?d)) t th'" by (simp add: eq_diff_eq)
  then have "sink ?d' + owed_all r T ?d' = sink ?d + owed_all r T ?d"
    using owed_all_update[OF th'(1) t, of r T] by simp
  moreover have "set (threads ?d') \<subseteq> insert th' (set (threads ?d))" unfolding th'(1) by (rule set_update_subset_insert)
  then have "pages_ok ?d'" using ok(2) th'(2) unfolding pages_ok_def by blast
  ultimately show ?thesis by blast
qed

lemma visible_model:
  assumes "sys_ok s C F X" "a < unat (region_len (reg s))" "visible s a = Some v"
  shows "v = model_byte (reg s) a"
proof -
  have inv: "budget_inv (reg s) C F X" using assms(1) by (simp add: sys_ok_def dispatch_inv_def)
  obtain i where i: "pager_lookup (chunks (reg s)) (word_of_nat a) = Some i" "state (chunk_at (reg s) i) = CHUNK_RESIDENT"
    "memfd (reg s) a = Some v" using assms(3) by (auto simp: visible_def split: option.splits if_splits)
  have u: "unat (word_of_nat a :: u64) = a" using assms(2) u64_bound[of "region_len (reg s)"] by (simp add: unat_of_nat)
  have c: "i < n_chunks (reg s)" "in_chunk (chunk_at (reg s) i) a"
    using i(1) pager_lookup_iff[of "chunks (reg s)" "region_len (reg s)" "word_of_nat a" i] inv u
    by (auto simp: budget_inv_def geometry_ok_def covers_def in_chunk_def)
  then have "i \<in> C" using inv i(2) by (auto simp: budget_inv_def acct_def)
  then show ?thesis using inv c(2) i(3) by (auto simp: budget_inv_def data_ok_def)
qed

lemma turn_pager:
  "turn j ws now w t = Some (Inr w') \<Longrightarrow> pager w' = pager w \<or>
     budget_free (pager w) \<and> (\<exists>i. pager w' = (pager w)\<lparr>reg := pager_notify_access (reg (pager w)) i\<rparr>)"
  by (cases rule: turnE) (auto simp: access_def)

section \<open>Every run\<close>

definition whole_ok :: "replay_job \<Rightarrow> region \<Rightarrow> u64 \<Rightarrow> trace option \<Rightarrow> whole \<Rightarrow> bool" where
  "whole_ok j r snk tr w \<longleftrightarrow> reachable (pager_start r) (pager w)
     \<and> counts_ok j (total_steps j r) (drv w) \<and> sleepers_ok j (drv w) \<and> window_ok j (drv w)
     \<and> signals_ok j (n_chunks r) (drv w) \<and> emitted_ok r tr (drv w) \<and> pages_ok (drv w)
     \<and> sink (drv w) + owed_all r (total_steps j r) (drv w) = snk + (\<Sum>s<total_steps j r. chunk_sum r (s mod n_chunks r))"

lemma setting_backing: "setting r' = setting r \<Longrightarrow> backing r' = backing r"
  by (simp add: setting_def config_part_def backing_def)

lemma reachable_backing:
  assumes "ready_to_run r" "reachable (pager_start r) s"
  shows "backing (reg s) = backing r" "total_steps j (reg s) = total_steps j r" "n_chunks (reg s) = n_chunks r"
proof -
  obtain C F X where "setting (reg s) = setting r" by (rule reachable_core[OF assms])
  then show b: "backing (reg s) = backing r" by (rule setting_backing)
  show "total_steps j (reg s) = total_steps j r" "n_chunks (reg s) = n_chunks r"
    using backing_chunks(1)[OF b] by (simp_all add: total_steps_def)
qed

lemma owed_start:
  assumes "0 < N"
  shows "(\<Sum>t<N. owed r T N t \<lparr>th_step = 0, spot = Gate, asleep = False, my_bytes = 0\<rparr>) = (\<Sum>s<T. chunk_sum r (s mod n_chunks r))"
proof -
  have "owed r T N t \<lparr>th_step = 0, spot = Gate, asleep = False, my_bytes = 0\<rparr> = (\<Sum>s<T. share r N t s 0)" for t
    using sum.atLeast_Suc_lessThan[of 0 T "\<lambda>s. share r N t s 0"] by (cases "0 < T") (simp_all add: owed_def lessThan_atLeast0)
  then have "(\<Sum>t<N. owed r T N t \<lparr>th_step = 0, spot = Gate, asleep = False, my_bytes = 0\<rparr>) = (\<Sum>s<T. \<Sum>t<N. share r N t s 0)"
    by (simp add: sum.swap[of _ "{..<N}"])
  then show ?thesis by (simp add: shares_cover[OF assms])
qed

lemma whole_start:
  assumes r: "ready_to_run r" and s: "reachable (pager_start r) s" and N: "0 < j_threads j"
  shows "whole_ok j r snk tr (mt_start j s snk tr)"
proof -
  let ?w = "mt_start j s snk tr" and ?T = "total_steps j r"
  let ?th = "\<lparr>th_step = 0, spot = Gate, asleep = False, my_bytes = 0\<rparr>"
  have n: "0 < unat (j_threads j)" using N by (simp add: unat_gt_0)
  have ths: "threads (drv ?w) = replicate (unat (j_threads j)) ?th" by (simp add: mt_start_def)
  have T: "total_steps j (reg s) = ?T" by (rule reachable_backing(2)[OF r s])
  have low: "low (drv ?w) = 0" using n by (simp add: low_def ths marks_def)
  have mk: "marked (drv ?w) x = 0" for x by (simp add: marked_def ths marks_def filter_replicate)
  have "counts_ok j ?T (drv ?w)"
    using n mk by (auto simp: counts_ok_def ths) (simp_all add: mt_start_def T)
  moreover have "sleepers_ok j (drv ?w)" "window_ok j (drv ?w)" "pages_ok (drv ?w)"
    by (auto simp: sleepers_ok_def window_ok_def pages_ok_def ths)
  moreover have "signals_ok j (n_chunks r) (drv ?w)"
    using n low by (auto simp: signals_ok_def signalling_def announced_upto_def ths) (simp_all add: mt_start_def)
  moreover have "emitted_ok r tr (drv ?w)"
    using n by (auto simp: emitted_ok_def ths steps_upto_def reference_records_def mt_start_def split: option.split)
  moreover have "owed_all r ?T (drv ?w) = (\<Sum>s<?T. chunk_sum r (s mod n_chunks r))"
    using owed_start[OF n] by (simp add: owed_all_def ths)
  ultimately show ?thesis using s by (simp add: whole_ok_def mt_start_def)
qed

lemma whole_turn:
  assumes r: "ready_to_run r" and ok: "whole_ok j r snk tr w"
    and t: "t < length (threads (drv w))" and turn: "turn j ws now w t = Some (Inr w')"
  shows "whole_ok j r snk tr w'"
proof -
  let ?T = "total_steps j r"
  have rch: "reachable (pager_start r) (pager w)" and I: "counts_ok j ?T (drv w)" "sleepers_ok j (drv w)" "window_ok j (drv w)"
    "signals_ok j (n_chunks r) (drv w)" "emitted_ok r tr (drv w)" "pages_ok (drv w)"
    and snk: "sink (drv w) + owed_all r ?T (drv w) = snk + (\<Sum>s<?T. chunk_sum r (s mod n_chunks r))"
    using ok by (simp_all add: whole_ok_def)
  note B = reachable_backing[OF r rch]
  obtain C F X where so: "sys_ok (pager w) C F X" by (rule reachable_core[OF r rch])
  have T: "?T = total_steps j (reg (pager w))" using B(2) by simp
  have "0 < ?T" using turn_active[OF turn] T by simp
  then have n: "0 < n_chunks r" by (cases "n_chunks r") (simp_all add: total_steps_def)
  have g: "geometry_ok r" using r by (auto simp: ready_to_run_def budget_inv_def)
  have mem: "v = model_byte r a" if "a < unat (region_len r)" "visible (pager w) a = Some v" for a v
    using visible_model[OF so] that backing_model[OF B(1)] backing_chunks(2)[OF B(1)] by simp
  have "reachable (pager_start r) (pager w')"
    using turn_pager[OF turn] rch reach_step[OF rch] step_access[of "pager w"] by auto
  moreover have "signals_ok j (n_chunks r) (drv w')"
    using turn_signals[OF turn t I(1) _ T] I(4) B(3) by simp
  ultimately show ?thesis
    using turn_counts(1)[OF turn t I(1) T] turn_sleepers[OF turn t I(1,2) T] turn_window[OF turn t I(1,3) T]
      turn_emitted[OF turn t I(3,5) B(1) n] turn_sink[OF turn t I(1,6) B(1) n T g mem] snk
    by (simp add: whole_ok_def)
qed

lemma replays_ok:
  assumes r: "ready_to_run r" and s: "reachable (pager_start r) s" and N: "0 < j_threads j"
    and run: "replays j (mt_start j s snk tr) k w"
  shows "whole_ok j r snk tr w"
  using run
proof induction
  case replays_none
  show ?case by (rule whole_start[OF r s N])
next
  case (replays_pager n w s')
  then have "reachable (pager_start r) s'" by (auto simp: whole_ok_def intro: reach_step)
  then show ?case using replays_pager.IH by (simp add: whole_ok_def)
next
  case (replays_turn n w t ws now w')
  then show ?case using whole_turn[OF r] by blast
qed

section \<open>The window\<close>

text \<open>The steps that some thread has begun and that are not complete.\<close>

definition in_flight :: "replay_job \<Rightarrow> region \<Rightarrow> driver \<Rightarrow> nat set" where
  "in_flight j r d = {s. s < total_steps j r \<and> \<not> full j d s \<and> (\<exists>th\<in>set (threads d). th_step th = s \<and> spot th \<noteq> Gate)}"

text \<open>
  C27. However the threads of the driver and the pager interleave, at most \<open>window + 1\<close> chunks are in
  flight at any moment, and steps complete in order.
\<close>

theorem lookahead_window:
  assumes "ready_to_run r" "reachable (pager_start r) s" "0 < j_threads j"
    and "replays j (mt_start j s snk tr) k w"
  shows "card (in_flight j r (drv w)) \<le> unat (j_window j) + 1
    \<and> (\<forall>a b. a \<le> b \<longrightarrow> b < total_steps j r \<longrightarrow> full j (drv w) b \<longrightarrow> full j (drv w) a)"
proof -
  have ok: "counts_ok j (total_steps j r) (drv w)" "window_ok j (drv w)"
    using replays_ok[OF assms] by (simp_all add: whole_ok_def)
  have "in_flight j r (drv w) \<subseteq> {low (drv w)..low (drv w) + unat (j_window j)}"
    using ok(2) full_iff[OF ok(1)] by (auto simp: in_flight_def window_ok_def in_set_conv_nth not_less)
  then have "card (in_flight j r (drv w)) \<le> card {low (drv w)..low (drv w) + unat (j_window j)}"
    by (intro card_mono) simp_all
  then show ?thesis using full_iff[OF ok(1)] by auto
qed

section \<open>Nobody is stuck\<close>

text \<open>A thread that only the pager can let go on: it waits for a page, or for \<^verbatim>\<open>budget_lock\<close> to announce a chunk.\<close>

definition waits_for_pager :: "replay_job \<Rightarrow> whole \<Rightarrow> nat \<Rightarrow> bool" where
  "waits_for_pager j w t \<longleftrightarrow>
     (let th = threads (drv w) ! t; r = reg (pager w); c = chunk_at r (th_step th mod n_chunks r)
      in case spot th of
           Page off k \<Rightarrow> off < unat (len c) \<and> k mod unat (j_threads j) = t \<and> visible (pager w) (unat (region_off c) + off) = None
         | Announce \<Rightarrow> \<not> budget_free (pager w)
         | Signal \<Rightarrow> \<not> budget_free (pager w)
         | _ \<Rightarrow> False)"

lemma turn_None:
  assumes "turn j ws now w t = None" "th_step (threads (drv w) ! t) < total_steps j (reg (pager w))" "\<not> asleep (threads (drv w) ! t)"
  shows "waits_for_pager j w t"
  using assms
  by (cases "spot (threads (drv w) ! t)")
    (auto simp: turn_def waits_for_pager_def Let_def split: if_splits option.splits sum.splits prod.splits)

lemma awake_thread:
  assumes ok: "counts_ok j T d" "sleepers_ok j d" and nf: "\<exists>th\<in>set (threads d). th_step th < T"
  obtains t where "t < length (threads d)" "th_step (threads d ! t) < T" "\<not> asleep (threads d ! t)"
proof (cases "low d < T")
  case True
  have "low d \<in> marks ` set (threads d)" unfolding low_def using ok(1) by (intro Min_in) (simp_all add: counts_ok_def)
  then obtain t where t: "t < length (threads d)" "marks (threads d ! t) = low d" by (auto simp: in_set_conv_nth)
  have "th_step (threads d ! t) < T" using t(2) True by (simp add: marks_def split: if_splits)
  moreover have "\<not> asleep (threads d ! t)"
    using ok(2)[unfolded sleepers_ok_def, rule_format, OF t(1)] t(2)
    by (cases "spot (threads d ! t)") (auto simp: marks_def)
  ultimately show ?thesis using that t(1) by blast
next
  case False
  then have low: "low d = T" using low_bound[OF ok(1)] by simp
  obtain t where t: "t < length (threads d)" "th_step (threads d ! t) < T" using nf by (auto simp: in_set_conv_nth)
  have "T \<le> marks (threads d ! t)" using low_le[OF nth_mem[OF t(1)]] low by simp
  then have "\<not> asleep (threads d ! t)"
    using ok(2)[unfolded sleepers_ok_def, rule_format, OF t(1)] t(2) low
    by (cases "spot (threads d ! t)") (auto simp: marks_def)
  then show ?thesis using that t by blast
qed

lemma driver_moves:
  assumes "ready_to_run r" "reachable (pager_start r) s" "0 < j_threads j"
    and "replays j (mt_start j s snk tr) k w" "\<not> finished j w"
  obtains t where "t < length (threads (drv w))" "th_step (threads (drv w) ! t) < total_steps j r"
    "waits_for_pager j w t \<or> turn j ws now w t \<noteq> None"
proof -
  have ok: "reachable (pager_start r) (pager w)" "counts_ok j (total_steps j r) (drv w)" "sleepers_ok j (drv w)"
    using replays_ok[OF assms(1-4)] by (simp_all add: whole_ok_def)
  have T: "total_steps j (reg (pager w)) = total_steps j r" by (rule reachable_backing(2)[OF assms(1) ok(1)])
  have "\<exists>th\<in>set (threads (drv w)). th_step th < total_steps j r"
    using assms(5) by (auto simp: finished_def T list_all_iff not_le)
  then obtain t where "t < length (threads (drv w))" "th_step (threads (drv w) ! t) < total_steps j r" "\<not> asleep (threads (drv w) ! t)"
    by (rule awake_thread[OF ok(2,3)])
  then show ?thesis using turn_None[of j ws now w t] T that by metis
qed

text \<open>
  C26. The condition variable loses no wake-up and the gate and the wait of thread 0 never deadlock: in
  every state that the driver and the pager reach, the driver has finished, or one of its threads can
  take its next step (a trace write that fails aborts it), or one waits for the pager only.
\<close>

theorem driver_never_stuck:
  assumes "ready_to_run r" "reachable (pager_start r) s" "0 < j_threads j"
    and "replays j (mt_start j s snk tr) k w" "\<not> finished j w"
  shows "\<exists>t<length (threads (drv w)). waits_for_pager j w t \<or> (\<exists>x. turn j ws now w t = Some x)"
  using driver_moves[OF assms, of ws now] by (metis not_None_eq)

section \<open>Every run ends\<close>

text \<open>The steps of a thread up to the end of its round, and the bound on the driver's steps.\<close>

definition round_len :: "region \<Rightarrow> nat \<Rightarrow> nat" where
  "round_len r s = pages (len (chunk_at r (s mod n_chunks r))) + 7"

fun round_left :: "nat \<Rightarrow> spot \<Rightarrow> nat" where
  "round_left P Gate = P + 7"
| "round_left P Announce = P + 6"
| "round_left P (Page off k) = P - k + 5"
| "round_left P Mark = 4"
| "round_left P Signal = 3"
| "round_left P Full = 2"
| "round_left P Emit = 1"

definition left :: "region \<Rightarrow> nat \<Rightarrow> thread \<Rightarrow> nat" where
  "left r T th = (if th_step th < T then round_left (pages (len (chunk_at r (th_step th mod n_chunks r)))) (spot th) else 0)
     + (\<Sum>s\<in>{Suc (th_step th)..<T}. round_len r s)"

definition left_all :: "region \<Rightarrow> nat \<Rightarrow> driver \<Rightarrow> nat" where
  "left_all r T d = sum_list (map (left r T) (threads d))"

definition awake :: "driver \<Rightarrow> nat" where
  "awake d = length (filter (\<lambda>th. \<not> asleep th) (threads d))"

definition driver_steps :: "region \<Rightarrow> nat \<Rightarrow> driver \<Rightarrow> nat" where
  "driver_steps r T d = left_all r T d * (length (threads d) + 1) + awake d"

lemma left_next: "th_step th < T \<Longrightarrow> 0 < round_left (pages (len (chunk_at r (th_step th mod n_chunks r)))) (spot th) \<Longrightarrow>
    left r T (next_step th) < left r T th"
  by (cases "Suc (th_step th) < T") (simp_all add: left_def next_step_def round_len_def sum.atLeast_Suc_lessThan)

lemma sum_list_map_update:
  fixes f :: "'a \<Rightarrow> nat"
  assumes "t < length xs" "f x < f (xs ! t)"
  shows "sum_list (map f (xs[t := x])) < sum_list (map f xs)"
  using assms
proof (induction xs arbitrary: t)
  case (Cons y ys)
  then show ?case by (cases t) auto
qed simp

text \<open>A step either puts its thread to sleep or brings it on.\<close>

lemma turn_left:
  assumes turn: "turn j ws now w t = Some (Inr w')" and t: "t < length (threads (drv w))"
    and ok: "pages_ok (drv w)" and b: "backing (reg (pager w)) = backing r" and n: "0 < n_chunks r"
    and T: "T = total_steps j (reg (pager w))"
  shows "threads (drv w') = (threads (drv w))[t := (threads (drv w) ! t)\<lparr>asleep := True\<rparr>]
    \<or> (\<exists>th'. map (left r T) (threads (drv w')) = map (left r T) ((threads (drv w))[t := th']) \<and> left r T th' < left r T (threads (drv w) ! t)
         \<and> length (threads (drv w')) = length (threads (drv w)))"
proof -
  let ?d = "drv w" and ?th = "threads (drv w) ! t"
  let ?i = "th_step ?th mod n_chunks r"
  let ?go = "\<lambda>th'. map (left r T) (threads (drv w')) = map (left r T) ((threads ?d)[t := th']) \<and> left r T th' < left r T ?th
         \<and> length (threads (drv w')) = length (threads ?d)"
  have i: "?i < n_chunks r" using n by simp
  note nr = backing_chunks(1)[OF b] and geo = backing_chunks(3,4)[OF b i]
  have s: "th_step ?th < T" using turn_active[OF turn] T by simp
  have pg: "off = 4096 * k" if "spot ?th = Page off k" for off k using ok nth_mem[OF t] that unfolding pages_ok_def by blast
  have lt: "left r T (?th\<lparr>spot := p\<rparr>) < left r T ?th" "left r T (?th\<lparr>spot := p, my_bytes := bs\<rparr>) < left r T ?th"
    if "round_left (pages (len (chunk_at r ?i))) p < round_left (pages (len (chunk_at r ?i))) (spot ?th)" for p bs
    using that s by (simp_all add: left_def)
  have pgs: "k < pages (len (chunk_at r ?i))" if "off < unat (len (chunk_at r ?i))" "spot ?th = Page off k" for off k
    using that pg pages_less[of k "len (chunk_at r ?i)"] by simp
  from turn show ?thesis
  proof (cases rule: turnE)
    case gate
    then have "?go (?th\<lparr>spot := Announce\<rparr>)" using lt(1)[of Announce] by (simp add: put_def)
    then show ?thesis by blast
  next
    case announce
    then have "?go (?th\<lparr>spot := Page 0 0, my_bytes := 0\<rparr>)" using lt(2)[of "Page 0 0"] by (simp add: put_def access_def)
    then show ?thesis by blast
  next
    case silent
    then have "?go (?th\<lparr>spot := Page 0 0, my_bytes := 0\<rparr>)" using lt(2)[of "Page 0 0"] by (simp add: put_def)
    then show ?thesis by blast
  next
    case (pages_done off k)
    then have "?go (?th\<lparr>spot := Mark\<rparr>)" using lt(1)[of Mark] by (simp add: put_def)
    then show ?thesis by blast
  next
    case (skip off k)
    then have "?go (?th\<lparr>spot := Page (off + 4096) (k + 1)\<rparr>)"
      using lt(1)[of "Page (off + 4096) (k + 1)"] pgs[of off k] geo nr by (simp add: put_def)
    then show ?thesis by blast
  next
    case (read off k v bs)
    then have "?go (?th\<lparr>spot := Page (off + 4096) (k + 1), my_bytes := bs\<rparr>)"
      using lt(2)[of "Page (off + 4096) (k + 1)"] pgs[of off k] geo nr by (simp add: put_def)
    then show ?thesis by blast
  next
    case mark
    let ?p = "if fst (mark_done j ?d (th_step ?th)) \<and> j_all j then Signal else Full"
    have "map (left r T) (threads (snd (mark_done j ?d (th_step ?th)))) = map (left r T) (threads ?d)"
      by (simp add: mark_done_def Let_def left_def)
    moreover have "length (threads (snd (mark_done j ?d (th_step ?th)))) = length (threads ?d)"
      by (simp add: mark_done_def Let_def)
    ultimately have "?go (?th\<lparr>spot := ?p\<rparr>)" using mark lt(1)[of ?p] by (simp add: put_def map_update)
    then show ?thesis by blast
  next
    case signal
    then have "?go (?th\<lparr>spot := Full\<rparr>)" using lt(1)[of Full] by (simp add: put_def access_def)
    then show ?thesis by blast
  next
    case leave
    then have "?go (next_step ?th)" using left_next[OF s, of r] by (simp add: put_def)
    then show ?thesis by blast
  next
    case full
    then have "?go (?th\<lparr>spot := Emit\<rparr>)" using lt(1)[of Emit] by (simp add: put_def)
    then show ?thesis by blast
  next
    case emit
    then have "?go (next_step ?th)" using left_next[OF s, of r] by (simp add: put_def)
    then show ?thesis by blast
  next
    case (emit_traced tr tr')
    then have "?go (next_step ?th)" using left_next[OF s, of r] by (simp add: put_def)
    then show ?thesis by blast
  qed (simp_all add: put_def)
qed

lemma turn_steps:
  assumes turn: "turn j ws now w t = Some (Inr w')" and t: "t < length (threads (drv w))"
    and ok: "pages_ok (drv w)" and b: "backing (reg (pager w)) = backing r" and n: "0 < n_chunks r"
    and T: "T = total_steps j (reg (pager w))"
  shows "driver_steps r T (drv w') < driver_steps r T (drv w)"
proof -
  let ?d = "drv w" and ?d' = "drv w'" and ?th = "threads (drv w) ! t"
  have up: "awake d \<le> length (threads d)" for d by (simp add: awake_def)
  from turn_left[OF turn t ok b n T] show ?thesis
  proof (elim disjE exE conjE)
    assume sl: "threads ?d' = (threads ?d)[t := ?th\<lparr>asleep := True\<rparr>]"
    have "awake ?d' < awake ?d"
      using turn_active[OF turn] t unfolding awake_def sl by (intro filter_update_less) simp_all
    moreover have "map (left r T) (threads ?d') = map (left r T) (threads ?d)"
      unfolding sl using t by (simp add: map_update left_def list_update_same_conv)
    ultimately show ?thesis using sl by (simp add: driver_steps_def left_all_def)
  next
    fix th' assume "map (left r T) (threads ?d') = map (left r T) ((threads ?d)[t := th'])"
      "left r T th' < left r T ?th" and l: "length (threads ?d') = length (threads ?d)"
    then have "left_all r T ?d' < left_all r T ?d"
      using sum_list_map_update[OF t, of "left r T" th'] by (simp add: left_all_def)
    then have "(left_all r T ?d' + 1) * (length (threads ?d) + 1) \<le> left_all r T ?d * (length (threads ?d) + 1)"
      by (intro mult_right_mono) simp_all
    then show ?thesis using up[of ?d'] l by (simp add: driver_steps_def)
  qed
qed

lemma replays_steps:
  assumes r: "ready_to_run r" and s: "reachable (pager_start r) s" and N: "0 < j_threads j"
    and run: "replays j (mt_start j s snk tr) k w"
  shows "k + driver_steps r (total_steps j r) (drv w) \<le> driver_steps r (total_steps j r) (drv (mt_start j s snk tr))"
  using run
proof induction
  case (replays_turn n w t ws now w')
  have ok: "reachable (pager_start r) (pager w)" "pages_ok (drv w)"
    using replays_ok[OF r s N replays_turn.hyps(1)] by (simp_all add: whole_ok_def)
  note B = reachable_backing[OF r ok(1)]
  have "0 < total_steps j r" using turn_active[OF replays_turn.hyps(3)] B(2) by simp
  then have "0 < n_chunks r" by (cases "n_chunks r") (simp_all add: total_steps_def)
  from turn_steps[OF replays_turn.hyps(3,2) ok(2) B(1) this B(2)[symmetric]] replays_turn.IH show ?case by simp
qed simp_all

text \<open>
  C28. A run of the driver comes to an end: whatever the interleaving, its threads take together at most
  \<open>N (N + 1) (\<Sum>s<T. P s + 7) + N\<close> steps for \<open>N\<close> threads and \<open>T\<close> steps of the replay with \<open>P s\<close> pages
  each, going to sleep and waking included.
\<close>

theorem driver_steps_bounded:
  assumes "ready_to_run r" "reachable (pager_start r) s" "0 < j_threads j"
    and "replays j (mt_start j s snk tr) k w"
  shows "k \<le> unat (j_threads j) * (\<Sum>s<total_steps j r. round_len r s) * (unat (j_threads j) + 1) + unat (j_threads j)"
proof -
  let ?th = "\<lparr>th_step = 0, spot = Gate, asleep = False, my_bytes = 0\<rparr>" and ?T = "total_steps j r"
  have "left r ?T ?th = (\<Sum>s<?T. round_len r s)"
    using sum.atLeast_Suc_lessThan[of 0 ?T "round_len r"]
    by (cases "0 < ?T") (simp_all add: left_def lessThan_atLeast0 round_len_def)
  then have "driver_steps r ?T (drv (mt_start j s snk tr))
    = unat (j_threads j) * (\<Sum>s<?T. round_len r s) * (unat (j_threads j) + 1) + unat (j_threads j)"
    by (simp add: driver_steps_def left_all_def awake_def mt_start_def map_replicate_const sum_list_replicate)
  then show ?thesis using replays_steps[OF assms] by simp
qed

section \<open>A run with everything resident\<close>

definition warm :: "sys \<Rightarrow> bool" where
  "warm s \<longleftrightarrow> budget_free s \<and> (\<forall>i<n_chunks (reg s). state (chunk_at (reg s) i) = CHUNK_RESIDENT)"

lemma page_visible:
  assumes "sys_ok s C F X" "i < n_chunks (reg s)" "state (chunk_at (reg s) i) = CHUNK_RESIDENT" "off < unat (len (chunk_at (reg s) i))"
  shows "visible s (unat (region_off (chunk_at (reg s) i)) + off) \<noteq> None"
proof -
  let ?c = "chunk_at (reg s) i"
  define a where "a = unat (region_off (chunk_at (reg s) i)) + off"
  have inv: "budget_inv (reg s) C F X" using assms(1) by (simp add: sys_ok_def dispatch_inv_def)
  then have g: "geometry_ok (reg s)" by (simp add: budget_inv_def)
  have "a < unat (region_len (reg s))" using chunk_bounds(3)[OF g assms(2)] assms(4) by (simp add: a_def)
  then have u: "unat (word_of_nat a :: u64) = a" using u64_bound[of "region_len (reg s)"] by (simp add: unat_of_nat)
  then have "covers ?c (word_of_nat a)" using assms(4) by (simp add: covers_def a_def)
  then have i: "pager_lookup (chunks (reg s)) (word_of_nat a) = Some i"
    using pager_lookup_iff[of "chunks (reg s)" "region_len (reg s)"] g assms(2) by (simp add: geometry_ok_def)
  have "i \<in> C" using inv assms(2,3) by (auto simp: budget_inv_def acct_def)
  then have "memfd (reg s) a \<noteq> None" using inv assms(4) by (auto simp: budget_inv_def data_ok_def in_chunk_def a_def)
  then show ?thesis using i assms(3) unfolding a_def by (simp add: visible_def)
qed

lemma record_fits: "\<exists>t'. trace_record_call [W_bytes 24] now t sq cid ft wp = Inr t'"
proof -
  have "write_all [W_bytes (length bs)] buf bs = Inr (buf @ bs)" for buf bs by (cases bs) simp_all
  then have "write_all [W_bytes 24] buf (record_bytes x) = Inr (buf @ record_bytes x)" for buf x
    by (metis length_record_bytes)
  then show ?thesis by (simp add: trace_record_call_def Let_def)
qed

lemma turn_recorded: "turn j [W_bytes 24] now w t \<noteq> Some (Inl e)"
proof (cases "spot (threads (drv w) ! t) = Emit")
  case True
  show ?thesis
  proof (cases "dr_trace (drv w)")
    case (Some tr)
    obtain t' where "trace_record_call [W_bytes 24] now tr (dr_seq (drv w) + 1)
        (word_of_nat (th_step (threads (drv w) ! t) mod n_chunks (reg (pager w)))) TRACE_NA TRACE_NA = Inr t'"
      using record_fits by blast
    then show ?thesis using True Some by (simp add: turn_def Let_def)
  qed (use True in \<open>simp add: turn_def Let_def\<close>)
next
  case False
  then show ?thesis
    by (cases "spot (threads (drv w) ! t)") (simp_all add: turn_def Let_def split: option.split prod.split)
qed

lemma notify_state: "state (chunk_at (pager_notify_access r i) k) = state (chunk_at r k)"
proof -
  have "state (chunk_at (upd_chunk j (\<lambda>c. c\<lparr>pin := pin c - 1\<rparr>) r) k) = state (chunk_at r k)" for j and r :: region
    by (cases "j = k"; cases "k < n_chunks r") (simp_all add: upd_chunk_def list_update_beyond)
  then show ?thesis
    by (simp add: pager_notify_access_def prefetch_retain_release_def Let_def split: option.split)
qed

lemma warm_continues:
  assumes "ready_to_run r" "reachable (pager_start r) s" "0 < j_threads j"
    and "replays j (mt_start j s snk tr) k w" "\<not> finished j w" "warm (pager w)"
  shows "\<exists>w'. replays j (mt_start j s snk tr) (Suc k) w' \<and> warm (pager w')"
proof -
  have ok: "reachable (pager_start r) (pager w)" using replays_ok[OF assms(1-4)] by (simp add: whole_ok_def)
  then obtain C F X where so: "sys_ok (pager w) C F X" by (rule reachable_core[OF assms(1)])
  note B = reachable_backing(2)[OF assms(1) ok, of j]
  obtain t where t: "t < length (threads (drv w))" "th_step (threads (drv w) ! t) < total_steps j r"
    "waits_for_pager j w t \<or> turn j [W_bytes 24] 0 w t \<noteq> None"
    by (rule driver_moves[OF assms(1-5)])
  have n: "0 < n_chunks (reg (pager w))"
    using t(2) B by (cases "n_chunks (reg (pager w))") (simp_all add: total_steps_def)
  let ?i = "th_step (threads (drv w) ! t) mod n_chunks (reg (pager w))"
  have v: "visible (pager w) (unat (region_off (chunk_at (reg (pager w)) ?i)) + off) \<noteq> None"
    if "off < unat (len (chunk_at (reg (pager w)) ?i))" for off
    using page_visible[OF so, of ?i off] that n assms(6) by (simp add: warm_def)
  have "\<not> waits_for_pager j w t"
    using v assms(6) by (auto simp: waits_for_pager_def warm_def Let_def split: spot.splits)
  then obtain x where x: "turn j [W_bytes 24] 0 w t = Some x" using t(3) by auto
  then obtain w' where turn: "turn j [W_bytes 24] 0 w t = Some (Inr w')"
    using turn_recorded[of j 0 w t] by (cases x) auto
  have inv: "budget_inv (reg (pager w)) C F X" using so by (simp add: sys_ok_def dispatch_inv_def)
  have "warm (pager w')" using turn_pager[OF turn]
  proof (elim disjE conjE exE)
    fix i assume p: "pager w' = (pager w)\<lparr>reg := pager_notify_access (reg (pager w)) i\<rparr>"
    have "n_chunks (pager_notify_access (reg (pager w)) i) = n_chunks (reg (pager w))"
      by (rule backing_chunks(1)[OF notify_backing])
    then show ?thesis using assms(6) notify_state p by (simp add: warm_def budget_free_def)
  qed (use assms(6) in simp)
  then show ?thesis using replays_turn[OF assms(4) t(1) turn] by blast
qed

lemma warm_finishes:
  assumes "ready_to_run r" "reachable (pager_start r) s" "0 < j_threads j" "warm s"
  shows "\<exists>k w. replays j (mt_start j s snk tr) k w \<and> finished j w"
proof (rule ccontr)
  assume never: "\<not> ?thesis"
  have go: "\<exists>w. replays j (mt_start j s snk tr) k w \<and> warm (pager w)" for k
  proof (induction k)
    case 0
    show ?case using replays_none assms(4) by (intro exI[of _ "mt_start j s snk tr"]) (simp add: mt_start_def)
  next
    case (Suc k)
    then show ?case using warm_continues[OF assms(1-3)] never by blast
  qed
  let ?b = "driver_steps r (total_steps j r) (drv (mt_start j s snk tr))"
  obtain w where "replays j (mt_start j s snk tr) (Suc ?b) w" using go by blast
  from replays_steps[OF assms(1-3) this] show False by simp
qed

section \<open>The end of a run\<close>

lemma finished_threads:
  assumes "counts_ok j T d" "finished j w" "d = drv w" "T = total_steps j (reg (pager w))"
  shows "t < length (threads d) \<Longrightarrow> th_step (threads d ! t) = T \<and> spot (threads d ! t) = Gate" and "low d = T"
proof -
  have all: "th_step th = T \<and> spot th = Gate" if "th \<in> set (threads d)" for th
    using assms that unfolding finished_def counts_ok_def list_all_iff by (metis order_antisym)
  then show "t < length (threads d) \<Longrightarrow> th_step (threads d ! t) = T \<and> spot (threads d ! t) = Gate" by simp
  have "low d \<in> marks ` set (threads d)" unfolding low_def using assms(1) by (intro Min_in) (simp_all add: counts_ok_def)
  then show "low d = T" using all by (auto simp: marks_def)
qed

lemma finished_owed: 
  assumes "counts_ok j T d" "finished j w" "d = drv w" "T = total_steps j (reg (pager w))"
  shows "owed_all r T d = 0"
  using finished_threads(1)[OF assms] by (simp add: owed_all_def owed_def)

text \<open>A finished run has read, reported, signalled and recorded the references of all steps, in order.\<close>

lemma finished_run:
  assumes "ready_to_run r" "reachable (pager_start r) s" "0 < j_threads j"
    and "replays j (mt_start j s snk tr) k w" "finished j w"
  shows "sink (drv w) = snk + sum_list (map (chunk_sum r) (steps_upto (n_chunks r) (total_steps j r)))"
    and "touched (drv w) = sum_list (map (\<lambda>i. len (chunk_at r i)) (steps_upto (n_chunks r) (total_steps j r)))"
    and "case tr of None \<Rightarrow> dr_trace (drv w) = None
        | Some t \<Rightarrow> \<exists>t' recs. dr_trace (drv w) = Some t'
            \<and> reference_records 0 (steps_upto (n_chunks r) (total_steps j r)) recs
            \<and> trace_file t' = trace_file t @ concat (map record_bytes recs)"
    and "mt_result j wall w = Some \<lparr>wall_ns = wall, res_passes = j_passes j,
                 n_touches = j_passes j * word_of_nat (n_chunks r), res_bytes = touched (drv w)\<rparr>"
proof -
  let ?T = "total_steps j r" and ?d = "drv w"
  have ok: "reachable (pager_start r) (pager w)" "counts_ok j ?T ?d" "emitted_ok r tr ?d" "signals_ok j (n_chunks r) ?d"
    "sink ?d + owed_all r ?T ?d = snk + (\<Sum>s<?T. chunk_sum r (s mod n_chunks r))"
    using replays_ok[OF assms(1-4)] by (simp_all add: whole_ok_def)
  note B = reachable_backing[OF assms(1) ok(1)]
  note F = ok(2) assms(5) refl B(2)[symmetric]
  have "threads ?d \<noteq> []" using ok(2) by (simp add: counts_ok_def)
  then have "0 < length (threads ?d)" by simp
  from finished_threads(1)[OF F this] have t0: "th_step (threads ?d ! 0) = ?T" by simp
  show "sink ?d = snk + sum_list (map (chunk_sum r) (steps_upto (n_chunks r) ?T))"
    using ok(5) finished_owed[OF F, of r] by (simp add: steps_upto_def comp_def interv_sum_list_conv_sum_set_nat atLeast0LessThan)
  show "touched ?d = sum_list (map (\<lambda>i. len (chunk_at r i)) (steps_upto (n_chunks r) ?T))"
    using ok(3) by (simp add: emitted_ok_def t0)
  show "case tr of None \<Rightarrow> dr_trace ?d = None
        | Some t \<Rightarrow> \<exists>t' recs. dr_trace ?d = Some t' \<and> reference_records 0 (steps_upto (n_chunks r) ?T) recs
            \<and> trace_file t' = trace_file t @ concat (map record_bytes recs)"
    using ok(3) by (simp add: emitted_ok_def t0 split: option.splits)
  have "j_all j \<longrightarrow> notify_count ?d = word_of_nat ?T" using ok(4) finished_threads(2)[OF F] by (simp add: signals_ok_def)
  then show "mt_result j wall w = Some \<lparr>wall_ns = wall, res_passes = j_passes j,
                 n_touches = j_passes j * word_of_nat (n_chunks r), res_bytes = touched (drv w)\<rparr>"
    using B(2,3) by (simp add: mt_result_def)
qed

text \<open>
  C29. Each reference is announced to the pager once and in the order of the references, at every moment
  of every run and in both signal modes; when all threads have finished, all have been announced and the
  check of \<^verbatim>\<open>notify_count\<close> passes, so that it never aborts.
\<close>

theorem announced_once_in_order:
  assumes "ready_to_run r" "reachable (pager_start r) s" "0 < j_threads j"
    and "replays j (mt_start j s snk tr) k w"
  shows "\<exists>m\<le>total_steps j r. announced (drv w) = map (\<lambda>s. s mod n_chunks r) [0..<m]
    \<and> (if finished j w then m = total_steps j r \<and> mt_result j wall w \<noteq> None else True)"
proof -
  let ?d = "drv w" and ?T = "total_steps j r"
  have ok: "reachable (pager_start r) (pager w)" "counts_ok j ?T ?d" "signals_ok j (n_chunks r) ?d"
    using replays_ok[OF assms] by (simp_all add: whole_ok_def)
  have T: "?T = total_steps j (reg (pager w))" using reachable_backing(2)[OF assms(1) ok(1)] by simp
  have "threads ?d \<noteq> []" using ok(2) by (simp add: counts_ok_def)
  then have ne: "0 < length (threads ?d)" by simp
  have z: "th_step (threads ?d ! 0) \<le> ?T \<and> (th_step (threads ?d ! 0) = ?T \<longrightarrow> spot (threads ?d ! 0) = Gate)"
    using ok(2) nth_mem[OF ne] by (simp add: counts_ok_def)
  have le: "announced_upto j ?d \<le> ?T"
    using low_bound[OF ok(2)] z by (auto simp: announced_upto_def)
  have a: "announced ?d = map (\<lambda>s. s mod n_chunks r) [0..<announced_upto j ?d]" using ok(3) by (simp add: signals_ok_def)
  have "announced_upto j ?d = ?T \<and> mt_result j wall w \<noteq> None" if f: "finished j w"
  proof -
    note F = finished_threads[OF ok(2) f refl T]
    have "\<not> signalling ?d t" for t using F(1)[of t] by (auto simp: signalling_def)
    then have "announced_upto j ?d = ?T" using F(1)[OF ne] F(2) by (simp add: announced_upto_def)
    then show ?thesis using finished_run(4)[OF assms f] by simp
  qed
  then show ?thesis using le a by (intro exI[of _ "announced_upto j ?d"]) simp
qed

lemma reference_records_load:
  assumes "trace_open ws TRACE_TYPE_REFERENCE = Inr t" "reference_records 0 is recs"
    and "trace_file t' = trace_file t @ concat (map record_bytes recs)"
  shows "load_reference_string (trace_file t') = Inr (map word_of_nat is)"
proof -
  have "map chunk_id recs = map word_of_nat is"
    using assms(2) by (intro nth_equalityI) (simp_all add: reference_records_def)
  then show ?thesis using load_of_records[OF assms(1)] assms(3) by simp
qed

text \<open>
  C25. The multi-threaded driver computes what \<^verbatim>\<open>replay_cyclic\<close> computes: for any number of
  threads, any window, either signal mode and every interleaving with an asynchronous pager, a finished run
  has added to the sink, reported and written to the reference trace exactly what the single-threaded
  driver on a synchronous pager over the same model does, as long as the number of steps fits in 32 bits.
\<close>

theorem mt_equals_cyclic:
  assumes "ready_to_run r" "reachable (pager_start r) s" "0 < j_threads j"
    and "replays j (mt_start j s (g_replay_sink p) (ref_trace p)) k w" "finished j w"
    and "inline_ok (rp_region p)" "backing (rp_region p) = backing r"
    and "replay_cyclic K (load_byte K fuel) units (j_passes j) ns p = Inr (res, p')"
    and "unat (j_passes j) * n_chunks r < 2 ^ 32"
    and "\<forall>t. ref_trace p = Some t \<longrightarrow> (\<exists>ws. trace_open ws TRACE_TYPE_REFERENCE = Inr t)"
  shows "sink (drv w) = g_replay_sink p' \<and> mt_result j (wall_ns res) w = Some res
    \<and> map_option (load_reference_string \<circ> trace_file) (dr_trace (drv w))
        = map_option (load_reference_string \<circ> trace_file) (ref_trace p')"
proof -
  let ?n = "n_chunks r" and ?p0 = "p\<lparr>bytes_touched := 0, ref_seq := 0\<rparr>"
  note R = finished_run[OF assms(1-5)]
  note B = backing_chunks(1)[OF assms(7)]
  have T: "total_steps j r = unat (j_passes j) * ?n"
    using assms(9) by (simp add: total_steps_def unat_word_ariths unat_of_nat mod_simps)
  then have steps: "steps_upto ?n (total_steps j r) = concat (replicate (unat (j_passes j)) [0..<?n])"
    by (simp add: steps_upto_def concat_replicate_upt)
  note Y = sync.replay_cyclic_replays[OF assms(6,8), unfolded B, folded steps]
  have sub: "set (steps_upto ?n (total_steps j r)) \<subseteq> {..<?n}" unfolding steps by auto
  have Z: "replayed r (steps_upto ?n (total_steps j r)) ?p0 p'"
    by (rule replayed_base[OF _ assms(7) sub]) (use Y in blast)
  have "sink (drv w) = g_replay_sink p'" using R(1) Z by (simp add: replayed_def)
  moreover have "touched (drv w) = res_bytes res" using R(2) Z Y by (simp add: replayed_def)
  then have "mt_result j (wall_ns res) w = Some res" using R(4)[of "wall_ns res"] Y by simp
  moreover have "map_option (load_reference_string \<circ> trace_file) (dr_trace (drv w))
      = map_option (load_reference_string \<circ> trace_file) (ref_trace p')"
  proof (cases "ref_trace p")
    case None
    then show ?thesis using R(3) Z by (simp add: replayed_def traced_def)
  next
    case (Some t)
    then obtain ws where o: "trace_open ws TRACE_TYPE_REFERENCE = Inr t" using assms(10) by blast
    obtain t1 recs1 where 1: "dr_trace (drv w) = Some t1" "reference_records 0 (steps_upto ?n (total_steps j r)) recs1"
      "trace_file t1 = trace_file t @ concat (map record_bytes recs1)" using R(3) Some by auto
    obtain t2 recs2 where 2: "ref_trace p' = Some t2" "reference_records 0 (steps_upto ?n (total_steps j r)) recs2"
      "trace_file t2 = trace_file t @ concat (map record_bytes recs2)" using Z Some by (auto simp: replayed_def traced_def)
    show ?thesis using 1(1) 2(1) reference_records_load[OF o 1(2,3)] reference_records_load[OF o 2(2,3)] by simp
  qed
  ultimately show ?thesis by blast
qed

section \<open>A concrete run\<close>

text \<open>The two chunks of the demo driver, absent, with one worker; a fault on each, served by the worker.\<close>

definition demo_pair :: region where
  "demo_pair = demo_hot\<lparr>chunks := [new_chunk 0 0 4096 0, new_chunk 4096 4096 4096 1], resident_bytes := 0,
     async_handler := True, fetch_workers := 1, memfd := (\<lambda>_. None)\<rparr>"

definition demo_job :: replay_job where
  "demo_job = \<lparr>j_threads = 2, j_window = 1, j_passes = 2, j_all = False\<rparr>"

fun work_alone :: "kernel \<Rightarrow> nat \<Rightarrow> sys \<Rightarrow> sys" where
  "work_alone K 0 s = s"
| "work_alone K (Suc n) s =
     (if workers s = [] then s else case act K s 0 of Some (Inr s') \<Rightarrow> work_alone K n s' | _ \<Rightarrow> s)"

definition fault_alone :: "kernel \<Rightarrow> u64 \<Rightarrow> sys \<Rightarrow> sys option" where
  "fault_alone K rel s =
     (case pager_lookup (chunks (reg s)) rel of
        None \<Rightarrow> None
      | Some i \<Rightarrow> if lock_free s i \<and> budget_free s
          then (case handle_fault K (reg s) rel False of Inl _ \<Rightarrow> None | Inr r' \<Rightarrow> Some (work_alone K 12 (s\<lparr>reg := r'\<rparr>)))
          else None)"

definition demo_warm :: sys where
  "demo_warm = the (Option.bind (fault_alone demo_kernel 0 (pager_start demo_pair)) (fault_alone demo_kernel 4096))"

lemma work_alone_reachable: "reachable s0 s \<Longrightarrow> reachable s0 (work_alone K n s)"
proof (induction n arbitrary: s)
  case (Suc n)
  show ?case
  proof (cases "workers s = []")
    case False
    then have w: "0 < length (workers s)" by simp
    show ?thesis using Suc.IH reach_step[OF Suc.prems step_worker[OF w]] Suc.prems False
      by (auto split: option.split sum.split)
  qed (simp add: Suc.prems)
qed simp

lemma fault_alone_reachable: "reachable s0 s \<Longrightarrow> fault_alone K rel s = Some s' \<Longrightarrow> reachable s0 s'"
  using reach_step[OF _ step_fault[of s rel _ K False]] work_alone_reachable
  by (auto simp: fault_alone_def split: option.splits if_splits sum.splits)

lemma demo_pair_ready: "ready_to_run demo_pair"
proof -
  have two: "{..<2 :: nat} = {0, 1}" by auto
  have ch: "chunks demo_pair = [new_chunk 0 0 4096 0, new_chunk 4096 4096 4096 1]" by (simp add: demo_pair_def)
  have ring: "ring_wf (pinned_prefetch demo_pair)" "ring_list (pinned_prefetch demo_pair) = []"
    by (simp_all add: demo_pair_def demo_hot_def ring_wf_new ring_list_new)
  have "geometry_ok demo_pair" by (simp add: geometry_ok_def ch UINT32_MAX_def) (simp add: demo_pair_def demo_hot_def)
  moreover have "acct demo_pair {} {}"
    by (auto simp: acct_def ch bytes_of_def demo_pair_def demo_hot_def zero_region_def less_Suc_eq new_chunk_def)
  moreover have "pins_ok demo_pair (\<lambda>_. 0)" using ring by (auto simp: pins_ok_def ch less_Suc_eq new_chunk_def)
  moreover have "data_ok demo_pair {} {}" by (auto simp: data_ok_def demo_pair_def)
  ultimately have "budget_inv demo_pair {} {} (\<lambda>_. 0)" by (simp add: budget_inv_def)
  then show ?thesis
    by (auto simp: ready_to_run_def starts_in_file_def ch new_chunk_def less_Suc_eq)
      (simp_all add: demo_pair_def demo_hot_def)
qed

lemma demo_warm_ok: "reachable (pager_start demo_pair) demo_warm" "warm demo_warm"
proof -
  have "map_option (\<lambda>s. (workers s, map state (chunks (reg s))))
      (Option.bind (fault_alone demo_kernel 0 (pager_start demo_pair)) (fault_alone demo_kernel 4096))
    = Some ([Idle], [CHUNK_RESIDENT, CHUNK_RESIDENT])" by code_simp
  then obtain s1 where s1: "fault_alone demo_kernel 0 (pager_start demo_pair) = Some s1" "fault_alone demo_kernel 4096 s1 = Some demo_warm"
    and st: "workers demo_warm = [Idle]" "map state (chunks (reg demo_warm)) = [CHUNK_RESIDENT, CHUNK_RESIDENT]"
    by (auto simp: demo_warm_def bind_eq_Some_conv)
  show "reachable (pager_start demo_pair) demo_warm"
    using fault_alone_reachable[OF fault_alone_reachable[OF reach_start s1(1)] s1(2)] .
  have n: "n_chunks (reg demo_warm) = 2" using arg_cong[OF st(2), of length] by simp
  have "state (chunk_at (reg demo_warm) i) = CHUNK_RESIDENT" if "i < 2" for i
    using arg_cong[OF st(2), of "\<lambda>l. l ! i"] that n by (auto simp: less_2_cases_iff)
  then show "warm demo_warm" using n st(1) by (simp add: warm_def budget_free_def)
qed

lemma demo_mt_run:
  obtains k w where "replays demo_job (mt_start demo_job demo_warm snk tr) k w" "finished demo_job w"
  using warm_finishes[OF demo_pair_ready demo_warm_ok(1) _ demo_warm_ok(2), of demo_job snk tr]
  by (auto simp: demo_job_def)

lemma demo_steps: "total_steps demo_job demo_pair = 4" "n_chunks demo_pair = 2" "0 < j_threads demo_job"
  by (simp_all add: demo_job_def demo_pair_def total_steps_def)

lemma demo_threads:
  "threads (drv (mt_start demo_job s snk tr)) = replicate (Suc (Suc 0)) \<lparr>th_step = 0, spot = Gate, asleep = False, my_bytes = 0\<rparr>"
proof -
  have "unat (j_threads demo_job) = Suc (Suc 0)" by (simp add: demo_job_def)
  then show ?thesis by (simp only: mt_start_def whole.simps driver.simps)
qed

theorem lookahead_window_witness:
  "\<exists>w. replays demo_job (mt_start demo_job (pager_start demo_pair) 0 None) 1 w
     \<and> in_flight demo_job demo_pair (drv w) = {0} \<and> card (in_flight demo_job demo_pair (drv w)) \<le> 2"
proof -
  let ?w = "mt_start demo_job (pager_start demo_pair) 0 None"
  let ?t = "\<lparr>th_step = 0, spot = Announce, asleep = False, my_bytes = 0\<rparr>"
  let ?w' = "?w\<lparr>drv := put 0 ?t (drv ?w)\<rparr>"
  have T: "total_steps demo_job (reg (pager_start demo_pair)) = 4"
    using reachable_backing(2)[OF demo_pair_ready reach_start] demo_steps(1) by simp
  have turn: "turn demo_job [] 0 ?w 0 = Some (Inr ?w')"
    by (simp add: turn_def mt_start_def T gate_open_def Let_def) (simp add: demo_job_def)
  have l: "0 < length (threads (drv ?w))" by (simp add: mt_start_def demo_job_def)
  have run: "replays demo_job ?w 1 ?w'" using replays_turn[OF replays_none l turn] by simp
  have "in_flight demo_job demo_pair (drv ?w') = {0}"
    by (auto simp: in_flight_def demo_steps full_def put_def demo_threads) (simp_all add: mt_start_def T demo_steps)
  then show ?thesis using run lookahead_window[OF demo_pair_ready reach_start demo_steps(3) run]
    by (intro exI[of _ ?w'] conjI) (simp_all add: demo_job_def)
qed

theorem driver_never_stuck_witness:
  "\<exists>t x. t < 2 \<and> turn demo_job [] 0 (mt_start demo_job demo_warm 0 None) t = Some x"
proof -
  let ?w = "mt_start demo_job demo_warm 0 None"
  have T: "total_steps demo_job (reg demo_warm) = 4"
    using reachable_backing(2)[OF demo_pair_ready demo_warm_ok(1)] demo_steps(1) by simp
  have "\<not> finished demo_job ?w" using T by (simp add: finished_def demo_threads) (simp add: mt_start_def)
  from driver_never_stuck[OF demo_pair_ready demo_warm_ok(1) demo_steps(3) replays_none this, of "[]" 0]
  obtain t where t: "t < 2" "waits_for_pager demo_job ?w t \<or> (\<exists>x. turn demo_job [] 0 ?w t = Some x)"
    by (auto simp: mt_start_def demo_job_def)
  moreover have "\<not> waits_for_pager demo_job ?w t" using t(1) by (simp add: waits_for_pager_def mt_start_def demo_job_def)
  ultimately show ?thesis by blast
qed

theorem driver_steps_bounded_witness:
  "\<exists>k w. replays demo_job (mt_start demo_job demo_warm 0 None) k w \<and> finished demo_job w \<and> k \<le> 194"
proof -
  obtain k w where run: "replays demo_job (mt_start demo_job demo_warm 0 None) k w" "finished demo_job w"
    by (rule demo_mt_run)
  have "round_len demo_pair s = 8" for s
  proof -
    have "s mod 2 < (2 :: nat)" by simp
    then show ?thesis
      by (auto simp: round_len_def demo_steps(2) less_2_cases_iff) (simp_all add: demo_pair_def new_chunk_def pages_def)
  qed
  then show ?thesis
    using driver_steps_bounded[OF demo_pair_ready demo_warm_ok(1) demo_steps(3) run(1)] run
    by (intro exI[of _ k] exI[of _ w]) (simp add: demo_steps(1), simp add: demo_job_def)
qed

theorem announced_once_in_order_witness:
  "\<exists>k w. replays demo_job (mt_start demo_job demo_warm 0 None) k w \<and> announced (drv w) = [0, 1, 0, 1]"
proof -
  obtain k w where run: "replays demo_job (mt_start demo_job demo_warm 0 None) k w" "finished demo_job w"
    by (rule demo_mt_run)
  have "announced (drv w) = map (\<lambda>s. s mod 2) [0..<4]"
    using announced_once_in_order[OF demo_pair_ready demo_warm_ok(1) demo_steps(3) run(1), of 0] run(2) demo_steps by auto
  also have "\<dots> = [0, 1, 0, 1]" by (simp add: upt_rec)
  finally show ?thesis using run(1) by blast
qed

theorem mt_equals_cyclic_witness:
  "\<exists>t k w res p'. replays demo_job (mt_start demo_job demo_warm 0 (Some t)) k w \<and> finished demo_job w
     \<and> replay_cyclic demo_kernel (load_byte demo_kernel 1) (\<lambda>_ _. 0) 2 0 (demo_driver t) = Inr (res, p')
     \<and> sink (drv w) = g_replay_sink p' \<and> mt_result demo_job (wall_ns res) w = Some res"
proof -
  obtain t res p' where t: "trace_open demo_script TRACE_TYPE_REFERENCE = Inr t"
    and r: "replay_cyclic demo_kernel (load_byte demo_kernel 1) (\<lambda>_ _. 0) 2 0 (demo_driver t) = Inr (res, p')"
    by (rule demo_replay_returns)
  have d: "g_replay_sink (demo_driver t) = 0" "ref_trace (demo_driver t) = Some t" "rp_region (demo_driver t) = demo_hot"
    by (simp_all add: demo_driver_def)
  obtain k w where run: "replays demo_job (mt_start demo_job demo_warm 0 (Some t)) k w" "finished demo_job w"
    by (rule demo_mt_run)
  have b: "backing demo_hot = backing demo_pair" by (simp add: backing_def demo_pair_def demo_hot_def geom_def new_chunk_def)
  have "sink (drv w) = g_replay_sink p' \<and> mt_result demo_job (wall_ns res) w = Some res"
    using mt_equals_cyclic[OF demo_pair_ready demo_warm_ok(1) demo_steps(3), of "demo_driver t" k w demo_kernel 1 "\<lambda>_ _. 0" 0 res p']
      run r t b demo_hot_ok demo_steps(2) unfolding d by (auto simp: demo_job_def)
  with run r show ?thesis by blast
qed

end
