(* ===== verification/Replacement.thy ===== *)
theory Replacement
  imports Prelude
begin

text \<open>
  Page replacement in the abstract: what any replacement policy may do with a cache of \<open>k\<close> slots on
  a reference string, what Belady's rule does, and the proof that no policy misses less often. The
  offline solver is shown to follow the rule in theory \<open>Belady\<close>.
\<close>

section \<open>Policies\<close>

text \<open>
  \<open>run k S refs m\<close>: some policy serves \<open>refs\<close> from the cache \<open>S\<close> with \<open>m\<close> misses. After each reference
  the referenced item is cached; a policy may drop any others, and loads nothing else.
\<close>

inductive run :: "nat \<Rightarrow> 'a set \<Rightarrow> 'a list \<Rightarrow> nat \<Rightarrow> bool" for k where
  run_done: "run k S [] 0"
| run_step: "c \<in> S' \<Longrightarrow> S' \<subseteq> insert c S \<Longrightarrow> finite S' \<Longrightarrow> card S' \<le> k \<Longrightarrow> run k S' refs m \<Longrightarrow>
    run k S (c # refs) ((if c \<in> S then 0 else 1) + m)"

inductive_cases run_NilE: "run k S [] m"
inductive_cases run_ConsE: "run k S (c # refs) m"

text \<open>\<open>x\<close> is referenced no later than \<open>y\<close>.\<close>

fun sooner :: "'a list \<Rightarrow> 'a \<Rightarrow> 'a \<Rightarrow> bool" where
  "sooner [] x y = True"
| "sooner (c # refs) x y = (c = x \<or> c \<noteq> y \<and> sooner refs x y)"

definition furthest :: "'a list \<Rightarrow> 'a set \<Rightarrow> 'a \<Rightarrow> bool" where
  "furthest refs S v \<longleftrightarrow> v \<in> S \<and> (\<forall>u\<in>S. u \<noteq> v \<longrightarrow> sooner refs u v)"

text \<open>Belady's rule: evict an item whose next reference is furthest away, and only when full.\<close>

inductive min_run :: "nat \<Rightarrow> 'a set \<Rightarrow> 'a list \<Rightarrow> nat \<Rightarrow> bool" for k where
  min_done: "min_run k S [] 0"
| min_hit: "c \<in> S \<Longrightarrow> min_run k S refs m \<Longrightarrow> min_run k S (c # refs) m"
| min_room: "c \<notin> S \<Longrightarrow> card S < k \<Longrightarrow> min_run k (insert c S) refs m \<Longrightarrow> min_run k S (c # refs) (Suc m)"
| min_evict: "c \<notin> S \<Longrightarrow> card S = k \<Longrightarrow> furthest refs S v \<Longrightarrow> min_run k (insert c (S - {v})) refs m \<Longrightarrow>
    min_run k S (c # refs) (Suc m)"

inductive_cases min_NilE: "min_run k S [] m"
inductive_cases min_ConsE: "min_run k S (c # refs) m"

section \<open>Simulation\<close>

lemma card_swap: "finite S \<Longrightarrow> v \<in> S \<Longrightarrow> c \<notin> S \<Longrightarrow> card (insert c (S - {v})) = card S"
  using card_Suc_Diff1[of S v] by (simp del: card_Diff_insert)

text \<open>A larger cache can do whatever a smaller one does.\<close>

lemma run_larger: "run k T refs m \<Longrightarrow> T \<subseteq> U \<Longrightarrow> \<exists>m'\<le>m. run k U refs m'"
proof (induction arbitrary: U rule: run.induct)
  case (run_done S)
  then show ?case using run.run_done by blast
next
  case (run_step c S' S refs m)
  have "run k U (c # refs) ((if c \<in> U then 0 else 1) + m)"
    using run_step by (intro run.run_step[of c S']) auto
  moreover have "(if c \<in> U then 0 else 1) + m \<le> (if c \<in> S then 0 else 1) + m" using run_step.prems by auto
  ultimately show ?case by blast
qed

text \<open>A cache that lacks one item needs at most one miss more.\<close>

lemma run_lacking: "run k T refs m \<Longrightarrow> T - {y} \<subseteq> U \<Longrightarrow> \<exists>m'\<le>Suc m. run k U refs m'"
proof (induction arbitrary: U rule: run.induct)
  case (run_done S)
  then show ?case using run.run_done by blast
next
  case (run_step c S' S refs m)
  show ?case
  proof (cases "c = y")
    case True
    have "run k U (c # refs) ((if c \<in> U then 0 else 1) + m)"
      using run_step True by (intro run.run_step[of c S']) auto
    moreover have "(if c \<in> U then 0 else 1) + m \<le> Suc ((if c \<in> S then 0 else 1) + m)" by simp
    ultimately show ?thesis by blast
  next
    case False
    from run_step.IH[of "S' - {y}"] obtain m' where m': "m' \<le> Suc m" "run k (S' - {y}) refs m'" by auto
    have "card (S' - {y}) \<le> k" using run_step.hyps(3,4) by (meson card_Diff1_le le_trans)
    then have "run k U (c # refs) ((if c \<in> U then 0 else 1) + m')"
      using run_step False m'(2) by (intro run.run_step[of c "S' - {y}"]) auto
    moreover have "(if c \<in> U then 0 else 1) \<le> (if c \<in> S then 0 else (1 :: nat))"
      using run_step.prems False by auto
    then have "(if c \<in> U then 0 else 1) + m' \<le> Suc ((if c \<in> S then 0 else 1) + m)" using m'(1) by linarith
    ultimately show ?thesis by blast
  qed
qed

text \<open>The exchange: holding the item referenced sooner is never worse.\<close>

lemma run_exchange:
  "run k T refs m \<Longrightarrow> insert x (T - {y}) \<subseteq> U \<Longrightarrow> y \<in> T \<Longrightarrow> x \<notin> T \<Longrightarrow> sooner refs x y \<Longrightarrow>
   \<exists>m'\<le>m. run k U refs m'"
proof (induction arbitrary: U rule: run.induct)
  case (run_done S)
  then show ?case using run.run_done by blast
next
  case (run_step c S' S refs m)
  have xy: "x \<noteq> y" and cy: "c \<noteq> y" using run_step.prems by auto
  show ?case
  proof (cases "c = x")
    case True
    from run_lacking[OF run_step.hyps(5), of y "S' - {y}"] obtain m' where
      m': "m' \<le> Suc m" "run k (S' - {y}) refs m'" by auto
    have "card (S' - {y}) \<le> k" using run_step.hyps(3,4) by (meson card_Diff1_le le_trans)
    then have "run k U (c # refs) ((if c \<in> U then 0 else 1) + m')"
      using run_step.hyps run_step.prems True xy m'(2) by (intro run.run_step[of c "S' - {y}"]) auto
    moreover have "(if c \<in> U then 0 else 1) + m' \<le> (if c \<in> S then 0 else 1) + m"
      using m'(1) True run_step.prems by auto
    ultimately show ?thesis by blast
  next
    case cx: False
    have cost: "(if c \<in> U then 0 else 1) \<le> (if c \<in> S then 0 else (1 :: nat))"
      using run_step.prems cy by auto
    show ?thesis
    proof (cases "y \<in> S'")
      case False
      have "run k U (c # refs) ((if c \<in> U then 0 else 1) + m)"
        using run_step.hyps run_step.prems False by (intro run.run_step[of c S']) auto
      then show ?thesis using add_right_mono[OF cost, of m] by blast
    next
      case True
      have xS: "x \<notin> S'" using run_step.hyps(2) run_step.prems(3) cx by auto
      have "sooner refs x y" using run_step.prems(4) cx by simp
      from run_step.IH[OF subset_refl True xS this] obtain m' where
        m': "m' \<le> m" "run k (insert x (S' - {y})) refs m'" by blast
      have "card (insert x (S' - {y})) = card S'" by (rule card_swap[OF run_step.hyps(3) True xS])
      then have "run k U (c # refs) ((if c \<in> U then 0 else 1) + m')"
        using run_step.hyps run_step.prems cy m'(2) by (intro run.run_step[of c "insert x (S' - {y})"]) auto
      then show ?thesis using add_mono[OF cost m'(1)] by blast
    qed
  qed
qed

section \<open>Optimality\<close>

text \<open>After Belady's choice on a miss, no other choice is ahead.\<close>

lemma min_choice:
  assumes "run k T refs m" "c \<in> T" "T \<subseteq> insert c S" "finite S" "card T \<le> k"
    and "c \<notin> S" "card S = k" "furthest refs S v"
  shows "\<exists>m'\<le>m. run k (insert c (S - {v})) refs m'"
proof (cases "v \<in> T")
  case False
  then have "T \<subseteq> insert c (S - {v})" using assms(3) by auto
  then show ?thesis using run_larger[OF assms(1)] by blast
next
  case True
  have "\<not> S \<subseteq> T"
  proof
    assume "S \<subseteq> T"
    then have "insert c S \<subseteq> T" using assms(2) by simp
    moreover have "finite T" using assms(3,4) finite_subset by blast
    ultimately have "card (insert c S) \<le> card T" by (rule card_mono[rotated])
    then show False using assms(4-7) by simp
  qed
  then obtain u where u: "u \<in> S" "u \<notin> T" by blast
  then have "u \<noteq> v" using True by blast
  then have "sooner refs u v" using assms(8) u(1) by (simp add: furthest_def)
  moreover have "insert u (T - {v}) \<subseteq> insert c (S - {v})" using u(1) assms(3) \<open>u \<noteq> v\<close> by auto
  ultimately show ?thesis using run_exchange[OF assms(1) _ True u(2)] by blast
qed

lemma min_run_optimal:
  "min_run k S refs b \<Longrightarrow> finite S \<Longrightarrow> card S \<le> k \<Longrightarrow> run k S refs m \<Longrightarrow> b \<le> m"
proof (induction arbitrary: m rule: min_run.induct)
  case (min_done S)
  then show ?case by simp
next
  case (min_hit c S refs b)
  from min_hit.prems(3) obtain T m0 where t: "T \<subseteq> insert c S" "run k T refs m0" "m = m0"
    using min_hit.hyps(1) by (auto elim!: run_ConsE)
  have "T \<subseteq> S" using t(1) min_hit.hyps(1) by auto
  from run_larger[OF t(2) this] obtain m' where "m' \<le> m0" "run k S refs m'" by blast
  then show ?case using min_hit.IH[OF min_hit.prems(1,2)] t(3) by force
next
  case (min_room c S refs b)
  from min_room.prems(3) obtain T m0 where t: "T \<subseteq> insert c S" "run k T refs m0" "m = Suc m0"
    using min_room.hyps(1) by (auto elim!: run_ConsE)
  from run_larger[OF t(2,1)] obtain m' where m': "m' \<le> m0" "run k (insert c S) refs m'" by blast
  have "finite (insert c S)" "card (insert c S) \<le> k" using min_room.prems(1) min_room.hyps(1,2) by simp_all
  from min_room.IH[OF this m'(2)] show ?case using m'(1) t(3) by simp
next
  case (min_evict c S refs v b)
  from min_evict.prems(3) obtain T m0 where
    t: "c \<in> T" "T \<subseteq> insert c S" "card T \<le> k" "run k T refs m0" "m = Suc m0"
    using min_evict.hyps(1) by (auto elim!: run_ConsE)
  from min_choice[OF t(4,1,2) min_evict.prems(1) t(3) min_evict.hyps(1-3)] obtain m' where
    m': "m' \<le> m0" "run k (insert c (S - {v})) refs m'" by blast
  have v: "v \<in> S" using min_evict.hyps(3) by (simp add: furthest_def)
  have "card (insert c (S - {v})) = card S"
    using card_swap min_evict.prems(1) min_evict.hyps(1) v by metis
  then have "finite (insert c (S - {v}))" "card (insert c (S - {v})) \<le> k"
    using min_evict.prems(1,2) by simp_all
  from min_evict.IH[OF this m'(2)] show ?case using m'(1) t(5) by simp
qed

lemma min_run_is_run: "min_run k S refs b \<Longrightarrow> finite S \<Longrightarrow> card S \<le> k \<Longrightarrow> 0 < k \<Longrightarrow> run k S refs b"
proof (induction rule: min_run.induct)
  case (min_done S)
  show ?case by (rule run.run_done)
next
  case (min_hit c S refs b)
  then have "run k S (c # refs) ((if c \<in> S then 0 else 1) + b)" by (intro run.run_step[of c S]) auto
  then show ?case using min_hit.hyps(1) by simp
next
  case (min_room c S refs b)
  then have "run k S (c # refs) ((if c \<in> S then 0 else 1) + b)"
    by (intro run.run_step[of c "insert c S"]) auto
  then show ?case using min_room.hyps(1) by simp
next
  case (min_evict c S refs v b)
  have v: "v \<in> S" using min_evict.hyps(3) by (simp add: furthest_def)
  then have card: "card (insert c (S - {v})) = card S"
    using card_swap min_evict.prems(1) min_evict.hyps(1) by metis
  have "run k S (c # refs) ((if c \<in> S then 0 else 1) + b)"
    using min_evict card by (intro run.run_step[of c "insert c (S - {v})"]) auto
  then show ?case using min_evict.hyps(1) by simp
qed

text \<open>Two implementations of the rule may break ties differently and still miss equally often.\<close>

lemma min_run_unique:
  assumes "min_run k S refs a" "min_run k S refs b" "finite S" "card S \<le> k" "0 < k"
  shows "a = b"
  using min_run_optimal[OF assms(1,3,4) min_run_is_run[OF assms(2-5)]]
    min_run_optimal[OF assms(2,3,4) min_run_is_run[OF assms(1,3-5)]] by simp

section \<open>The floor of a cyclic scan\<close>

text \<open>Each item of one pass that was not cached when the pass began is missed in it.\<close>

lemma run_pass:
  "run k S (xs @ ys) m \<Longrightarrow> distinct xs \<Longrightarrow> finite S \<Longrightarrow>
   \<exists>S' m'. run k S' ys m' \<and> m \<ge> m' + card (set xs - S) \<and> finite S' \<and> (xs \<noteq> [] \<longrightarrow> card S' \<le> k) \<and> (xs = [] \<longrightarrow> S' = S)"
proof (induction xs arbitrary: S m)
  case Nil
  then show ?case by auto
next
  case (Cons x xs)
  from Cons.prems(1) obtain T m0 where t: "x \<in> T" "T \<subseteq> insert x S" "finite T" "card T \<le> k"
    "run k T (xs @ ys) m0" "m = (if x \<in> S then 0 else 1) + m0" by (auto elim!: run_ConsE)
  from Cons.IH[OF t(5) _ t(3)] Cons.prems(2) obtain S' m' where
    s: "run k S' ys m'" "m0 \<ge> m' + card (set xs - T)" "finite S'" "xs \<noteq> [] \<longrightarrow> card S' \<le> k" "xs = [] \<longrightarrow> S' = T"
    by auto
  have "set xs - S \<subseteq> set xs - T" using t(2) Cons.prems(2) by auto
  then have "card (set xs - S) \<le> card (set xs - T)" by (intro card_mono) auto
  moreover have "card (set (x # xs) - S) \<le> (if x \<in> S then 0 else 1) + card (set xs - S)"
    by (auto simp: insert_Diff_if card_insert_le_m1 card_insert_if)
  ultimately have "m \<ge> m' + card (set (x # xs) - S)" using s(2) t(6) by linarith
  moreover have "card S' \<le> k" using s(4,5) t(4) by auto
  ultimately show ?case using s(1,3) by auto
qed

lemma run_cyclic:
  assumes "distinct xs" "xs \<noteq> []"
  shows "run k S (concat (replicate p xs)) m \<Longrightarrow> finite S \<Longrightarrow> card S \<le> k \<Longrightarrow> m \<ge> p * (length xs - k)"
proof (induction p arbitrary: S m)
  case 0
  then show ?case by simp
next
  case (Suc p)
  have "concat (replicate (Suc p) xs) = xs @ concat (replicate p xs)" by simp
  with Suc.prems(1) run_pass[OF _ assms(1) Suc.prems(2), of k "concat (replicate p xs)" m] assms(2)
  obtain S' m' where s: "run k S' (concat (replicate p xs)) m'" "m \<ge> m' + card (set xs - S)"
    "finite S'" "card S' \<le> k" by auto
  have "card (set xs - S) \<ge> card (set xs) - card S" by (rule diff_card_le_card_Diff[OF Suc.prems(2)])
  then have "card (set xs - S) \<ge> length xs - k" using Suc.prems(3) assms(1) by (simp add: distinct_card)
  then show ?case using Suc.IH[OF s(1,3,4)] s(2) by simp
qed

lemma run_cyclic_floor:
  assumes "distinct xs" "xs \<noteq> []" "run k {} (concat (replicate p xs)) m" "0 < p"
  shows "m \<ge> length xs + (p - 1) * (length xs - k)"
proof -
  obtain q where p: "p = Suc q" using assms(4) by (cases p) auto
  have "concat (replicate p xs) = xs @ concat (replicate q xs)" by (simp add: p)
  with assms(3) run_pass[OF _ assms(1), of k "{}" "concat (replicate q xs)" m] assms(2)
  obtain S' m' where s: "run k S' (concat (replicate q xs)) m'" "m \<ge> m' + card (set xs)"
    "finite S'" "card S' \<le> k" by auto
  have "m' \<ge> q * (length xs - k)" by (rule run_cyclic[OF assms(1,2) s(1,3,4)])
  then show ?thesis using s(2) p assms(1) by (simp add: distinct_card)
qed


section \<open>Programs that follow the rule\<close>

text \<open>
  The contract of a simulation of Belady's rule: one step per reference, on some state of which the
  cached items and the count of misses can be read off.
\<close>

locale min_simulator =
  fixes refs :: "nat list" and k :: nat and step :: "nat \<Rightarrow> 's \<Rightarrow> 's"
    and cached :: "'s \<Rightarrow> nat set" and missed :: "'s \<Rightarrow> nat" and inv :: "nat \<Rightarrow> 's \<Rightarrow> bool"
  assumes hit: "inv i s \<Longrightarrow> i < length refs \<Longrightarrow> refs ! i \<in> cached s \<Longrightarrow>
      inv (Suc i) (step i s) \<and> cached (step i s) = cached s \<and> missed (step i s) = missed s"
    and room: "inv i s \<Longrightarrow> i < length refs \<Longrightarrow> refs ! i \<notin> cached s \<Longrightarrow> card (cached s) < k \<Longrightarrow>
      inv (Suc i) (step i s) \<and> cached (step i s) = insert (refs ! i) (cached s)
        \<and> missed (step i s) = Suc (missed s)"
    and evict: "inv i s \<Longrightarrow> i < length refs \<Longrightarrow> refs ! i \<notin> cached s \<Longrightarrow> \<not> card (cached s) < k \<Longrightarrow>
      card (cached s) = k \<and> (\<exists>v. furthest (drop (Suc i) refs) (cached s) v
        \<and> inv (Suc i) (step i s) \<and> cached (step i s) = insert (refs ! i) (cached s - {v})
        \<and> missed (step i s) = Suc (missed s))"
begin

lemma follows_rule:
  "inv i s \<Longrightarrow> i \<le> length refs \<Longrightarrow>
   \<exists>b. min_run k (cached s) (drop i refs) b
     \<and> missed (foldl (\<lambda>s i. step i s) s [i..<length refs]) = missed s + b"
proof (induction "length refs - i" arbitrary: i s)
  case 0
  then show ?case by (auto intro: min_done)
next
  case (Suc n)
  then have i: "i < length refs" by simp
  let ?s = "step i s"
  have d: "drop i refs = refs ! i # drop (Suc i) refs" using i by (rule Cons_nth_drop_Suc[symmetric])
  have f: "foldl (\<lambda>s i. step i s) s [i..<length refs] = foldl (\<lambda>s i. step i s) ?s [Suc i..<length refs]"
    using i by (simp add: upt_conv_Cons)
  have IH: "\<exists>b. min_run k (cached ?s) (drop (Suc i) refs) b
      \<and> missed (foldl (\<lambda>s i. step i s) ?s [Suc i..<length refs]) = missed ?s + b" if "inv (Suc i) ?s"
    using Suc.hyps(1)[of "Suc i" ?s] that Suc.hyps(2) i by simp
  show ?case
  proof (cases "refs ! i \<in> cached s")
    case True
    note H = hit[OF Suc.prems(1) i True]
    then show ?thesis using IH min_hit[OF True] unfolding d f by fastforce
  next
    case miss: False
    show ?thesis
    proof (cases "card (cached s) < k")
      case True
      note H = room[OF Suc.prems(1) i miss True]
      then obtain b where "min_run k (insert (refs ! i) (cached s)) (drop (Suc i) refs) b"
        "missed (foldl (\<lambda>s i. step i s) ?s [Suc i..<length refs]) = Suc (missed s) + b" using IH by auto
      then show ?thesis using min_room[OF miss True] unfolding d f by fastforce
    next
      case False
      from evict[OF Suc.prems(1) i miss False] obtain v where c: "card (cached s) = k"
        and v: "furthest (drop (Suc i) refs) (cached s) v" and inv: "inv (Suc i) ?s"
        and e: "cached ?s = insert (refs ! i) (cached s - {v})" "missed ?s = Suc (missed s)" by blast
      obtain b where "min_run k (insert (refs ! i) (cached s - {v})) (drop (Suc i) refs) b"
        "missed (foldl (\<lambda>s i. step i s) ?s [Suc i..<length refs]) = Suc (missed s) + b"
        using IH[OF inv] e by auto
      then show ?thesis using min_evict[OF miss c v] unfolding d f by fastforce
    qed
  qed
qed

end

end
