(* ===== verification/Belady.thy ===== *)
theory Belady
  imports Replacement Trace "HOL-Library.Multiset"
begin

text \<open>
  The offline solver (\<^verbatim>\<open>belady.c\<close>, \<^verbatim>\<open>belady_main.c\<close>): the array heap with
  lazy deletion, the simulation that uses it, the naive simulation it is cross-checked with, the
  detection of cyclic scans and the floor check. Both simulations are shown to follow Belady's rule,
  so both return the least number of misses any policy can achieve.
\<close>

section \<open>The heap\<close>

record heap_entry =
  priority :: nat
  chunk_id :: nat

text \<open>The first \<^verbatim>\<open>size\<close> entries of \<^verbatim>\<open>data\<close>.\<close>

type_synonym heap = "heap_entry list"

definition heap_swap :: "heap \<Rightarrow> nat \<Rightarrow> nat \<Rightarrow> heap" where
  "heap_swap h i j = h[i := h ! j, j := h ! i]"

definition parent :: "nat \<Rightarrow> nat" where
  "parent i = (i - 1) div 2"

lemma parent_less: "0 < i \<Longrightarrow> parent i < i"
  by (simp add: parent_def)

lemma parent_child: "0 < j \<Longrightarrow> parent j = i \<longleftrightarrow> j = 2 * i + 1 \<or> j = 2 * i + 2"
  unfolding parent_def by presburger

function sift_up :: "heap \<Rightarrow> nat \<Rightarrow> heap" where
  "sift_up h i =
     (if i > 0 \<and> \<not> priority (h ! parent i) \<ge> priority (h ! i)
      then sift_up (heap_swap h (parent i) i) (parent i) else h)"
  by pat_completeness auto
termination
  by (relation "measure snd") (auto simp: parent_less)

declare sift_up.simps [simp del]

definition heap_push :: "heap \<Rightarrow> nat \<Rightarrow> nat \<Rightarrow> heap" where
  "heap_push h p c = sift_up (h @ [\<lparr>priority = p, chunk_id = c\<rparr>]) (length h)"

definition largest_of :: "heap \<Rightarrow> nat \<Rightarrow> nat" where
  "largest_of h i =
     (let l = 2 * i + 1; r = 2 * i + 2;
          m = (if l < length h \<and> priority (h ! l) > priority (h ! i) then l else i)
      in if r < length h \<and> priority (h ! r) > priority (h ! m) then r else m)"

lemma largest_of_cases:
  "largest_of h i = i \<or> (parent (largest_of h i) = i \<and> i < largest_of h i \<and> largest_of h i < length h)"
  by (auto simp: largest_of_def Let_def parent_child)

function sift_down :: "heap \<Rightarrow> nat \<Rightarrow> heap" where
  "sift_down h i =
     (let m = largest_of h i in if m = i then h else sift_down (heap_swap h i m) m)"
  by pat_completeness auto
termination
proof (relation "measure (\<lambda>(h, i). length h - i)", goal_cases)
  case (2 h i m)
  then have "i < largest_of h i" "largest_of h i < length h" using largest_of_cases[of h i] by auto
  then show ?case using 2 by (simp add: heap_swap_def)
qed simp

declare sift_down.simps [simp del]

definition heap_pop_max :: "heap \<Rightarrow> (heap_entry \<times> heap) option" where
  "heap_pop_max h = (if h = [] then None else Some (h ! 0, sift_down ((butlast h)[0 := last h]) 0))"

lemma sift_down_length: "length (sift_down h i) = length h"
proof (induction h i rule: sift_down.induct)
  case (1 h i)
  show ?case
  proof (cases "largest_of h i = i")
    case True
    then show ?thesis by (subst sift_down.simps) (simp add: Let_def)
  next
    case False
    from "1.IH"[OF refl False] show ?thesis
      using False by (subst sift_down.simps) (simp add: Let_def heap_swap_def)
  qed
qed

lemma heap_pop_shorter: "heap_pop_max h = Some (e, h') \<Longrightarrow> length h' < length h"
  by (auto simp: heap_pop_max_def sift_down_length split: if_splits)

definition heap_ok :: "heap \<Rightarrow> bool" where
  "heap_ok h \<longleftrightarrow> (\<forall>j<length h. 0 < j \<longrightarrow> priority (h ! j) \<le> priority (h ! parent j))"

text \<open>Ordered but for the edge above \<open>i\<close>, and but for the edges below \<open>i\<close>.\<close>

definition ok_above :: "heap \<Rightarrow> nat \<Rightarrow> bool" where
  "ok_above h i \<longleftrightarrow> (\<forall>j<length h. 0 < j \<longrightarrow>
     (j \<noteq> i \<longrightarrow> priority (h ! j) \<le> priority (h ! parent j))
     \<and> (parent j = i \<and> 0 < i \<longrightarrow> priority (h ! j) \<le> priority (h ! parent i)))"

definition ok_below :: "heap \<Rightarrow> nat \<Rightarrow> bool" where
  "ok_below h i \<longleftrightarrow> (\<forall>j<length h. 0 < j \<longrightarrow>
     (parent j \<noteq> i \<longrightarrow> priority (h ! j) \<le> priority (h ! parent j))
     \<and> (parent j = i \<and> 0 < i \<longrightarrow> priority (h ! j) \<le> priority (h ! parent i)))"

lemma heap_swap_length [simp]: "length (heap_swap h i j) = length h"
  by (simp add: heap_swap_def)

lemma heap_swap_mset: "i < length h \<Longrightarrow> j < length h \<Longrightarrow> mset (heap_swap h i j) = mset h"
  unfolding heap_swap_def by (rule mset_swap)

lemma heap_swap_nth:
  "i < length h \<Longrightarrow> j < length h \<Longrightarrow>
   heap_swap h i j ! k = (if k = j then h ! i else if k = i then h ! j else h ! k)"
  by (auto simp: heap_swap_def nth_list_update)

lemma sift_up_step:
  assumes ok: "ok_above h i" and i: "i < length h" "0 < i" and lt: "priority (h ! parent i) < priority (h ! i)"
  shows "ok_above (heap_swap h (parent i) i) (parent i)"
proof -
  let ?p = "parent i" and ?h = "heap_swap h (parent i) i"
  have pi: "?p < i" using i(2) by (rule parent_less)
  have pl: "?p < length h" using pi i(1) by (rule less_trans)
  note N = heap_swap_nth[OF pl i(1)]
  have up: "priority (h ! j) \<le> priority (h ! parent j)" if "j < length h" "0 < j" "j \<noteq> i" for j
    using ok that unfolding ok_above_def by blast
  have over: "priority (h ! j) \<le> priority (h ! ?p)" if "j < length h" "0 < j" "parent j = i" for j
    using ok that i(2) unfolding ok_above_def by blast
  have edge: "priority (?h ! j) \<le> priority (?h ! parent j)" if j: "j < length h" "0 < j" "j \<noteq> ?p" for j
  proof (cases "j = i")
    case True
    have "?h ! i = h ! ?p" "?h ! ?p = h ! i" using N pi by auto
    then show ?thesis using True lt by simp
  next
    case ji: False
    then have hj: "?h ! j = h ! j" using N j(3) by auto
    consider "parent j = i" | "parent j = ?p" | "parent j \<noteq> i" "parent j \<noteq> ?p" by blast
    then show ?thesis
    proof cases
      case 1
      then have "?h ! parent j = h ! ?p" using N by auto
      then show ?thesis using over[OF j(1,2) 1] hj by simp
    next
      case 2
      then have "?h ! parent j = h ! i" using N pi by auto
      then show ?thesis using up[OF j(1,2) ji] 2 lt hj by simp
    next
      case 3
      then have "?h ! parent j = h ! parent j" using N by auto
      then show ?thesis using up[OF j(1,2) ji] hj by simp
    qed
  qed
  have skip: "priority (?h ! j) \<le> priority (?h ! parent ?p)"
    if j: "j < length h" "0 < j" "parent j = ?p" "0 < ?p" for j
  proof -
    have pp: "parent ?p < ?p" using j(4) by (rule parent_less)
    have jp: "?p < j" using parent_less[OF j(2)] j(3) by simp
    have top: "?h ! parent ?p = h ! parent ?p" using N pp pi by auto
    have pt: "priority (h ! ?p) \<le> priority (h ! parent ?p)" by (rule up[OF pl j(4)]) (use pi in simp)
    show ?thesis
    proof (cases "j = i")
      case True
      then have "?h ! j = h ! ?p" using N by auto
      then show ?thesis using pt top by simp
    next
      case False
      then have "?h ! j = h ! j" using N jp by auto
      moreover have "priority (h ! j) \<le> priority (h ! ?p)" using up[OF j(1,2) False] j(3) by simp
      ultimately show ?thesis using pt top by simp
    qed
  qed
  show ?thesis unfolding ok_above_def using edge skip by simp
qed

lemma sift_up_ok:
  "i < length h \<Longrightarrow> ok_above h i \<Longrightarrow> heap_ok (sift_up h i) \<and> mset (sift_up h i) = mset h"
proof (induction h i rule: sift_up.induct)
  case (1 h i)
  let ?p = "parent i" and ?h = "heap_swap h (parent i) i"
  show ?case
  proof (cases "i > 0 \<and> \<not> priority (h ! ?p) \<ge> priority (h ! i)")
    case False
    have "priority (h ! j) \<le> priority (h ! parent j)" if "j < length h" "0 < j" for j
      using "1.prems"(2) that False unfolding ok_above_def by (cases "j = i") auto
    then have "heap_ok h" by (simp add: heap_ok_def)
    moreover have "sift_up h i = h" using False by (subst sift_up.simps) (simp only: if_False)
    ultimately show ?thesis by simp
  next
    case True
    have pl: "?p < length h" using parent_less[of i] True "1.prems"(1) by simp
    have "ok_above ?h ?p" using True by (intro sift_up_step[OF "1.prems"(2,1)]) simp_all
    then have "heap_ok (sift_up ?h ?p) \<and> mset (sift_up ?h ?p) = mset h"
      using "1.IH"[OF True] pl heap_swap_mset[OF pl "1.prems"(1)] by simp
    moreover have "sift_up h i = sift_up ?h ?p" using True by (subst sift_up.simps) (simp only: simp_thms if_True)
    ultimately show ?thesis by (simp only:)
  qed
qed

lemma sift_down_ok:
  "ok_below h i \<Longrightarrow> i < length h \<or> h = [] \<Longrightarrow> heap_ok (sift_down h i) \<and> mset (sift_down h i) = mset h"
proof (induction h i rule: sift_down.induct)
  case (1 h i)
  let ?m = "largest_of h i" and ?h = "heap_swap h i (largest_of h i)"
  have dom: "priority (h ! j) \<le> priority (h ! ?m)" if "j < length h" "0 < j" "parent j = i" for j
  proof -
    have "j = 2 * i + 1 \<or> j = 2 * i + 2" using that parent_child by blast
    then show ?thesis using that(1) by (auto simp: largest_of_def Let_def)
  qed
  show ?case
  proof (cases "?m = i")
    case True
    have "heap_ok h" unfolding heap_ok_def
    proof (intro allI impI)
      fix j assume j: "j < length h" "0 < j"
      show "priority (h ! j) \<le> priority (h ! parent j)"
      proof (cases "parent j = i")
        case pj: True
        then show ?thesis using dom[OF j pj] True by simp
      next
        case False
        then show ?thesis using "1.prems"(1) j by (simp add: ok_below_def)
      qed
    qed
    then show ?thesis using True by (simp add: sift_down.simps)
  next
    case False
    then have m: "parent ?m = i" "i < ?m" "?m < length h" using largest_of_cases[of h i] by auto
    have il: "i < length h" using m by simp
    note N = heap_swap_nth[OF il m(3)]
    have mi: "priority (h ! i) \<le> priority (h ! ?m)" by (auto simp: largest_of_def Let_def)
    have pi: "0 < i \<Longrightarrow> parent i < i" by (rule parent_less)
    have "ok_below ?h ?m"
      unfolding ok_below_def
    proof (intro allI impI conjI)
      fix j assume j: "j < length ?h" "0 < j"
      show "priority (?h ! j) \<le> priority (?h ! parent j)" if pj: "parent j \<noteq> ?m"
      proof (cases "parent j = i")
        case True
        then show ?thesis using N dom[of j] j mi m by auto
      next
        case False
        then have ph: "priority (h ! j) \<le> priority (h ! parent j)" using "1.prems"(1) j by (simp add: ok_below_def)
        show ?thesis
        proof (cases "j = i")
          case True
          then have "priority (h ! ?m) \<le> priority (h ! parent i)"
            using "1.prems"(1) m j by (simp add: ok_below_def)
          then show ?thesis using N True False pj m by auto
        next
          case ji: False
          have "j \<noteq> ?m" using False m(1) by auto
          then show ?thesis using N ji False pj ph by auto
        qed
      qed
      assume jm: "parent j = ?m \<and> 0 < ?m"
      have "priority (h ! j) \<le> priority (h ! ?m)" using "1.prems"(1) j jm m by (auto simp: ok_below_def)
      moreover have "j \<noteq> i" "j \<noteq> ?m" using jm m parent_less[OF j(2)] by auto
      ultimately show "priority (?h ! j) \<le> priority (?h ! parent ?m)" using N m by auto
    qed
    then have "heap_ok (sift_down ?h ?m) \<and> mset (sift_down ?h ?m) = mset h"
      using "1.IH"[OF refl False] m heap_swap_mset[OF il m(3)] by simp
    moreover have "sift_down h i = sift_down ?h ?m"
      using False by (subst sift_down.simps) (simp only: Let_def if_False)
    ultimately show ?thesis by (simp only:)
  qed
qed

lemma heap_root_max:
  assumes "heap_ok h"
  shows "j < length h \<Longrightarrow> priority (h ! j) \<le> priority (h ! 0)"
proof (induction j rule: less_induct)
  case (less j)
  show ?case
  proof (cases "j = 0")
    case False
    then have "priority (h ! j) \<le> priority (h ! parent j)" using assms less.prems by (simp add: heap_ok_def)
    also have "\<dots> \<le> priority (h ! 0)" using less.IH[of "parent j"] parent_less[of j] False less.prems by simp
    finally show ?thesis .
  qed simp
qed

lemma heap_push_props:
  assumes "heap_ok h"
  shows "heap_ok (heap_push h p c)" and "mset (heap_push h p c) = add_mset \<lparr>priority = p, chunk_id = c\<rparr> (mset h)"
proof -
  let ?h = "h @ [\<lparr>priority = p, chunk_id = c\<rparr>]"
  have par: "parent j < length h" if "j < length ?h" "0 < j" for j using that parent_less[of j] by simp
  have "ok_above ?h (length h)"
    unfolding ok_above_def
  proof (intro allI impI conjI)
    fix j assume j: "j < length ?h" "0 < j"
    show "priority (?h ! j) \<le> priority (?h ! parent j)" if "j \<noteq> length h"
      using assms j that par[OF j] by (simp add: heap_ok_def nth_append)
    show "priority (?h ! j) \<le> priority (?h ! parent (length h))" if "parent j = length h \<and> 0 < length h"
      using that par[OF j] by simp
  qed
  then show "heap_ok (heap_push h p c)"
    "mset (heap_push h p c) = add_mset \<lparr>priority = p, chunk_id = c\<rparr> (mset h)"
    using sift_up_ok[of "length h" ?h] by (simp_all add: heap_push_def)
qed

lemma heap_pop_props:
  assumes "heap_ok h" "heap_pop_max h = Some (e, h')"
  shows "heap_ok h'" and "mset h = add_mset e (mset h')" and "\<forall>f\<in>#mset h. priority f \<le> priority e"
proof -
  have ne: "h \<noteq> []" and e: "e = h ! 0" and h': "h' = sift_down ((butlast h)[0 := last h]) 0"
    using assms(2) by (auto simp: heap_pop_max_def split: if_splits)
  show "\<forall>f\<in>#mset h. priority f \<le> priority e"
    using heap_root_max[OF assms(1)] by (auto simp: e in_set_conv_nth)
  let ?b = "(butlast h)[0 := last h]"
  have "ok_below ?b 0"
    unfolding ok_below_def
  proof (intro allI impI conjI)
    fix j assume j: "j < length ?b" "0 < j"
    show "priority (?b ! j) \<le> priority (?b ! parent j)" if "parent j \<noteq> 0"
      using assms(1) j that parent_less[OF j(2)] by (simp add: heap_ok_def nth_butlast)
    show "priority (?b ! j) \<le> priority (?b ! parent 0)" if "parent j = 0 \<and> 0 < (0 :: nat)" using that by simp
  qed
  moreover have "0 < length ?b \<or> ?b = []" by (cases ?b) simp_all
  ultimately have s: "heap_ok h'" "mset h' = mset ?b" using sift_down_ok[of ?b 0] by (simp_all add: h')
  show "heap_ok h'" by (rule s(1))
  have "mset h = add_mset (h ! 0) (mset ?b)"
  proof (cases "butlast h")
    case Nil
    then have "h = [last h]" using append_butlast_last_id[OF ne] by simp
    then show ?thesis using Nil by (metis list.set_intros(1) list_update.simps(1) mset.simps nth_Cons_0)
  next
    case (Cons x xs)
    have hx: "h = x # xs @ [last h]" using append_butlast_last_id[OF ne] Cons by simp
    have "mset h = add_mset x (mset xs + {#last h#})" by (subst hx) simp
    moreover have "h ! 0 = x" by (subst hx) simp
    ultimately show ?thesis using Cons by simp
  qed
  then show "mset h = add_mset e (mset h')" using s(2) e by simp
qed

section \<open>Lazy deletion\<close>

text \<open>
  The contract of the priority queue: a bag of entries of which the pop returns one of greatest
  priority. With it, discarding popped entries that are not live never loses a live one, and the
  first live entry popped has the greatest priority of all live ones.
\<close>

locale max_queue =
  fixes inv :: "'q \<Rightarrow> bool" and items :: "'q \<Rightarrow> heap_entry multiset"
    and push :: "'q \<Rightarrow> nat \<Rightarrow> nat \<Rightarrow> 'q" and pop :: "'q \<Rightarrow> (heap_entry \<times> 'q) option"
  assumes push_inv: "inv q \<Longrightarrow> inv (push q p c)"
    and push_items: "inv q \<Longrightarrow> items (push q p c) = add_mset \<lparr>priority = p, chunk_id = c\<rparr> (items q)"
    and pop_None: "inv q \<Longrightarrow> pop q = None \<longleftrightarrow> items q = {#}"
    and pop_inv: "inv q \<Longrightarrow> pop q = Some (e, q') \<Longrightarrow> inv q'"
    and pop_items: "inv q \<Longrightarrow> pop q = Some (e, q') \<Longrightarrow> items q = add_mset e (items q')"
    and pop_max: "inv q \<Longrightarrow> pop q = Some (e, q') \<Longrightarrow> f \<in># items q \<Longrightarrow> priority f \<le> priority e"
begin

lemma live_pops: "inv q \<Longrightarrow> f \<in># items q \<Longrightarrow> \<exists>e q'. pop q = Some (e, q')"
  using pop_None[of q] by (cases "pop q") auto

lemma stale_keeps: "inv q \<Longrightarrow> pop q = Some (e, q') \<Longrightarrow> f \<in># items q \<Longrightarrow> f \<noteq> e \<Longrightarrow> f \<in># items q'"
  using pop_items[of q e q'] by auto

lemma shrinks: "inv q \<Longrightarrow> pop q = Some (e, q') \<Longrightarrow> items q' \<subseteq># items q"
  using pop_items[of q e q'] by auto

end

interpretation lazy_heap: max_queue heap_ok mset heap_push heap_pop_max
  by unfold_locales (auto simp: heap_push_props heap_pop_max_def dest: heap_pop_props)


section \<open>The simulation\<close>

definition NEVER :: nat where
  "NEVER = 18446744073709551615"

record belady_result =
  res_misses :: nat
  res_total_refs :: nat

text \<open>The arrays and counters of \<^verbatim>\<open>belady_simulate\<close>.\<close>

record solver =
  read_ptr :: "nat list"
  current_priority :: "nat list"
  in_cache :: "bool list"
  pq :: heap
  cache_size :: nat
  misses :: nat

text \<open>\<^verbatim>\<open>if (ref[i] + 1 > n_chunks) n_chunks = ref[i] + 1\<close>, a 32-bit addition.\<close>

definition count_chunks :: "nat list \<Rightarrow> nat" where
  "count_chunks ref = foldl (\<lambda>n x. if wrap32 (x + 1) > n then wrap32 (x + 1) else n) 0 ref"

text \<open>The positions of each chunk, filled in one pass over the references.\<close>

definition occurrences :: "nat list \<Rightarrow> nat \<Rightarrow> nat list list" where
  "occurrences ref n = foldl (\<lambda>occ i. occ[ref ! i := occ ! (ref ! i) @ [i]]) (replicate n []) [0..<length ref]"

text \<open>Pop until a live entry comes up; evict its chunk.\<close>

definition live :: "solver \<Rightarrow> heap_entry \<Rightarrow> bool" where
  "live s e \<longleftrightarrow> in_cache s ! chunk_id e \<and> current_priority s ! chunk_id e = priority e"

definition pop_step :: "heap_entry \<Rightarrow> heap \<Rightarrow> solver \<Rightarrow> solver" where
  "pop_step e h s =
     (if live s e
      then s\<lparr>pq := h, in_cache := (in_cache s)[chunk_id e := False],
              cache_size := wrap32 (cache_size s + 4294967295)\<rparr>
      else s\<lparr>pq := h\<rparr>)"

function pop_victim :: "solver \<Rightarrow> solver" where
  "pop_victim s =
     (case heap_pop_max (pq s) of
        None \<Rightarrow> s
      | Some (e, h) \<Rightarrow> if live s e then pop_step e h s else pop_victim (pop_step e h s))"
  by pat_completeness auto
termination
  by (relation "measure (\<lambda>s. length (pq s))") (auto simp: pop_step_def dest: heap_pop_shorter)

declare pop_victim.simps [simp del]

definition next_position :: "nat list \<Rightarrow> nat \<Rightarrow> nat" where
  "next_position occ p = (if p < length occ then occ ! p else NEVER)"

definition simulate_step :: "nat list \<Rightarrow> nat list list \<Rightarrow> nat \<Rightarrow> nat \<Rightarrow> solver \<Rightarrow> solver" where
  "simulate_step ref occurrence capacity i s =
     (let c = ref ! i;
          s1 = s\<lparr>read_ptr := (read_ptr s)[c := read_ptr s ! c + 1]\<rparr>;
          next_pos = next_position (occurrence ! c) (read_ptr s1 ! c)
      in if in_cache s1 ! c
         then s1\<lparr>current_priority := (current_priority s1)[c := next_pos], pq := heap_push (pq s1) next_pos c\<rparr>
         else let s2 = s1\<lparr>misses := misses s1 + 1\<rparr>;
                  s3 = (if cache_size s2 = capacity then pop_victim s2 else s2)
              in if cache_size s3 < capacity
                 then s3\<lparr>in_cache := (in_cache s3)[c := True], cache_size := wrap32 (cache_size s3 + 1),
                         current_priority := (current_priority s3)[c := next_pos],
                         pq := heap_push (pq s3) next_pos c\<rparr>
                 else s3)"

definition solver_init :: "nat \<Rightarrow> solver" where
  "solver_init n = \<lparr>read_ptr = replicate n 0, current_priority = replicate n 0, in_cache = replicate n False,
     pq = [], cache_size = 0, misses = 0\<rparr>"

definition belady_simulate :: "nat list \<Rightarrow> nat \<Rightarrow> belady_result" where
  "belady_simulate ref capacity =
     (if ref = [] then \<lparr>res_misses = 0, res_total_refs = 0\<rparr>
      else let n_chunks = count_chunks ref; occurrence = occurrences ref n_chunks;
               s = foldl (\<lambda>s i. simulate_step ref occurrence capacity i s) (solver_init n_chunks) [0..<length ref]
           in \<lparr>res_misses = misses s, res_total_refs = length ref\<rparr>)"

section \<open>The naive reference\<close>

definition naive_next_occurrence :: "nat list \<Rightarrow> nat \<Rightarrow> nat \<Rightarrow> nat" where
  "naive_next_occurrence ref from_pos chunk =
     (case List.find (\<lambda>j. ref ! j = chunk) [from_pos + 1..<length ref] of Some j \<Rightarrow> j | None \<Rightarrow> NEVER)"

record naive =
  slots :: "nat list"
  used :: "bool list"
  n_misses :: nat

text \<open>The first free slot, else the slot whose chunk is used furthest in the future.\<close>

definition naive_slot :: "nat list \<Rightarrow> nat \<Rightarrow> nat \<Rightarrow> naive \<Rightarrow> nat" where
  "naive_slot ref capacity i s =
     (case List.find (\<lambda>k. \<not> used s ! k) [0..<capacity] of
        Some k \<Rightarrow> k
      | None \<Rightarrow>
          (case pick (>) (\<lambda>_. True) (\<lambda>k. naive_next_occurrence ref i (slots s ! k)) [0..<capacity] None of
             Some (k, _) \<Rightarrow> k | None \<Rightarrow> 0))"

definition naive_step :: "nat list \<Rightarrow> nat \<Rightarrow> nat \<Rightarrow> naive \<Rightarrow> naive" where
  "naive_step ref capacity i s =
     (let c = ref ! i
      in case List.find (\<lambda>k. used s ! k \<and> slots s ! k = c) [0..<capacity] of
           Some k \<Rightarrow> s
         | None \<Rightarrow> let slot = naive_slot ref capacity i s
                   in \<lparr>slots = (slots s)[slot := c], used = (used s)[slot := True], n_misses = n_misses s + 1\<rparr>)"

text \<open>With no slot at all the code writes past a zero-sized array: \<open>None\<close>.\<close>

definition naive_belady :: "nat list \<Rightarrow> nat \<Rightarrow> nat option" where
  "naive_belady ref capacity =
     (if capacity = 0 \<and> ref \<noteq> [] then None
      else Some (n_misses (foldl (\<lambda>s i. naive_step ref capacity i s)
             \<lparr>slots = replicate capacity 0, used = replicate capacity False, n_misses = 0\<rparr> [0..<length ref])))"

section \<open>The floor check\<close>

text \<open>The period and the number of passes of a strict cyclic scan; both are 32-bit.\<close>

definition detect_cyclic_scan :: "nat list \<Rightarrow> (nat \<times> nat) option" where
  "detect_cyclic_scan ref =
     (if ref = [] then None
      else let n = wrap32 (foldl (\<lambda>m x. if x > m then x else m) 0 ref + 1)
           in if n = 0 \<or> length ref mod n \<noteq> 0 then None
              else let passes = wrap32 (length ref div n)
                   in if passes < 1 then None
                      else if \<not> list_all (\<lambda>i. ref ! i = ref ! (i mod n)) [0..<length ref] then None
                      else if \<not> (list_all (\<lambda>i. ref ! i < n) [0..<n] \<and> distinct (take n ref)) then None
                      else Some (n, passes))"

definition cyclic_floor :: "nat \<Rightarrow> nat \<Rightarrow> nat \<Rightarrow> nat" where
  "cyclic_floor n passes k = n + (passes - 1) * (if k < n then n - k else 0)"

text \<open>\<open>None\<close> is the abort, \<open>Some b\<close> the result: whether the check applied.\<close>

definition check_cyclic_floor_or_abort :: "nat list \<Rightarrow> nat \<Rightarrow> nat \<Rightarrow> bool option" where
  "check_cyclic_floor_or_abort ref capacity m =
     (case detect_cyclic_scan ref of
        None \<Rightarrow> Some False
      | Some (n, passes) \<Rightarrow> if m < cyclic_floor n passes capacity then None else Some True)"

text \<open>
  \<^verbatim>\<open>main\<close>, on the bytes of the trace, after the arguments are parsed: the
  references, the misses and the bytes of the optimum. The capacity is the quotient truncated to 32
  bits, the product of misses and chunk size to 64.
\<close>

datatype solver_run =
  Solver_usage | Solver_refused solver_failure | Solver_empty | Solver_floor | Solver_opt nat nat nat

definition belady_main :: "u8 list \<Rightarrow> nat \<Rightarrow> nat \<Rightarrow> solver_run" where
  "belady_main bytes chunk_size budget =
     (if chunk_size = 0 then Solver_usage
      else let capacity = wrap32 (budget div chunk_size)
           in case load_reference_string bytes of
                Inl e \<Rightarrow> Solver_refused e
              | Inr ids \<Rightarrow>
                  let ref = map unat ids
                  in if ref = [] then Solver_empty
                     else let res = belady_simulate ref capacity
                          in if check_cyclic_floor_or_abort ref capacity (res_misses res) = None then Solver_floor
                             else Solver_opt (res_total_refs res) (res_misses res)
                                    (res_misses res * chunk_size mod 18446744073709551616))"


section \<open>Next uses\<close>

definition next_at :: "nat list \<Rightarrow> nat \<Rightarrow> nat \<Rightarrow> nat" where
  "next_at ref i c = (case List.find (\<lambda>j. ref ! j = c) [i..<length ref] of Some j \<Rightarrow> j | None \<Rightarrow> NEVER)"

lemma naive_next_at: "naive_next_occurrence ref i c = next_at ref (Suc i) c"
  by (simp add: naive_next_occurrence_def next_at_def)

lemma next_at_step:
  "i < length ref \<Longrightarrow> next_at ref i c = (if ref ! i = c then i else next_at ref (Suc i) c)"
  by (simp add: next_at_def upt_conv_Cons)

lemma next_at_ge: "length ref \<le> NEVER \<Longrightarrow> i \<le> length ref \<Longrightarrow> i \<le> next_at ref i c"
  by (auto simp: next_at_def find_Some_iff split: option.split dest!: nth_mem[of _ "[i..<length ref]"])

lemma sooner_next:
  "length ref \<le> NEVER \<Longrightarrow> i \<le> length ref \<Longrightarrow> u \<noteq> v \<Longrightarrow> next_at ref i u \<le> next_at ref i v \<Longrightarrow>
   sooner (drop i ref) u v"
proof (induction "length ref - i" arbitrary: i)
  case 0
  then show ?case by simp
next
  case (Suc n)
  then have i: "i < length ref" by simp
  have d: "drop i ref = ref ! i # drop (Suc i) ref" using i by (rule Cons_nth_drop_Suc[symmetric])
  have ge: "Suc i \<le> next_at ref (Suc i) u" using next_at_ge Suc.prems(1) i by simp
  have IH: "next_at ref (Suc i) u \<le> next_at ref (Suc i) v \<Longrightarrow> sooner (drop (Suc i) ref) u v"
    using Suc.hyps(1)[of "Suc i"] Suc.hyps(2) Suc.prems(1,3) i by simp
  show ?case using Suc.prems(3,4) ge IH next_at_step[OF i, of u] next_at_step[OF i, of v]
    unfolding d by (auto split: if_splits)
qed

lemma furthest_next:
  assumes "length ref \<le> NEVER" "i \<le> length ref" "v \<in> S" "\<forall>u\<in>S. next_at ref i u \<le> next_at ref i v"
  shows "furthest (drop i ref) S v"
  using assms sooner_next[OF assms(1,2)] by (simp add: furthest_def)

lemma count_chunks_bound:
  assumes "\<forall>x\<in>set ref. x < 4294967295"
  shows "\<forall>x\<in>set ref. x < count_chunks ref"
proof -
  let ?f = "\<lambda>n x. if wrap32 (x + 1) > n then wrap32 (x + 1) else n"
  have "(\<forall>x\<in>set ref. x < foldl ?f 0 ref)" using assms
  proof (induction ref rule: rev_induct)
    case (snoc x xs)
    have w: "wrap32 (Suc x) = Suc x" using snoc.prems by simp
    have "\<forall>y\<in>set xs. y < foldl ?f 0 xs" using snoc by simp
    then show ?case using w by fastforce
  qed simp
  then show ?thesis by (simp add: count_chunks_def)
qed

lemma occurrences_nth:
  assumes "\<forall>x\<in>set ref. x < n"
  shows "length (occurrences ref n) = n"
    and "c < n \<Longrightarrow> occurrences ref n ! c = filter (\<lambda>j. ref ! j = c) [0..<length ref]"
proof -
  let ?f = "\<lambda>occ i. occ[ref ! i := occ ! (ref ! i) @ [i]]"
  have "k \<le> length ref \<Longrightarrow> length (foldl ?f (replicate n []) [0..<k]) = n
      \<and> (\<forall>c<n. foldl ?f (replicate n []) [0..<k] ! c = filter (\<lambda>j. ref ! j = c) [0..<k])" for k
  proof (induction k)
    case (Suc k)
    then have "ref ! k < n" using assms by simp
    then show ?case using Suc by (auto simp: nth_list_update)
  qed simp
  from this[OF order_refl] show "length (occurrences ref n) = n"
    "c < n \<Longrightarrow> occurrences ref n ! c = filter (\<lambda>j. ref ! j = c) [0..<length ref]"
    by (simp_all add: occurrences_def)
qed

lemma find_filter: "List.find P xs = (case filter P xs of [] \<Rightarrow> None | x # _ \<Rightarrow> Some x)"
  by (induction xs) auto

text \<open>The read pointer, advanced past position \<open>i\<close>, points at the next use.\<close>

lemma next_pos_correct:
  assumes "i < length ref" "ref ! i = c"
  defines "occ \<equiv> filter (\<lambda>j. ref ! j = c) [0..<length ref]"
    and "rp \<equiv> length (filter (\<lambda>j. ref ! j = c) [0..<i]) + 1"
  shows "(if rp < length occ then occ ! rp else NEVER) = next_at ref (Suc i) c"
    and "rp = length (filter (\<lambda>j. ref ! j = c) [0..<Suc i])"
proof -
  let ?P = "\<lambda>j. ref ! j = c"
  show rp: "rp = length (filter ?P [0..<Suc i])" using assms(2) by (simp add: rp_def)
  have "[0..<length ref] = [0..<Suc i] @ [Suc i..<length ref]"
    using upt_add_eq_append[of 0 "Suc i" "length ref - Suc i"] le_add_diff_inverse[OF Suc_leI[OF assms(1)]]
    by (simp only: le0)
  then have "occ = filter ?P [0..<Suc i] @ filter ?P [Suc i..<length ref]" unfolding occ_def by (metis filter_append)
  then have occ: "occ = filter ?P [0..<Suc i] @ filter ?P [Suc i..<length ref]" .
  show "(if rp < length occ then occ ! rp else NEVER) = next_at ref (Suc i) c"
    unfolding next_at_def find_filter
    using rp occ by (cases "filter ?P [Suc i..<length ref]") (auto simp: nth_append)
qed

section \<open>The naive simulation follows the rule\<close>

definition naive_cached :: "naive \<Rightarrow> nat set" where
  "naive_cached s = {slots s ! k |k. k < length (slots s) \<and> used s ! k}"

definition naive_inv :: "nat list \<Rightarrow> nat \<Rightarrow> nat \<Rightarrow> naive \<Rightarrow> bool" where
  "naive_inv ref capacity i s \<longleftrightarrow> 0 < capacity \<and> length ref \<le> NEVER
     \<and> length (slots s) = capacity \<and> length (used s) = capacity
     \<and> (\<forall>k<capacity. \<forall>l<capacity. used s ! k \<longrightarrow> used s ! l \<longrightarrow> slots s ! k = slots s ! l \<longrightarrow> k = l)"

lemma naive_card:
  assumes "naive_inv ref capacity i s"
  shows "card (naive_cached s) = card {k. k < capacity \<and> used s ! k}"
proof -
  have "naive_cached s = (\<lambda>k. slots s ! k) ` {k. k < capacity \<and> used s ! k}"
    using assms by (auto simp: naive_cached_def naive_inv_def)
  moreover have "inj_on (\<lambda>k. slots s ! k) {k. k < capacity \<and> used s ! k}"
    using assms by (auto simp: inj_on_def naive_inv_def)
  ultimately show ?thesis by (simp add: card_image)
qed

lemma naive_full:
  assumes "naive_inv ref capacity i s"
  shows "card (naive_cached s) < capacity \<longleftrightarrow> (\<exists>k<capacity. \<not> used s ! k)" and "card (naive_cached s) \<le> capacity"
proof -
  let ?U = "{k. k < capacity \<and> used s ! k}"
  have sub: "?U \<subseteq> {..<capacity}" by auto
  show "card (naive_cached s) \<le> capacity" using card_mono[OF _ sub] naive_card[OF assms] by simp
  show "card (naive_cached s) < capacity \<longleftrightarrow> (\<exists>k<capacity. \<not> used s ! k)"
  proof
    assume "card (naive_cached s) < capacity"
    then have "?U \<noteq> {..<capacity}" using naive_card[OF assms] by (metis card_lessThan less_irrefl)
    then show "\<exists>k<capacity. \<not> used s ! k" using sub by blast
  next
    assume "\<exists>k<capacity. \<not> used s ! k"
    then have "?U \<subset> {..<capacity}" using sub by blast
    then have "card ?U < card {..<capacity}" by (intro psubset_card_mono) simp_all
    then show "card (naive_cached s) < capacity" using naive_card[OF assms] by simp
  qed
qed

lemma naive_found:
  assumes "naive_inv ref capacity i s"
  shows "ref ! i \<in> naive_cached s \<longleftrightarrow> List.find (\<lambda>k. used s ! k \<and> slots s ! k = ref ! i) [0..<capacity] \<noteq> None"
proof -
  have "length (slots s) = capacity" using assms by (simp add: naive_inv_def)
  then have "ref ! i \<in> naive_cached s \<longleftrightarrow> (\<exists>k<capacity. used s ! k \<and> slots s ! k = ref ! i)"
    unfolding naive_cached_def by (auto intro: sym)
  then show ?thesis unfolding find_upt_None_iff by blast
qed

lemma naive_fill:
  assumes inv: "naive_inv ref capacity i s" and c: "ref ! i \<notin> naive_cached s"
    and k: "naive_slot ref capacity i s = k" "k < capacity"
  shows "naive_inv ref capacity (Suc i) (naive_step ref capacity i s)"
    and "naive_cached (naive_step ref capacity i s)
      = insert (ref ! i) (naive_cached s - (if used s ! k then {slots s ! k} else {}))"
    and "n_misses (naive_step ref capacity i s) = Suc (n_misses s)"
proof -
  let ?s = "\<lparr>slots = (slots s)[k := ref ! i], used = (used s)[k := True], n_misses = n_misses s + 1\<rparr>"
  have st: "naive_step ref capacity i s = ?s"
    using naive_found[OF inv] c k(1) by (simp add: naive_step_def)
  have len: "length (slots s) = capacity" "length (used s) = capacity" using inv by (simp_all add: naive_inv_def)
  have ne: "slots s ! l \<noteq> ref ! i" if "l < capacity" "used s ! l" for l
    using c that len by (auto simp: naive_cached_def)
  have inj: "slots s ! a = slots s ! b \<Longrightarrow> a = b" if "a < capacity" "b < capacity" "used s ! a" "used s ! b" for a b
    using inv that by (simp add: naive_inv_def)
  show "n_misses (naive_step ref capacity i s) = Suc (n_misses s)" by (simp add: st)
  show "naive_inv ref capacity (Suc i) (naive_step ref capacity i s)"
    unfolding st naive_inv_def
  proof (intro conjI allI impI)
    fix a b assume ab: "a < capacity" "b < capacity"
      and u: "used ?s ! a" "used ?s ! b" and eq: "slots ?s ! a = slots ?s ! b"
    show "a = b"
    proof (cases "a = k \<or> b = k")
      case True
      then show ?thesis using ab u eq len ne[OF ab(1)] ne[OF ab(2)] by (auto simp: nth_list_update split: if_splits)
    next
      case False
      then show ?thesis using ab u eq inj[OF ab] by simp
    qed
  qed (use inv in \<open>simp_all add: naive_inv_def\<close>)
  show "naive_cached (naive_step ref capacity i s)
      = insert (ref ! i) (naive_cached s - (if used s ! k then {slots s ! k} else {}))"
    (is "_ = ?R")
  proof
    show "naive_cached (naive_step ref capacity i s) \<subseteq> ?R"
      using k(2) len inj by (auto simp: st naive_cached_def nth_list_update split: if_splits)
    show "?R \<subseteq> naive_cached (naive_step ref capacity i s)"
    proof
      fix x assume "x \<in> ?R"
      then consider "x = ref ! i" | l where "l < capacity" "used s ! l" "x = slots s ! l" "l \<noteq> k"
        using len by (auto simp: naive_cached_def split: if_splits)
      then show "x \<in> naive_cached (naive_step ref capacity i s)"
      proof cases
        case 1
        then show ?thesis using k(2) len by (auto simp: st naive_cached_def intro!: exI[of _ k])
      next
        case 2
        then show ?thesis using len by (auto simp: st naive_cached_def intro!: exI[of _ l])
      qed
    qed
  qed
qed

lemma naive_slot_free:
  assumes "naive_inv ref capacity i s" "card (naive_cached s) < capacity"
  shows "naive_slot ref capacity i s < capacity \<and> \<not> used s ! naive_slot ref capacity i s"
proof -
  have "List.find (\<lambda>k. \<not> used s ! k) [0..<capacity] \<noteq> None"
    using naive_full(1)[OF assms(1)] assms(2) by (auto simp: find_None_iff)
  then obtain k where k: "List.find (\<lambda>k. \<not> used s ! k) [0..<capacity] = Some k" by auto
  then have "k < capacity \<and> \<not> used s ! k" by (simp add: find_upt_Some_iff)
  then show ?thesis by (simp add: naive_slot_def k)
qed

lemma naive_slot_furthest:
  assumes inv: "naive_inv ref capacity i s" and full: "\<not> card (naive_cached s) < capacity" and i: "i < length ref"
  defines "k \<equiv> naive_slot ref capacity i s"
  shows "k < capacity" "used s ! k" "furthest (drop (Suc i) ref) (naive_cached s) (slots s ! k)"
proof -
  have all: "\<forall>l<capacity. used s ! l" using naive_full(1)[OF inv] full by auto
  have cap: "0 < capacity" "length ref \<le> NEVER" "length (slots s) = capacity" using inv by (simp_all add: naive_inv_def)
  have "List.find (\<lambda>k. \<not> used s ! k) [0..<capacity] = None" using all by (simp add: find_None_iff)
  then have k: "k = (case pick (>) (\<lambda>_. True) (\<lambda>k. naive_next_occurrence ref i (slots s ! k)) [0..<capacity] None of
      Some (k, _) \<Rightarrow> k | None \<Rightarrow> 0)" by (simp add: k_def naive_slot_def)
  have "pick (>) (\<lambda>_. True) (\<lambda>k. naive_next_occurrence ref i (slots s ! k)) [0..<capacity] None \<noteq> None"
    using cap(1) by (auto simp: nat_greater.pick_None_iff)
  then obtain d where p: "pick (>) (\<lambda>_. True) (\<lambda>k. naive_next_occurrence ref i (slots s ! k)) [0..<capacity] None
      = Some (k, d)" using k by (auto split: option.splits)
  note U = nat_greater.pick_upt[OF p]
  show kc: "k < capacity" using U by simp
  show uk: "used s ! k" using all kc by simp
  have "slots s ! k \<in> naive_cached s" using kc uk cap(3) by (auto simp: naive_cached_def)
  moreover have "\<forall>u\<in>naive_cached s. next_at ref (Suc i) u \<le> next_at ref (Suc i) (slots s ! k)"
    using U cap(3) by (auto simp: naive_cached_def naive_next_at not_less)
  ultimately show "furthest (drop (Suc i) ref) (naive_cached s) (slots s ! k)"
    using furthest_next cap(2) i by simp
qed

interpretation naive_sim: min_simulator ref capacity "naive_step ref capacity" naive_cached n_misses
    "naive_inv ref capacity" for ref capacity
proof (unfold_locales, goal_cases)
  case (1 i s)
  then obtain k where "List.find (\<lambda>k. used s ! k \<and> slots s ! k = ref ! i) [0..<capacity] = Some k"
    using naive_found[OF 1(1)] by auto
  then have "naive_step ref capacity i s = s" by (simp add: naive_step_def)
  then show ?case using 1(1) by (simp add: naive_inv_def)
next
  case (2 i s)
  have "naive_slot ref capacity i s < capacity" "\<not> used s ! naive_slot ref capacity i s"
    using naive_slot_free[OF 2(1,4)] by auto
  then show ?case using naive_fill[OF 2(1,3) refl] by simp
next
  case (3 i s)
  note F = naive_slot_furthest[OF 3(1,4,2)]
  have "card (naive_cached s) = capacity" using naive_full(2)[OF 3(1)] 3(4) by simp
  then show ?case using naive_fill[OF 3(1,3) refl F(1)] F(2,3) by auto
qed


lemma naive_belady_min:
  assumes "0 < capacity" "length ref \<le> NEVER"
  shows "\<exists>b. naive_belady ref capacity = Some b \<and> min_run capacity {} ref b"
proof -
  let ?s = "\<lparr>slots = replicate capacity 0, used = replicate capacity False, n_misses = 0\<rparr>"
  have "naive_inv ref capacity 0 ?s" using assms by (simp add: naive_inv_def)
  from naive_sim.follows_rule[OF this] obtain b where
    "min_run capacity (naive_cached ?s) ref b"
    "n_misses (foldl (\<lambda>s i. naive_step ref capacity i s) ?s [0..<length ref]) = b" by auto
  moreover have "naive_cached ?s = {}" by (simp add: naive_cached_def)
  ultimately show ?thesis using assms(1) by (simp add: naive_belady_def)
qed

section \<open>The heap simulation follows the rule\<close>

definition cached_chunks :: "solver \<Rightarrow> nat set" where
  "cached_chunks s = {c. c < length (in_cache s) \<and> in_cache s ! c}"

abbreviation live_entry :: "solver \<Rightarrow> nat \<Rightarrow> heap_entry" where
  "live_entry s c \<equiv> \<lparr>priority = current_priority s ! c, chunk_id = c\<rparr>"

text \<open>The queue holds a live entry for every cached chunk, whatever stale ones it holds besides.\<close>

definition queue_ok :: "solver \<Rightarrow> bool" where
  "queue_ok s \<longleftrightarrow> heap_ok (pq s) \<and> (\<forall>e\<in>#mset (pq s). chunk_id e < length (in_cache s))
     \<and> (\<forall>c\<in>cached_chunks s. live_entry s c \<in># mset (pq s))"

definition solver_inv :: "nat list \<Rightarrow> nat \<Rightarrow> nat \<Rightarrow> solver \<Rightarrow> bool" where
  "solver_inv ref capacity i s \<longleftrightarrow> (\<forall>x\<in>set ref. x < length (in_cache s)) \<and> length ref \<le> NEVER
     \<and> 0 < capacity \<and> capacity < 4294967296 \<and> length (in_cache s) = count_chunks ref
     \<and> length (read_ptr s) = length (in_cache s) \<and> length (current_priority s) = length (in_cache s)
     \<and> (\<forall>c<length (in_cache s). read_ptr s ! c = length (filter (\<lambda>j. ref ! j = c) [0..<i]))
     \<and> cache_size s = card (cached_chunks s) \<and> cache_size s \<le> capacity
     \<and> (\<forall>c\<in>cached_chunks s. current_priority s ! c = next_at ref i c)
     \<and> queue_ok s \<and> length (pq s) \<le> i"

lemma finite_cached [simp]: "finite (cached_chunks s)"
  by (simp add: cached_chunks_def)

text \<open>What a pop does to the queue: a stale entry is lost, the first live one is of the furthest chunk.\<close>

lemma pop_victim_finds:
  "queue_ok s \<Longrightarrow> cached_chunks s \<noteq> {} \<Longrightarrow> length (current_priority s) = length (in_cache s) \<Longrightarrow>
   \<exists>v h. v \<in> cached_chunks s \<and> (\<forall>u\<in>cached_chunks s. current_priority s ! u \<le> current_priority s ! v)
     \<and> pop_victim s = s\<lparr>pq := h, in_cache := (in_cache s)[v := False],
                       cache_size := wrap32 (cache_size s + 4294967295)\<rparr>
     \<and> queue_ok (pop_victim s) \<and> length h < length (pq s)"
proof (induction s rule: pop_victim.induct)
  case (1 s)
  have hp: "heap_ok (pq s)" and ids: "\<forall>e\<in>#mset (pq s). chunk_id e < length (in_cache s)"
    and ent: "\<forall>c\<in>cached_chunks s. live_entry s c \<in># mset (pq s)"
    using "1.prems"(1) by (simp_all add: queue_ok_def)
  from "1.prems"(2) obtain c0 where "c0 \<in> cached_chunks s" by blast
  then obtain e h where p: "heap_pop_max (pq s) = Some (e, h)" using lazy_heap.live_pops[OF hp] ent by blast
  note P = lazy_heap.pop_inv[OF hp p] lazy_heap.pop_items[OF hp p] lazy_heap.pop_max[OF hp p]
  have e: "e \<in># mset (pq s)" using P(2) by simp
  have sub: "set_mset (mset h) \<subseteq> set_mset (mset (pq s))" using P(2) by auto
  have shorter: "length h < length (pq s)" by (rule heap_pop_shorter[OF p])
  show ?case
  proof (cases "live s e")
    case True
    let ?v = "chunk_id e"
    have v: "?v \<in> cached_chunks s" using True ids e by (simp add: live_def cached_chunks_def)
    have pv: "pop_victim s = s\<lparr>pq := h, in_cache := (in_cache s)[?v := False],
        cache_size := wrap32 (cache_size s + 4294967295)\<rparr>"
      using p True by (subst pop_victim.simps) (simp add: pop_step_def)
    have c': "cached_chunks (pop_victim s) = cached_chunks s - {?v}"
      using v by (auto simp: pv cached_chunks_def nth_list_update split: if_splits)
    have "\<forall>u\<in>cached_chunks s. current_priority s ! u \<le> current_priority s ! ?v"
    proof
      fix u assume "u \<in> cached_chunks s"
      then have "live_entry s u \<in># mset (pq s)" using ent by blast
      then have "priority (live_entry s u) \<le> priority e" by (rule P(3))
      then show "current_priority s ! u \<le> current_priority s ! ?v" using True by (simp add: live_def)
    qed
    moreover have "queue_ok (pop_victim s)"
      unfolding queue_ok_def
    proof (intro conjI ballI)
      show "heap_ok (pq (pop_victim s))" using P(1) by (simp add: pv)
      fix f assume "f \<in># mset (pq (pop_victim s))"
      then show "chunk_id f < length (in_cache (pop_victim s))" using sub ids by (auto simp: pv)
    next
      fix u assume u: "u \<in> cached_chunks (pop_victim s)"
      then have "live_entry s u \<in># mset (pq s)" "live_entry s u \<noteq> e" using ent c' by auto
      then have "live_entry s u \<in># mset h" by (rule lazy_heap.stale_keeps[OF hp p])
      then show "live_entry (pop_victim s) u \<in># mset (pq (pop_victim s))" by (simp add: pv)
    qed
    ultimately show ?thesis using v pv shorter by blast
  next
    case False
    let ?s = "s\<lparr>pq := h\<rparr>"
    have st: "pop_step e h s = ?s" using False by (simp add: pop_step_def)
    have pv: "pop_victim s = pop_victim ?s" using p False st by (subst pop_victim.simps) simp
    have cs: "cached_chunks ?s = cached_chunks s" by (simp add: cached_chunks_def)
    have "queue_ok ?s"
      unfolding queue_ok_def
    proof (intro conjI ballI)
      show "heap_ok (pq ?s)" using P(1) by simp
      fix f assume "f \<in># mset (pq ?s)"
      then show "chunk_id f < length (in_cache ?s)" using sub ids by auto
    next
      fix u assume "u \<in> cached_chunks ?s"
      then have u: "u \<in> cached_chunks s" using cs by simp
      have "live_entry s u \<noteq> e" using False u by (auto simp: live_def cached_chunks_def)
      then have "live_entry s u \<in># mset h" using lazy_heap.stale_keeps[OF hp p] ent u by blast
      then show "live_entry ?s u \<in># mset (pq ?s)" by simp
    qed
    note IH = "1.IH"[OF p refl False, unfolded st, OF this]
    have "\<exists>v h'. v \<in> cached_chunks s \<and> (\<forall>u\<in>cached_chunks s. current_priority s ! u \<le> current_priority s ! v) \<and>
        pop_victim ?s = s\<lparr>pq := h', in_cache := (in_cache s)[v := False],
                       cache_size := wrap32 (cache_size s + 4294967295)\<rparr> \<and>
        queue_ok (pop_victim ?s) \<and> length h' < length h"
      using IH "1.prems"(2,3) by (simp add: cs)
    then obtain v h' where
      "v \<in> cached_chunks s" "\<forall>u\<in>cached_chunks s. current_priority s ! u \<le> current_priority s ! v"
      "pop_victim ?s = s\<lparr>pq := h', in_cache := (in_cache s)[v := False],
                       cache_size := wrap32 (cache_size s + 4294967295)\<rparr>"
      "queue_ok (pop_victim ?s)" "length h' < length h" by blast
    then show ?thesis using pv shorter by (metis less_trans)
  qed
qed


lemma queue_after_access:
  fixes k np :: nat
  assumes "queue_ok s" "c < length (in_cache s)" "length (current_priority s) = length (in_cache s)"
  defines "s' \<equiv> s\<lparr>in_cache := (in_cache s)[c := True], cache_size := k,
      current_priority := (current_priority s)[c := np], pq := heap_push (pq s) np c\<rparr>"
  shows "queue_ok s'" and "length (pq s') = Suc (length (pq s))" and "cached_chunks s' = insert c (cached_chunks s)"
proof -
  have hp: "heap_ok (pq s)" using assms(1) by (simp add: queue_ok_def)
  note M = heap_push_props[OF hp, of np c]
  show cs: "cached_chunks s' = insert c (cached_chunks s)"
    using assms(2) by (auto simp: s'_def cached_chunks_def nth_list_update split: if_splits)
  have "size (mset (heap_push (pq s) np c)) = Suc (size (mset (pq s)))" by (simp add: M(2))
  then show "length (pq s') = Suc (length (pq s))" by (simp add: s'_def)
  show "queue_ok s'"
    unfolding queue_ok_def
  proof (intro conjI ballI)
    show "heap_ok (pq s')" using M(1) by (simp add: s'_def)
    fix e assume "e \<in># mset (pq s')"
    then have "e = \<lparr>priority = np, chunk_id = c\<rparr> \<or> e \<in># mset (pq s)" using M(2) by (simp add: s'_def)
    then show "chunk_id e < length (in_cache s')" using assms(1,2) by (auto simp: queue_ok_def s'_def)
  next
    fix u assume u: "u \<in> cached_chunks s'"
    show "live_entry s' u \<in># mset (pq s')"
    proof (cases "u = c")
      case True
      then show ?thesis using M(2) assms(2,3) by (simp add: s'_def)
    next
      case False
      then have "live_entry s u \<in># mset (pq s)" using u cs assms(1) by (simp add: queue_ok_def)
      then show ?thesis using M(2) False by (simp add: s'_def)
    qed
  qed
qed

lemma access_inv:
  assumes inv: "solver_inv ref capacity i s" and i: "i < length ref" and c: "c = ref ! i"
    and s3: "read_ptr s3 = (read_ptr s)[c := read_ptr s ! c + 1]" "length (in_cache s3) = length (in_cache s)"
      "current_priority s3 = current_priority s" "cached_chunks s3 \<subseteq> cached_chunks s" "queue_ok s3"
      "length (pq s3) \<le> i" "k = card (insert c (cached_chunks s3))" "k \<le> capacity"
  defines "s' \<equiv> s3\<lparr>in_cache := (in_cache s3)[c := True], cache_size := k,
      current_priority := (current_priority s3)[c := next_at ref (Suc i) c],
      pq := heap_push (pq s3) (next_at ref (Suc i) c) c\<rparr>"
  shows "solver_inv ref capacity (Suc i) s' \<and> cached_chunks s' = insert c (cached_chunks s3)"
proof -
  have "c \<in> set ref" using i c by simp
  then have cl: "c < length (in_cache s)" using inv unfolding solver_inv_def by blast
  have l3: "length (current_priority s3) = length (in_cache s3)" "c < length (in_cache s3)"
    using inv s3 cl by (simp_all add: solver_inv_def)
  note Q = queue_after_access[OF s3(5) l3(2,1), where k = k and np = "next_at ref (Suc i) c", folded s'_def]
  have rp: "read_ptr s' ! d = length (filter (\<lambda>j. ref ! j = d) [0..<Suc i])" if "d < length (in_cache s')" for d
  proof -
    have "d < length (read_ptr s)" "read_ptr s ! d = length (filter (\<lambda>j. ref ! j = d) [0..<i])"
      using inv that s3(2) by (simp_all add: solver_inv_def s'_def)
    then show ?thesis using s3(1) c by (auto simp: s'_def nth_list_update)
  qed
  have cp: "current_priority s' ! u = next_at ref (Suc i) u" if "u \<in> cached_chunks s'" for u
  proof (cases "u = c")
    case True
    then show ?thesis using l3 by (simp add: s'_def)
  next
    case False
    then have "u \<in> cached_chunks s" using that Q(3) s3(4) by auto
    then have "current_priority s ! u = next_at ref i u" using inv by (simp add: solver_inv_def)
    then show ?thesis using False s3(3) c next_at_step[OF i, of u] by (simp add: s'_def)
  qed
  have lens: "length (in_cache s') = length (in_cache s)" "length (read_ptr s') = length (read_ptr s)"
    "length (current_priority s') = length (current_priority s)" "cache_size s' = k"
    using s3 by (simp_all add: s'_def)
  have old: "\<forall>x\<in>set ref. x < length (in_cache s)" "length ref \<le> NEVER" "0 < capacity" "capacity < 4294967296"
    "length (in_cache s) = count_chunks ref" "length (read_ptr s) = length (in_cache s)"
    "length (current_priority s) = length (in_cache s)"
    using inv unfolding solver_inv_def by blast+
  have new: "length (pq s') \<le> Suc i" "cache_size s' = card (cached_chunks s')" "cache_size s' \<le> capacity"
    using Q(2,3) s3(6,7,8) lens(4) by simp_all
  show ?thesis
    unfolding solver_inv_def using old Q(1,3) rp cp lens(1,2,3) new by (intro conjI allI ballI impI) metis+
qed

lemma solver_next_pos:
  assumes inv: "solver_inv ref capacity i s" and i: "i < length ref" and c: "c = ref ! i"
  shows "next_position (occurrences ref (count_chunks ref) ! c) ((read_ptr s)[c := Suc (read_ptr s ! c)] ! c)
       = next_at ref (Suc i) c"
proof -
  have "c \<in> set ref" using i c by simp
  then have n: "\<forall>x\<in>set ref. x < count_chunks ref" "c < count_chunks ref" "length (read_ptr s) = count_chunks ref"
    "read_ptr s ! c = length (filter (\<lambda>j. ref ! j = c) [0..<i])"
    using inv by (auto simp: solver_inv_def)
  then have "(read_ptr s)[c := Suc (read_ptr s ! c)] ! c = length (filter (\<lambda>j. ref ! j = c) [0..<i]) + 1" by simp
  then show ?thesis
    using next_pos_correct(1)[OF i c[symmetric]] occurrences_nth(2)[OF n(1,2)]
    unfolding next_position_def by (simp only:)
qed

lemma wrap_dec: "0 < c \<Longrightarrow> c < 4294967296 \<Longrightarrow> wrap32 (c + 4294967295) = c - 1"
  by (cases c) (simp_all add: wrap32_def)

interpretation heap_sim: min_simulator ref capacity
    "simulate_step ref (occurrences ref (count_chunks ref)) capacity" cached_chunks misses
    "solver_inv ref capacity" for ref capacity
proof (unfold_locales, goal_cases)
  case (1 i s)
  let ?c = "ref ! i"
  let ?s1 = "s\<lparr>read_ptr := (read_ptr s)[?c := read_ptr s ! ?c + 1]\<rparr>"
  let ?np = "next_at ref (Suc i) ?c"
  have inc: "in_cache s ! ?c" "?c < length (in_cache s)" using 1(3) by (simp_all add: cached_chunks_def)
  have same: "(in_cache s)[?c := True] = in_cache s" using inc by (simp add: list_update_same_conv)
  have st: "simulate_step ref (occurrences ref (count_chunks ref)) capacity i s
      = ?s1\<lparr>in_cache := (in_cache ?s1)[?c := True], cache_size := cache_size s,
          current_priority := (current_priority ?s1)[?c := ?np], pq := heap_push (pq ?s1) ?np ?c\<rparr>"
    using inc same solver_next_pos[OF 1(1,2) refl] by (simp add: simulate_step_def Let_def)
  have cs: "cached_chunks ?s1 = cached_chunks s" "queue_ok ?s1 = queue_ok s"
    by (simp_all add: cached_chunks_def queue_ok_def)
  have "insert ?c (cached_chunks s) = cached_chunks s" using 1(3) by blast
  then show ?case
    unfolding st using access_inv[OF 1(1,2) refl, of ?s1 "cache_size s"] 1(1) cs
    by (simp add: solver_inv_def insert_absorb)
next
  case (2 i s)
  let ?c = "ref ! i"
  let ?s2 = "s\<lparr>read_ptr := (read_ptr s)[?c := read_ptr s ! ?c + 1], misses := misses s + 1\<rparr>"
  let ?np = "next_at ref (Suc i) ?c"
  have inv: "\<forall>x\<in>set ref. x < length (in_cache s)" "cache_size s = card (cached_chunks s)"
    "capacity < 4294967296" using 2(1) unfolding solver_inv_def by blast+
  have "?c < length (in_cache s)" using inv(1) 2(2) by simp
  then have nin: "\<not> in_cache s ! ?c" using 2(3) by (simp add: cached_chunks_def)
  have w: "wrap32 (cache_size s + 1) = card (insert ?c (cached_chunks s))" "cache_size s < capacity"
    using inv 2(3,4) by simp_all
  have st: "simulate_step ref (occurrences ref (count_chunks ref)) capacity i s
      = ?s2\<lparr>in_cache := (in_cache ?s2)[?c := True], cache_size := wrap32 (cache_size s + 1),
          current_priority := (current_priority ?s2)[?c := ?np], pq := heap_push (pq ?s2) ?np ?c\<rparr>"
    using nin w(2) solver_next_pos[OF 2(1,2) refl] by (simp add: simulate_step_def Let_def)
  have cs: "cached_chunks ?s2 = cached_chunks s" "queue_ok ?s2 = queue_ok s"
    by (simp_all add: cached_chunks_def queue_ok_def)
  have "card (insert ?c (cached_chunks s)) \<le> capacity" using 2(3,4) by simp
  then show ?case
    unfolding st w(1) using access_inv[OF 2(1,2) refl, of ?s2 "card (insert ?c (cached_chunks s))"] 2(1) cs
    by (simp add: solver_inv_def)
next
  case (3 i s)
  let ?c = "ref ! i"
  let ?s2 = "s\<lparr>read_ptr := (read_ptr s)[?c := Suc (read_ptr s ! ?c)], misses := Suc (misses s)\<rparr>"
  let ?np = "next_at ref (Suc i) ?c"
  have inv: "\<forall>x\<in>set ref. x < length (in_cache s)" "cache_size s = card (cached_chunks s)"
    "capacity < 4294967296" "0 < capacity" "cache_size s \<le> capacity" "queue_ok s" "length (pq s) \<le> i"
    "length (current_priority s) = length (in_cache s)" "length ref \<le> NEVER"
    "\<forall>c\<in>cached_chunks s. current_priority s ! c = next_at ref i c"
    using 3(1) unfolding solver_inv_def by blast+
  have full: "cache_size s = capacity" using inv(2,5) 3(4) by simp
  have "?c < length (in_cache s)" using inv(1) 3(2) by simp
  then have nin: "\<not> in_cache s ! ?c" using 3(3) by (simp add: cached_chunks_def)
  have cs: "cached_chunks ?s2 = cached_chunks s" "queue_ok ?s2 = queue_ok s"
    by (simp_all add: cached_chunks_def queue_ok_def)
  have "card (cached_chunks s) > 0" using full inv(2,4) by simp
  then have ne: "cached_chunks ?s2 \<noteq> {}" using cs(1) by auto
  have "queue_ok ?s2" "length (current_priority ?s2) = length (in_cache ?s2)" using cs(2) inv(6,8) by simp_all
  from pop_victim_finds[OF this(1) ne this(2)] obtain v h where
    raw: "v \<in> cached_chunks ?s2"
      "\<forall>u\<in>cached_chunks ?s2. current_priority ?s2 ! u \<le> current_priority ?s2 ! v"
      "pop_victim ?s2 = ?s2\<lparr>pq := h, in_cache := (in_cache ?s2)[v := False],
        cache_size := wrap32 (cache_size ?s2 + 4294967295)\<rparr>"
    and q: "queue_ok (pop_victim ?s2)" "length h < length (pq ?s2)" by blast
  have v: "v \<in> cached_chunks s" "\<forall>u\<in>cached_chunks s. current_priority s ! u \<le> current_priority s ! v"
    using raw(1,2) unfolding cs(1) by simp_all
  have p: "pop_victim ?s2 = ?s2\<lparr>pq := h, in_cache := (in_cache s)[v := False],
        cache_size := wrap32 (cache_size s + 4294967295)\<rparr>" using raw(3) by simp
  let ?s3 = "pop_victim ?s2"
  have cs3: "cached_chunks ?s3 = cached_chunks s - {v}"
    using v(1) by (auto simp: p cached_chunks_def nth_list_update split: if_splits)
  have size3: "cache_size ?s3 = capacity - 1"
    using wrap_dec[of "cache_size s"] full inv(3,4) by (simp add: p)
  have k: "wrap32 (cache_size ?s3 + 1) = card (insert ?c (cached_chunks ?s3))"
    using size3 inv(2,3,4) full v(1) 3(3) cs3 card_swap[of "cached_chunks s" v ?c] by simp
  have nc: "\<not> in_cache ?s3 ! ?c"
    using nin by (auto simp: p nth_list_update split: if_splits) (metis list_update_beyond not_le nth_list_update)
  have st: "simulate_step ref (occurrences ref (count_chunks ref)) capacity i s
      = ?s3\<lparr>in_cache := (in_cache ?s3)[?c := True], cache_size := wrap32 (cache_size ?s3 + 1),
          current_priority := (current_priority ?s3)[?c := ?np], pq := heap_push (pq ?s3) ?np ?c\<rparr>"
    using nin full size3 inv(4) solver_next_pos[OF 3(1,2) refl] by (simp add: simulate_step_def Let_def p)
  have c3: "?c \<notin> cached_chunks s - {v}" using 3(3) by blast
  have "card (insert ?c (cached_chunks s - {v})) \<le> capacity"
    using card_swap[OF _ v(1) 3(3)] inv(2) full by simp
  then have A: "solver_inv ref capacity (Suc i) (simulate_step ref (occurrences ref (count_chunks ref)) capacity i s)"
    "cached_chunks (simulate_step ref (occurrences ref (count_chunks ref)) capacity i s) = insert ?c (cached_chunks s - {v})"
    unfolding st k using access_inv[OF 3(1,2) refl, of ?s3 "card (insert ?c (cached_chunks ?s3))"] cs3 q inv(7)
    by (auto simp: p)
  have m: "misses (simulate_step ref (occurrences ref (count_chunks ref)) capacity i s) = Suc (misses s)"
    unfolding st by (simp add: p)
  have "\<forall>u\<in>cached_chunks s. next_at ref (Suc i) u \<le> next_at ref (Suc i) v"
  proof
    fix u assume u: "u \<in> cached_chunks s"
    then have "next_at ref i u \<le> next_at ref i v" using v inv(10) by simp
    moreover have "u \<noteq> ?c" "v \<noteq> ?c" using u v(1) 3(3) by auto
    ultimately show "next_at ref (Suc i) u \<le> next_at ref (Suc i) v"
      using next_at_step[OF 3(2), of u] next_at_step[OF 3(2), of v] by auto
  qed
  then have "furthest (drop (Suc i) ref) (cached_chunks s) v"
    using furthest_next[OF inv(9) _ v(1)] 3(2) by simp
  then show ?case using A m full inv(2) by auto
qed

lemma belady_simulate_min:
  assumes "0 < capacity" "capacity < 4294967296" "length ref \<le> NEVER" "\<forall>x\<in>set ref. x < 4294967295"
  shows "min_run capacity {} ref (res_misses (belady_simulate ref capacity))"
proof (cases "ref = []")
  case True
  then show ?thesis by (simp add: belady_simulate_def min_done)
next
  case False
  let ?n = "count_chunks ref"
  let ?s = "solver_init ?n"
  have "heap_ok ([] :: heap)" by (simp add: heap_ok_def)
  moreover have cs: "cached_chunks ?s = {}" by (auto simp: cached_chunks_def solver_init_def)
  ultimately have "solver_inv ref capacity 0 ?s"
    using assms count_chunks_bound[OF assms(4)] by (simp add: solver_inv_def queue_ok_def solver_init_def)
  from heap_sim.follows_rule[OF this] obtain b where b: "min_run capacity {} ref b"
    "misses (foldl (\<lambda>s i. simulate_step ref (occurrences ref ?n) capacity i s) ?s [0..<length ref]) = misses ?s + b"
    using cs by auto
  then show ?thesis using False by (simp add: belady_simulate_def Let_def solver_init_def)
qed

section \<open>The solver's properties\<close>

text \<open>
  C22. The simulation with the lazy heap computes the optimum: no replacement policy with the same
  number of slots, whatever it knows of the future, has fewer misses on the reference string, and
  some policy has exactly that many.
\<close>

theorem belady_optimal:
  assumes "0 < capacity" "capacity < 4294967296" "length ref \<le> NEVER" "\<forall>x\<in>set ref. x < 4294967295"
  shows "run capacity {} ref (res_misses (belady_simulate ref capacity))
     \<and> (\<forall>m. run capacity {} ref m \<longrightarrow> res_misses (belady_simulate ref capacity) \<le> m)"
  using belady_simulate_min[OF assms] min_run_is_run min_run_optimal assms(1) by fastforce

lemma solver_demo: "res_misses (belady_simulate [0, 1, 2, 0, 1, 2] 2) = 4"
  by code_simp

theorem belady_optimal_witness:
  "run 2 {} [0, 1, 2, 0, 1, 2 :: nat] (res_misses (belady_simulate [0, 1, 2, 0, 1, 2] 2))
     \<and> res_misses (belady_simulate [0, 1, 2, 0, 1, 2] 2) = 4 \<and> \<not> run 2 {} [0, 1, 2, 0, 1, 2 :: nat] 3"
proof -
  have "0 < (2::nat)" "(2::nat) < 4294967296" "length [0, 1, 2, 0, 1, 2 :: nat] \<le> NEVER"
    "\<forall>x\<in>set [0, 1, 2, 0, 1, 2 :: nat]. x < 4294967295"
    by (simp_all add: NEVER_def)
  note T = belady_optimal[OF this]
  then have "\<not> run 2 {} [0, 1, 2, 0, 1, 2 :: nat] 3" using solver_demo by fastforce
  then show ?thesis using T solver_demo by blast
qed

text \<open>
  C23. The heap simulation and the naive reference of the self-test agree on every reference string,
  not only on the random ones it tries (the reference keeps its slot numbers in an \<^verbatim>\<open>int\<close>).
\<close>

theorem belady_matches_naive:
  assumes "0 < capacity" "capacity < 2147483648" "length ref \<le> NEVER" "\<forall>x\<in>set ref. x < 4294967295"
  shows "naive_belady ref capacity = Some (res_misses (belady_simulate ref capacity))"
proof -
  obtain b where b: "naive_belady ref capacity = Some b" "min_run capacity {} ref b"
    using naive_belady_min[OF assms(1,3)] by blast
  have "min_run capacity {} ref (res_misses (belady_simulate ref capacity))"
    using belady_simulate_min[OF assms(1) _ assms(3,4)] assms(2) by simp
  then show ?thesis using min_run_unique[OF b(2)] b(1) assms(1) by simp
qed

theorem belady_matches_naive_witness:
  "naive_belady [0, 1, 2, 0, 1, 2] 2 = Some (res_misses (belady_simulate [0, 1, 2, 0, 1, 2] 2))
     \<and> naive_belady [0, 1, 2, 0, 1, 2] 2 = Some 4"
proof -
  have "0 < (2::nat)" "(2::nat) < 2147483648" "length [0, 1, 2, 0, 1, 2 :: nat] \<le> NEVER"
    "\<forall>x\<in>set [0, 1, 2, 0, 1, 2 :: nat]. x < 4294967295"
    by (simp_all add: NEVER_def)
  from belady_matches_naive[OF this] show ?thesis using solver_demo by simp
qed

section \<open>The floor check never fires\<close>

lemma periodic_concat:
  fixes xs :: "'a list"
  assumes n: "0 < n" and div: "length xs = p * n" and per: "\<forall>j<length xs. xs ! j = xs ! (j mod n)" and p: "0 < p"
  shows "xs = concat (replicate p (take n xs))"
proof (rule nth_equalityI)
  have len: "length (take n xs) = n" using div p n by (cases p) simp_all
  show "length xs = length (concat (replicate p (take n xs)))"
    using len div by (simp add: length_concat sum_list_replicate)
  fix j assume j: "j < length xs"
  then have "concat (replicate p (take n xs)) ! j = take n xs ! (j mod n)"
    using nth_concat_replicate[of j p "take n xs"] len div by simp
  then show "xs ! j = concat (replicate p (take n xs)) ! j" using per j n by simp
qed

lemma running_max:
  fixes xs :: "nat list"
  shows "\<forall>x\<in>set xs. x \<le> foldl (\<lambda>m x. if x > m then x else m) 0 xs"
  by (induction xs rule: rev_induct) fastforce+

text \<open>A detected scan is a permutation repeated at least as often as the truncated pass count says.\<close>

lemma detect_cyclic_scan_periodic:
  assumes "detect_cyclic_scan ref = Some (n, passes)"
  shows "\<exists>p xs. ref = concat (replicate p xs) \<and> distinct xs \<and> length xs = n \<and> 0 < n \<and> 1 \<le> passes \<and> passes \<le> p
       \<and> (\<forall>x\<in>set ref. x < 4294967295)"
proof -
  define m where "m = foldl (\<lambda>m x. if x > m then x else m) 0 ref"
  have D: "n = wrap32 (m + 1)" "n \<noteq> 0" "length ref mod n = 0" "passes = wrap32 (length ref div n)" "1 \<le> passes"
    "\<forall>i<length ref. ref ! i = ref ! (i mod n)" "\<forall>i<n. ref ! i < n" "distinct (take n ref)"
    using assms by (auto simp: detect_cyclic_scan_def m_def[symmetric] Let_def list_all_iff split: if_splits)
  let ?p = "length ref div n"
  have "passes \<le> ?p" using D(4) by (simp add: wrap32_def)
  then have p: "0 < ?p" "passes \<le> ?p" using D(5) by simp_all
  have len: "length ref = ?p * n" using D(3) by (simp add: mod_eq_0_iff_dvd)
  have n: "0 < n" "n \<le> length ref" using D(2) p(1) by (simp_all add: div_greater_zero_iff)
  have c: "ref = concat (replicate ?p (take n ref))"
    using periodic_concat[OF n(1) len] D(6) p(1) by simp
  have small: "n < 4294967296" using D(1) by simp
  have "\<forall>x\<in>set ref. x < n" using D(6,7) n(1) by (auto simp: in_set_conv_nth)
  then have "\<forall>x\<in>set ref. x < 4294967295" using small by fastforce
  moreover have "length (take n ref) = n" using n(2) by simp
  ultimately show ?thesis using c D(5,8) n(1) p(2) by blast
qed

text \<open>Without a single slot every reference misses.\<close>

lemma belady_simulate_no_slots:
  assumes "\<forall>x\<in>set ref. x < 4294967295"
  shows "res_misses (belady_simulate ref 0) = length ref"
proof -
  let ?occ = "occurrences ref (count_chunks ref)" and ?s = "solver_init (count_chunks ref)"
  have "k \<le> length ref \<Longrightarrow> (let s = foldl (\<lambda>s i. simulate_step ref ?occ 0 i s) ?s [0..<k]
      in cache_size s = 0 \<and> pq s = [] \<and> misses s = k \<and> in_cache s = replicate (count_chunks ref) False)" for k
  proof (induction k)
    case 0
    then show ?case by (simp add: solver_init_def)
  next
    case (Suc k)
    let ?t = "foldl (\<lambda>s i. simulate_step ref ?occ 0 i s) ?s [0..<k]"
    have t: "cache_size ?t = 0" "pq ?t = []" "misses ?t = k" "in_cache ?t = replicate (count_chunks ref) False"
      using Suc by (simp_all add: Let_def)
    have "ref ! k < count_chunks ref" using count_chunks_bound[OF assms] Suc.prems by simp
    then show ?case using t by (simp add: simulate_step_def Let_def pop_victim.simps heap_pop_max_def)
  qed
  from this[OF order_refl] show ?thesis by (simp add: belady_simulate_def Let_def)
qed

lemma cyclic_floor_mono:
  assumes "1 \<le> passes" "passes \<le> p"
  shows "cyclic_floor n passes k \<le> n + (p - 1) * (n - k)"
  using diff_le_mono[OF assms(2), of 1] by (simp add: cyclic_floor_def)

text \<open>
  The exact floor check of the solver never fires: whatever the trace and the
  capacity (none at all included), the simulated misses of a detected cyclic scan are not below the
  floor the check computes, so a real run never aborts there.
\<close>

lemma floor_check_passes:
  assumes "length ref \<le> NEVER" "capacity < 4294967296"
  shows "check_cyclic_floor_or_abort ref capacity (res_misses (belady_simulate ref capacity)) \<noteq> None"
proof (cases "detect_cyclic_scan ref")
  case None
  then show ?thesis by (simp add: check_cyclic_floor_or_abort_def)
next
  case (Some np)
  obtain n passes where np: "np = (n, passes)" by (cases np)
  from detect_cyclic_scan_periodic[OF Some[unfolded np]] obtain p xs where
    P: "ref = concat (replicate p xs)" "distinct xs" "length xs = n" "0 < n" "1 \<le> passes" "passes \<le> p"
    and ids: "\<forall>x\<in>set ref. x < 4294967295" by blast
  have p: "0 < p" and xs: "xs \<noteq> []" using P by auto
  have "cyclic_floor n passes capacity \<le> res_misses (belady_simulate ref capacity)"
  proof (cases "capacity = 0")
    case True
    have "length ref = n + (p - 1) * n"
      using P p by (cases p) (simp_all add: length_concat sum_list_replicate)
    then show ?thesis
      using belady_simulate_no_slots[OF ids] cyclic_floor_mono[OF P(5,6), of n 0] True by simp
  next
    case False
    have "min_run capacity {} ref (res_misses (belady_simulate ref capacity))"
      using belady_simulate_min[OF _ assms(2,1) ids] False by simp
    then have "run capacity {} (concat (replicate p xs)) (res_misses (belady_simulate ref capacity))"
      using min_run_is_run[of capacity "{}" ref] False P(1) by simp
    from run_cyclic_floor[OF P(2) xs this p] cyclic_floor_mono[OF P(5,6), of n capacity] P(3)
    show ?thesis by simp
  qed
  then show ?thesis using Some np by (simp add: check_cyclic_floor_or_abort_def)
qed

lemma floor_check_passes_witness:
  "check_cyclic_floor_or_abort [0, 1, 2, 0, 1, 2] 2 (res_misses (belady_simulate [0, 1, 2, 0, 1, 2] 2)) \<noteq> None
     \<and> detect_cyclic_scan [0, 1, 2, 0, 1, 2] = Some (3, 2) \<and> cyclic_floor 3 2 2 = 4"
proof -
  have "length [0, 1, 2, 0, 1, 2 :: nat] \<le> NEVER" "(2::nat) < 4294967296" by (simp_all add: NEVER_def)
  from floor_check_passes[OF this] show ?thesis by (simp, code_simp)
qed

end
