(* ===== verification/Text_Files.thy ===== *)
theory Text_Files
  imports Cgroup_Stat
begin

text \<open>
  Reading text files the way the tools do: \<^verbatim>\<open>fgets\<close> into a fixed buffer, \<^verbatim>\<open>strtoull\<close> on a line.
\<close>

text \<open>\<^verbatim>\<open>strtoull(v, NULL, 10)\<close>: 0 without digits.\<close>

definition strtoull :: "string \<Rightarrow> u64" where
  "strtoull v = (case scan_llu v of None \<Rightarrow> 0 | Some x \<Rightarrow> x)"

text \<open>\<^verbatim>\<open>fgets\<close> into a buffer of \<open>n + 1\<close> bytes, over the whole file.\<close>

function fgets_pieces :: "nat \<Rightarrow> string \<Rightarrow> string list" where
  "fgets_pieces n s =
     (if s = [] \<or> n = 0 then []
      else let l = takeWhile (\<lambda>c. c \<noteq> CHR 0x0A) s;
               piece = take n (if length l < length s then l @ [CHR 0x0A] else l)
           in piece # fgets_pieces n (drop (length piece) s))"
  by pat_completeness auto
termination
proof (relation "measure (length \<circ> snd)")
  fix n :: nat and s l piece :: string
  assume ne: "\<not> (s = [] \<or> n = 0)" and l: "l = takeWhile (\<lambda>c. c \<noteq> CHR 0x0A) s"
    and p: "piece = take n (if length l < length s then l @ [CHR 0x0A] else l)"
  have "piece \<noteq> []" using ne by (cases s; cases n) (auto simp: p l)
  then have "0 < length piece" "0 < length s" using ne by simp_all
  then show "((n, drop (length piece) s), n, s) \<in> measure (length \<circ> snd)" by simp
qed simp

declare fgets_pieces.simps [simp del]

text \<open>Each piece as a C string without its newline.\<close>

definition fgets_lines :: "nat \<Rightarrow> string \<Rightarrow> string list" where
  "fgets_lines n s = map (takeWhile (\<lambda>c. c \<noteq> CHR 0x0A \<and> c \<noteq> CHR 0x00)) (fgets_pieces n s)"

lemma fgets_pieces_nil [simp]: "fgets_pieces n [] = []"
  by (subst fgets_pieces.simps) simp

lemma fgets_lines_step:
  "fgets_lines n s =
     (if s = [] \<or> n = 0 then []
      else let l = takeWhile (\<lambda>c. c \<noteq> CHR 0x0A) s;
               piece = take n (if length l < length s then l @ [CHR 0x0A] else l)
           in takeWhile (\<lambda>c. c \<noteq> CHR 0x0A \<and> c \<noteq> CHR 0x00) piece # fgets_lines n (drop (length piece) s))"
  unfolding fgets_lines_def by (subst fgets_pieces.simps) (simp add: Let_def)

end
