(* ===== verification/Replay_Main.thy ===== *)
theory Replay_Main
  imports Driver_Runs Belady Startup Text_Files
begin

text \<open>
  The program of the replay (\<^verbatim>\<open>replay_main.c\<close>): its command line, the region, policy, flags and
  traces it sets up, and what holds of a whole run, from the arguments to the solution of the recorded trace.
\<close>

section \<open>The command line\<close>

record replay_options =
  eager_reconcile :: bool
  fetch_trace_path :: "string option"
  policy_trace_path :: "string option"
  opt_prefetch_depth :: u32
  sync_handler :: bool
  opt_fetch_workers :: u32
  prefetch_admission :: bool      \<comment> \<open>always\<close>
  driver_threads :: u32
  prefetch_retention_none :: bool
  opt_lookahead_window :: u32
  compute_ns_per_mib :: u64
  consumption_signal_all :: bool
  protect_current :: bool
  opt_fetching_timeout_ms :: u32
  args :: "string list"

definition options_default :: replay_options where
  "options_default =
     \<lparr>eager_reconcile = False, fetch_trace_path = None, policy_trace_path = None, opt_prefetch_depth = 0, sync_handler = False,
      opt_fetch_workers = 0, prefetch_admission = False, driver_threads = 1, prefetch_retention_none = False,
      opt_lookahead_window = 0, compute_ns_per_mib = 0, consumption_signal_all = True, protect_current = False,
      opt_fetching_timeout_ms = 0, args = []\<rparr>"

datatype main_failure = Bad_usage | Startup_abort failure | Bad_policy | Trace_abort

definition strtoul32 :: "string \<Rightarrow> u32" where
  "strtoul32 v = ucast (strtoull v)"

text \<open>One of two words, or a usage error.\<close>

definition either_word :: "string \<Rightarrow> string \<Rightarrow> string \<Rightarrow> main_failure + bool" where
  "either_word yes no v = (if v = yes then Inr True else if v = no then Inr False else Inl Bad_usage)"

text \<open>The options that take a value; \<open>None\<close> when the word is not one of them.\<close>

definition option_value :: "string \<Rightarrow> string \<Rightarrow> replay_options \<Rightarrow> (main_failure + replay_options) option" where
  "option_value a v p =
     (if a = ''--fetch-trace'' then Some (Inr (p\<lparr>fetch_trace_path := Some v\<rparr>))
      else if a = ''--policy-trace'' then Some (Inr (p\<lparr>policy_trace_path := Some v\<rparr>))
      else if a = ''--prefetch-depth'' then Some (Inr (p\<lparr>opt_prefetch_depth := strtoul32 v\<rparr>))
      else if a = ''--fetch-workers'' then Some (Inr (p\<lparr>opt_fetch_workers := strtoul32 v\<rparr>))
      else if a = ''--prefetch-admission'' then Some (rbind (either_word ''always'' ''guarded'' v) (\<lambda>b. Inr (p\<lparr>prefetch_admission := b\<rparr>)))
      else if a = ''--driver-threads'' then Some (if strtoul32 v = 0 then Inl Bad_usage else Inr (p\<lparr>driver_threads := strtoul32 v\<rparr>))
      else if a = ''--prefetch-retention'' then Some (rbind (either_word ''none'' ''pinned'' v) (\<lambda>b. Inr (p\<lparr>prefetch_retention_none := b\<rparr>)))
      else if a = ''--lookahead-window'' then Some (Inr (p\<lparr>opt_lookahead_window := strtoul32 v\<rparr>))
      else if a = ''--compute-ns-per-mib'' then Some (Inr (p\<lparr>compute_ns_per_mib := strtoull v\<rparr>))
      else if a = ''--consumption-signal'' then Some (rbind (either_word ''all-threads'' ''tid0'' v) (\<lambda>b. Inr (p\<lparr>consumption_signal_all := b\<rparr>)))
      else if a = ''--protect-current'' then Some (rbind (either_word ''on'' ''off'' v) (\<lambda>b. Inr (p\<lparr>protect_current := b\<rparr>)))
      else if a = ''--fetching-timeout-ms'' then Some (Inr (p\<lparr>opt_fetching_timeout_ms := strtoul32 v\<rparr>))
      else None)"

text \<open>The loop over \<^verbatim>\<open>argv\<close>: it stops at the sixteenth positional argument.\<close>

fun scan_args :: "string list \<Rightarrow> replay_options \<Rightarrow> main_failure + replay_options" where
  "scan_args [] p = Inr p"
| "scan_args (a # as) p =
     (if length (args p) \<ge> 16 then Inr p
      else if a = ''--eager-reconcile'' then scan_args as (p\<lparr>eager_reconcile := True\<rparr>)
      else if a = ''--sync-handler'' then scan_args as (p\<lparr>sync_handler := True\<rparr>)
      else case as of
             [] \<Rightarrow> if option_value a [] p \<noteq> None then Inl Bad_usage else Inr (p\<lparr>args := args p @ [a]\<rparr>)
           | v # as' \<Rightarrow>
               (case option_value a v p of
                  None \<Rightarrow> scan_args as (p\<lparr>args := args p @ [a]\<rparr>)
                | Some (Inl e) \<Rightarrow> Inl e
                | Some (Inr p') \<Rightarrow> scan_args as' p'))"

section \<open>The set-up\<close>

record replay_setup =
  g_region :: region
  job :: replay_job
  m_ref_trace :: "trace option"
  m_compute :: u64

definition main_config :: "replay_options \<Rightarrow> region_config" where
  "main_config p =
     \<lparr>cfg_region_len = strtoull (args p ! 2), cfg_chunk_size = strtoull (args p ! 3), cfg_model_path = Some (args p ! 1),
      cfg_cgroup_path = Some (args p ! 0), cfg_budget_bytes = strtoull (args p ! 4),
      cfg_reconcile_interval = (if eager_reconcile p then 1 else 0), cfg_prefetch_depth = unat (opt_prefetch_depth p),
      cfg_sync_handler = sync_handler p, cfg_fetch_workers = unat (opt_fetch_workers p),
      cfg_prefetch_admission_always = prefetch_admission p, cfg_prefetch_retention_none = prefetch_retention_none p,
      cfg_explicit_chunks = [], cfg_fetching_timeout_ms = opt_fetching_timeout_ms p\<rparr>"

definition main_policy :: "string \<Rightarrow> nat \<Rightarrow> main_failure + policy option" where
  "main_policy nm n =
     (if nm = ''lru'' then Inr (Some Lru)
      else if nm = ''layer_order_learned'' \<or> nm = ''layer_order'' then Inr (Some (policy_layer_order_learned_create n))
      else if nm = ''layer_order_declared'' then Inr (Some (policy_layer_order_declared_create n))
      else if nm = ''default'' then Inr None
      else Inl Bad_policy)"

text \<open>The positional argument number \<open>i\<close> if it is given and not empty.\<close>

definition given_path :: "string list \<Rightarrow> nat \<Rightarrow> string option" where
  "given_path as i = (if i < length as \<and> as ! i \<noteq> [] then Some (as ! i) else None)"

definition open_trace :: "write_result list \<Rightarrow> u8 \<Rightarrow> string option \<Rightarrow> main_failure + trace option" where
  "open_trace ws ty path =
     (case path of None \<Rightarrow> Inr None | Some _ \<Rightarrow> map_sum (\<lambda>_. Trace_abort) Some (trace_open ws ty))"

text \<open>\<open>wft\<close> and \<open>wrt\<close>: the writes of the headers of the fault trace and of the reference trace.\<close>

definition replay_main :: "host \<Rightarrow> write_result list \<Rightarrow> write_result list \<Rightarrow> string list \<Rightarrow> main_failure + replay_setup" where
  "replay_main h wft wrt argv =
     rbind (scan_args argv options_default) (\<lambda>p.
     let as = args p in
     if length as < 6 \<or> length as > 10 then Inl Bad_usage
     else let n_passes = strtoul32 (as ! 5);
              policy_name = (if length as \<ge> 7 then as ! 6 else ''layer_order_declared'');
              prefetch_arg = (if length as \<ge> 8 then as ! 7 else ''off'')
          in rbind (either_word ''on'' ''off'' prefetch_arg) (\<lambda>prefetch_on.
             rbind (map_sum Startup_abort id (region_startup h (main_config p))) (\<lambda>(r, m).
             rbind (main_policy policy_name (n_chunks r)) (\<lambda>pol.
             let r1 = r\<lparr>policy_of := policy_declare_sequence pol [0..<n_chunks r],
                        flags := \<lparr>g_lo_protect_current = protect_current p, g_lo_signal_pre = (\<not> consumption_signal_all p)\<rparr>,
                        prefetch_enabled := prefetch_on\<rparr>;
                 r2 = (if sync_handler p \<and> prefetch_on \<and> prefetch_depth r1 > 1 then prefetch_pool_start r1 (prefetch_depth r1) else r1)
             in rbind (open_trace wft TRACE_TYPE_FAULT (given_path as 8)) (\<lambda>ft.
                rbind (open_trace wrt TRACE_TYPE_REFERENCE (given_path as 9)) (\<lambda>rt.
                Inr \<lparr>g_region = r2\<lparr>trace_of := (if ft = None then trace_of r2 else ft), metrics_of := Some metrics_init,
                        diag_fetch_trace := (if fetch_trace_path p = None then diag_fetch_trace r2 else Some (fetch_trace_open 200000)),
                        diag_policy_trace := (if policy_trace_path p = None then diag_policy_trace r2 else Some (policy_trace_open 200000))\<rparr>,
                     job = \<lparr>j_threads = driver_threads p, j_window = opt_lookahead_window p, j_passes = n_passes, j_all = consumption_signal_all p\<rparr>,
                     m_ref_trace = rt, m_compute = compute_ns_per_mib p\<rparr>))))))"

text \<open>The exit code after the run.\<close>

definition replay_exit :: "region \<Rightarrow> nat" where
  "replay_exit r = (if resident_bytes r > budget_bytes r then 1 else 0)"

section \<open>A whole run\<close>

lemma main_setup:
  assumes "replay_main h wft wrt argv = Inr m"
  obtains (up) p r mf pol where "scan_args argv options_default = Inr p" "region_startup h (main_config p) = Inr (r, mf)"
    "inv_part (g_region m) = inv_part r" "async_handler (g_region m) = async_handler r" "prefetch_depth (g_region m) = prefetch_depth r"
    "policy_of (g_region m) = policy_declare_sequence pol [0..<n_chunks r]"
    "m_ref_trace m = None \<or> map_sum (\<lambda>_. Trace_abort) Some (trace_open wrt TRACE_TYPE_REFERENCE) = Inr (m_ref_trace m)"
    "j_passes (job m) = strtoul32 (args p ! 5)" "j_threads (job m) = driver_threads p" "j_all (job m) = consumption_signal_all p"
proof -
  from assms obtain p where p: "scan_args argv options_default = Inr p" by (auto simp: replay_main_def rbind_Inr_iff)
  note M = assms[unfolded replay_main_def p rbind_simps Let_def]
  have l: "\<not> (length (args p) < 6 \<or> 10 < length (args p))" using M by (auto split: if_splits)
  note M = M[unfolded if_not_P[OF l]]
  obtain pre where pre: "either_word ''on'' ''off'' (if 8 \<le> length (args p) then args p ! 7 else ''off'') = Inr pre"
    using M by (auto simp: rbind_Inr_iff)
  note M = M[unfolded pre rbind_simps]
  obtain r mf where r: "region_startup h (main_config p) = Inr (r, mf)"
    using M by (cases "region_startup h (main_config p)") auto
  note M = M[unfolded r map_sum.simps prod.case rbind_simps id_apply]
  obtain pol where pol: "main_policy (if 7 \<le> length (args p) then args p ! 6 else ''layer_order_declared'') (n_chunks r) = Inr pol"
    using M by (cases "main_policy (if 7 \<le> length (args p) then args p ! 6 else ''layer_order_declared'') (n_chunks r)") auto
  note M = M[unfolded pol rbind_simps]
  obtain ft where ft: "open_trace wft TRACE_TYPE_FAULT (given_path (args p) 8) = Inr ft" using M by (auto simp: rbind_Inr_iff)
  note M = M[unfolded ft rbind_simps]
  obtain rt where rt: "open_trace wrt TRACE_TYPE_REFERENCE (given_path (args p) 9) = Inr rt" using M by (auto simp: rbind_Inr_iff)
  note M = M[unfolded rt rbind_simps sum.inject]
  show thesis
    by (rule up[OF p r, of pol])
      (use rt in \<open>auto simp: M[symmetric] inv_part_def prefetch_pool_start_def open_trace_def split: option.splits\<close>)
qed

lemma startup_depth:
  assumes "region_startup h cfg = Inr (r, m)"
  shows "cfg_prefetch_depth cfg \<le> prefetch_depth r" "region_len r \<noteq> 0"
proof -
  show "cfg_prefetch_depth cfg \<le> prefetch_depth r"
    using assms by (auto simp: region_startup_def rbind_Inr_iff compute_budget_def Let_def)
  have "cfg_region_len cfg \<noteq> 0" using assms by (auto simp: region_startup_def rbind_Inr_iff)
  then show "region_len r \<noteq> 0" using startup_shape[OF assms] by metis
qed

text \<open>A set-up with the asynchronous handler over a file as long as the region is one in which the theorems on the pager apply.\<close>

lemma main_ready:
  assumes "replay_main h wft wrt argv = Inr m" "async_handler (g_region m)" "h_file_size h = Some fs" "region_len (g_region m) \<le> fs"
    and "\<forall>n. h_ftruncate h n \<longrightarrow> unat n < 2 ^ 63" "prefetch_depth (g_region m) \<le> 2147483648" "n_chunks (g_region m) < 2147483648"
  shows "ready_to_run (g_region m)" "0 < n_chunks (g_region m)"
proof -
  from assms(1) have "ready_to_run (g_region m) \<and> 0 < n_chunks (g_region m)"
  proof (cases rule: main_setup)
    case (up p r mf pol)
    let ?r = "g_region m"
    have e: "chunks ?r = chunks r" "region_len ?r = region_len r" "model_file_size ?r = model_file_size r"
      using up(3) by (simp_all add: inv_part_def)
    have d: "cfg_prefetch_depth (main_config p) \<le> 2147483648" using startup_depth(1)[OF up(2)] assms(6) up(5) by simp
    have x: "(\<Sum>s\<leftarrow>cfg_explicit_chunks (main_config p). unat (spec_len s)) < 2 ^ 64" by (simp add: main_config_def)
    from startup_inv[OF up(2) assms(5) d x] have inv: "budget_inv ?r {} {} (\<lambda>_. 0)" "\<forall>i<n_chunks ?r. state (chunk_at ?r i) = CHUNK_ABSENT"
      using budget_inv_cong[OF up(3)] e(1) by simp_all
    then have g: "geometry_ok ?r" by (simp add: budget_inv_def)
    then have t: "tiles 0 (chunks ?r) (unat (region_len ?r))" by (simp add: geometry_ok_def)
    have "starts_in_file ?r i" if i: "i < n_chunks ?r" for i
    proof -
      have "len (chunk_at ?r i) \<noteq> 0" using tiles_nth[OF t i] by blast
      then have "0 < unat (len (chunk_at ?r i))" by (simp add: unat_gt_0)
      then have "unat (file_off (chunk_at ?r i)) < unat fs"
        using chunk_bounds(1,3)[OF g i] assms(4) by (simp add: word_le_nat_alt)
      then show ?thesis using startup_config(3)[OF up(2) assms(3)] e(3) by (simp add: starts_in_file_def)
    qed
    moreover have "chunks ?r \<noteq> []"
    proof
      assume "chunks ?r = []"
      then show False using t startup_depth(2)[OF up(2)] e(2) by (simp add: unat_eq_zero)
    qed
    ultimately show ?thesis using inv assms(2,7) by (simp add: ready_to_run_def)
  qed
  then show "ready_to_run (g_region m)" "0 < n_chunks (g_region m)" by blast+
qed

text \<open>What the solver makes of the trace of \<open>p\<close> passes over \<open>n\<close> chunks.\<close>

lemma cyclic_floor_reached:
  assumes "0 < p" "0 < n" "p * n < 4294967296" "k < 4294967296"
  shows "cyclic_floor n p k \<le> res_misses (belady_simulate (concat (replicate p [0..<n])) k)"
proof -
  let ?ref = "concat (replicate p [0..<n])"
  have "n \<le> p * n" using assms(1) by simp
  then have n: "n < 4294967296" using assms(3) by (rule le_less_trans)
  have len: "length ?ref = p * n" by (simp add: length_concat sum_list_replicate)
  have ids: "\<forall>x\<in>set ?ref. x < 4294967295" using n by auto
  have le: "cyclic_floor n p k \<le> n + (p - 1) * (n - k)" using assms(1) by (intro cyclic_floor_mono) simp_all
  show ?thesis
  proof (cases "k = 0")
    case True
    have "n + (p - 1) * n = p * n" using assms(1) by (cases p) simp_all
    then show ?thesis using le True belady_simulate_no_slots[OF ids] len by simp
  next
    case False
    have "length ?ref \<le> NEVER" using len assms(3) by (simp add: NEVER_def)
    then have "min_run k {} ?ref (res_misses (belady_simulate ?ref k))" using False assms(4) ids by (intro belady_simulate_min) simp_all
    then have "run k {} ?ref (res_misses (belady_simulate ?ref k))" using min_run_is_run[of k "{}"] False by simp
    from run_cyclic_floor[OF _ _ this assms(1)] show ?thesis using le assms(2) by simp
  qed
qed

lemma solver_on_passes:
  assumes "load_reference_string bytes = Inr (map word_of_nat (concat (replicate p [0..<n])))"
    and "0 < p" "0 < n" "p * n < 4294967296" "0 < cs"
  shows "\<exists>misses\<ge>cyclic_floor n p (wrap32 (B div cs)). belady_main bytes cs B = Solver_opt (p * n) misses (misses * cs mod 18446744073709551616)"
proof -
  let ?ref = "concat (replicate p [0..<n])" and ?k = "wrap32 (B div cs)"
  have "n \<le> p * n" using assms(2) by simp
  then have n: "n < 4294967296" using assms(4) by (rule le_less_trans)
  have ids: "map unat (map word_of_nat ?ref :: u32 list) = ?ref"
    using n by (intro map_idI[THEN trans[OF map_map]]) (auto simp: unat_of_nat split: if_splits)
  have ne: "?ref \<noteq> []" using assms(2,3) by (cases p) auto
  have len: "length ?ref = p * n" by (simp add: length_concat sum_list_replicate)
  have k: "?k < 4294967296" by (simp add: wrap32_def)
  have "length ?ref \<le> NEVER" using len assms(4) by (simp add: NEVER_def)
  then have c: "check_cyclic_floor_or_abort ?ref ?k (res_misses (belady_simulate ?ref ?k)) \<noteq> None" using k by (rule floor_check_passes)
  have "res_total_refs (belady_simulate ?ref ?k) = p * n" using ne len by (simp add: belady_simulate_def Let_def)
  then show ?thesis
    using cyclic_floor_reached[OF assms(2-4) k] assms(1,5) ne c unfolding belady_main_def by (auto simp: ids Let_def simp del: map_map)
qed

text \<open>
  C31. A whole run, from the command line to the solution of its trace: whenever the set-up succeeds with the
  asynchronous handler, several threads, a model file as long as the region and a reference trace, every finished
  run, under every interleaving of the driver threads with the pager's, ends with exit code 0 (the bytes resident are within the
  budget), reports all passes over all bytes, and leaves a trace that the offline solver accepts as the passes that
  were made, with an optimum not below the floor of a cyclic scan.
\<close>

theorem replay_main_passes:
  assumes "replay_main h wft wrt argv = Inr m" and "async_handler (g_region m)" and "1 < j_threads (job m)" and "m_ref_trace m = Some t"
    and "h_file_size h = Some fs" and "region_len (g_region m) \<le> fs" and "\<forall>n. h_ftruncate h n \<longrightarrow> unat n < 2 ^ 63"
    and "prefetch_depth (g_region m) \<le> 2147483648" and "n_chunks (g_region m) < 2147483648"
    and "0 < j_passes (job m)" and "unat (j_passes (job m)) * n_chunks (g_region m) < 2 ^ 32"
    and "reachable (pager_start (g_region m)) s" and "replays (job m) (mt_start (job m) s snk (m_ref_trace m)) k w" and "finished (job m) w"
    and "0 < chunk_size" and "p = unat (j_passes (job m))" and "n = n_chunks (g_region m)"
  shows "replay_exit (reg (pager w)) = 0
    \<and> mt_result (job m) wall w = Some \<lparr>wall_ns = wall, res_passes = j_passes (job m), n_touches = word_of_nat (p * n),
         res_bytes = of_nat p * region_len (g_region m)\<rparr>
    \<and> (\<exists>t' misses. dr_trace (drv w) = Some t' \<and> cyclic_floor n p (wrap32 (budget div chunk_size)) \<le> misses
         \<and> belady_main (trace_file t') chunk_size budget = Solver_opt (p * n) misses (misses * chunk_size mod 18446744073709551616))"
proof -
  let ?r = "g_region m"
  note R = main_ready[OF assms(1,2,5-9)]
  have j: "0 < j_threads (job m)" using assms(3) by (simp add: word_less_nat_alt)
  note F = finished_run[OF R(1) assms(12) j assms(13,14)]
  have T: "total_steps (job m) ?r = p * n"
    using assms(11,16,17) by (simp add: total_steps_def unat_word_ariths unat_of_nat mod_simps)
  have steps: "steps_upto n (p * n) = concat (replicate p [0..<n])" by (simp add: steps_upto_def concat_replicate_upt)
  note F = F[unfolded T assms(17)[symmetric] steps]
  have pos: "0 < p" "0 < n" "p * n < 4294967296" using assms(10,11,16,17) R(2) by (simp_all add: word_less_nat_alt)
  have "reachable (pager_start ?r) (pager w)" using replays_ok[OF R(1) assms(12) j assms(13)] by (simp add: whole_ok_def)
  then obtain C X Y where "sys_ok (pager w) C X Y" by (rule reachable_core[OF R(1)])
  then have "unat (resident_bytes (reg (pager w))) + unat (reserved_bytes (reg (pager w))) \<le> unat (budget_bytes (reg (pager w)))"
    by (rule sys_okD(7))
  then have "replay_exit (reg (pager w)) = 0" by (simp add: replay_exit_def word_less_nat_alt)
  moreover have "touched (drv w) = of_nat p * region_len ?r"
    using F(2) sum_lens_region R(1) assms(17) by (simp add: sum_list_passes ready_to_run_def budget_inv_def)
  then have "mt_result (job m) wall w = Some \<lparr>wall_ns = wall, res_passes = j_passes (job m), n_touches = word_of_nat (p * n),
         res_bytes = of_nat p * region_len ?r\<rparr>"
    using F(4)[of wall] assms(16) by simp
  moreover obtain ws where "trace_open ws TRACE_TYPE_REFERENCE = Inr t"
    using assms(1)
  proof (cases rule: main_setup)
    case (up p r mf pol)
    then show ?thesis using assms(4) that by (cases "trace_open wrt TRACE_TYPE_REFERENCE") auto
  qed
  note ws = this
  obtain t' recs where tr: "dr_trace (drv w) = Some t'" "reference_records 0 (concat (replicate p [0..<n])) recs"
    "trace_file t' = trace_file t @ concat (map record_bytes recs)"
    using F(3)[unfolded assms(4) option.case] by blast
  note t' = tr(1) reference_records_load[OF ws tr(2,3)]
  from solver_on_passes[OF t'(2) pos assms(15)] t'(1) have "\<exists>t' misses. dr_trace (drv w) = Some t'
      \<and> cyclic_floor n p (wrap32 (budget div chunk_size)) \<le> misses
      \<and> belady_main (trace_file t') chunk_size budget = Solver_opt (p * n) misses (misses * chunk_size mod 18446744073709551616)" by blast
  ultimately show ?thesis by blast
qed

section \<open>A concrete run\<close>

text \<open>One chunk, two threads, two passes, with a reference trace; the chunk is fetched before the driver starts.\<close>

definition demo_argv :: "string list" where
  "demo_argv = [''cg'', ''model'', ''4096'', ''--driver-threads'', ''2'', ''4096'', ''16384'', ''--prefetch-retention'', ''none'', ''2'',
     ''--fetch-workers'', ''1'', ''default'', ''off'', [], ''ref.trace'', ''--lookahead-window'', ''1'']"

definition demo_options :: replay_options where
  "demo_options = options_default\<lparr>driver_threads := 2, prefetch_retention_none := True, opt_fetch_workers := 1, opt_lookahead_window := 1,
     args := [''cg'', ''model'', ''4096'', ''4096'', ''16384'', ''2'', ''default'', ''off'', [], ''ref.trace'']\<rparr>"

definition demo_one :: region where
  "demo_one = zero_region\<lparr>region_len := 4096, model_file_size := 10000, used_o_direct := True, chunks := [new_chunk 0 0 4096 0],
     budget_bytes := 16384, flags := \<lparr>g_lo_protect_current = False, g_lo_signal_pre = False\<rparr>, metrics_of := Some metrics_init,
     reconcile_interval := 16, prefetch_depth := 1, async_handler := True, fetch_workers := 1,
     fetching_timeout_ms := 30000, pinned_prefetch := ring_new 1, model_data := h_file_data demo_host\<rparr>"

lemma demo_args: "scan_args demo_argv options_default = Inr demo_options"
  by code_simp

lemma demo_config: "strtoull ''4096'' = 4096 \<and> strtoull ''16384'' = 16384 \<and> strtoul32 ''2'' = 2"
  by code_simp

lemma demo_up: "\<exists>mf. region_startup demo_host (main_config demo_options) = Inr
    (demo_one\<lparr>flags := policy_flags_default, metrics_of := None\<rparr>, mf)"
proof -
  let ?m0 = "zero_manifest\<lparr>m_cgroup_path := take 255 ''cg'', m_model_path := take 255 ''model'',
         m_kernel_release := take 127 (case h_uname demo_host of Some u \<Rightarrow> u | None \<Rightarrow> ''unknown''),
         m_shmem_enabled := (case read_small_file 64 (h_shmem_enabled demo_host) of Some s \<Rightarrow> s | None \<Rightarrow> ''unknown'')\<rparr>"
  obtain m1 where m1: "verify_cgroup demo_host ?m0 = Inr m1"
    by (simp add: verify_cgroup_def demo_host_def read_small_file_def Let_def require_def)
  have cfg: "main_config demo_options =
     \<lparr>cfg_region_len = 4096, cfg_chunk_size = 4096, cfg_model_path = Some ''model'', cfg_cgroup_path = Some ''cg'', cfg_budget_bytes = 16384,
      cfg_reconcile_interval = 0, cfg_prefetch_depth = 0, cfg_sync_handler = False, cfg_fetch_workers = 1,
      cfg_prefetch_admission_always = False, cfg_prefetch_retention_none = True, cfg_explicit_chunks = [], cfg_fetching_timeout_ms = 0\<rparr>"
    by (simp add: main_config_def demo_options_def options_default_def demo_config)
  have table: "build_chunk_table 4096 4096 = Inr [new_chunk 0 0 4096 0]" by code_simp
  show ?thesis
    unfolding region_startup_def Let_def cfg region_config.simps option.sel m1
    by (simp add: demo_host_def require_def demo_one_def verify_uffd_features_def
        create_backing_store_def map_and_register_def open_model_file_def compute_budget_def table
        zero_region_def Let_def)
qed

lemma demo_replay_main:
  assumes "trace_open demo_script TRACE_TYPE_REFERENCE = Inr t"
  shows "replay_main demo_host [] demo_script demo_argv = Inr
    \<lparr>g_region = demo_one, job = \<lparr>j_threads = 2, j_window = 1, j_passes = 2, j_all = True\<rparr>, m_ref_trace = Some t, m_compute = 0\<rparr>"
proof -
  obtain mf where up: "region_startup demo_host (main_config demo_options) = Inr (demo_one\<lparr>flags := policy_flags_default, metrics_of := None\<rparr>, mf)"
    using demo_up by blast
  have a: "args demo_options = [''cg'', ''model'', ''4096'', ''4096'', ''16384'', ''2'', ''default'', ''off'', [], ''ref.trace'']"
    by (simp add: demo_options_def)
  have o: "either_word ''on'' ''off'' ''off'' = Inr False" "main_policy ''default'' n = Inr None" for n
    by (simp_all add: either_word_def main_policy_def)
  show ?thesis
    unfolding replay_main_def demo_args rbind_simps Let_def up a
    by (simp add: up o given_path_def open_trace_def assms demo_config)
      (simp add: demo_options_def options_default_def demo_one_def zero_region_def)
qed

lemma demo_one_fault:
  "map_option (\<lambda>s. (workers s, map state (chunks (reg s)))) (fault_alone demo_kernel 0 (pager_start demo_one)) = Some ([Idle], [CHUNK_RESIDENT])"
  by code_simp

theorem replay_main_passes_witness:
  "\<exists>m s k w t' misses. replay_main demo_host [] demo_script demo_argv = Inr m \<and> reachable (pager_start (g_region m)) s
     \<and> replays (job m) (mt_start (job m) s 0 (m_ref_trace m)) k w \<and> finished (job m) w \<and> replay_exit (reg (pager w)) = 0
     \<and> dr_trace (drv w) = Some t' \<and> 1 \<le> misses \<and> belady_main (trace_file t') 4096 4096 = Solver_opt 2 misses (misses * 4096 mod 18446744073709551616)"
proof -
  obtain t where "trace_open demo_script TRACE_TYPE_REFERENCE = Inr t" by (rule demo_replay_returns)
  from demo_replay_main[OF this] obtain m where m: "replay_main demo_host [] demo_script demo_argv = Inr m"
    and r: "g_region m = demo_one" "job m = \<lparr>j_threads = 2, j_window = 1, j_passes = 2, j_all = True\<rparr>" "m_ref_trace m = Some t" by simp
  have sh: "async_handler (g_region m)" "region_len (g_region m) = 4096" "prefetch_depth (g_region m) = 1" "n_chunks (g_region m) = 1"
    by (simp_all add: r demo_one_def)
  have hs: "\<forall>n. h_ftruncate demo_host n \<longrightarrow> unat n < 2 ^ 63" by (rule demo_host_sizes)
  have fs: "h_file_size demo_host = Some 10000" by (simp add: demo_host_def)
  have ready: "ready_to_run (g_region m)" using main_ready(1)[OF m sh(1) fs _ hs] sh by simp
  obtain s where s: "fault_alone demo_kernel 0 (pager_start (g_region m)) = Some s"
    "workers s = [Idle]" "map state (chunks (reg s)) = [CHUNK_RESIDENT]"
    using demo_one_fault r(1) by auto
  have reach: "reachable (pager_start (g_region m)) s" by (rule fault_alone_reachable[OF reach_start s(1)])
  have n: "n_chunks (reg s) = 1" using arg_cong[OF s(3), of length] by simp
  have "state (chunk_at (reg s) 0) = CHUNK_RESIDENT" using arg_cong[OF s(3), of "\<lambda>l. l ! 0"] n by simp
  then have "warm s" using n s(2) by (simp add: warm_def budget_free_def)
  then obtain k w where run: "replays (job m) (mt_start (job m) s 0 (m_ref_trace m)) k w" "finished (job m) w"
    using warm_finishes[OF ready reach, of "job m" 0 "m_ref_trace m"] r(2) by auto
  have f: "cyclic_floor 1 2 (wrap32 (4096 div 4096)) = 1" by (simp add: cyclic_floor_def wrap32_def)
  have c: "replay_exit (reg (pager w)) = 0 \<and> (\<exists>t' misses. dr_trace (drv w) = Some t' \<and> cyclic_floor 1 2 (wrap32 (4096 div 4096)) \<le> misses
         \<and> belady_main (trace_file t') 4096 4096 = Solver_opt (2 * 1) misses (misses * 4096 mod 18446744073709551616))"
  proof -
    have h: "1 < j_threads (job m)" "region_len (g_region m) \<le> 10000" "prefetch_depth (g_region m) \<le> 2147483648"
      "n_chunks (g_region m) < 2147483648" "0 < j_passes (job m)" "(2 :: nat) = unat (j_passes (job m))" "1 = n_chunks (g_region m)"
      by (simp_all only: sh r(2)) simp_all
    have "(2 :: nat) * 1 < 2 ^ 32" by simp
    then have l: "unat (j_passes (job m)) * n_chunks (g_region m) < 2 ^ 32" unfolding h(6,7)[symmetric] .
    have "0 < (4096 :: nat)" by simp
    from replay_main_passes[OF m sh(1) h(1) r(3) fs h(2) hs h(3,4,5) l reach run this h(6,7), of 0 4096] show ?thesis by blast
  qed
  then obtain t' misses where "replay_exit (reg (pager w)) = 0" "dr_trace (drv w) = Some t'" "1 \<le> misses"
    "belady_main (trace_file t') 4096 4096 = Solver_opt 2 misses (misses * 4096 mod 18446744073709551616)" unfolding f by auto
  with m reach run show ?thesis by (intro exI conjI)
qed

end
