(* ===== verification/Wp2_Opt.thy ===== *)
theory Wp2_Opt
  imports Belady Text_Files
begin

text \<open>
  The offline optimum for chunks of unequal size (\<^verbatim>\<open>wp2_opt.c\<close>): the reference string of a
  declared pass, the greedy simulation under a byte budget and the checks of its result. The simulation keeps its
  cache within the budget, and for chunks of one size it follows Belady's rule, so its misses are the optimum.
\<close>

section \<open>Input\<close>

text \<open>The numbers of a file, one to a line; empty lines and comments are skipped.\<close>

definition number_lines :: "string \<Rightarrow> u64 list" where
  "number_lines s = map strtoull (filter (\<lambda>l. hd l \<noteq> CHR 0x0A \<and> hd l \<noteq> CHR ''#'') (fgets_pieces 63 s))"

definition repeated :: "nat list \<Rightarrow> u64 \<Rightarrow> nat list" where
  "repeated pass total_refs = map (\<lambda>i. pass ! (i mod length pass)) [0..<unat total_refs]"

text \<open>The backward loop: the last use seen of every chunk, and the next uses from \<open>i\<close> on.\<close>

definition next_uses :: "nat \<Rightarrow> nat list \<Rightarrow> nat list" where
  "next_uses n ref = snd (foldr (\<lambda>i (last_seen, nu). (last_seen[ref ! i := i], last_seen ! (ref ! i) # nu))
     [0..<length ref] (replicate n NEVER, []))"

section \<open>The simulation\<close>

record byte_solver =
  o_resident :: "bool list"
  o_nextuse :: "nat list"
  o_bytes :: u64
  o_missed_bytes :: u64
  o_misses :: nat

definition furthest_resident :: "byte_solver \<Rightarrow> (nat \<times> nat) option" where
  "furthest_resident s = pick (>) (\<lambda>k. o_resident s ! k) (\<lambda>k. o_nextuse s ! k) [0..<length (o_resident s)] None"

function evict_loop_bytes :: "u64 list \<Rightarrow> u64 \<Rightarrow> u64 \<Rightarrow> byte_solver \<Rightarrow> byte_solver" where
  "evict_loop_bytes len budget need s =
     (if o_bytes s + need > budget
      then case furthest_resident s of
             None \<Rightarrow> s
           | Some (victim, _) \<Rightarrow>
               evict_loop_bytes len budget need
                 (s\<lparr>o_resident := (o_resident s)[victim := False], o_bytes := o_bytes s - len ! victim\<rparr>)
      else s)"
  by pat_completeness auto

lemma furthest_resident_Some:
  assumes "furthest_resident s = Some (v, d)"
  shows "v < length (o_resident s) \<and> o_resident s ! v \<and> d = o_nextuse s ! v
    \<and> (\<forall>k<length (o_resident s). o_resident s ! k \<longrightarrow> o_nextuse s ! k \<le> o_nextuse s ! v)"
  using nat_greater.pick_upt[OF assms[unfolded furthest_resident_def]] by (simp add: not_less)

lemma furthest_resident_None: "furthest_resident s = None \<longleftrightarrow> (\<forall>k<length (o_resident s). \<not> o_resident s ! k)"
  by (auto simp: furthest_resident_def nat_greater.pick_None_iff)

definition held :: "byte_solver \<Rightarrow> nat set" where
  "held s = {c. c < length (o_resident s) \<and> o_resident s ! c}"

lemma finite_held [simp]: "finite (held s)"
  by (simp add: held_def)

lemma held_evict: "v \<in> held s \<Longrightarrow> held (s\<lparr>o_resident := (o_resident s)[v := False], o_bytes := b\<rparr>) = held s - {v}"
  by (auto simp: held_def nth_list_update split: if_splits)

termination evict_loop_bytes
proof (relation "measure (\<lambda>(_, _, _, s). card (held s))")
  fix len :: "u64 list" and budget need :: u64 and s x v and d :: nat
  assume "furthest_resident s = Some x" "(v, d) = x"
  then have v: "v \<in> held s" using furthest_resident_Some[of s v d] by (simp add: held_def)
  then have "card (held s - {v}) < card (held s)" by (intro card_Diff1_less) simp_all
  then show "((len, budget, need, s\<lparr>o_resident := (o_resident s)[v := False], o_bytes := o_bytes s - len ! v\<rparr>), len, budget, need, s)
      \<in> measure (\<lambda>(_, _, _, s). card (held s))"
    by (simp only: in_measure prod.case held_evict[OF v])
qed simp

declare evict_loop_bytes.simps [simp del]

definition byte_step :: "u64 list \<Rightarrow> u64 \<Rightarrow> nat list \<Rightarrow> nat list \<Rightarrow> nat \<Rightarrow> byte_solver \<Rightarrow> byte_solver" where
  "byte_step len budget ref next_use i s =
     (let c = ref ! i; noted = (\<lambda>s. s\<lparr>o_nextuse := (o_nextuse s)[c := next_use ! i]\<rparr>)
      in if o_resident s ! c then noted s
         else let s1 = s\<lparr>o_misses := o_misses s + 1, o_missed_bytes := o_missed_bytes s + len ! c\<rparr>
              in if len ! c > budget then noted s1
                 else let s2 = evict_loop_bytes len budget (len ! c) s1
                      in noted (s2\<lparr>o_resident := (o_resident s2)[c := True], o_bytes := o_bytes s2 + len ! c\<rparr>))"

definition byte_start :: "nat \<Rightarrow> byte_solver" where
  "byte_start n = \<lparr>o_resident = replicate n False, o_nextuse = replicate n 0, o_bytes = 0, o_missed_bytes = 0, o_misses = 0\<rparr>"

definition byte_simulate :: "u64 list \<Rightarrow> u64 \<Rightarrow> nat list \<Rightarrow> byte_solver" where
  "byte_simulate len budget ref =
     foldl (\<lambda>s i. byte_step len budget ref (next_uses (length len) ref) i s) (byte_start (length len)) [0..<length ref]"

section \<open>The checks and the report\<close>

definition count_distinct :: "u64 list \<Rightarrow> nat list \<Rightarrow> bool list \<times> nat \<times> u64" where
  "count_distinct len pass =
     fold (\<lambda>c (seen, distinct, sum_distinct).
         if seen ! c then (seen, distinct, sum_distinct) else (seen[c := True], distinct + 1, sum_distinct + len ! c))
       pass (replicate (length len) False, 0, 0)"

definition all_equal :: "u64 list \<Rightarrow> bool list \<Rightarrow> bool" where
  "all_equal len seen =
     (case filter (\<lambda>c. seen ! c) [0..<length len] of [] \<Rightarrow> True | c # cs \<Rightarrow> list_all (\<lambda>d. len ! d = len ! c) cs)"

record byte_report =
  b_total_refs :: u64
  b_misses :: nat
  b_missed_bytes :: u64
  b_sum :: u64
  b_equal :: bool
  b_below :: bool

definition byte_result :: "u64 list \<Rightarrow> u64 \<Rightarrow> u32 \<Rightarrow> nat list \<Rightarrow> byte_report" where
  "byte_result len budget passes pass =
     (let total_refs = word_of_nat (length pass) * ucast passes;
          s = byte_simulate len budget (repeated pass total_refs);
          (seen, distinct, sum_distinct) = count_distinct len pass;
          equal = all_equal len seen
      in \<lparr>b_total_refs = total_refs, b_misses = o_misses s, b_missed_bytes = o_missed_bytes s, b_sum = sum_distinct, b_equal = equal,
          b_below = (o_misses s < distinct \<or> o_missed_bytes s < sum_distinct
            \<or> equal \<and> o_missed_bytes s \<noteq> word_of_nat (o_misses s) * len ! 0)\<rparr>)"

datatype byte_run = Byte_usage | Byte_failed | Byte_out_of_range | Byte_opt byte_report

text \<open>
  \<open>files\<close> is what opening a path gives. An id outside the chunk table indexes past the arrays: undefined
  behaviour, here \<open>Byte_out_of_range\<close>.
\<close>

definition wp2_opt_main :: "(string \<Rightarrow> string option) \<Rightarrow> string list \<Rightarrow> byte_run" where
  "wp2_opt_main files args =
     (if length args \<noteq> 3 \<and> length args \<noteq> 4 then Byte_usage
      else case files (args ! 0) of
        None \<Rightarrow> Byte_failed
      | Some lens \<Rightarrow>
          let len = number_lines lens; budget = strtoull (args ! 1); passes = ucast (strtoull (args ! 2)) :: u32;
              pass = (if length args = 4 then map_option (\<lambda>s. map (\<lambda>v. unat (ucast v :: u32)) (number_lines s)) (files (args ! 3))
                      else Some [0..<length len])
          in if len = [] \<or> passes = 0 then Byte_failed
             else case pass of
               None \<Rightarrow> Byte_failed
             | Some pass \<Rightarrow>
                 if pass = [] then Byte_failed
                 else if list_ex (\<lambda>c. length len \<le> c) pass then Byte_out_of_range
                 else Byte_opt (byte_result len budget passes pass))"

section \<open>Next uses\<close>

lemma next_at_replace: "i < length ref \<Longrightarrow> c \<noteq> ref ! i \<Longrightarrow> next_at ref i c = next_at ref (Suc i) c"
  by (simp add: next_at_step)

lemma next_uses_loop:
  assumes "\<forall>c\<in>set ref. c < n" "i \<le> length ref"
  shows "\<exists>ls. foldr (\<lambda>i (last_seen, nu). (last_seen[ref ! i := i], last_seen ! (ref ! i) # nu)) [i..<length ref] (replicate n NEVER, [])
     = (ls, map (\<lambda>j. next_at ref (Suc j) (ref ! j)) [i..<length ref]) \<and> length ls = n \<and> (\<forall>c<n. ls ! c = next_at ref i c)"
  using assms(2)
proof (induction "length ref - i" arbitrary: i)
  case 0
  then show ?case by (simp add: next_at_def)
next
  case (Suc m)
  then have i: "i < length ref" by simp
  then have "m = length ref - Suc i" "Suc i \<le> length ref" using Suc.hyps(2) by simp_all
  from Suc.hyps(1)[OF this] obtain ls where
    ls: "foldr (\<lambda>i (last_seen, nu). (last_seen[ref ! i := i], last_seen ! (ref ! i) # nu)) [Suc i..<length ref] (replicate n NEVER, [])
     = (ls, map (\<lambda>j. next_at ref (Suc j) (ref ! j)) [Suc i..<length ref])" "length ls = n" "\<forall>c<n. ls ! c = next_at ref (Suc i) c"
    by blast
  have r: "ref ! i < n" using assms(1) i by simp
  show ?case
    using ls r i by (simp add: upt_conv_Cons nth_list_update next_at_step[OF i])
qed

lemma next_uses_nth:
  assumes "\<forall>c\<in>set ref. c < n" "i < length ref"
  shows "next_uses n ref ! i = next_at ref (Suc i) (ref ! i)"
  using next_uses_loop[OF assms(1), of 0] assms(2) by (auto simp: next_uses_def)

section \<open>The budget\<close>

definition byte_inv :: "u64 list \<Rightarrow> u64 \<Rightarrow> byte_solver \<Rightarrow> bool" where
  "byte_inv len budget s \<longleftrightarrow> length (o_resident s) = length len \<and> length (o_nextuse s) = length len
     \<and> unat (o_bytes s) = (\<Sum>c\<in>held s. unat (len ! c)) \<and> o_bytes s \<le> budget"

lemma evict_loop_bytes_keeps:
  "o_nextuse (evict_loop_bytes len budget need s) = o_nextuse s \<and> o_misses (evict_loop_bytes len budget need s) = o_misses s
   \<and> o_missed_bytes (evict_loop_bytes len budget need s) = o_missed_bytes s"
proof (induction len budget need s rule: evict_loop_bytes.induct)
  case (1 len budget need s)
  show ?case
    by (subst (1 2 3) evict_loop_bytes.simps) (use 1 in \<open>auto split: option.split\<close>)
qed

lemma evict_loop_room:
  assumes "byte_inv len budget s" "need \<le> budget" "unat budget < 2 ^ 63"
  defines "s' \<equiv> evict_loop_bytes len budget need s"
  shows "byte_inv len budget s' \<and> held s' \<subseteq> held s \<and> unat (o_bytes s') + unat need \<le> unat budget"
  using assms(1,2,3) unfolding s'_def
proof (induction len budget need s rule: evict_loop_bytes.induct)
  case (1 len budget need s)
  have le: "unat (o_bytes s) \<le> unat budget" "unat need \<le> unat budget" using "1.prems" by (simp_all add: byte_inv_def word_le_nat_alt)
  then have add: "unat (o_bytes s + need) = unat (o_bytes s) + unat need" using "1.prems"(3) by (intro unat_add_exact) simp
  show ?case
  proof (cases "o_bytes s + need > budget")
    case False
    then show ?thesis using "1.prems" add by (subst (1 2 3) evict_loop_bytes.simps) (simp add: word_less_nat_alt not_less)
  next
    case True
    show ?thesis
    proof (cases "furthest_resident s")
      case None
      then have "held s = {}" by (auto simp: furthest_resident_None held_def)
      then have "unat (o_bytes s) = 0" using "1.prems"(1) by (simp add: byte_inv_def)
      then have "unat (o_bytes s + need) \<le> unat budget" using add le by simp
      then show ?thesis using True by (simp add: word_less_nat_alt)
    next
      case (Some x)
      obtain v d where x: "x = (v, d)" by fastforce
      let ?s = "s\<lparr>o_resident := (o_resident s)[v := False], o_bytes := o_bytes s - len ! v\<rparr>"
      have v: "v \<in> held s" using furthest_resident_Some Some x by (fastforce simp: held_def)
      note H = held_evict[OF v, of "o_bytes s - len ! v"]
      have sum: "unat (o_bytes s) = unat (len ! v) + (\<Sum>c\<in>held s - {v}. unat (len ! c))"
        using "1.prems"(1) v by (simp add: byte_inv_def sum.remove)
      then have "unat (o_bytes s - len ! v) = (\<Sum>c\<in>held s - {v}. unat (len ! c))" by (simp add: unat_sub word_le_nat_alt)
      moreover from this sum le(1) have "o_bytes s - len ! v \<le> budget" by (simp add: word_le_nat_alt)
      ultimately have "byte_inv len budget ?s" using "1.prems"(1) H by (simp add: byte_inv_def)
      from "1.IH"[OF True Some x[symmetric] this "1.prems"(2,3)] show ?thesis
        using True Some x H by (subst (1 2 3) evict_loop_bytes.simps) auto
    qed
  qed
qed

lemma held_load: "c < length (o_resident s) \<Longrightarrow> held (s\<lparr>o_resident := (o_resident s)[c := True], o_bytes := b, o_nextuse := u\<rparr>) = insert c (held s)"
  by (auto simp: held_def nth_list_update split: if_splits)

text \<open>What a reference does, hit or miss.\<close>

lemma byte_step_hit:
  "ref ! i \<in> held s \<Longrightarrow> byte_step len budget ref nu i s = s\<lparr>o_nextuse := (o_nextuse s)[ref ! i := nu ! i]\<rparr>"
  by (simp add: byte_step_def held_def)

lemma byte_step_effect:
  fixes nu :: "nat list"
  assumes "byte_inv len budget s" "ref ! i < length len" "unat budget < 2 ^ 63"
  defines "s' \<equiv> byte_step len budget ref nu i s"
  shows "byte_inv len budget s'" "held s' \<subseteq> insert (ref ! i) (held s)" "o_nextuse s' = (o_nextuse s)[ref ! i := nu ! i]"
    "o_misses s' = o_misses s + (if ref ! i \<in> held s then 0 else 1)"
    "o_missed_bytes s' = o_missed_bytes s + (if ref ! i \<in> held s then 0 else len ! (ref ! i))"
proof -
  let ?c = "ref ! i"
  let ?s1 = "s\<lparr>o_misses := o_misses s + 1, o_missed_bytes := o_missed_bytes s + len ! ?c\<rparr>"
  let ?s2 = "evict_loop_bytes len budget (len ! ?c) ?s1"
  have lr: "length (o_resident s) = length len" using assms(1) by (simp add: byte_inv_def)
  have hit: "o_resident s ! ?c = (?c \<in> held s)" using lr assms(2) by (simp add: held_def)
  have i1: "byte_inv len budget ?s1" using assms(1) by (simp add: byte_inv_def held_def)
  have h1: "held ?s1 = held s" by (simp add: held_def)
  consider (hit) "?c \<in> held s" | (big) "?c \<notin> held s" "budget < len ! ?c" | (load) "?c \<notin> held s" "len ! ?c \<le> budget" by fastforce
  then have "byte_inv len budget s' \<and> held s' \<subseteq> insert ?c (held s) \<and> o_nextuse s' = (o_nextuse s)[?c := nu ! i]
    \<and> o_misses s' = o_misses s + (if ?c \<in> held s then 0 else 1)
    \<and> o_missed_bytes s' = o_missed_bytes s + (if ?c \<in> held s then 0 else len ! ?c)"
  proof cases
    case hit
    then have s': "s' = s\<lparr>o_nextuse := (o_nextuse s)[?c := nu ! i]\<rparr>" unfolding s'_def by (rule byte_step_hit)
    have "byte_inv len budget s'" "held s' = held s" using assms(1) by (simp_all add: s' byte_inv_def held_def)
    then show ?thesis using hit by (simp add: s' subset_insertI)
  next
    case big
    then have s': "s' = ?s1\<lparr>o_nextuse := (o_nextuse s)[?c := nu ! i]\<rparr>" using hit by (simp add: s'_def byte_step_def Let_def)
    have "byte_inv len budget s'" "held s' = held s" using assms(1) by (simp_all add: s' byte_inv_def held_def)
    then show ?thesis using big by (simp add: s' subset_insertI)
  next
    case load
    note R = evict_loop_room[OF i1 load(2) assms(3)]
    note K = evict_loop_bytes_keeps[of len budget "len ! ?c" ?s1]
    have s': "s' = ?s2\<lparr>o_resident := (o_resident ?s2)[?c := True], o_bytes := o_bytes ?s2 + len ! ?c,
        o_nextuse := (o_nextuse ?s2)[?c := nu ! i]\<rparr>"
      using load hit by (simp add: s'_def byte_step_def Let_def)
    have l2: "length (o_resident ?s2) = length len" "length (o_nextuse ?s2) = length len" using R by (simp_all add: byte_inv_def)
    have h: "held s' = insert ?c (held ?s2)" unfolding s' using l2(1) assms(2) by (intro held_load) simp
    have nc: "?c \<notin> held ?s2" using R h1 load(1) by auto
    have b2: "unat (o_bytes ?s2) = (\<Sum>c\<in>held ?s2. unat (len ! c))" using R by (simp add: byte_inv_def)
    have add: "unat (o_bytes ?s2 + len ! ?c) = unat (o_bytes ?s2) + unat (len ! ?c)"
      using R assms(3) by (intro unat_add_exact) simp
    then have "o_bytes s' \<le> budget" using R by (simp add: s' word_le_nat_alt)
    moreover have "unat (o_bytes s') = (\<Sum>c\<in>held s'. unat (len ! c))"
      unfolding h using nc add b2 by (simp add: s')
    ultimately have "byte_inv len budget s'" using l2 by (simp add: byte_inv_def s')
    moreover have "held s' \<subseteq> insert ?c (held s)" using h R h1 by auto
    ultimately show ?thesis using load K by (simp add: s')
  qed
  then show "byte_inv len budget s'" "held s' \<subseteq> insert ?c (held s)" "o_nextuse s' = (o_nextuse s)[?c := nu ! i]"
    "o_misses s' = o_misses s + (if ?c \<in> held s then 0 else 1)"
    "o_missed_bytes s' = o_missed_bytes s + (if ?c \<in> held s then 0 else len ! ?c)" by blast+
qed

text \<open>The state after the first \<open>i\<close> references.\<close>

definition byte_state :: "u64 list \<Rightarrow> u64 \<Rightarrow> nat list \<Rightarrow> nat \<Rightarrow> byte_solver" where
  "byte_state len budget ref k =
     foldl (\<lambda>s i. byte_step len budget ref (next_uses (length len) ref) i s) (byte_start (length len)) [0..<k]"

lemma byte_state_Suc:
  "byte_state len budget ref (Suc k) = byte_step len budget ref (next_uses (length len) ref) k (byte_state len budget ref k)"
  by (simp add: byte_state_def)

lemma byte_start_inv: "byte_inv len budget (byte_start (length len)) \<and> held (byte_start (length len)) = {}"
  by (auto simp: byte_inv_def byte_start_def held_def)

lemma byte_state_inv:
  assumes "\<forall>c\<in>set ref. c < length len" "unat budget < 2 ^ 63" "k \<le> length ref"
  shows "byte_inv len budget (byte_state len budget ref k) \<and> held (byte_state len budget ref k) \<subseteq> set (take k ref)
    \<and> card (set (take k ref)) \<le> o_misses (byte_state len budget ref k)"
  using assms(3)
proof (induction k)
  case 0
  then show ?case using byte_start_inv[of len budget] by (simp add: byte_state_def)
next
  case (Suc k)
  let ?s = "byte_state len budget ref k"
  have k: "ref ! k < length len" using assms(1) Suc.prems by simp
  have t: "set (take (Suc k) ref) = insert (ref ! k) (set (take k ref))" using Suc.prems by (simp add: take_Suc_conv_app_nth)
  note IH = Suc.IH[OF Suc_leD[OF Suc.prems]]
  note E = byte_step_effect[of len budget ?s ref k "next_uses (length len) ref", OF conjunct1[OF IH] k assms(2), folded byte_state_Suc]
  have "card (insert (ref ! k) (set (take k ref))) \<le> o_misses (byte_state len budget ref (Suc k))"
    using IH E(4) by (cases "ref ! k \<in> held ?s") (auto simp: insert_absorb card_insert_if)
  then show ?case using E(1,2) IH unfolding t by blast
qed

section \<open>Chunks of one size\<close>

definition follows :: "u64 list \<Rightarrow> u64 \<Rightarrow> u64 \<Rightarrow> nat list \<Rightarrow> nat \<Rightarrow> byte_solver \<Rightarrow> bool" where
  "follows len budget sz ref i s \<longleftrightarrow> byte_inv len budget s \<and> unat budget < 2 ^ 63 \<and> 0 < sz \<and> sz \<le> budget
     \<and> (\<forall>c\<in>set ref. c < length len \<and> len ! c = sz) \<and> held s \<subseteq> set ref \<and> length ref \<le> NEVER
     \<and> (\<forall>c\<in>held s. o_nextuse s ! c = next_at ref i c)"

lemma follows_bytes:
  assumes "follows len budget sz ref i s"
  shows "unat (o_bytes s) = card (held s) * unat sz" "card (held s) \<le> unat budget div unat sz"
    "o_bytes s + sz > budget \<longleftrightarrow> \<not> card (held s) < unat budget div unat sz"
proof -
  have sz: "0 < unat sz" using assms by (simp add: follows_def word_gt_0 unat_gt_0)
  have "(\<Sum>c\<in>held s. unat (len ! c)) = (\<Sum>c\<in>held s. unat sz)" using assms by (intro sum.cong) (auto simp: follows_def)
  then show b: "unat (o_bytes s) = card (held s) * unat sz" using assms by (simp add: follows_def byte_inv_def)
  have le: "unat (o_bytes s) \<le> unat budget" "unat sz \<le> unat budget" "unat budget < 2 ^ 63"
    using assms by (simp_all add: follows_def byte_inv_def word_le_nat_alt)
  show "card (held s) \<le> unat budget div unat sz" using le(1) b sz by (simp add: less_eq_div_iff_mult_less_eq)
  have "unat (o_bytes s + sz) = unat (o_bytes s) + unat sz" using le by (intro unat_add_exact) simp
  then have "o_bytes s + sz > budget \<longleftrightarrow> \<not> Suc (card (held s)) * unat sz \<le> unat budget" using b by (simp add: word_less_nat_alt not_le add.commute)
  also have "\<dots> \<longleftrightarrow> \<not> card (held s) < unat budget div unat sz"
    by (simp only: less_eq_div_iff_mult_less_eq[OF sz, symmetric] Suc_le_eq)
  finally show "o_bytes s + sz > budget \<longleftrightarrow> \<not> card (held s) < unat budget div unat sz" .
qed

lemma follows_next:
  assumes "follows len budget sz ref i s" "i < length ref"
  shows "byte_inv len budget (byte_step len budget ref (next_uses (length len) ref) i s)"
    "follows len budget sz ref (Suc i) (byte_step len budget ref (next_uses (length len) ref) i s)"
proof -
  let ?s = "byte_step len budget ref (next_uses (length len) ref) i s"
  have c: "ref ! i \<in> set ref" "ref ! i < length len" "\<forall>c\<in>set ref. c < length len" using assms by (simp_all add: follows_def)
  note E = byte_step_effect[of len budget s ref i "next_uses (length len) ref", OF _ c(2)]
  have P: "byte_inv len budget s" "unat budget < 2 ^ 63" using assms(1) by (simp_all add: follows_def)
  show "byte_inv len budget ?s" using E(1) P by blast
  have ln: "length (o_nextuse s) = length len" using P(1) by (simp add: byte_inv_def)
  have "o_nextuse ?s ! d = next_at ref (Suc i) d" if d: "d \<in> held ?s" for d
  proof (cases "d = ref ! i")
    case True
    then show ?thesis using E(3) P ln c next_uses_nth[OF c(3) assms(2)] by simp
  next
    case False
    then have "d \<in> held s" using E(2) P d by blast
    then show ?thesis using False E(3) P assms next_at_replace[OF assms(2) False] by (simp add: follows_def)
  qed
  then show "follows len budget sz ref (Suc i) ?s" using E(1,2) P assms(1) c(1) unfolding follows_def by blast
qed

lemma evict_loop_done: "\<not> o_bytes s + need > budget \<Longrightarrow> evict_loop_bytes len budget need s = s"
  by (subst evict_loop_bytes.simps) simp

text \<open>A full cache gives up exactly the chunk whose next use is furthest away.\<close>

lemma evict_one:
  assumes "follows len budget sz ref (Suc i) s" "\<not> card (held s) < unat budget div unat sz" "i < length ref"
  obtains v where "v \<in> held s" "furthest (drop (Suc i) ref) (held s) v"
    "evict_loop_bytes len budget sz s = s\<lparr>o_resident := (o_resident s)[v := False], o_bytes := o_bytes s - sz\<rparr>"
proof -
  note B = follows_bytes[OF assms(1)]
  have sz: "0 < unat sz" "unat sz \<le> unat budget" using assms(1) by (simp_all add: follows_def word_gt_0 unat_gt_0 word_le_nat_alt)
  have "0 < unat budget div unat sz" using sz by (simp add: div_greater_zero_iff)
  then have "held s \<noteq> {}" using assms(2) by auto
  then obtain v d where v: "furthest_resident s = Some (v, d)"
    by (cases "furthest_resident s") (auto simp: furthest_resident_None held_def)
  note F = furthest_resident_Some[OF v]
  have vh: "v \<in> held s" using F by (simp add: held_def)
  have "\<forall>u\<in>held s. next_at ref (Suc i) u \<le> next_at ref (Suc i) v"
  proof
    fix u assume u: "u \<in> held s"
    then have "o_nextuse s ! u \<le> o_nextuse s ! v" using F by (simp add: held_def)
    then show "next_at ref (Suc i) u \<le> next_at ref (Suc i) v" using u vh assms(1) by (simp add: follows_def)
  qed
  then have f: "furthest (drop (Suc i) ref) (held s) v"
    using assms(1,3) vh by (intro furthest_next) (simp_all add: follows_def)
  let ?s = "s\<lparr>o_resident := (o_resident s)[v := False], o_bytes := o_bytes s - sz\<rparr>"
  have lv: "len ! v = sz" using vh assms(1) by (auto simp: follows_def)
  have "sz \<le> o_bytes s" using B(1) vh by (cases "card (held s)") (auto simp: word_le_nat_alt card_eq_0_iff)
  then have "o_bytes s - sz + sz \<le> budget" using assms(1) by (simp add: follows_def byte_inv_def)
  then have "evict_loop_bytes len budget sz ?s = ?s" by (intro evict_loop_done) (simp add: not_less)
  then have "evict_loop_bytes len budget sz s = ?s"
    using B(3) assms(2) by (subst evict_loop_bytes.simps) (simp add: v lv)
  then show thesis using that vh f by blast
qed

lemma byte_step_load:
  assumes "ref ! i \<notin> held s" "ref ! i < length len" "len ! (ref ! i) = sz" "sz \<le> budget" "length (o_resident s) = length len"
    and "s1 = s\<lparr>o_misses := o_misses s + 1, o_missed_bytes := o_missed_bytes s + sz\<rparr>"
    and "length (o_resident (evict_loop_bytes len budget sz s1)) = length len"
  shows "held (byte_step len budget ref nu i s) = insert (ref ! i) (held (evict_loop_bytes len budget sz s1))"
proof -
  have "\<not> o_resident s ! (ref ! i)" "\<not> budget < sz" using assms(1,2,4,5) by (simp_all add: held_def not_less)
  then show ?thesis using assms held_load[of "ref ! i" "evict_loop_bytes len budget sz s1"] by (simp add: byte_step_def Let_def)
qed

lemma follows_miss:
  assumes "follows len budget sz ref i s" "i < length ref" "ref ! i \<notin> held s"
  shows "follows len budget sz ref (Suc i) (s\<lparr>o_misses := m, o_missed_bytes := b\<rparr>)"
proof -
  have "next_at ref i c = next_at ref (Suc i) c" if "c \<in> held s" for c
    using that assms(3) by (intro next_at_replace[OF assms(2)]) auto
  moreover have "held (s\<lparr>o_misses := m, o_missed_bytes := b\<rparr>) = held s" by (simp add: held_def)
  ultimately show ?thesis using assms(1) by (simp add: follows_def byte_inv_def)
qed

interpretation byte_sim: min_simulator ref "unat budget div unat sz"
    "byte_step len budget ref (next_uses (length len) ref)" held o_misses "follows len budget sz ref"
  for ref len budget sz
proof (unfold_locales, goal_cases)
  case (1 i s)
  then show ?case using follows_next(2)[OF 1(1,2)] byte_step_hit[OF 1(3)] by (simp add: held_def)
next
  case (2 i s)
  let ?s1 = "s\<lparr>o_misses := o_misses s + 1, o_missed_bytes := o_missed_bytes s + sz\<rparr>"
  have P: "ref ! i < length len" "len ! (ref ! i) = sz" "sz \<le> budget" "length (o_resident s) = length len"
      "byte_inv len budget s" "unat budget < 2 ^ 63"
    using 2(1,2) by (simp_all add: follows_def byte_inv_def)
  have h1: "held ?s1 = held s" by (simp add: held_def)
  have "\<not> o_bytes ?s1 + sz > budget" using follows_bytes(3)[OF 2(1)] 2(4) by simp
  note L = evict_loop_done[OF this, of len]
  have "held (byte_step len budget ref (next_uses (length len) ref) i s) = insert (ref ! i) (held s)"
    using byte_step_load[OF 2(3) P(1-4) refl] P(4) h1 unfolding L by simp
  then show ?case using follows_next(2)[OF 2(1,2)] byte_step_effect(4)[OF P(5,1,6)] 2(3) by simp
next
  case (3 i s)
  let ?s1 = "s\<lparr>o_misses := o_misses s + 1, o_missed_bytes := o_missed_bytes s + sz\<rparr>"
  have P: "ref ! i < length len" "len ! (ref ! i) = sz" "sz \<le> budget" "length (o_resident s) = length len"
      "byte_inv len budget s" "unat budget < 2 ^ 63"
    using 3(1,2) by (simp_all add: follows_def byte_inv_def)
  have h1: "held ?s1 = held s" by (simp add: held_def)
  obtain v where v: "v \<in> held ?s1" "furthest (drop (Suc i) ref) (held ?s1) v"
    "evict_loop_bytes len budget sz ?s1 = ?s1\<lparr>o_resident := (o_resident ?s1)[v := False], o_bytes := o_bytes ?s1 - sz\<rparr>"
    using evict_one[OF follows_miss[OF 3(1,2,3), where m = "o_misses s + 1" and b = "o_missed_bytes s + sz"]] 3(2,4) h1 by metis
  have "held (byte_step len budget ref (next_uses (length len) ref) i s) = insert (ref ! i) (held s - {v})"
    using byte_step_load[OF 3(3) P(1-4) refl] P(4) h1 held_evict[OF v(1)] unfolding v(3) by simp
  moreover have "card (held s) = unat budget div unat sz" using follows_bytes(2)[OF 3(1)] 3(4) by simp
  ultimately show ?case using follows_next(2)[OF 3(1,2)] byte_step_effect(4)[OF P(5,1,6)] 3(3) v(2) h1 by auto
qed

lemma byte_simulate_state: "byte_simulate len budget ref = byte_state len budget ref (length ref)"
  by (simp add: byte_simulate_def byte_state_def)

text \<open>
  C39. For chunks of one size the byte-budget simulation is optimal: no replacement policy that can hold as many chunks as
  fit the budget has fewer misses on the reference string, and some policy has exactly that many.
\<close>

theorem byte_simulate_optimal:
  assumes "\<forall>c\<in>set ref. c < length len \<and> len ! c = sz" "0 < sz" "sz \<le> budget" "unat budget < 2 ^ 63" "length ref \<le> NEVER"
  shows "run (unat budget div unat sz) {} ref (o_misses (byte_simulate len budget ref))
    \<and> (\<forall>m. run (unat budget div unat sz) {} ref m \<longrightarrow> o_misses (byte_simulate len budget ref) \<le> m)"
proof -
  let ?k = "unat budget div unat sz"
  have h: "held (byte_start (length len)) = {}" "o_misses (byte_start (length len)) = 0" by (auto simp: held_def byte_start_def)
  have "follows len budget sz ref 0 (byte_start (length len))"
    using assms byte_start_inv[of len budget] by (simp add: follows_def)
  from byte_sim.follows_rule[OF this] have "min_run ?k {} ref (o_misses (byte_simulate len budget ref))"
    by (auto simp: byte_simulate_def h)
  moreover have "0 < unat sz" "unat sz \<le> unat budget" using assms(2,3) by (simp_all add: word_gt_0 unat_gt_0 word_le_nat_alt)
  then have "0 < ?k" by (simp add: div_greater_zero_iff)
  ultimately show ?thesis using min_run_is_run[of ?k "{}"] min_run_optimal[of ?k "{}"] by auto
qed

section \<open>The checks\<close>

lemma count_distinct_spec:
  assumes "\<forall>c\<in>set pass. c < length len"
  shows "count_distinct len pass = (map (\<lambda>c. c \<in> set pass) [0..<length len], card (set pass), word_of_nat (\<Sum>c\<in>set pass. unat (len ! c)))"
  using assms
proof (induction pass rule: rev_induct)
  case Nil
  show ?case by (simp add: count_distinct_def map_replicate_const)
next
  case (snoc c cs)
  let ?seen = "map (\<lambda>d. d \<in> set cs) [0..<length len]"
  have IH: "count_distinct len cs = (?seen, card (set cs), word_of_nat (\<Sum>d\<in>set cs. unat (len ! d)))" using snoc by simp
  have u: "?seen[c := True] = map (\<lambda>d. d \<in> set (cs @ [c])) [0..<length len]"
    using snoc.prems by (intro nth_equalityI) (auto simp: nth_list_update)
  have seen: "?seen ! c = (c \<in> set cs)" using snoc.prems by simp
  have "count_distinct len (cs @ [c]) = (case count_distinct len cs of (seen, d, sm) \<Rightarrow>
      if seen ! c then (seen, d, sm) else (seen[c := True], d + 1, sm + len ! c))"
    by (simp add: count_distinct_def)
  then show ?case
    unfolding IH prod.case seen using u by (cases "c \<in> set cs") (simp_all add: insert_absorb add.commute)
qed

lemma all_equal_spec:
  assumes "\<forall>c\<in>set pass. c < length len"
  shows "all_equal len (map (\<lambda>c. c \<in> set pass) [0..<length len]) \<longleftrightarrow> (\<forall>c\<in>set pass. \<forall>d\<in>set pass. len ! c = len ! d)"
proof -
  let ?xs = "filter (\<lambda>c. c \<in> set pass) [0..<length len]"
  have f: "filter (\<lambda>c. map (\<lambda>c. c \<in> set pass) [0..<length len] ! c) [0..<length len] = ?xs" by (rule filter_cong) simp_all
  have s: "set ?xs = set pass" using assms by auto
  show ?thesis
  proof (cases ?xs)
    case Nil
    then have "set pass = {}" using s by simp
    then show ?thesis unfolding all_equal_def f Nil by simp
  next
    case (Cons c cs)
    then have "set pass = insert c (set cs)" using s by simp
    then show ?thesis unfolding all_equal_def f Cons by (auto simp: list_all_iff)
  qed
qed

lemma byte_state_missed:
  assumes "\<forall>c\<in>set ref. c < length len" "unat budget < 2 ^ 63" "(\<Sum>c\<leftarrow>ref. unat (len ! c)) < 2 ^ 64" "k \<le> length ref"
  shows "(\<Sum>c\<in>set (take k ref). unat (len ! c)) \<le> unat (o_missed_bytes (byte_state len budget ref k))
    \<and> unat (o_missed_bytes (byte_state len budget ref k)) \<le> (\<Sum>c\<leftarrow>take k ref. unat (len ! c))
    \<and> ((\<forall>c\<in>set ref. len ! c = sz) \<longrightarrow> o_missed_bytes (byte_state len budget ref k) = word_of_nat (o_misses (byte_state len budget ref k)) * sz)"
  using assms(4)
proof (induction k)
  case 0
  then show ?case by (simp add: byte_state_def byte_start_def)
next
  case (Suc k)
  let ?s = "byte_state len budget ref k" and ?c = "ref ! k"
  have k: "?c < length len" using assms(1) Suc.prems by simp
  have t: "take (Suc k) ref = take k ref @ [?c]" using Suc.prems by (simp add: take_Suc_conv_app_nth)
  note IH = Suc.IH[OF Suc_leD[OF Suc.prems]]
  note I = byte_state_inv[OF assms(1,2) Suc_leD[OF Suc.prems]]
  note E = byte_step_effect[of len budget ?s ref k "next_uses (length len) ref", OF conjunct1[OF I] k assms(2), folded byte_state_Suc]
  have "(\<Sum>c\<leftarrow>take (Suc k) ref. unat (len ! c)) \<le> (\<Sum>c\<leftarrow>ref. unat (len ! c))"
    by (subst (2) append_take_drop_id[of "Suc k" ref, symmetric]) (simp only: map_append sum_list_append le_add1)
  then have small: "(\<Sum>c\<leftarrow>take k ref. unat (len ! c)) + unat (len ! ?c) < 2 ^ 64" using assms(3) unfolding t by simp
  show ?case
  proof (cases "?c \<in> held ?s")
    case True
    then have "?c \<in> set (take k ref)" using I by blast
    then show ?thesis using True E(4,5) IH unfolding t by (simp add: insert_absorb)
  next
    case False
    have "unat (o_missed_bytes ?s + len ! ?c) = unat (o_missed_bytes ?s) + unat (len ! ?c)"
      using IH small by (intro unat_add_exact) simp
    moreover have "(\<Sum>c\<in>insert ?c (set (take k ref)). unat (len ! c)) \<le> unat (len ! ?c) + (\<Sum>c\<in>set (take k ref). unat (len ! c))"
      by (simp add: sum.insert_if)
    ultimately show ?thesis using False E(4,5) IH Suc.prems unfolding t by (auto simp: distrib_right)
  qed
qed


lemma length_repeated [simp]: "length (repeated pass n) = unat n"
  by (simp add: repeated_def)

lemma set_repeated: "pass \<noteq> [] \<Longrightarrow> set (repeated pass n) \<subseteq> set pass"
  by (auto simp: repeated_def)

lemma repeated_concat:
  assumes "unat n = p * length pass" "pass \<noteq> []"
  shows "repeated pass n = concat (replicate p pass)"
proof (rule nth_equalityI)
  show "length (repeated pass n) = length (concat (replicate p pass))"
    using assms(1) by (simp add: length_concat sum_list_replicate)
  fix i assume "i < length (repeated pass n)"
  then show "repeated pass n ! i = concat (replicate p pass) ! i"
    using assms(1) by (simp add: repeated_def nth_concat_replicate)
qed

text \<open>
  C40. The checks of the tool never refuse a correct run: when the total of the referenced bytes fits 64 bits, the budget
  63, every id of the pass names a chunk and chunk 0 is one of them (the equal-size check multiplies by its length), the
  simulation never holds more than the budget, misses every chunk of the pass at least once, and the run is reported as good.
\<close>

theorem wp2_opt_checks:
  assumes "\<forall>c\<in>set pass. c < length len" "0 \<in> set pass" "passes \<noteq> 0" "unat budget < 2 ^ 63"
    and "length pass * unat passes < 2 ^ 64" "unat passes * (\<Sum>c\<leftarrow>pass. unat (len ! c)) < 2 ^ 64"
  shows "\<not> b_below (byte_result len budget passes pass)
    \<and> card (set pass) \<le> b_misses (byte_result len budget passes pass)
    \<and> (\<Sum>c\<in>set pass. unat (len ! c)) \<le> unat (b_missed_bytes (byte_result len budget passes pass))
    \<and> (\<forall>k\<le>length pass * unat passes.
         let s = byte_state len budget (repeated pass (b_total_refs (byte_result len budget passes pass))) k
         in unat (o_bytes s) = (\<Sum>c\<in>held s. unat (len ! c)) \<and> o_bytes s \<le> budget)"
proof -
  let ?n = "word_of_nat (length pass) * ucast passes :: u64" and ?r = "byte_result len budget passes pass"
  let ?ref = "repeated pass ?n"
  have p: "0 < unat passes" using assms(3) by (simp add: unat_gt_0)
  then have "length pass \<le> length pass * unat passes" by (cases "unat passes") simp_all
  then have "length pass < 2 ^ 64" using assms(5) by (rule le_less_trans)
  moreover have "unat passes < 2 ^ 64" using u32_bound[of passes] by simp
  ultimately have n: "unat ?n = unat passes * length pass"
    using assms(5) by (simp add: unat_word_ariths unat_of_nat unsigned_ucast_eq take_bit_nat_eq_self mult.commute)
  have ne: "pass \<noteq> []" using assms(2) by auto
  note R = repeated_concat[OF n ne]
  have set: "set ?ref = set pass" using R p by simp
  then have ids: "\<forall>c\<in>set ?ref. c < length len" using assms(1) by simp
  have "(\<Sum>c\<leftarrow>concat (replicate p pass). unat (len ! c)) = p * (\<Sum>c\<leftarrow>pass. unat (len ! c))" for p
    by (induction p) simp_all
  then have "(\<Sum>c\<leftarrow>?ref. unat (len ! c)) = unat passes * (\<Sum>c\<leftarrow>pass. unat (len ! c))" unfolding R .
  then have tot: "(\<Sum>c\<leftarrow>?ref. unat (len ! c)) < 2 ^ 64" using assms(6) by simp
  let ?s = "byte_simulate len budget ?ref"
  note I = byte_state_inv[OF ids assms(4) order_refl, folded byte_simulate_state, unfolded take_all[OF order_refl] set]
  note M = byte_state_missed[OF ids assms(4) tot order_refl, of "len ! 0", folded byte_simulate_state, unfolded take_all[OF order_refl] set]
  note C = count_distinct_spec[OF assms(1)]
  have le: "(\<Sum>c\<in>set pass. unat (len ! c)) \<le> unat (o_missed_bytes ?s)" using M by blast
  have "\<not> y < word_of_nat x" if "x \<le> unat y" for x and y :: u64
    using that u64_bound[of y] by (simp add: not_less word_le_nat_alt unat_of_nat take_bit_nat_eq_self)
  from this[OF le] have "\<not> o_missed_bytes ?s < word_of_nat (\<Sum>c\<in>set pass. unat (len ! c))" .
  moreover have "\<not> o_misses ?s < card (set pass)" using I by simp
  moreover have "o_missed_bytes ?s = word_of_nat (o_misses ?s) * len ! 0"
    if "all_equal len (map (\<lambda>c. c \<in> set pass) [0..<length len])"
    using that assms(2) M unfolding all_equal_spec[OF assms(1)] by blast
  ultimately have "\<not> b_below ?r" by (simp add: byte_result_def C Let_def)
  moreover have "card (set pass) \<le> b_misses ?r" using I by (simp add: byte_result_def C Let_def)
  moreover have "(\<Sum>c\<in>set pass. unat (len ! c)) \<le> unat (b_missed_bytes ?r)" using le by (simp add: byte_result_def C Let_def)
  moreover have "b_total_refs ?r = ?n" by (simp add: byte_result_def C Let_def)
  moreover have "unat (o_bytes (byte_state len budget ?ref k)) = (\<Sum>c\<in>held (byte_state len budget ?ref k). unat (len ! c))
      \<and> o_bytes (byte_state len budget ?ref k) \<le> budget" if "k \<le> length pass * unat passes" for k
    using byte_state_inv[OF ids assms(4), of k] that n by (simp add: byte_inv_def mult.commute)
  ultimately show ?thesis by (simp add: Let_def)
qed

section \<open>Concrete runs\<close>

theorem byte_simulate_optimal_witness:
  "o_misses (byte_simulate [4096, 4096, 4096] 8192 [0, 1, 2, 0, 1, 2]) = 4 \<and> run 2 {} [0, 1, 2, 0, 1, 2 :: nat] 4
     \<and> \<not> run 2 {} [0, 1, 2, 0, 1, 2 :: nat] 3"
proof -
  have m: "o_misses (byte_simulate [4096, 4096, 4096] 8192 [0, 1, 2, 0, 1, 2]) = 4" by code_simp
  have "\<forall>c\<in>set [0, 1, 2, 0, 1, 2]. c < length [4096, 4096, 4096 :: u64] \<and> [4096, 4096, 4096 :: u64] ! c = 4096" by simp
  from byte_simulate_optimal[OF this, of 8192] m show ?thesis by (fastforce simp: NEVER_def)
qed

theorem wp2_opt_checks_witness:
  "\<not> b_below (byte_result [8192, 4096, 12288] 16384 3 [0, 2, 1, 0])
     \<and> 3 \<le> b_misses (byte_result [8192, 4096, 12288] 16384 3 [0, 2, 1, 0])"
proof -
  have "card (set [0, 2, 1, 0 :: nat]) = 3" by code_simp
  then show ?thesis using wp2_opt_checks[of "[0, 2, 1, 0]" "[8192, 4096, 12288]" 3 16384] by simp
qed

text \<open>
  A false refusal: chunk 0 (the header) is not in the sequence and is shorter than the two equal chunks that are, and the
  cross-check multiplies by its length.
\<close>

lemma equal_size_check_uses_chunk_0:
  "case wp2_opt_main (\<lambda>p. if p = ''len'' then Some (''4096'' @ [CHR 0x0A] @ ''8192'' @ [CHR 0x0A] @ ''8192'')
       else Some (''1'' @ [CHR 0x0A] @ ''2'')) [''len'', ''16384'', ''2'', ''seq'']
   of Byte_opt r \<Rightarrow> b_equal r \<and> b_below r \<and> b_misses r = 2 \<and> b_missed_bytes r = 16384 | _ \<Rightarrow> False"
  by code_simp

end
