(* ===== verification/Llama.thy ===== *)
theory Llama
  imports Text_Files Concurrency "HOL-Library.Sublist"
begin

text \<open>
  The shim between llama.cpp's loader and the pager (\<^verbatim>\<open>residctl_llama.c\<close>): the
  configuration file, the tensor inventory of the GGUF file, the chunk table with one chunk per run of
  tensors of one layer, the declared access sequence, and \<^verbatim>\<open>residctl_llama_mmap\<close>. The
  GGUF reader is a library outside the repository: what it returns is a parameter.
\<close>

unbundle bit_operations_syntax

section \<open>Failures\<close>

text \<open>\<^verbatim>\<open>_exit(3)\<close>, the aborts of the components called, and undefined behaviour of C.\<close>

datatype shim_failure =
    Config_unusable
  | Gguf_unreadable
  | No_tensors                  \<comment> \<open>srt[0] is read without a test\<close>
  | Layer_overflow              \<comment> \<open>signed overflow in parse_layer or of max_layer + 1\<close>
  | Unknown_policy
  | Region_abort failure
  | Reftrace_failed
  | Audit_failed

section \<open>The configuration file\<close>

record shim_config =
  g_model_path :: string
  g_cgroup :: string
  g_budget_bytes :: u64
  g_policy_name :: string
  g_prefetch_on :: bool
  g_prefetch_depth :: u32
  g_retention_none :: bool
  g_fetch_workers :: u32
  g_eager_reconcile :: bool
  g_reftrace_path :: string
  g_fetchtrace_path :: string
  g_policytrace_path :: string
  g_fetching_timeout_ms :: u32
  g_protect_current :: bool

definition shim_config_default :: shim_config where
  "shim_config_default =
     \<lparr>g_model_path = [], g_cgroup = [], g_budget_bytes = 0, g_policy_name = ''layer_order_declared'',
      g_prefetch_on = False, g_prefetch_depth = 2, g_retention_none = False, g_fetch_workers = 4,
      g_eager_reconcile = False, g_reftrace_path = [], g_fetchtrace_path = [], g_policytrace_path = [],
      g_fetching_timeout_ms = 0, g_protect_current = False\<rparr>"

definition set_option :: "shim_config \<Rightarrow> string \<Rightarrow> string \<Rightarrow> shim_config" where
  "set_option c k v =
     (if k = ''model'' then c\<lparr>g_model_path := take 1023 v\<rparr>
      else if k = ''cgroup'' then c\<lparr>g_cgroup := take 511 v\<rparr>
      else if k = ''budget_bytes'' then c\<lparr>g_budget_bytes := strtoull v\<rparr>
      else if k = ''policy'' then c\<lparr>g_policy_name := take 63 v\<rparr>
      else if k = ''prefetch'' then c\<lparr>g_prefetch_on := (v = ''on'')\<rparr>
      else if k = ''prefetch_depth'' then c\<lparr>g_prefetch_depth := ucast (strtoull v)\<rparr>
      else if k = ''retention'' then c\<lparr>g_retention_none := (v = ''none'')\<rparr>
      else if k = ''fetch_workers'' then c\<lparr>g_fetch_workers := ucast (strtoull v)\<rparr>
      else if k = ''eager_reconcile'' then c\<lparr>g_eager_reconcile := (v = ''1'')\<rparr>
      else if k = ''reftrace'' then c\<lparr>g_reftrace_path := take 1023 v\<rparr>
      else if k = ''fetchtrace'' then c\<lparr>g_fetchtrace_path := take 1023 v\<rparr>
      else if k = ''policytrace'' then c\<lparr>g_policytrace_path := take 1023 v\<rparr>
      else if k = ''protect_current'' then c\<lparr>g_protect_current := (v \<noteq> ''off'')\<rparr>
      else if k = ''fetching_timeout_ms'' then c\<lparr>g_fetching_timeout_ms := ucast (strtoull v)\<rparr>
      else c)"

definition config_line :: "string \<Rightarrow> shim_config \<Rightarrow> shim_config" where
  "config_line l c =
     (if l = [] \<or> hd l = CHR ''#'' \<or> CHR ''='' \<notin> set l then c
      else set_option c (takeWhile (\<lambda>x. x \<noteq> CHR ''='') l) (tl (dropWhile (\<lambda>x. x \<noteq> CHR ''='') l)))"

text \<open>\<open>f\<close>: the content of the file that \<^verbatim>\<open>RESIDCTL_CONFIG\<close> names, \<open>None\<close> when it is unset or cannot be opened.\<close>

definition load_config :: "string option \<Rightarrow> shim_failure + shim_config" where
  "load_config f =
     (case f of
        None \<Rightarrow> Inl Config_unusable
      | Some s \<Rightarrow>
          let c = fold config_line (fgets_lines 1199 s) shim_config_default
          in if g_model_path c = [] \<or> g_cgroup c = [] \<or> g_budget_bytes c = 0 then Inl Config_unusable else Inr c)"

section \<open>The tensor inventory\<close>

text \<open>What \<^verbatim>\<open>gguf.h\<close> gives of a model file: the offset of the data and, per tensor, name, offset and size.\<close>

record gguf =
  gguf_data_offset :: u64
  gguf_tensors :: "(string \<times> u64 \<times> u64) list"

definition GRP_HEADER :: int where "GRP_HEADER = - 1000"
definition GRP_EMBD :: int where "GRP_EMBD = - 1"
definition GRP_OUTPUT :: int where "GRP_OUTPUT = - 2"
definition GRP_OUTNORM :: int where "GRP_OUTNORM = - 3"
definition GRP_OTHER :: int where "GRP_OTHER = - 4"

record tensor_ent =
  t_name :: string
  t_file_off :: u64
  t_size :: u64
  t_group :: int

fun strstr :: "string \<Rightarrow> string \<Rightarrow> string option" where
  "strstr [] p = (if p = [] then Some [] else None)"
| "strstr (c # s) p = (if prefix p (c # s) then Some (c # s) else strstr s p)"

fun layer_digits :: "int \<Rightarrow> string \<Rightarrow> shim_failure + (int \<times> string)" where
  "layer_digits n [] = Inr (n, [])"
| "layer_digits n (c # s) =
     (if isdigit c
      then if n * 10 + int (digit_val c) > INT64_MAX then Inl Layer_overflow
           else layer_digits (n * 10 + int (digit_val c)) s
      else Inr (n, c # s))"

definition parse_layer :: "string \<Rightarrow> shim_failure + int" where
  "parse_layer nm =
     (case strstr nm ''blk.'' of
        None \<Rightarrow> Inr (- 1)
      | Some s \<Rightarrow>
          let p = drop 4 s
          in if p = [] \<or> \<not> isdigit (hd p) then Inr (- 1)
             else rbind (layer_digits 0 p) (\<lambda>(n, rest).
                    Inr (if rest \<noteq> [] \<and> hd rest = CHR ''.'' then n else - 1)))"

definition classify :: "string \<Rightarrow> shim_failure + int" where
  "classify nm =
     rbind (parse_layer nm) (\<lambda>l.
       Inr (if l \<ge> 0 then l
            else if strstr nm ''token_embd'' \<noteq> None then GRP_EMBD
            else if strstr nm ''output_norm'' \<noteq> None then GRP_OUTNORM
            else if prefix ''output.'' nm \<or> nm = ''output.weight'' then GRP_OUTPUT
            else GRP_OTHER))"

fun inventory :: "u64 \<Rightarrow> (string \<times> u64 \<times> u64) list \<Rightarrow> shim_failure + tensor_ent list" where
  "inventory d [] = Inr []"
| "inventory d ((nm, off, sz) # ts) =
     rbind (classify nm) (\<lambda>g.
     rbind (inventory d ts) (\<lambda>es.
       Inr (\<lparr>t_name = take 127 nm, t_file_off = d + off, t_size = sz, t_group = g\<rparr> # es)))"

section \<open>The chunk table\<close>

definition page_down :: "u64 \<Rightarrow> u64" where "page_down v = v AND NOT (4096 - 1)"
definition page_up :: "u64 \<Rightarrow> u64" where "page_up v = (v + 4096 - 1) AND NOT (4096 - 1)"

text \<open>The boundaries so far with their groups (last last), and the group of the current run.\<close>

fun bnd_loop :: "(u64 \<times> int) list \<Rightarrow> int \<Rightarrow> tensor_ent list \<Rightarrow> (u64 \<times> int) list" where
  "bnd_loop acc cur [] = acc"
| "bnd_loop acc cur (t # ts) =
     (if t_group t = cur then bnd_loop acc cur ts
      else let b = page_down (t_file_off t)
           in bnd_loop (if b \<le> fst (last acc) then acc else acc @ [(b, t_group t)]) (t_group t) ts)"

definition boundaries :: "tensor_ent list \<Rightarrow> shim_failure + (u64 \<times> int) list" where
  "boundaries srt =
     (case srt of
        [] \<Rightarrow> Inl No_tensors
      | t # ts \<Rightarrow>
          let b = page_down (t_file_off t);
              acc = (if b = 0 then [(0, t_group t)] else [(0, GRP_HEADER), (b, t_group t)])
          in Inr (bnd_loop acc (snd (last acc)) ts))"

definition table_spec :: "u64 \<Rightarrow> (u64 \<times> int) list \<Rightarrow> nat \<Rightarrow> chunk_spec" where
  "table_spec tot bs c =
     (let b = fst (bs ! c); e = (if c + 1 < length bs then fst (bs ! (c + 1)) else tot); g = snd (bs ! c)
      in \<lparr>spec_file_off = b, spec_region_off = b, spec_len = e - b,
          spec_layer_id = (if g \<ge> 0 then word_of_int g else 4294967295)\<rparr>)"

text \<open>The chunk of a role is the last one with its group.\<close>

definition role_chunk :: "int \<Rightarrow> int list \<Rightarrow> nat option" where
  "role_chunk g gs = List.find (\<lambda>c. gs ! c = g) (rev [0..<length gs])"

definition MAX_CHUNKS_PER_LAYER :: nat where "MAX_CHUNKS_PER_LAYER = 6"

definition add_layer_chunk :: "int list \<Rightarrow> nat \<Rightarrow> nat list list \<Rightarrow> nat list list" where
  "add_layer_chunk gs c ls =
     (let l = gs ! c
      in if 0 \<le> l \<and> l < int (length ls) \<and> length (ls ! nat l) < MAX_CHUNKS_PER_LAYER
         then ls[nat l := ls ! nat l @ [c]] else ls)"

definition layer_chunks :: "nat \<Rightarrow> int list \<Rightarrow> nat list list" where
  "layer_chunks n gs = fold (add_layer_chunk gs) [0..<length gs] (replicate n [])"

record inventory_table =
  g_tensors :: "tensor_ent list"
  g_file_size :: u64
  g_region_len :: u64
  g_specs :: "chunk_spec list"
  g_chunk_group :: "int list"
  g_layer_chunks :: "nat list list"
  g_chunk_embd :: "nat option"
  g_chunk_output :: "nat option"
  g_chunk_outnorm :: "nat option"
  g_declared_seq :: "nat list"

definition declared_order :: "nat option \<Rightarrow> nat list list \<Rightarrow> nat option \<Rightarrow> nat option \<Rightarrow> nat list" where
  "declared_order embd ls outnorm output =
     (case embd of None \<Rightarrow> [] | Some c \<Rightarrow> [c]) @ concat ls
     @ (case outnorm of None \<Rightarrow> [] | Some c \<Rightarrow> if outnorm \<noteq> embd then [c] else [])
     @ (case output of None \<Rightarrow> [] | Some c \<Rightarrow> if output \<noteq> embd \<and> output \<noteq> outnorm then [c] else [])"

text \<open>
  \<open>fs\<close> is the size that \<^verbatim>\<open>stat\<close> gives. \<^verbatim>\<open>qsort\<close> is a sort by offset; it may put
  tensors with equal offsets in any order, here in the order of the file.
\<close>

definition build_inventory_and_table :: "gguf option \<Rightarrow> u64 \<Rightarrow> shim_failure + inventory_table" where
  "build_inventory_and_table ctx fs =
     (case ctx of
        None \<Rightarrow> Inl Gguf_unreadable
      | Some g \<Rightarrow>
          rbind (inventory (gguf_data_offset g) (gguf_tensors g)) (\<lambda>ts.
          let max_layer = fold (\<lambda>t m. if t_group t > m then t_group t else m) ts (- 1)
          in if max_layer + 1 > INT64_MAX then Inl Layer_overflow
             else rbind (boundaries (sort_key t_file_off ts)) (\<lambda>bs.
               let tot = page_up fs; gs = map snd bs; ls = layer_chunks (nat (max_layer + 1)) gs;
                   embd = role_chunk GRP_EMBD gs;
                   output = (case role_chunk GRP_OUTPUT gs of None \<Rightarrow> embd | Some c \<Rightarrow> Some c);
                   outnorm = (case role_chunk GRP_OUTNORM gs of None \<Rightarrow> embd | Some c \<Rightarrow> Some c)
               in Inr \<lparr>g_tensors = ts, g_file_size = fs, g_region_len = tot,
                       g_specs = map (table_spec tot bs) [0..<length bs], g_chunk_group = gs,
                       g_layer_chunks = ls, g_chunk_embd = embd, g_chunk_output = output, g_chunk_outnorm = outnorm,
                       g_declared_seq = declared_order embd ls outnorm output\<rparr>)))"

section \<open>Bringing the region up\<close>

record shim =
  tbl :: inventory_table
  g_r :: region
  g_reftrace :: "trace option"
  g_started :: bool
  g_notify_seq :: u64
  g_chunk_notify_count :: "u32 list"
  g_notify_audit_done :: bool

definition shim_cfg :: "shim_config \<Rightarrow> inventory_table \<Rightarrow> region_config" where
  "shim_cfg c t =
     \<lparr>cfg_region_len = g_region_len t, cfg_chunk_size = 0, cfg_model_path = Some (g_model_path c),
      cfg_cgroup_path = Some (g_cgroup c), cfg_budget_bytes = g_budget_bytes c,
      cfg_reconcile_interval = (if g_eager_reconcile c then 1 else 0),
      cfg_prefetch_depth = (if g_prefetch_on c then unat (g_prefetch_depth c) else 0),
      cfg_sync_handler = False, cfg_fetch_workers = unat (g_fetch_workers c),
      cfg_prefetch_admission_always = False, cfg_prefetch_retention_none = g_retention_none c,
      cfg_explicit_chunks = g_specs t, cfg_fetching_timeout_ms = g_fetching_timeout_ms c\<rparr>"

definition shim_policy :: "string \<Rightarrow> nat \<Rightarrow> shim_failure + policy option" where
  "shim_policy nm n =
     (if nm = ''lru'' then Inr (Some Lru)
      else if nm = ''layer_order_learned'' then Inr (Some (policy_layer_order_learned_create n))
      else if nm = ''layer_order_declared'' then Inr (Some (policy_layer_order_declared_create n))
      else if nm = ''default'' then Inr None
      else Inl Unknown_policy)"

text \<open>
  \<open>f\<close> is the configuration file, \<open>read_gguf\<close> and \<open>stat_size\<close> what the GGUF reader and
  \<^verbatim>\<open>stat\<close> give for a path, \<open>ws\<close> the writes of the trace header.
\<close>

definition residctl_llama_mmap ::
  "host \<Rightarrow> string option \<Rightarrow> (string \<Rightarrow> gguf option) \<Rightarrow> (string \<Rightarrow> u64) \<Rightarrow> write_result list \<Rightarrow> shim_failure + shim" where
  "residctl_llama_mmap h f read_gguf stat_size ws =
     rbind (load_config f) (\<lambda>c.
     rbind (build_inventory_and_table (read_gguf (g_model_path c)) (stat_size (g_model_path c))) (\<lambda>t.
     rbind (map_sum Region_abort id (region_startup h (shim_cfg c t))) (\<lambda>(r, m).
     rbind (shim_policy (g_policy_name c) (n_chunks r)) (\<lambda>p.
     rbind (if g_reftrace_path c = [] then Inr None
            else map_sum (\<lambda>_. Reftrace_failed) Some (trace_open ws TRACE_TYPE_REFERENCE)) (\<lambda>rt.
     Inr \<lparr>tbl = t,
          g_r = r\<lparr>policy_of := policy_declare_sequence p (g_declared_seq t), prefetch_enabled := g_prefetch_on c,
                  flags := \<lparr>g_lo_protect_current = g_protect_current c, g_lo_signal_pre = True\<rparr>,
                  metrics_of := Some metrics_init,
                  diag_fetch_trace := (if g_fetchtrace_path c = [] then diag_fetch_trace r else Some (fetch_trace_open 2000000)),
                  diag_policy_trace := (if g_policytrace_path c = [] then diag_policy_trace r else Some (policy_trace_open 2000000))\<rparr>,
          g_reftrace = rt, g_started = True, g_notify_seq = 0,
          g_chunk_notify_count = replicate (n_chunks r) 0, g_notify_audit_done = False\<rparr>)))))"

end
