(* ===== verification/Llama_Table.thy ===== *)
theory Llama_Table
  imports Llama
begin

text \<open>
  The chunk table of the llama.cpp shim: it tiles the region and is never refused, the chunks carry the
  group of the tensors in them, and the declared sequence lists the chunks that are read per token.
\<close>

unbundle bit_operations_syntax

section \<open>Pages\<close>

lemma page_down_mod: "page_down v = v - v mod 4096"
proof -
  have m: "v AND (4096 - 1) = v mod 4096"
    using take_bit_eq_mask[of 12 v] take_bit_eq_mod[of 12 v] by (simp add: mask_eq_exp_minus_1)
  have "(v AND m) + (v AND NOT m) = v" for m :: u64
  proof -
    have "(v AND m) AND (v AND NOT m) = 0" by (rule bit_eqI) (simp add: bit_simps)
    then have "(v AND m) + (v AND NOT m) = (v AND m) OR (v AND NOT m)" by (rule disjunctive_add_eq_or)
    also have "\<dots> = v" by (rule bit_eqI) (auto simp: bit_simps)
    finally show ?thesis .
  qed
  from this[of "4096 - 1"] show ?thesis unfolding m page_down_def by (simp only: eq_diff_eq add.commute)
qed

lemma unat_page_down: "unat (page_down v) = unat v - unat v mod 4096"
proof -
  have "unat (v mod 4096) = unat v mod 4096" by (simp add: unat_mod)
  moreover have "v mod 4096 \<le> v" by (simp add: word_le_nat_alt calculation)
  ultimately show ?thesis by (simp add: page_down_mod unat_sub)
qed

lemma page_down_le: "page_down v \<le> v"
  by (simp add: word_le_nat_alt unat_page_down)

lemma page_down_aligned: "unat (page_down v) mod 4096 = 0"
  by (metis unat_page_down minus_mod_eq_mult_div mod_mult_self1_is_0)

lemma page_down_mono: "v \<le> w \<Longrightarrow> page_down v \<le> page_down w"
  by (simp add: word_le_nat_alt unat_page_down minus_mod_eq_mult_div div_le_mono)

lemma page_down_next: "page_down v < b \<Longrightarrow> unat b mod 4096 = 0 \<Longrightarrow> v < b"
proof -
  assume l: "page_down v < b" and b: "unat b mod 4096 = 0"
  have "unat v - unat v mod 4096 < unat b" using l by (simp add: word_less_nat_alt unat_page_down)
  moreover have "unat b = 4096 * (unat b div 4096)" using b by (metis add_0_right mult_div_mod_eq)
  ultimately have "4096 * (unat v div 4096) < 4096 * (unat b div 4096)" by (simp add: minus_mod_eq_mult_div)
  then have "unat v div 4096 < unat b div 4096" by simp
  then have "unat v < unat b" by (metis div_le_mono not_less)
  then show ?thesis by (simp add: word_less_nat_alt)
qed

lemma unat_page_up:
  assumes "unat v < 2 ^ 63"
  shows "unat (page_up v) = 4096 * ((unat v + 4095) div 4096)"
proof -
  have "unat (v + 4096 - 1) = unat v + 4095"
  proof -
    have "v + 4096 - 1 = v + 4095" by simp
    then show ?thesis using assms by (simp only:) (simp add: unat_word_ariths)
  qed
  then show ?thesis
    using unat_page_down[of "v + 4096 - 1"] by (simp add: page_up_def page_down_def minus_mod_eq_mult_div)
qed

lemma page_up_above: "unat v < 2 ^ 63 \<Longrightarrow> v \<le> page_up v"
  by (simp add: word_le_nat_alt unat_page_up)

section \<open>The boundaries tile the region\<close>

definition bounds_ok :: "u64 \<Rightarrow> (u64 \<times> int) list \<Rightarrow> bool" where
  "bounds_ok fs bs \<longleftrightarrow> bs \<noteq> [] \<and> fst (hd bs) = 0 \<and> sorted_wrt (<) (map fst bs)
     \<and> (\<forall>p\<in>set bs. unat (fst p) mod 4096 = 0 \<and> fst p < fs)"

lemma bounds_ok_snoc:
  assumes "bounds_ok fs bs" "fst (last bs) < b" "unat b mod 4096 = 0" "b < fs"
  shows "bounds_ok fs (bs @ [(b, g)])"
proof -
  have "x < b" if "x \<in> fst ` set bs" for x
  proof -
    from that obtain p where p: "x = fst p" "p \<in> set bs" by (rule imageE)
    then obtain k where "k < length bs" "bs ! k = p" using p(2) by (auto simp only: in_set_conv_nth)
    then have k: "k < length bs" "x = map fst bs ! k" using p(1) by simp_all
    have ne: "bs \<noteq> []" using assms(1) by (simp add: bounds_ok_def)
    then have l: "fst (last bs) = map fst bs ! (length bs - 1)" by (simp add: last_conv_nth)
    have "x \<le> fst (last bs)"
    proof (cases "k = length bs - 1")
      case False
      then have "map fst bs ! k < map fst bs ! (length bs - 1)"
        using assms(1) k(1) ne False by (simp add: bounds_ok_def sorted_wrt_iff_nth_less)
      then show ?thesis using k(2) l by simp
    qed (use k l in simp)
    then show ?thesis using assms(2) by simp
  qed
  then show ?thesis using assms by (auto simp: bounds_ok_def sorted_wrt_append)
qed

lemma bnd_loop_ok:
  "bounds_ok fs acc \<Longrightarrow> \<forall>t\<in>set ts. t_file_off t < fs \<Longrightarrow> bounds_ok fs (bnd_loop acc cur ts)"
proof (induction ts arbitrary: acc cur)
  case (Cons t ts)
  let ?b = "page_down (t_file_off t)"
  have "bounds_ok fs (if ?b \<le> fst (last acc) then acc else acc @ [(?b, t_group t)])"
    using Cons.prems bounds_ok_snoc[OF Cons.prems(1), of ?b] page_down_aligned page_down_le[of "t_file_off t"]
    by (auto simp: not_le intro: order.strict_trans1)
  then show ?case using Cons.IH Cons.prems by (simp add: Let_def)
qed simp

lemma boundaries_ok:
  assumes "boundaries srt = Inr bs" "\<forall>t\<in>set srt. t_file_off t < fs"
  shows "bounds_ok fs bs"
proof -
  obtain t ts where srt: "srt = t # ts" using assms(1) by (cases srt) (auto simp: boundaries_def)
  let ?b = "page_down (t_file_off t)"
  have b: "?b < fs" using assms(2) srt page_down_le[of "t_file_off t"] by auto
  have "fs \<noteq> 0" using b by auto
  then have one: "bounds_ok fs [(0, g)]" for g by (simp add: bounds_ok_def word_gt_0)
  moreover have "?b \<noteq> 0 \<Longrightarrow> bounds_ok fs [(0, GRP_HEADER), (?b, t_group t)]"
    using bounds_ok_snoc[OF one, of GRP_HEADER ?b "t_group t"] page_down_aligned b by (simp add: word_gt_0)
  ultimately show ?thesis
    using assms srt by (auto simp: boundaries_def Let_def intro!: bnd_loop_ok)
qed

text \<open>The end of chunk \<open>c\<close>.\<close>

definition bound_at :: "u64 \<Rightarrow> (u64 \<times> int) list \<Rightarrow> nat \<Rightarrow> u64" where
  "bound_at e bs c = (if c < length bs then fst (bs ! c) else e)"

lemma table_spec_bounds:
  "c < length bs \<Longrightarrow> table_spec e bs c = \<lparr>spec_file_off = bound_at e bs c, spec_region_off = bound_at e bs c,
     spec_len = bound_at e bs (Suc c) - bound_at e bs c,
     spec_layer_id = (if snd (bs ! c) \<ge> 0 then word_of_int (snd (bs ! c)) else 4294967295)\<rparr>"
  by (simp add: table_spec_def bound_at_def Let_def)

lemma bound_at_less:
  assumes "bounds_ok fs bs" "fs \<le> e" "c < length bs"
  shows "bound_at e bs c < bound_at e bs (Suc c)"
proof (cases "Suc c < length bs")
  case True
  have "map fst bs ! c < map fst bs ! Suc c"
    using assms(1,3) True by (simp add: bounds_ok_def sorted_wrt_iff_nth_less)
  then show ?thesis using True by (simp add: bound_at_def)
next
  case False
  have "fst (bs ! c) < fs" using assms(1,3) nth_mem unfolding bounds_ok_def by blast
  then show ?thesis using False assms by (simp add: bound_at_def)
qed

lemma bound_at_aligned: "bounds_ok fs bs \<Longrightarrow> unat e mod 4096 = 0 \<Longrightarrow> unat (bound_at e bs c) mod 4096 = 0"
  by (auto simp: bounds_ok_def bound_at_def)

lemma unat_diff_bounds:
  assumes "bounds_ok fs bs" "fs \<le> e" "c < length bs"
  shows "unat (bound_at e bs (Suc c) - bound_at e bs c) = unat (bound_at e bs (Suc c)) - unat (bound_at e bs c)"
  using bound_at_less[OF assms] by (simp add: unat_sub)

lemma table_accepted:
  assumes ok: "bounds_ok fs bs" and e: "fs \<le> e" "unat e mod 4096 = 0" and k: "k \<le> length bs"
  shows "explicit_loop (map (table_spec e bs) [k..<length bs]) (bound_at e bs k) acc
    = Inr (acc @ map (chunk_of_spec \<circ> table_spec e bs) [k..<length bs], e)"
  using k
proof (induction "length bs - k" arbitrary: k acc)
  case 0
  then show ?case by (simp add: bound_at_def)
next
  case (Suc n)
  then have c: "k < length bs" by simp
  then have l: "[k..<length bs] = k # [Suc k..<length bs]" by (simp add: upt_conv_Cons)
  let ?s = "table_spec e bs k"
  have s: "spec_region_off ?s = bound_at e bs k" "spec_file_off ?s = bound_at e bs k"
    "spec_len ?s = bound_at e bs (Suc k) - bound_at e bs k"
    using table_spec_bounds[OF c] by simp_all
  have lt: "bound_at e bs k < bound_at e bs (Suc k)" by (rule bound_at_less[OF ok e(1) c])
  have a: "x mod RESIDCTL_ALIGN = 0 \<longleftrightarrow> unat x mod 4096 = 0" for x
    by (simp add: RESIDCTL_ALIGN_def word_unat_eq_iff unat_mod)
  have "unat (spec_len ?s) mod 4096 = 0"
  proof -
    have "4096 dvd unat (bound_at e bs (Suc k))" "4096 dvd unat (bound_at e bs k)"
      using bound_at_aligned[OF ok e(2)] by (simp_all add: mod_0_imp_dvd)
    then show ?thesis unfolding s(3) unat_diff_bounds[OF ok e(1) c] by (simp add: dvd_diff_nat)
  qed
  then have "explicit_loop (map (table_spec e bs) [k..<length bs]) (bound_at e bs k) acc
      = explicit_loop (map (table_spec e bs) [Suc k..<length bs]) (bound_at e bs (Suc k)) (acc @ [chunk_of_spec ?s])"
    using lt bound_at_aligned[OF ok e(2), of k] by (simp add: l s a chunk_of_spec_def)
  also have "\<dots> = Inr ((acc @ [chunk_of_spec ?s]) @ map (chunk_of_spec \<circ> table_spec e bs) [Suc k..<length bs], e)"
    using Suc.hyps c by (intro Suc.hyps(1)) simp_all
  finally show ?case by (simp add: l)
qed

lemma table_lens:
  assumes ok: "bounds_ok fs bs" and e: "fs \<le> e" and k: "k \<le> length bs"
  shows "unat (bound_at e bs k) + (\<Sum>s\<leftarrow>map (table_spec e bs) [k..<length bs]. unat (spec_len s)) = unat e"
  using k
proof (induction "length bs - k" arbitrary: k)
  case 0
  then show ?case by (simp add: bound_at_def)
next
  case (Suc n)
  then have c: "k < length bs" by simp
  then have l: "[k..<length bs] = k # [Suc k..<length bs]" by (simp add: upt_conv_Cons)
  have "n = length bs - Suc k" "Suc k \<le> length bs" using Suc.hyps(2) c by simp_all
  note IH = Suc.hyps(1)[OF this]
  have "unat (bound_at e bs k) < unat (bound_at e bs (Suc k))"
    using bound_at_less[OF ok e c] by (simp add: word_less_nat_alt)
  then show ?case using IH unat_diff_bounds[OF ok e c] table_spec_bounds[OF c] by (simp add: l)
qed

lemma table_ok:
  assumes ok: "bounds_ok fs bs" and e: "fs \<le> e" "unat e mod 4096 = 0" and n: "length bs \<le> UINT32_MAX"
  shows "build_chunk_table_explicit e (map (table_spec e bs) [0..<length bs])
      = Inr (map (chunk_of_spec \<circ> table_spec e bs) [0..<length bs])"
    and "(\<Sum>s\<leftarrow>map (table_spec e bs) [0..<length bs]. unat (spec_len s)) = unat e"
proof -
  have ne: "bs \<noteq> []" using ok by (simp add: bounds_ok_def)
  then have z: "bound_at e bs 0 = 0" using ok by (simp add: bounds_ok_def bound_at_def hd_conv_nth)
  show "build_chunk_table_explicit e (map (table_spec e bs) [0..<length bs])
      = Inr (map (chunk_of_spec \<circ> table_spec e bs) [0..<length bs])"
    using table_accepted[OF ok e, of 0 "[]"] n ne by (simp add: build_chunk_table_explicit_def z)
  show "(\<Sum>s\<leftarrow>map (table_spec e bs) [0..<length bs]. unat (spec_len s)) = unat e"
    using table_lens[OF ok e(1), of 0] by (simp add: z)
qed

section \<open>The label of an address\<close>

text \<open>The group of the last boundary at or below \<open>a\<close>.\<close>

definition label_at :: "(u64 \<times> int) list \<Rightarrow> u64 \<Rightarrow> int" where
  "label_at bs a = snd (last (filter (\<lambda>p. fst p \<le> a) bs))"

lemma label_at_snoc: "label_at (bs @ [(b, g)]) a = (if b \<le> a then g else label_at bs a)"
  by (simp add: label_at_def)

lemma label_at_last: "bs \<noteq> [] \<Longrightarrow> fst (last bs) \<le> a \<Longrightarrow> label_at bs a = snd (last bs)"
  by (induction bs rule: rev_induct) (simp_all add: label_at_def)

lemma label_at_chunk:
  assumes "bounds_ok fs bs" "fs \<le> e" "a < e"
  shows "\<exists>c<length bs. bound_at e bs c \<le> a \<and> a < bound_at e bs (Suc c) \<and> label_at bs a = snd (bs ! c)"
proof -
  let ?P = "\<lambda>c. c < length bs \<and> fst (bs ! c) \<le> a"
  have ne: "bs \<noteq> []" using assms(1) by (simp add: bounds_ok_def)
  then have P0: "?P 0" using assms(1) by (simp add: bounds_ok_def hd_conv_nth)
  have bd: "?P c \<Longrightarrow> c \<le> length bs" for c by simp
  define c where "c = Greatest ?P"
  have c: "?P c" unfolding c_def by (rule GreatestI_nat[where P = ?P, OF P0 bd])
  have up: "\<not> ?P (Suc c)" using Greatest_le_nat[where P = ?P, of "Suc c" "length bs"] bd unfolding c_def by auto
  have later: "\<not> fst (bs ! k) \<le> a" if "c < k" "k < length bs" for k
    using Greatest_le_nat[where P = ?P, of k "length bs"] bd that unfolding c_def by auto
  have "\<not> fst p \<le> a" if p: "p \<in> set (drop (Suc c) bs)" for p
  proof -
    obtain i where i: "i < length (drop (Suc c) bs)" "drop (Suc c) bs ! i = p" using p unfolding in_set_conv_nth by blast
    then have "p = bs ! (Suc c + i)" "Suc c + i < length bs" using c by simp_all
    then show ?thesis using later[of "Suc c + i"] by simp
  qed
  then have "filter (\<lambda>p. fst p \<le> a) (drop (Suc c) bs) = []" by (simp add: filter_empty_conv)
  moreover have "bs = take c bs @ bs ! c # drop (Suc c) bs" using c by (simp add: id_take_nth_drop)
  ultimately have "filter (\<lambda>p. fst p \<le> a) bs = filter (\<lambda>p. fst p \<le> a) (take c bs) @ [bs ! c]"
    using c by (metis (mono_tags, lifting) append_Nil2 filter.simps(2) filter_append)
  then have "label_at bs a = snd (bs ! c)" by (simp add: label_at_def)
  moreover have "a < bound_at e bs (Suc c)" using up assms(3) c by (auto simp: bound_at_def not_le)
  ultimately show ?thesis using c by (auto simp: bound_at_def)
qed

text \<open>No page holds the start of tensors of two groups; the tensors are in the order of their offsets.\<close>

definition apart :: "tensor_ent list \<Rightarrow> bool" where
  "apart ts \<longleftrightarrow> sorted_wrt (\<lambda>t u. t_file_off t \<le> t_file_off u
      \<and> (t_group t \<noteq> t_group u \<longrightarrow> page_down (t_file_off t) < page_down (t_file_off u))) ts"

text \<open>The address \<open>a\<close> belongs to the run of \<open>t\<close>: not before it, and before the first page of any later tensor of another group.\<close>

definition in_run :: "tensor_ent list \<Rightarrow> tensor_ent \<Rightarrow> u64 \<Rightarrow> bool" where
  "in_run ts t a \<longleftrightarrow> t_file_off t \<le> a
     \<and> (\<forall>u\<in>set ts. t_file_off t \<le> t_file_off u \<and> t_group u \<noteq> t_group t \<longrightarrow> a < page_down (t_file_off u))"

lemma bnd_loop_labels:
  assumes "apart (ps @ ts)" "acc \<noteq> []" "snd (last acc) = cur"
    and "\<exists>h\<in>set ps. t_group h = cur \<and> fst (last acc) = page_down (t_file_off h)"
    and "\<forall>t\<in>set ps. \<forall>a. in_run ps t a \<longrightarrow> label_at acc a = t_group t"
  shows "\<forall>t\<in>set (ps @ ts). \<forall>a. in_run (ps @ ts) t a \<longrightarrow> label_at (bnd_loop acc cur ts) a = t_group t"
  using assms
proof (induction ts arbitrary: ps acc cur)
  case Nil
  then show ?case by simp
next
  case (Cons x xs)
  let ?b = "page_down (t_file_off x)"
  have before: "t_file_off t \<le> t_file_off x" "t_group t \<noteq> t_group x \<Longrightarrow> page_down (t_file_off t) < ?b" if "t \<in> set ps" for t
    using Cons.prems(1) that by (auto simp: apart_def sorted_wrt_append)
  obtain h where h: "h \<in> set ps" "t_group h = cur" "fst (last acc) = page_down (t_file_off h)" using Cons.prems(4) by blast
  have run: "in_run ps t a" if "t \<in> set ps" "in_run (ps @ [x]) t a" for t a using that by (simp add: in_run_def)
  have ap: "apart ((ps @ [x]) @ xs)" using Cons.prems(1) by simp
  show ?case
  proof (cases "t_group x = cur")
    case True
    have lx: "label_at acc a = t_group x" if "in_run (ps @ [x]) x a" for a
    proof -
      have "fst (last acc) \<le> a"
        using that h(3) page_down_le[of "t_file_off h"] before(1)[OF h(1)] by (simp add: in_run_def) (meson order_trans)
      then show ?thesis using label_at_last[OF Cons.prems(2)] Cons.prems(3) True by simp
    qed
    have "\<forall>t\<in>set ((ps @ [x]) @ xs). \<forall>a. in_run ((ps @ [x]) @ xs) t a \<longrightarrow> label_at (bnd_loop acc cur xs) a = t_group t"
      using Cons.prems(2,3,5) h run lx by (intro Cons.IH[OF ap]) auto
    then show ?thesis using True by simp
  next
    case False
    have lt: "\<not> ?b \<le> fst (last acc)" using before(2)[OF h(1)] h(2,3) False by (simp add: not_le)
    let ?acc = "acc @ [(?b, t_group x)]"
    have lp: "label_at ?acc a = t_group t" if "t \<in> set ps" "in_run (ps @ [x]) t a" for t a
    proof (cases "?b \<le> a \<and> t_group t = t_group x")
      case False
      then have "\<not> ?b \<le> a" using that before(1)[OF that(1)] by (auto simp: in_run_def)
      then show ?thesis using Cons.prems(5) run[OF that] that(1) by (simp add: label_at_snoc)
    qed (simp add: label_at_snoc)
    have lx: "label_at ?acc a = t_group x" if "in_run (ps @ [x]) x a" for a
    proof -
      have "?b \<le> a" using that order_trans[OF page_down_le, of "t_file_off x" a] by (simp add: in_run_def)
      then show ?thesis by (simp add: label_at_snoc)
    qed
    have "\<forall>t\<in>set ((ps @ [x]) @ xs). \<forall>a. in_run ((ps @ [x]) @ xs) t a \<longrightarrow> label_at (bnd_loop ?acc (t_group x) xs) a = t_group t"
      using lp lx by (intro Cons.IH[OF ap]) auto
    then show ?thesis using False lt by (simp add: Let_def)
  qed
qed

lemma boundaries_labels:
  assumes "boundaries srt = Inr bs" "apart srt" "t \<in> set srt" "in_run srt t a"
  shows "label_at bs a = t_group t"
proof -
  obtain x xs where srt: "srt = x # xs" using assms(1) by (cases srt) (auto simp: boundaries_def)
  let ?b = "page_down (t_file_off x)"
  let ?acc = "if ?b = 0 then [(0, t_group x)] else [(0, GRP_HEADER), (?b, t_group x)]"
  have bs: "bs = bnd_loop ?acc (t_group x) xs" using assms(1) by (auto simp: srt boundaries_def Let_def split: if_splits)
  have lx: "label_at ?acc a = t_group x" if "in_run [x] x a" for a
  proof -
    have "?b \<le> a" using that order_trans[OF page_down_le, of "t_file_off x" a] by (simp add: in_run_def)
    then show ?thesis by (simp add: label_at_def)
  qed
  have "\<forall>t\<in>set ([x] @ xs). \<forall>a. in_run ([x] @ xs) t a \<longrightarrow> label_at (bnd_loop ?acc (t_group x) xs) a = t_group t"
    using assms(2) srt lx by (intro bnd_loop_labels) auto
  note L = this[unfolded append_Cons append_Nil, folded srt bs]
  show ?thesis using L assms(3,4) by blast
qed

section \<open>The chunks of a layer and of a role\<close>

lemma layer_chunks_at:
  assumes "l < n"
  shows "layer_chunks n gs ! l = take 6 (filter (\<lambda>c. gs ! c = int l) [0..<length gs]) \<and> length (layer_chunks n gs) = n"
proof -
  have "fold (add_layer_chunk gs) [0..<k] (replicate n []) ! l = take 6 (filter (\<lambda>c. gs ! c = int l) [0..<k])
      \<and> length (fold (add_layer_chunk gs) [0..<k] (replicate n [])) = n" for k
    using assms
  proof (induction k)
    case (Suc k)
    let ?ls = "fold (add_layer_chunk gs) [0..<k] (replicate n [])" and ?f = "filter (\<lambda>c. gs ! c = int l) [0..<k]"
    from Suc have IH: "?ls ! l = take 6 ?f" "length ?ls = n" by simp_all
    have "fold (add_layer_chunk gs) [0..<Suc k] (replicate n []) = add_layer_chunk gs k ?ls" by simp
    moreover have "length (add_layer_chunk gs k ?ls) = n" using IH(2) by (simp add: add_layer_chunk_def Let_def)
    moreover have "add_layer_chunk gs k ?ls ! l = take 6 (filter (\<lambda>c. gs ! c = int l) [0..<Suc k])"
    proof (cases "gs ! k = int l")
      case True
      then show ?thesis using IH Suc.prems
        by (cases "length ?f < 6") (simp_all add: add_layer_chunk_def Let_def MAX_CHUNKS_PER_LAYER_def)
    next
      case False
      then have "nat (gs ! k) \<noteq> l \<or> gs ! k < 0" by linarith
      then show ?thesis using IH False by (auto simp: add_layer_chunk_def Let_def)
    qed
    ultimately show ?case by simp
  qed simp
  then show ?thesis by (simp add: layer_chunks_def)
qed

lemma layer_chunks_length [simp]: "length (layer_chunks n gs) = n"
proof -
  have "length (fold (add_layer_chunk gs) cs ls) = length ls" for cs ls
    by (induction cs arbitrary: ls) (simp_all add: add_layer_chunk_def Let_def)
  then show ?thesis by (simp add: layer_chunks_def)
qed

lemma layer_chunks_in:
  assumes "l < n"
  shows "set (layer_chunks n gs ! l) \<subseteq> {c. c < length gs \<and> gs ! c = int l}" "distinct (layer_chunks n gs ! l)"
    and "length (filter (\<lambda>g. g = int l) gs) \<le> 6 \<Longrightarrow> set (layer_chunks n gs ! l) = {c. c < length gs \<and> gs ! c = int l}"
proof -
  note L = conjunct1[OF layer_chunks_at[OF assms, of gs]]
  show "set (layer_chunks n gs ! l) \<subseteq> {c. c < length gs \<and> gs ! c = int l}" "distinct (layer_chunks n gs ! l)"
    unfolding L by (auto dest: in_set_takeD)
  have "length (filter (\<lambda>c. gs ! c = int l) [0..<length gs]) = length (filter (\<lambda>g. g = int l) (map (\<lambda>c. gs ! c) [0..<length gs]))"
    by (simp add: filter_map comp_def)
  also have "\<dots> = length (filter (\<lambda>g. g = int l) gs)" by (simp add: map_nth)
  finally show "length (filter (\<lambda>g. g = int l) gs) \<le> 6 \<Longrightarrow> set (layer_chunks n gs ! l) = {c. c < length gs \<and> gs ! c = int l}"
    unfolding L by auto
qed

lemma role_chunk_Some: "role_chunk g gs = Some c \<Longrightarrow> c < length gs \<and> gs ! c = g"
  by (auto simp: role_chunk_def find_Some_iff rev_nth)

lemma role_chunk_None: "role_chunk g gs = None \<longleftrightarrow> g \<notin> set gs"
  by (auto simp: role_chunk_def find_None_iff in_set_conv_nth)

lemma distinct_layers: "distinct (concat (layer_chunks n gs))"
proof -
  have d: "distinct (concat (map (\<lambda>l. layer_chunks n gs ! l) [0..<k]))
      \<and> set (concat (map (\<lambda>l. layer_chunks n gs ! l) [0..<k])) \<subseteq> {c. c < length gs \<and> 0 \<le> gs ! c \<and> gs ! c < int k}" if "k \<le> n" for k
    using that
  proof (induction k)
    case (Suc k)
    then have "k < n" by simp
    from layer_chunks_in(1,2)[OF this, of gs] Suc show ?case by fastforce
  qed simp
  have "map (\<lambda>l. layer_chunks n gs ! l) [0..<n] = layer_chunks n gs" using map_nth[of "layer_chunks n gs"] by simp
  with d[of n] show ?thesis by simp
qed

lemma set_layers: "c \<in> set (concat (layer_chunks n gs)) \<Longrightarrow> c < length gs \<and> 0 \<le> gs ! c"
  using layer_chunks_in(1)[of _ n gs] by (force simp: in_set_conv_nth)

section \<open>What the table is built from\<close>

lemma inventory_offsets:
  "inventory d xs = Inr es \<Longrightarrow> map t_file_off es = map (\<lambda>(nm, off, sz). d + off) xs
     \<and> list_all2 (\<lambda>(nm, off, sz) e. classify nm = Inr (t_group e)) xs es"
proof (induction d xs arbitrary: es rule: inventory.induct)
  case (2 d nm off sz ts)
  then show ?case by (auto simp: rbind_Inr_iff)
qed simp

lemma build_table:
  assumes "build_inventory_and_table ctx fs = Inr t"
  obtains (made) g ts bs where "ctx = Some g" "inventory (gguf_data_offset g) (gguf_tensors g) = Inr ts" "g_tensors t = ts"
    "boundaries (sort_key t_file_off ts) = Inr bs" "g_region_len t = page_up fs" "g_chunk_group t = map snd bs"
    "g_specs t = map (table_spec (page_up fs) bs) [0..<length bs]" "g_file_size t = fs"
    "g_layer_chunks t = layer_chunks (nat (fold (\<lambda>t m. if t_group t > m then t_group t else m) ts (- 1) + 1)) (map snd bs)"
    "g_chunk_embd t = role_chunk GRP_EMBD (map snd bs)"
    "g_chunk_output t = (case role_chunk GRP_OUTPUT (map snd bs) of None \<Rightarrow> g_chunk_embd t | Some c \<Rightarrow> Some c)"
    "g_chunk_outnorm t = (case role_chunk GRP_OUTNORM (map snd bs) of None \<Rightarrow> g_chunk_embd t | Some c \<Rightarrow> Some c)"
    "g_declared_seq t = declared_order (g_chunk_embd t) (g_layer_chunks t) (g_chunk_outnorm t) (g_chunk_output t)"
proof -
  from assms obtain g where g: "ctx = Some g" by (cases ctx) (auto simp: build_inventory_and_table_def)
  with assms obtain ts where ts: "inventory (gguf_data_offset g) (gguf_tensors g) = Inr ts"
    by (auto simp: build_inventory_and_table_def rbind_Inr_iff)
  with g assms obtain bs where bs: "boundaries (sort_key t_file_off ts) = Inr bs"
    by (auto simp: build_inventory_and_table_def rbind_Inr_iff Let_def split: if_splits)
  show thesis
    by (rule made[OF g ts _ bs])
      (use assms g ts bs in \<open>auto simp: build_inventory_and_table_def Let_def split: if_splits option.splits\<close>)
qed

text \<open>The tensors of the file start inside it.\<close>

definition in_file :: "gguf \<Rightarrow> u64 \<Rightarrow> bool" where
  "in_file g fs \<longleftrightarrow> list_all (\<lambda>(nm, off, sz). gguf_data_offset g + off < fs) (gguf_tensors g)"

lemma inventory_in_file:
  assumes "inventory (gguf_data_offset g) (gguf_tensors g) = Inr ts" "in_file g fs"
  shows "\<forall>t\<in>set (sort_key t_file_off ts). t_file_off t < fs"
proof -
  have m: "map t_file_off ts = map (\<lambda>(nm, off, sz). gguf_data_offset g + off) (gguf_tensors g)"
    using inventory_offsets[OF assms(1)] by simp
  have "x < fs" if "x \<in> set (map t_file_off ts)" for x
    using that assms(2) unfolding m in_file_def list_all_iff by auto
  then show ?thesis by simp
qed

lemma bnd_loop_length: "length (bnd_loop acc cur ts) \<le> length acc + length ts"
proof (induction ts arbitrary: acc cur)
  case (Cons t ts)
  show ?case
    using Cons[of acc cur] Cons[of acc "t_group t"] Cons[of "acc @ [(page_down (t_file_off t), t_group t)]" "t_group t"]
    by (simp add: Let_def)
qed simp

lemma boundaries_length:
  assumes "boundaries srt = Inr bs"
  shows "length bs \<le> length srt + 1"
proof -
  obtain t ts where srt: "srt = t # ts" using assms by (cases srt) (auto simp: boundaries_def)
  show ?thesis
    using assms bnd_loop_length[of "[(0, t_group t)]" "t_group t" ts]
      bnd_loop_length[of "[(0, GRP_HEADER), (page_down (t_file_off t), t_group t)]" "t_group t" ts]
    by (auto simp: boundaries_def srt Let_def)
qed

lemma page_up_wraps: "v \<le> page_up v \<or> page_up v = 0"
proof (cases "unat v + 4095 < 2 ^ 64")
  case True
  have "unat (v + 4096 - 1) = unat v + 4095"
  proof -
    have "v + 4096 - 1 = v + 4095" by simp
    then show ?thesis using True by (simp only:) (simp add: unat_word_ariths)
  qed
  then have "unat (page_up v) = unat v + 4095 - (unat v + 4095) mod 4096"
    using unat_page_down[of "v + 4096 - 1"] by (simp add: page_up_def page_down_def)
  moreover have "(unat v + 4095) mod 4096 \<le> 4095" using mod_less_divisor[of 4096 "unat v + 4095"] by simp
  ultimately have "unat v \<le> unat (page_up v)" by linarith
  then show ?thesis by (simp add: word_le_nat_alt)
next
  case False
  have "unat (v + 4096 - 1) = unat v + 4095 - 2 ^ 64"
  proof -
    have "v + 4096 - 1 = v + 4095" by simp
    moreover have "unat v + 4095 < 2 * 2 ^ 64" using u64_bound[of v] by simp
    ultimately show ?thesis using False by (simp only:) (simp add: unat_word_ariths mod_if)
  qed
  then have "unat (v + 4096 - 1) < 4096" using u64_bound[of v] by simp
  then have "unat (page_up v) = 0" using unat_page_down[of "v + 4096 - 1"] by (simp add: page_up_def page_down_def)
  then show ?thesis by (simp add: unat_eq_zero)
qed

lemma page_up_aligned: "unat (page_up v) mod 4096 = 0"
  using page_down_aligned[of "v + 4096 - 1"] by (simp add: page_up_def page_down_def)

text \<open>The table is the one that startup accepts; its chunks are the intervals between the boundaries.\<close>

lemma table_built:
  assumes t: "build_inventory_and_table (Some g) fs = Inr t" and f: "in_file g fs" "fs \<le> page_up fs"
    and n: "length (gguf_tensors g) < UINT32_MAX"
  obtains (built) ts bs where "g_tensors t = ts" "boundaries (sort_key t_file_off ts) = Inr bs" "bounds_ok fs bs"
    "g_chunk_group t = map snd bs" "g_region_len t = page_up fs" "length bs \<le> length (gguf_tensors g) + 1"
    "g_specs t = map (table_spec (page_up fs) bs) [0..<length bs]"
    "build_chunk_table_explicit (g_region_len t) (g_specs t) = Inr (map chunk_of_spec (g_specs t))"
    "(\<Sum>s\<leftarrow>g_specs t. unat (spec_len s)) = unat (g_region_len t)"
proof -
  from t show thesis
  proof (cases rule: build_table)
    case (made g' ts bs)
    then have T: "inventory (gguf_data_offset g) (gguf_tensors g) = Inr ts" by simp
    have ok: "bounds_ok fs bs" by (rule boundaries_ok[OF made(4) inventory_in_file[OF T f(1)]])
    have "length ts = length (gguf_tensors g)" using inventory_offsets[OF T] by (metis length_map)
    then have l: "length bs \<le> length (gguf_tensors g) + 1" using boundaries_length[OF made(4)] by simp
    then have "length bs \<le> UINT32_MAX" using n by simp
    note K = table_ok[OF ok f(2) page_up_aligned this]
    show thesis by (rule built[OF made(3,4) ok made(6,5) l made(7)]) (use K made(5,7) in simp_all)
  qed
qed

text \<open>
  C36. The table that the shim builds from a GGUF file whose tensors start inside the file is never
  refused by \<^verbatim>\<open>region_startup\<close>: however the tensors lie, overlap or share pages, the chunks tile
  the region exactly, one per boundary, page-aligned, none empty, each starting inside the file.
\<close>

theorem llama_table_tiles:
  assumes "build_inventory_and_table (Some g) fs = Inr t" and "in_file g fs" and "unat fs < 2 ^ 63"
    and "length (gguf_tensors g) < UINT32_MAX"
  shows "\<exists>cs. build_chunk_table_explicit (g_region_len t) (g_specs t) = Inr cs \<and> tiles 0 cs (unat (g_region_len t))
    \<and> length cs = length (g_chunk_group t) \<and> list_all (\<lambda>c. file_off c < fs) cs"
  using assms(1,2) page_up_above[OF assms(3)] assms(4)
proof (cases rule: table_built)
  case (built ts bs)
  have "(\<Sum>s\<leftarrow>g_specs t. unat (spec_len s)) < 2 ^ 64" using built(9) u64_bound[of "g_region_len t"] by simp
  from build_chunk_table_explicit_ok[OF built(8) this] have "tiles 0 (map chunk_of_spec (g_specs t)) (unat (g_region_len t))" by simp
  moreover have "file_off (chunk_of_spec (table_spec (page_up fs) bs c)) < fs" if "c < length bs" for c
    using built(3) nth_mem[OF that] by (simp add: chunk_of_spec_def table_spec_def Let_def bounds_ok_def)
  then have "list_all (\<lambda>c. file_off c < fs) (map chunk_of_spec (g_specs t))" by (simp add: list_all_iff built(7))
  moreover have "length (map chunk_of_spec (g_specs t)) = length (g_chunk_group t)" by (simp add: built(4,7))
  ultimately show ?thesis using built(8) by blast
qed

text \<open>
  C35. The bytes of a tensor are in a chunk of its group: when no page holds the start of tensors of two
  groups, the chunk that a fault at any address of a tensor's run is resolved to carries the group (the
  layer, or the role) of that tensor.
\<close>

theorem llama_chunk_of_tensor:
  assumes "build_inventory_and_table (Some g) fs = Inr t" and "in_file g fs" and "unat fs < 2 ^ 63"
    and "length (gguf_tensors g) < UINT32_MAX" and "apart (sort_key t_file_off (g_tensors t))"
    and "e \<in> set (g_tensors t)" and "in_run (g_tensors t) e a" and "a < g_region_len t"
  shows "\<exists>c. pager_lookup (map chunk_of_spec (g_specs t)) a = Some c \<and> g_chunk_group t ! c = t_group e"
  using assms(1,2) page_up_above[OF assms(3)] assms(4)
proof (cases rule: table_built)
  case (built ts bs)
  let ?cs = "map chunk_of_spec (g_specs t)"
  have "(\<Sum>s\<leftarrow>g_specs t. unat (spec_len s)) < 2 ^ 64" using built(9) u64_bound[of "g_region_len t"] by simp
  from build_chunk_table_explicit_ok[OF built(8) this] have tl: "tiles 0 ?cs (unat (g_region_len t))" by simp
  have "label_at bs a = t_group e"
    using boundaries_labels[OF built(2)] assms(5-7) built(1) by (simp add: in_run_def)
  moreover obtain c where c: "c < length bs" "bound_at (page_up fs) bs c \<le> a" "a < bound_at (page_up fs) bs (Suc c)"
    "label_at bs a = snd (bs ! c)"
    using label_at_chunk[OF built(3) page_up_above[OF assms(3)]] assms(8) built(5) by auto
  moreover have "pager_lookup ?cs a = Some c"
  proof -
    have l: "c < length ?cs" using c(1) built(7) by simp
    have "?cs ! c = chunk_of_spec (table_spec (page_up fs) bs c)" using c(1) built(7) by simp
    then have "region_off (?cs ! c) = bound_at (page_up fs) bs c"
      "len (?cs ! c) = bound_at (page_up fs) bs (Suc c) - bound_at (page_up fs) bs c"
      using table_spec_bounds[OF c(1)] by (simp_all add: chunk_of_spec_def)
    then have "covers (?cs ! c) a" using covers_iff[OF tl l, of a] c(2,3) by (simp add: not_less not_le)
    then show ?thesis using pager_lookup_iff[OF tl, of a c] l by blast
  qed
  ultimately show ?thesis using built(4) by (intro exI[of _ c]) simp
qed



section \<open>The declared sequence\<close>

lemma bnd_loop_groups: "snd ` set (bnd_loop acc cur ts) \<subseteq> snd ` set acc \<union> t_group ` set ts"
proof (induction ts arbitrary: acc cur)
  case (Cons t ts)
  show ?case
    using Cons[of acc cur] Cons[of acc "t_group t"] Cons[of "acc @ [(page_down (t_file_off t), t_group t)]" "t_group t"]
    by (auto simp: Let_def split: if_splits)
qed simp

lemma boundaries_groups:
  assumes "boundaries srt = Inr bs"
  shows "snd ` set bs \<subseteq> insert GRP_HEADER (t_group ` set srt)"
proof -
  obtain t ts where srt: "srt = t # ts" using assms by (cases srt) (auto simp: boundaries_def)
  show ?thesis
    using assms bnd_loop_groups[of "[(0, t_group t)]" "t_group t" ts]
      bnd_loop_groups[of "[(0, GRP_HEADER), (page_down (t_file_off t), t_group t)]" "t_group t" ts]
    by (auto simp: boundaries_def srt Let_def split: if_splits)
qed

lemma max_group: "t \<in> set (ts :: tensor_ent list) \<Longrightarrow> t_group t \<le> fold (\<lambda>t m. if t_group t > m then t_group t else m) ts m0"
proof -
  have ge: "m \<le> fold (\<lambda>t m. if t_group t > m then t_group t else m) ts m" for ts :: "tensor_ent list" and m
  proof (induction ts arbitrary: m)
    case (Cons t ts)
    from Cons[of "if t_group t > m then t_group t else m"] show ?case by (simp split: if_splits)
  qed simp
  show "t \<in> set ts \<Longrightarrow> t_group t \<le> fold (\<lambda>t m. if t_group t > m then t_group t else m) ts m0"
  proof (induction ts arbitrary: m0)
    case (Cons u us)
    then show ?case using ge[of "if t_group u > m0 then t_group u else m0" us] by (auto split: if_splits)
  qed simp
qed

lemma sorted_layers: "sorted (map (\<lambda>c. gs ! c) (concat (layer_chunks n gs)))"
proof -
  let ?f = "\<lambda>k. concat (map (\<lambda>l. layer_chunks n gs ! l) [0..<k])"
  have "sorted (map (\<lambda>c. gs ! c) (?f k)) \<and> (\<forall>c\<in>set (?f k). gs ! c < int k)" if "k \<le> n" for k
    using that
  proof (induction k)
    case (Suc k)
    then have k: "k < n" by simp
    have IH: "sorted (map (\<lambda>c. gs ! c) (?f k)) \<and> (\<forall>c\<in>set (?f k). gs ! c < int k)"
      by (rule Suc.IH) (use Suc.prems in simp)
    have l: "gs ! c = int k" if "c \<in> set (layer_chunks n gs ! k)" for c using layer_chunks_in(1)[OF k, of gs] that by blast
    then have "sorted (map (\<lambda>c. gs ! c) (layer_chunks n gs ! k))" by (auto simp: sorted_iff_nth_mono)
    moreover have "\<forall>a\<in>set (?f k). \<forall>b\<in>set (layer_chunks n gs ! k). gs ! a \<le> gs ! b" using IH l by fastforce
    moreover have "\<forall>c\<in>set (?f k). gs ! c < int (Suc k)" using IH by force
    moreover have "?f (Suc k) = ?f k @ layer_chunks n gs ! k" by simp
    ultimately show ?case using IH l by (simp only: sorted_append map_append set_append) auto
  qed simp
  moreover have "map (\<lambda>l. layer_chunks n gs ! l) [0..<n] = layer_chunks n gs" using map_nth[of "layer_chunks n gs"] by simp
  ultimately show ?thesis by fastforce
qed

text \<open>The three parts around the layers.\<close>

lemma declared_parts:
  assumes "e = role_chunk GRP_EMBD gs" "nm = (case role_chunk GRP_OUTNORM gs of None \<Rightarrow> e | Some c \<Rightarrow> Some c)"
    "out = (case role_chunk GRP_OUTPUT gs of None \<Rightarrow> e | Some c \<Rightarrow> Some c)"
  obtains E N Q where "declared_order e ls nm out = E @ concat ls @ N @ Q" "distinct E" "distinct N" "distinct Q"
    "\<forall>c\<in>set E. c < length gs \<and> gs ! c = GRP_EMBD" "\<forall>c\<in>set N. c < length gs \<and> gs ! c = GRP_OUTNORM"
    "\<forall>c\<in>set Q. c < length gs \<and> gs ! c = GRP_OUTPUT"
proof -
  let ?E = "case e of None \<Rightarrow> [] | Some c \<Rightarrow> [c]"
    and ?N = "case nm of None \<Rightarrow> [] | Some c \<Rightarrow> if nm \<noteq> e then [c] else []"
    and ?Q = "case out of None \<Rightarrow> [] | Some c \<Rightarrow> if out \<noteq> e \<and> out \<noteq> nm then [c] else []"
  have E: "\<forall>c\<in>set ?E. c < length gs \<and> gs ! c = GRP_EMBD" using role_chunk_Some[of GRP_EMBD gs] assms(1) by (auto split: option.splits)
  have N: "\<forall>c\<in>set ?N. c < length gs \<and> gs ! c = GRP_OUTNORM"
    using role_chunk_Some[of GRP_OUTNORM gs] assms(2) by (auto split: option.splits if_splits)
  have Q: "\<forall>c\<in>set ?Q. c < length gs \<and> gs ! c = GRP_OUTPUT"
    using role_chunk_Some[of GRP_OUTPUT gs] assms(3) by (auto split: option.splits if_splits)
  show thesis
    by (rule that[OF _ _ _ _ E N Q]) (auto simp: declared_order_def split: option.split)
qed

text \<open>
  C37. The declared sequence is sound: it names no chunk twice and none that does not exist, holds every
  chunk of every layer that has at most six of them, in the order of the layers, and neither the header
  nor a chunk of unclassified tensors.
\<close>

theorem declared_sequence_sound:
  assumes "build_inventory_and_table ctx fs = Inr t"
  shows "distinct (g_declared_seq t) \<and> list_all (\<lambda>c. c < length (g_chunk_group t)) (g_declared_seq t)
    \<and> sorted (filter (\<lambda>g. 0 \<le> g) (map (\<lambda>c. g_chunk_group t ! c) (g_declared_seq t)))
    \<and> list_all (\<lambda>c. g_chunk_group t ! c \<noteq> GRP_HEADER \<and> g_chunk_group t ! c \<noteq> GRP_OTHER) (g_declared_seq t)
    \<and> (\<forall>c<length (g_chunk_group t). 0 \<le> g_chunk_group t ! c
         \<and> length (filter (\<lambda>g. g = g_chunk_group t ! c) (g_chunk_group t)) \<le> 6 \<longrightarrow> c \<in> set (g_declared_seq t))"
  using assms
proof (cases rule: build_table)
  case (made g ts bs)
  let ?gs = "g_chunk_group t"
  define n where "n = nat (fold (\<lambda>t m. if t_group t > m then t_group t else m) ts (- 1) + 1)"
  have ls: "g_layer_chunks t = layer_chunks n ?gs" using made(6,9) by (simp add: n_def)
  obtain E N Q where P0: "declared_order (g_chunk_embd t) (g_layer_chunks t) (g_chunk_outnorm t) (g_chunk_output t) = E @ concat (g_layer_chunks t) @ N @ Q"
    and PD: "distinct E" "distinct N" "distinct Q"
    and PG: "\<forall>c\<in>set E. c < length ?gs \<and> ?gs ! c = GRP_EMBD" "\<forall>c\<in>set N. c < length ?gs \<and> ?gs ! c = GRP_OUTNORM"
    "\<forall>c\<in>set Q. c < length ?gs \<and> ?gs ! c = GRP_OUTPUT"
    by (rule declared_parts[OF made(10)[folded made(6)] made(12)[folded made(6)] made(11)[folded made(6)]])
  have P1: "g_declared_seq t = E @ concat (layer_chunks n ?gs) @ N @ Q" using P0 made(13) ls by simp
  note P = P1 PD PG
  have S: "\<forall>c\<in>set (concat (layer_chunks n ?gs)). c < length ?gs \<and> 0 \<le> ?gs ! c" using set_layers by blast
  note G = GRP_EMBD_def GRP_OUTNORM_def GRP_OUTPUT_def GRP_HEADER_def GRP_OTHER_def
  have "distinct (g_declared_seq t)"
    unfolding P(1) using P(2-7) distinct_layers[of n ?gs] S by (fastforce simp: G)
  moreover have "list_all (\<lambda>c. c < length ?gs) (g_declared_seq t)"
    unfolding P(1) list_all_iff set_append using P(5-7) S by blast
  moreover have "filter (\<lambda>g. 0 \<le> g) (map (\<lambda>c. ?gs ! c) (g_declared_seq t)) = map (\<lambda>c. ?gs ! c) (concat (layer_chunks n ?gs))"
  proof -
    have none: "filter (\<lambda>g. 0 \<le> g) (map (\<lambda>c. ?gs ! c) X) = []" if "\<forall>c\<in>set X. ?gs ! c < 0" for X
      using that by (simp add: filter_empty_conv not_le)
    have "filter (\<lambda>g. 0 \<le> g) (map (\<lambda>c. ?gs ! c) (concat (layer_chunks n ?gs))) = map (\<lambda>c. ?gs ! c) (concat (layer_chunks n ?gs))"
      using S by (intro filter_True) (simp only: set_map ball_simps, blast)
    moreover have "\<forall>c\<in>set E. ?gs ! c < 0" "\<forall>c\<in>set N. ?gs ! c < 0" "\<forall>c\<in>set Q. ?gs ! c < 0" using P(5-7) by (auto simp: G)
    ultimately show ?thesis unfolding P(1) by (simp only: map_append filter_append none append_Nil append_Nil2)
  qed
  then have "sorted (filter (\<lambda>g. 0 \<le> g) (map (\<lambda>c. ?gs ! c) (g_declared_seq t)))" by (simp only: sorted_layers)
  moreover have "list_all (\<lambda>c. ?gs ! c \<noteq> GRP_HEADER \<and> ?gs ! c \<noteq> GRP_OTHER) (g_declared_seq t)"
    unfolding P(1) list_all_iff set_append using P(5-7) S by (fastforce simp only: G Un_iff)
  moreover have "c \<in> set (g_declared_seq t)"
    if c: "c < length ?gs" "0 \<le> ?gs ! c" "length (filter (\<lambda>g. g = ?gs ! c) ?gs) \<le> 6" for c
  proof -
    have "?gs ! c \<in> snd ` set bs" using c(1) made(6) by (metis length_map list.set_map nth_mem)
    then obtain e where e: "e \<in> set ts" "?gs ! c = t_group e"
      using boundaries_groups[OF made(4)] c(2) by (auto simp: G)
    let ?l = "nat (?gs ! c)"
    have l: "?l < n" using max_group[OF e(1), of "- 1"] c(2) e(2) by (simp add: n_def)
    have "c \<in> set (layer_chunks n ?gs ! ?l)" using layer_chunks_in(3)[OF l, of ?gs] c by simp
    moreover have "layer_chunks n ?gs ! ?l \<in> set (layer_chunks n ?gs)" using l by simp
    ultimately show ?thesis unfolding P(1) by auto
  qed
  ultimately show ?thesis by blast
qed

end
