(* ===== verification/Llama_Startup.thy ===== *)
theory Llama_Startup
  imports Llama_Table
begin

text \<open>
  The shim brings the region up: a configuration file is read back as it was written, and what
  \<^verbatim>\<open>residctl_llama_mmap\<close> returns satisfies all that the concurrency theorems ask of a
  region. Concrete model files for the witnesses, and two that the table code does not serve well.
\<close>

section \<open>The configuration file\<close>

definition print_config :: "(string \<times> string) list \<Rightarrow> string" where
  "print_config kvs = concat (map (\<lambda>(k, v). k @ [CHR ''=''] @ v @ [CHR 0x0A]) kvs)"

definition option_ok :: "string \<times> string \<Rightarrow> bool" where
  "option_ok kv \<longleftrightarrow> fst kv \<noteq> [] \<and> hd (fst kv) \<noteq> CHR ''#'' \<and> CHR ''='' \<notin> set (fst kv)
     \<and> set (fst kv) \<inter> {CHR 0x0A, CHR 0x00} = {} \<and> set (snd kv) \<inter> {CHR 0x0A, CHR 0x00} = {}
     \<and> length (fst kv) + length (snd kv) \<le> 1197"

lemma takeWhile_until: "\<forall>c\<in>set xs. P c \<Longrightarrow> \<not> P y \<Longrightarrow> takeWhile P (xs @ y # ys) = xs"
  by (induction xs) auto

lemma dropWhile_until: "\<forall>c\<in>set xs. P c \<Longrightarrow> \<not> P y \<Longrightarrow> dropWhile P (xs @ y # ys) = y # ys"
  by (induction xs) auto

lemma fgets_printed:
  assumes "list_all option_ok kvs"
  shows "fgets_lines 1199 (print_config kvs) = map (\<lambda>(k, v). k @ [CHR ''=''] @ v) kvs"
  using assms
proof (induction kvs)
  case Nil
  then show ?case by (simp add: print_config_def fgets_lines_step)
next
  case (Cons kv kvs)
  obtain k v where kv: "kv = (k, v)" by (cases kv)
  let ?l = "k @ [CHR ''=''] @ v" and ?rest = "print_config kvs"
  have s: "print_config (kv # kvs) = ?l @ CHR 0x0A # ?rest" by (simp add: print_config_def kv)
  have ok: "option_ok (k, v)" using Cons.prems kv by simp
  then have n: "\<forall>c\<in>set ?l. c \<noteq> CHR 0x0A" "\<forall>c\<in>set ?l. c \<noteq> CHR 0x0A \<and> c \<noteq> CHR 0x00" by (auto simp: option_ok_def)
  have tw: "takeWhile (\<lambda>c. c \<noteq> CHR 0x0A) (?l @ CHR 0x0A # ?rest) = ?l" by (rule takeWhile_until) (use n in auto)
  have len: "length (?l @ [CHR 0x0A]) \<le> 1199" using ok by (simp add: option_ok_def)
  have tk: "take 1199 (?l @ [CHR 0x0A]) = ?l @ [CHR 0x0A]" using len by (rule take_all)
  have tw2: "takeWhile (\<lambda>c. c \<noteq> CHR 0x0A \<and> c \<noteq> CHR 0x00) (?l @ CHR 0x0A # []) = ?l" by (rule takeWhile_until) (use n in auto)
  have ne: "?l @ CHR 0x0A # ?rest \<noteq> []" by simp
  have lt: "length ?l < length (?l @ CHR 0x0A # ?rest)" by simp
  have dr: "drop (length (?l @ [CHR 0x0A])) (?l @ CHR 0x0A # ?rest) = ?rest" by simp
  have "fgets_lines 1199 (?l @ CHR 0x0A # ?rest) = ?l # fgets_lines 1199 ?rest"
    unfolding fgets_lines_step[of 1199 "?l @ CHR 0x0A # ?rest"] Let_def tw if_P[OF lt] tk tw2 dr by simp
  then show ?case using Cons s kv by simp
qed

lemma config_line_option: "option_ok (k, v) \<Longrightarrow> config_line (k @ [CHR ''=''] @ v) c = set_option c k v"
proof -
  assume "option_ok (k, v)"
  then have k: "k \<noteq> []" "hd k \<noteq> CHR ''#''" "\<forall>x\<in>set k. x \<noteq> CHR ''=''" by (auto simp: option_ok_def)
  then show ?thesis
    using takeWhile_until[of k "\<lambda>x. x \<noteq> CHR ''=''" "CHR ''=''" v] dropWhile_until[of k "\<lambda>x. x \<noteq> CHR ''=''" "CHR ''=''" v]
    by (simp add: config_line_def)
qed

lemma config_printed:
  assumes "list_all option_ok kvs"
  shows "fold config_line (fgets_lines 1199 (print_config kvs)) c = fold (\<lambda>(k, v) c. set_option c k v) kvs c"
  unfolding fgets_printed[OF assms] using assms
  by (induction kvs arbitrary: c) (auto simp: config_line_option[simplified])

lemma strtoull_dec [simp]: "strtoull (dec_string (unat v)) = v"
proof -
  have "scan_llu (CHR '' '' # s) = scan_llu s" for s by (simp add: scan_llu_def)
  then show ?thesis using scan_dec_string[of v] by (simp add: strtoull_def)
qed

lemma widened [simp]: "ucast (ucast (x :: u32) :: u64) = x"
  by (rule bit_word_eqI) (simp add: bit_simps)

text \<open>The options that give a configuration, and when they can be written down.\<close>

definition options_of :: "shim_config \<Rightarrow> (string \<times> string) list" where
  "options_of c =
     [(''model'', g_model_path c), (''cgroup'', g_cgroup c), (''budget_bytes'', dec_string (unat (g_budget_bytes c))),
      (''policy'', g_policy_name c), (''prefetch'', if g_prefetch_on c then ''on'' else ''off''),
      (''prefetch_depth'', dec_string (unat (ucast (g_prefetch_depth c) :: u64))),
      (''retention'', if g_retention_none c then ''none'' else ''pinned''),
      (''fetch_workers'', dec_string (unat (ucast (g_fetch_workers c) :: u64))),
      (''eager_reconcile'', if g_eager_reconcile c then ''1'' else ''0''), (''reftrace'', g_reftrace_path c),
      (''fetchtrace'', g_fetchtrace_path c), (''policytrace'', g_policytrace_path c),
      (''protect_current'', if g_protect_current c then ''on'' else ''off''),
      (''fetching_timeout_ms'', dec_string (unat (ucast (g_fetching_timeout_ms c) :: u64)))]"

definition path_ok :: "nat \<Rightarrow> string \<Rightarrow> bool" where
  "path_ok n p \<longleftrightarrow> length p \<le> n \<and> set p \<inter> {CHR 0x0A, CHR 0x00} = {}"

definition config_ok :: "shim_config \<Rightarrow> bool" where
  "config_ok c \<longleftrightarrow> path_ok 1023 (g_model_path c) \<and> path_ok 511 (g_cgroup c) \<and> path_ok 63 (g_policy_name c)
     \<and> path_ok 1023 (g_reftrace_path c) \<and> path_ok 1023 (g_fetchtrace_path c) \<and> path_ok 1023 (g_policytrace_path c)
     \<and> g_model_path c \<noteq> [] \<and> g_cgroup c \<noteq> [] \<and> g_budget_bytes c \<noteq> 0"

lemma options_ok:
  assumes "config_ok c"
  shows "list_all option_ok (options_of c)"
proof -
  have d: "set (dec_string (unat v)) \<inter> {CHR 0x0A, CHR 0x00} = {}" "20 \<le> n \<Longrightarrow> length (dec_string (unat v)) \<le> n" for v :: u64 and n
    using dec_string_chars order_trans[OF dec_string_u64[of v], of n] by blast+
  show ?thesis using assms d unfolding options_of_def config_ok_def path_ok_def
    by (simp add: option_ok_def)
qed

lemma fold_options:
  assumes "config_ok c"
  shows "fold (\<lambda>(k, v) c. set_option c k v) (options_of c) c0 = c"
  using assms unfolding options_of_def config_ok_def path_ok_def
  by (cases c; cases c0) (simp add: set_option_def)

text \<open>
  C38. Every configuration can be written as a file of \<^verbatim>\<open>key=value\<close> lines and is read back
  unchanged, numbers, switches and paths up to the size of their buffers included.
\<close>

theorem load_config_roundtrip:
  assumes "config_ok c"
  shows "load_config (Some (print_config (options_of c))) = Inr c"
  using assms config_printed[OF options_ok[OF assms], of shim_config_default] fold_options[OF assms, of shim_config_default]
  by (simp add: load_config_def Let_def config_ok_def)

section \<open>The region that is brought up\<close>

text \<open>
  C34. When \<^verbatim>\<open>residctl_llama_mmap\<close> returns, for a model file whose tensors start inside it, the
  region is one that the pager can serve: the invariant holds, nothing is resident, the asynchronous handler
  is on, every chunk starts in the file, and the declared policy has the per-token sequence.
\<close>

theorem llama_region_ready:
  assumes "residctl_llama_mmap h f read_gguf stat_size ws = Inr s"
    and "load_config f = Inr c" and "read_gguf (g_model_path c) = Some g"
    and "h_file_size h = Some (stat_size (g_model_path c))" and "in_file g (stat_size (g_model_path c))"
    and "\<forall>n. h_ftruncate h n \<longrightarrow> unat n < 2 ^ 63"
    and "unat (g_prefetch_depth c) \<le> 2147483648" and "length (gguf_tensors g) < 2147483647"
  shows "ready_to_run (g_r s) \<and> n_chunks (g_r s) = length (g_chunk_group (tbl s))
    \<and> (if g_policy_name c = ''layer_order_declared''
        then \<exists>st. policy_of (g_r s) = Some (Layer_order_declared st) \<and> seq st = g_declared_seq (tbl s) \<and> dn_chunks st = n_chunks (g_r s)
        else True)"
proof -
  let ?fs = "stat_size (g_model_path c)"
  obtain t where t: "build_inventory_and_table (Some g) ?fs = Inr t"
    using assms(1) unfolding residctl_llama_mmap_def assms(2) rbind_simps assms(3) by (auto simp: rbind_Inr_iff)
  note M = assms(1)[unfolded residctl_llama_mmap_def assms(2,3) rbind_simps t]
  obtain r m where r: "region_startup h (shim_cfg c t) = Inr (r, m)"
    using M by (cases "region_startup h (shim_cfg c t)") auto
  note M = M[unfolded r map_sum.simps prod.case rbind_simps id_apply]
  obtain p where p: "shim_policy (g_policy_name c) (n_chunks r) = Inr p"
    using M by (cases "shim_policy (g_policy_name c) (n_chunks r)") auto
  have s: "tbl s = t" "chunks (g_r s) = chunks r" "inv_part (g_r s) = inv_part r" "async_handler (g_r s) = async_handler r"
      "policy_of (g_r s) = policy_declare_sequence p (g_declared_seq t)" "model_file_size (g_r s) = model_file_size r"
    using M unfolding p by (auto simp: rbind_Inr_iff inv_part_def)
  let ?cfg = "shim_cfg c t"
  have cfg: "cfg_explicit_chunks ?cfg = g_specs t" "cfg_region_len ?cfg = g_region_len t" by (simp_all add: shim_cfg_def)
  have "cfg_region_len ?cfg \<noteq> 0" using r by (auto simp: region_startup_def rbind_Inr_iff)
  moreover have "g_region_len t = page_up ?fs" using t by (cases rule: build_table) simp
  ultimately have up: "?fs \<le> page_up ?fs" using page_up_wraps[of ?fs] cfg(2) by simp
  have len: "length (gguf_tensors g) < UINT32_MAX" using assms(8) by (simp add: UINT32_MAX_def)
  from t assms(5) up len show ?thesis
  proof (cases rule: table_built)
    case (built ts bs)
    have sum: "(\<Sum>x\<leftarrow>cfg_explicit_chunks ?cfg. unat (spec_len x)) < 2 ^ 64"
      using built(9) u64_bound[of "g_region_len t"] cfg(1) by simp
    have "cfg_prefetch_depth ?cfg \<le> 2147483648" using assms(7) by (simp add: shim_cfg_def)
    from startup_inv[OF r assms(6) this sum]
    have inv: "budget_inv r {} {} (\<lambda>_. 0)" "\<forall>i<n_chunks r. state (chunk_at r i) = CHUNK_ABSENT" by simp_all
    from startup_shape[OF r] obtain cs where cs: "chunks r = cs"
      "(if cfg_explicit_chunks ?cfg \<noteq> [] then build_chunk_table_explicit (cfg_region_len ?cfg) (cfg_explicit_chunks ?cfg)
        else build_chunk_table (cfg_region_len ?cfg) (cfg_chunk_size ?cfg)) = Inr cs" by metis
    have ne: "bs \<noteq> []" using built(3) by (simp add: bounds_ok_def)
    then have ch: "chunks r = map chunk_of_spec (g_specs t)" using cs built(7,8) cfg by simp
    have n: "n_chunks r = length bs" using ch built(7) by simp
    have "starts_in_file (g_r s) i" if "i < n_chunks r" for i
    proof -
      have "fst (bs ! i) < ?fs" using built(3) that n nth_mem unfolding bounds_ok_def by auto
      moreover have "file_off (chunk_at (g_r s) i) = fst (bs ! i)"
        using that n s(2) ch built(7) by (simp add: chunk_of_spec_def table_spec_def Let_def)
      ultimately show ?thesis
        using startup_config(3)[OF r assms(4)] s(6) by (simp add: starts_in_file_def word_less_nat_alt)
    qed
    moreover have "async_handler (g_r s)" using startup_config(1)[OF r] s(4) by (simp add: shim_cfg_def)
    moreover have "budget_inv (g_r s) {} {} (\<lambda>_. 0)" using inv(1) budget_inv_cong[OF s(3)] by simp
    moreover have "n_chunks r < 2147483648" using n built(6) assms(8) by simp
    moreover have "seq (lo_declared_declare_sequence st ids) = ids \<and> dn_chunks (lo_declared_declare_sequence st ids) = dn_chunks st" for st ids
      by (simp add: lo_declared_declare_sequence_def Let_def)
    ultimately show ?thesis using inv(2) s(1,2,5) p n built(4)
      by (auto simp: ready_to_run_def shim_policy_def policy_layer_order_declared_create_def lo_declared_init_def)
  qed
qed

section \<open>Concrete model files\<close>

text \<open>Embedding, two layers out of order, norm and output, each on pages of its own.\<close>

definition demo_gguf :: gguf where
  "demo_gguf = \<lparr>gguf_data_offset = 8192, gguf_tensors =
     [(''token_embd.weight'', 0, 5000), (''blk.1.attn_q.weight'', 8192, 100), (''blk.0.ffn_up.weight'', 16384, 8192),
      (''blk.0.attn_q.weight'', 12288, 100), (''output_norm.weight'', 24576, 4096), (''output.weight'', 28672, 5000)]\<rparr>"

definition demo_shim_config :: shim_config where
  "demo_shim_config = shim_config_default\<lparr>g_model_path := ''m.gguf'', g_cgroup := ''cg'', g_budget_bytes := 65536\<rparr>"

definition demo_shim :: "shim_failure + shim" where
  "demo_shim = residctl_llama_mmap (demo_host\<lparr>h_file_size := Some 50000\<rparr>) (Some (print_config (options_of demo_shim_config)))
     (\<lambda>_. Some demo_gguf) (\<lambda>_. 50000) []"

lemma demo_table: "map_sum id (\<lambda>t. (g_chunk_group t, g_declared_seq t, g_region_len t))
    (build_inventory_and_table (Some demo_gguf) 50000)
  = Inr ([GRP_HEADER, GRP_EMBD, 1, 0, GRP_OUTNORM, GRP_OUTPUT], [1, 3, 2, 4, 5], 53248)"
  by code_simp

lemma demo_in_file: "in_file demo_gguf 50000"
  by code_simp

text \<open>
  A run that starts in the page in which the run before it started loses its label with all its pages: here the
  256 bytes of \<^verbatim>\<open>rope_freqs\<close> make the embedding table an unclassified chunk, which the declared
  sequence does not name, although it is read for every token.
\<close>

lemma shared_page_swallows_run:
  "map_sum id (\<lambda>t. (g_chunk_group t, g_chunk_embd t, g_declared_seq t))
     (build_inventory_and_table (Some \<lparr>gguf_data_offset = 8192, gguf_tensors =
        [(''blk.0.ffn_up.weight'', 0, 8192), (''rope_freqs.weight'', 8192, 256), (''token_embd.weight'', 8448, 50000)]\<rparr>) 66640)
   = Inr ([GRP_HEADER, 0, GRP_OTHER], None, [1])"
  by code_simp

text \<open>The seventh run of a layer is not in the declared sequence.\<close>

lemma seventh_run_dropped:
  "map_sum id (\<lambda>t. (g_chunk_group t, g_declared_seq t))
     (build_inventory_and_table (Some \<lparr>gguf_data_offset = 0, gguf_tensors =
        map (\<lambda>i. (if even i then ''blk.0.a'' else ''blk.1.a'', 4096 * word_of_nat i, 4096)) [0..<14]\<rparr>) 57344)
   = Inr ([0, 1, 0, 1, 0, 1, 0, 1, 0, 1, 0, 1, 0, 1], [0, 2, 4, 6, 8, 10, 1, 3, 5, 7, 9, 11])"
  by code_simp

theorem load_config_roundtrip_witness:
  "load_config (Some (print_config (options_of demo_shim_config))) = Inr demo_shim_config"
  by (rule load_config_roundtrip) (simp add: config_ok_def path_ok_def demo_shim_config_def shim_config_default_def)

theorem llama_table_tiles_witness:
  "\<exists>t cs. build_inventory_and_table (Some demo_gguf) 50000 = Inr t
     \<and> build_chunk_table_explicit (g_region_len t) (g_specs t) = Inr cs \<and> tiles 0 cs 53248 \<and> length cs = 6"
proof -
  obtain t where t: "build_inventory_and_table (Some demo_gguf) 50000 = Inr t" "length (g_chunk_group t) = 6" "g_region_len t = 53248"
    using demo_table by (cases "build_inventory_and_table (Some demo_gguf) 50000") auto
  have "length (gguf_tensors demo_gguf) < UINT32_MAX" by (simp add: demo_gguf_def UINT32_MAX_def)
  from llama_table_tiles[OF t(1) demo_in_file _ this] t show ?thesis by auto
qed

theorem llama_chunk_of_tensor_witness:
  "\<exists>t c. build_inventory_and_table (Some demo_gguf) 50000 = Inr t
     \<and> pager_lookup (map chunk_of_spec (g_specs t)) 30000 = Some c \<and> g_chunk_group t ! c = 0"
proof -
  obtain t where t: "build_inventory_and_table (Some demo_gguf) 50000 = Inr t" "g_region_len t = 53248"
    using demo_table by (cases "build_inventory_and_table (Some demo_gguf) 50000") auto
  have n: "length (gguf_tensors demo_gguf) < UINT32_MAX" by (simp add: demo_gguf_def UINT32_MAX_def)
  have ts: "map_sum id g_tensors (build_inventory_and_table (Some demo_gguf) 50000) = Inr
      [\<lparr>t_name = ''token_embd.weight'', t_file_off = 8192, t_size = 5000, t_group = - 1\<rparr>,
       \<lparr>t_name = ''blk.1.attn_q.weight'', t_file_off = 16384, t_size = 100, t_group = 1\<rparr>,
       \<lparr>t_name = ''blk.0.ffn_up.weight'', t_file_off = 24576, t_size = 8192, t_group = 0\<rparr>,
       \<lparr>t_name = ''blk.0.attn_q.weight'', t_file_off = 20480, t_size = 100, t_group = 0\<rparr>,
       \<lparr>t_name = ''output_norm.weight'', t_file_off = 32768, t_size = 4096, t_group = - 3\<rparr>,
       \<lparr>t_name = ''output.weight'', t_file_off = 36864, t_size = 5000, t_group = - 2\<rparr>]" by code_simp
  let ?e = "\<lparr>t_name = ''blk.0.ffn_up.weight'', t_file_off = 24576, t_size = 8192, t_group = 0\<rparr> :: tensor_ent"
  have e: "?e \<in> set (g_tensors t)" using ts t(1) by simp
  have ap: "apart (sort_key t_file_off (g_tensors t))" using ts t(1) by (simp add: apart_def page_down_mod)
  have run: "in_run (g_tensors t) ?e 30000" using ts t(1) by (simp add: in_run_def page_down_mod)
  from llama_chunk_of_tensor[OF t(1) demo_in_file _ n ap e run] t show ?thesis by auto
qed

theorem declared_sequence_sound_witness:
  "\<exists>t. build_inventory_and_table (Some demo_gguf) 50000 = Inr t \<and> distinct (g_declared_seq t) \<and> 2 \<in> set (g_declared_seq t)"
proof -
  obtain t where t: "build_inventory_and_table (Some demo_gguf) 50000 = Inr t" "g_declared_seq t = [1, 3, 2, 4, 5]"
    using demo_table by (cases "build_inventory_and_table (Some demo_gguf) 50000") auto
  from declared_sequence_sound[OF t(1)] t show ?thesis by auto
qed

lemma demo_shim_up: "\<not> isl demo_shim"
  by code_simp

theorem llama_region_ready_witness:
  "\<exists>s. demo_shim = Inr s \<and> ready_to_run (g_r s)"
proof -
  from demo_shim_up obtain s where s: "demo_shim = Inr s" by (rule not_islE)
  have c: "load_config (Some (print_config (options_of demo_shim_config))) = Inr demo_shim_config" by code_simp
  have "\<forall>n. h_ftruncate (demo_host\<lparr>h_file_size := Some 50000\<rparr>) n \<longrightarrow> unat n < 2 ^ 63" using demo_host_sizes by simp
  from llama_region_ready[OF s[unfolded demo_shim_def] c _ _ _ this]
  have "ready_to_run (g_r s)" using demo_in_file
    by (simp add: demo_gguf_def demo_shim_config_def shim_config_default_def)
  with s show ?thesis by blast
qed

end
