(* ===== verification/Signals.thy ===== *)
theory Signals
  imports Llama_Startup
begin

text \<open>
  The consumption signals of the llama.cpp integration: the evaluation callback of
  \<^verbatim>\<open>wp2_gen.cpp\<close>, which finds layers and roles in the names of the compute nodes, the
  notifications of \<^verbatim>\<open>residctl_llama.c\<close> and their one-shot audit.
\<close>

section \<open>Notifications\<close>

definition notify_audit_maybe :: "shim \<Rightarrow> shim_failure + shim" where
  "notify_audit_maybe s =
     (let ds = g_declared_seq (tbl s)
      in if g_notify_audit_done s \<or> ds = [] then Inr s
         else if g_notify_seq s < word_of_nat (length ds) * 2 then Inr s
         else if list_ex (\<lambda>c. c < n_chunks (g_r s) \<and> g_chunk_notify_count s ! c = 0) ds then Inl Audit_failed
         else Inr (s\<lparr>g_notify_audit_done := True\<rparr>))"

text \<open>\<open>None\<close> is the sentinel \<^verbatim>\<open>0xFFFFFFFF\<close>.\<close>

definition notify_chunk :: "kernel \<Rightarrow> nat option \<Rightarrow> shim \<Rightarrow> shim_failure + shim" where
  "notify_chunk K c s =
     (case c of
        None \<Rightarrow> Inr s
      | Some c \<Rightarrow>
          if c \<ge> n_chunks (g_r s) then Inr s
          else let s1 = s\<lparr>g_r := pager_notify_access (g_r s) c, g_notify_seq := g_notify_seq s + 1,
                          g_chunk_notify_count := (g_chunk_notify_count s)[c := g_chunk_notify_count s ! c + 1]\<rparr>
               in case g_reftrace s1 of
                    None \<Rightarrow> notify_audit_maybe s1
                  | Some t \<Rightarrow>
                      let (now, r1) = now_ns K (g_r s1)
                      in (case trace_record_call (k_writes K r1) now t (g_notify_seq s1) (word_of_nat c) TRACE_NA TRACE_NA of
                            Inl _ \<Rightarrow> Inl Reftrace_failed
                          | Inr t' \<Rightarrow> notify_audit_maybe (s1\<lparr>g_r := r1, g_reftrace := Some t'\<rparr>)))"

fun notify_chunks :: "kernel \<Rightarrow> nat list \<Rightarrow> shim \<Rightarrow> shim_failure + shim" where
  "notify_chunks K [] s = Inr s"
| "notify_chunks K (c # cs) s = rbind (notify_chunk K (Some c) s) (notify_chunks K cs)"

definition residctl_llama_notify_layer :: "kernel \<Rightarrow> int \<Rightarrow> shim \<Rightarrow> shim_failure + shim" where
  "residctl_llama_notify_layer K l s =
     (if \<not> g_started s \<or> l < 0 \<or> l \<ge> int (length (g_layer_chunks (tbl s))) then Inr s
      else notify_chunks K (g_layer_chunks (tbl s) ! nat l) s)"

definition residctl_llama_notify_role :: "kernel \<Rightarrow> nat \<Rightarrow> shim \<Rightarrow> shim_failure + shim" where
  "residctl_llama_notify_role K role s =
     (if \<not> g_started s then Inr s
      else if role = 0 then notify_chunk K (g_chunk_embd (tbl s)) s
      else if role = 1 then notify_chunk K (g_chunk_outnorm (tbl s)) s
      else if role = 2 then notify_chunk K (g_chunk_output (tbl s)) s
      else Inr s)"

section \<open>The evaluation callback\<close>

text \<open>\<^verbatim>\<open>atoi\<close> of glibc on digits: \<^verbatim>\<open>strtol\<close>, which saturates, cut to 32 bits.\<close>

definition atoi :: "string \<Rightarrow> int" where
  "atoi ds = sint (word_of_nat (min (dec_val 0 ds) 9223372036854775807) :: u32)"

definition node_layer :: "string \<Rightarrow> int" where
  "node_layer nm =
     (let ds = rev (takeWhile isdigit (rev nm)); i = length nm - length ds
      in if length nm < 2 \<or> ds = [] \<or> i = 0 \<or> nm ! (i - 1) \<noteq> CHR ''-'' then - 1 else atoi ds)"

record cb_state =
  last_layer :: int
  transitions :: int

definition eval_cb :: "kernel \<Rightarrow> string \<Rightarrow> bool \<Rightarrow> cb_state \<times> shim \<Rightarrow> shim_failure + (cb_state \<times> shim)" where
  "eval_cb K nm ask = (\<lambda>(st, s).
     if \<not> ask then Inr (st, s)
     else let layer = node_layer nm
          in if layer \<ge> 0
             then if layer \<noteq> last_layer st
                  then rbind (residctl_llama_notify_layer K layer s) (\<lambda>s'.
                         Inr (st\<lparr>last_layer := layer, transitions := transitions st + 1\<rparr>, s'))
                  else Inr (st, s)
             else if nm = ''inp_embd'' \<or> nm = ''embd''
             then rbind (residctl_llama_notify_role K 0 s) (\<lambda>s'. Inr (st\<lparr>last_layer := - 1\<rparr>, s'))
             else if nm = ''result_norm'' then rbind (residctl_llama_notify_role K 1 s) (\<lambda>s'. Inr (st, s'))
             else if nm = ''result_output'' then rbind (residctl_llama_notify_role K 2 s) (\<lambda>s'. Inr (st, s'))
             else Inr (st, s))"

text \<open>The scheduler calls it twice per node, before and after the node is computed.\<close>

fun eval_nodes :: "kernel \<Rightarrow> string list \<Rightarrow> cb_state \<times> shim \<Rightarrow> shim_failure + (cb_state \<times> shim)" where
  "eval_nodes K [] x = Inr x"
| "eval_nodes K (nm # nms) x = rbind (eval_cb K nm True x) (\<lambda>y. rbind (eval_cb K nm False y) (eval_nodes K nms))"

section \<open>What is signalled\<close>

lemma audit_cong:
  "notify_audit_maybe s = Inr s' \<Longrightarrow> tbl s' = tbl s \<and> g_started s' = g_started s"
  by (auto simp: notify_audit_maybe_def Let_def split: if_splits)

lemma notify_chunk_cong: "notify_chunk K c s = Inr s' \<Longrightarrow> tbl s' = tbl s \<and> g_started s' = g_started s"
  by (auto simp: notify_chunk_def now_ns_def Let_def dest!: audit_cong split: option.splits sum.splits if_splits)

lemma notify_chunks_cong: "notify_chunks K cs s = Inr s' \<Longrightarrow> tbl s' = tbl s \<and> g_started s' = g_started s"
proof (induction cs arbitrary: s)
  case (Cons c cs)
  then obtain s1 where "notify_chunk K (Some c) s = Inr s1" "notify_chunks K cs s1 = Inr s'" by (auto simp: rbind_Inr_iff)
  with Cons.IH notify_chunk_cong show ?case by metis
qed simp

lemma notify_chunks_append: "notify_chunks K (cs @ ds) s = rbind (notify_chunks K cs s) (notify_chunks K ds)"
proof (induction cs arbitrary: s)
  case (Cons c cs)
  then show ?case by (cases "notify_chunk K (Some c) s") simp_all
qed simp

lemma notify_option: "notify_chunk K c s = notify_chunks K (case c of None \<Rightarrow> [] | Some c \<Rightarrow> [c]) s"
proof (cases c)
  case (Some d)
  then show ?thesis by (cases "notify_chunk K (Some d) s") simp_all
qed (simp add: notify_chunk_def)

text \<open>The chunks that a node makes the callback notify, and the last layer after it.\<close>

definition fired :: "inventory_table \<Rightarrow> int \<Rightarrow> string \<Rightarrow> int \<times> nat list" where
  "fired t l nm =
     (let layer = node_layer nm; role = (\<lambda>c. case c of None \<Rightarrow> [] | Some c \<Rightarrow> [c])
      in if layer \<ge> 0
         then (layer, if layer \<noteq> l \<and> layer < int (length (g_layer_chunks t)) then g_layer_chunks t ! nat layer else [])
         else if nm = ''inp_embd'' \<or> nm = ''embd'' then (- 1, role (g_chunk_embd t))
         else if nm = ''result_norm'' then (l, role (g_chunk_outnorm t))
         else if nm = ''result_output'' then (l, role (g_chunk_output t))
         else (l, []))"

fun fired_by :: "inventory_table \<Rightarrow> int \<Rightarrow> string list \<Rightarrow> int \<times> nat list" where
  "fired_by t l [] = (l, [])"
| "fired_by t l (nm # nms) =
     (let (l1, cs) = fired t l nm; (l2, ds) = fired_by t l1 nms in (l2, cs @ ds))"

lemma eval_cb_fires:
  assumes "g_started s"
  shows "map_sum id (\<lambda>(st', s'). (last_layer st', s')) (eval_cb K nm True (st, s))
    = map_sum id (Pair (fst (fired (tbl s) (last_layer st) nm))) (notify_chunks K (snd (fired (tbl s) (last_layer st) nm)) s)"
proof -
  have b: "map_sum id f (rbind x (\<lambda>y. Inr (g y))) = map_sum id (f \<circ> g) x" for f :: "'c \<Rightarrow> 'd" and g and x :: "'a + 'b"
    by (cases x) simp_all
  have l: "residctl_llama_notify_layer K l s = notify_chunks K (if l < int (length (g_layer_chunks (tbl s))) then g_layer_chunks (tbl s) ! nat l else []) s"
    if "0 \<le> l" for l using assms that by (simp add: residctl_llama_notify_layer_def)
  have r: "residctl_llama_notify_role K 0 s = notify_chunks K (case g_chunk_embd (tbl s) of None \<Rightarrow> [] | Some c \<Rightarrow> [c]) s"
      "residctl_llama_notify_role K 1 s = notify_chunks K (case g_chunk_outnorm (tbl s) of None \<Rightarrow> [] | Some c \<Rightarrow> [c]) s"
      "residctl_llama_notify_role K 2 s = notify_chunks K (case g_chunk_output (tbl s) of None \<Rightarrow> [] | Some c \<Rightarrow> [c]) s"
    using assms by (simp_all add: residctl_llama_notify_role_def notify_option del: notify_chunks.simps)
  note r = r(1) r(2)[unfolded One_nat_def] r(3)
  consider (layer) "0 \<le> node_layer nm" | (embd) "\<not> 0 \<le> node_layer nm" "nm = ''inp_embd'' \<or> nm = ''embd''"
    | (norm) "\<not> 0 \<le> node_layer nm" "nm = ''result_norm''" | (out) "\<not> 0 \<le> node_layer nm" "nm = ''result_output''"
    | (other) "\<not> 0 \<le> node_layer nm" "nm \<notin> {''inp_embd'', ''embd'', ''result_norm'', ''result_output''}" by blast
  then show ?thesis
  proof cases
    case layer
    then show ?thesis by (cases "node_layer nm = last_layer st") (simp_all add: eval_cb_def fired_def Let_def b l comp_def)
  next
    case embd
    then show ?thesis by (simp add: eval_cb_def fired_def Let_def b r comp_def del: notify_chunks.simps)
  next
    case norm
    then show ?thesis by (simp add: eval_cb_def fired_def Let_def b r comp_def del: notify_chunks.simps)
  next
    case out
    then show ?thesis by (simp add: eval_cb_def fired_def Let_def b r comp_def del: notify_chunks.simps)
  next
    case other
    then show ?thesis by (simp add: eval_cb_def fired_def Let_def)
  qed
qed


lemma eval_nodes_fires:
  assumes "g_started s"
  shows "map_sum id (\<lambda>(st', s'). (last_layer st', s')) (eval_nodes K nms (st, s))
    = map_sum id (Pair (fst (fired_by (tbl s) (last_layer st) nms))) (notify_chunks K (snd (fired_by (tbl s) (last_layer st) nms)) s)"
  using assms
proof (induction nms arbitrary: st s)
  case (Cons nm nms)
  obtain l1 cs where f: "fired (tbl s) (last_layer st) nm = (l1, cs)" by fastforce
  obtain l2 ds where fb: "fired_by (tbl s) l1 nms = (l2, ds)" by fastforce
  note C = eval_cb_fires[OF Cons.prems, of K nm st, unfolded f fst_conv snd_conv]
  have post: "eval_cb K nm False y = Inr y" for y by (simp add: eval_cb_def split_beta)
  show ?case
  proof (cases "notify_chunks K cs s")
    case (Inl e)
    then have "eval_cb K nm True (st, s) = Inl e" using C by (cases "eval_cb K nm True (st, s)") simp_all
    then show ?thesis using Inl by (simp add: f fb notify_chunks_append)
  next
    case (Inr s1)
    then obtain st1 where e: "eval_cb K nm True (st, s) = Inr (st1, s1)" "last_layer st1 = l1"
      using C by (cases "eval_cb K nm True (st, s)") auto
    have t: "tbl s1 = tbl s" "g_started s1" using notify_chunks_cong[OF Inr] Cons.prems by simp_all
    from Cons.IH[OF t(2), of st1] show ?thesis
      by (simp add: e t(1) f fb notify_chunks_append Inr post)
  qed
qed simp

lemma fired_by_append:
  "fired_by t l (xs @ ys) = (let (l1, cs) = fired_by t l xs; (l2, ds) = fired_by t l1 ys in (l2, cs @ ds))"
  by (induction xs arbitrary: l) (simp_all add: Let_def split_beta)

text \<open>The nodes of a graph that are neither of a layer nor one of the four names.\<close>

definition unnamed_node :: "string \<Rightarrow> bool" where
  "unnamed_node nm = (node_layer nm < 0 \<and> nm \<notin> {''inp_embd'', ''embd'', ''result_norm'', ''result_output''})"

lemma fired_unnamed: "unnamed_node nm \<Longrightarrow> fired t l nm = (l, [])"
  by (simp add: unnamed_node_def fired_def Let_def)

lemma fired_again: "node_layer nm = l \<Longrightarrow> fired t l nm = (l, [])" if "0 \<le> l" for l
  using that by (simp add: fired_def Let_def)

lemma fired_rest:
  "0 \<le> l \<Longrightarrow> \<forall>nm\<in>set nms. node_layer nm = l \<or> unnamed_node nm \<Longrightarrow> fired_by t l nms = (l, [])"
  by (induction nms) (auto simp: fired_unnamed fired_again)

lemma fired_block:
  assumes "j < length (g_layer_chunks t)" "l \<noteq> int j"
    "\<exists>nm\<in>set nms. node_layer nm = int j" "\<forall>nm\<in>set nms. node_layer nm = int j \<or> unnamed_node nm"
  shows "fired_by t l nms = (int j, g_layer_chunks t ! j)"
  using assms(3,4)
proof (induction nms)
  case (Cons nm nms)
  show ?case
  proof (cases "node_layer nm = int j")
    case True
    then have "fired t l nm = (int j, g_layer_chunks t ! j)" using assms(1,2) by (simp add: fired_def Let_def)
    moreover have "fired_by t (int j) nms = (int j, [])" using Cons.prems(2) by (intro fired_rest) simp_all
    ultimately show ?thesis by simp
  next
    case False
    then have "unnamed_node nm" using Cons.prems(2) by simp
    then show ?thesis using Cons False by (simp add: fired_unnamed)
  qed
qed simp

lemma fired_layers:
  assumes "length blocks \<le> length (g_layer_chunks t)"
    "\<forall>j<length blocks. (\<exists>nm\<in>set (blocks ! j). node_layer nm = int j) \<and> (\<forall>nm\<in>set (blocks ! j). node_layer nm = int j \<or> unnamed_node nm)"
  shows "fired_by t (- 1) (concat blocks) = (int (length blocks) - 1, concat (take (length blocks) (g_layer_chunks t)))"
  using assms
proof (induction blocks rule: rev_induct)
  case (snoc b bs)
  let ?n = "length bs"
  have IH: "fired_by t (- 1) (concat bs) = (int ?n - 1, concat (take ?n (g_layer_chunks t)))"
  proof (rule snoc.IH)
    show "?n \<le> length (g_layer_chunks t)" using snoc.prems(1) by simp
    show "\<forall>j<?n. (\<exists>nm\<in>set (bs ! j). node_layer nm = int j) \<and> (\<forall>nm\<in>set (bs ! j). node_layer nm = int j \<or> unnamed_node nm)"
    proof (intro allI impI)
      fix j assume "j < ?n"
      then show "(\<exists>nm\<in>set (bs ! j). node_layer nm = int j) \<and> (\<forall>nm\<in>set (bs ! j). node_layer nm = int j \<or> unnamed_node nm)"
        using snoc.prems(2)[rule_format, of j] by (simp add: nth_append)
    qed
  qed
  have "fired_by t (int ?n - 1) b = (int ?n, g_layer_chunks t ! ?n)"
    using snoc.prems(1) snoc.prems(2)[rule_format, of ?n] by (intro fired_block) simp_all
  then show ?case using IH snoc.prems(1) by (simp add: fired_by_append take_Suc_conv_app_nth)
qed simp

lemma fired_token:
  assumes "e = ''inp_embd'' \<or> e = ''embd''" "length blocks = length (g_layer_chunks t)"
    "\<forall>j<length blocks. (\<exists>nm\<in>set (blocks ! j). node_layer nm = int j) \<and> (\<forall>nm\<in>set (blocks ! j). node_layer nm = int j \<or> unnamed_node nm)"
    "distinct [g_chunk_embd t, g_chunk_outnorm t, g_chunk_output t]"
  shows "fired_by t l (e # concat blocks @ [''result_norm'', ''result_output''])
    = (int (length blocks) - 1, declared_order (g_chunk_embd t) (g_layer_chunks t) (g_chunk_outnorm t) (g_chunk_output t))"
proof -
  have "node_layer ''inp_embd'' = - 1" "node_layer ''embd'' = - 1" "node_layer ''result_norm'' = - 1" "node_layer ''result_output'' = - 1"
    by code_simp+
  then show ?thesis
    using assms(1,4) fired_layers[OF eq_refl[OF assms(2)] assms(3)] assms(2)
    by (auto simp: fired_by_append fired_def declared_order_def split: option.splits)
qed


section \<open>The audit\<close>

lemma notify_n [simp]: "n_chunks (pager_notify_access r c) = n_chunks r"
  by (simp add: pager_notify_access_def prefetch_retain_release_def Let_def split: option.split)

lemma notify_policy:
  "policy_of (pager_notify_access r c) = map_option (\<lambda>p. policy_on_access p c) (policy_of r)"
  by (simp add: pager_notify_access_def prefetch_retain_release_def unpin_chunk_def upd_chunk_def Let_def split: option.split)

definition bumped :: "nat \<Rightarrow> shim \<Rightarrow> shim" where
  "bumped c s = s\<lparr>g_r := pager_notify_access (g_r s) c, g_notify_seq := g_notify_seq s + 1,
     g_chunk_notify_count := (g_chunk_notify_count s)[c := g_chunk_notify_count s ! c + 1]\<rparr>"

lemma bumped_simps [simp]:
  "tbl (bumped c s) = tbl s" "g_reftrace (bumped c s) = g_reftrace s"
  "g_notify_audit_done (bumped c s) = g_notify_audit_done s" "n_chunks (g_r (bumped c s)) = n_chunks (g_r s)"
  "g_notify_seq (bumped c s) = g_notify_seq s + 1" "length (g_chunk_notify_count (bumped c s)) = length (g_chunk_notify_count s)"
  "policy_of (g_r (bumped c s)) = map_option (\<lambda>p. policy_on_access p c) (policy_of (g_r s))"
  by (simp_all add: bumped_def notify_policy)

lemma bumps_simps [simp]:
  "tbl (fold bumped cs s) = tbl s" "g_reftrace (fold bumped cs s) = g_reftrace s"
  "g_notify_audit_done (fold bumped cs s) = g_notify_audit_done s" "n_chunks (g_r (fold bumped cs s)) = n_chunks (g_r s)"
  "g_notify_seq (fold bumped cs s) = g_notify_seq s + word_of_nat (length cs)"
  "length (g_chunk_notify_count (fold bumped cs s)) = length (g_chunk_notify_count s)"
  by (induction cs arbitrary: s) simp_all

lemma bumps_policy:
  "policy_of (g_r (fold bumped cs s)) = map_option (\<lambda>p. foldl policy_on_access p cs) (policy_of (g_r s))"
proof (induction cs arbitrary: s)
  case Nil
  then show ?case by (cases "policy_of (g_r s)") simp_all
next
  case (Cons c cs)
  then show ?case by (cases "policy_of (g_r s)") simp_all
qed

lemma bumps_count:
  "d < length (g_chunk_notify_count s) \<Longrightarrow>
   g_chunk_notify_count (fold bumped cs s) ! d = g_chunk_notify_count s ! d + word_of_nat (count_list cs d)"
proof (induction cs arbitrary: s)
  case (Cons c cs)
  have "g_chunk_notify_count (bumped c s) ! d = g_chunk_notify_count s ! d + (if c = d then 1 else 0)"
    using Cons.prems by (simp add: bumped_def nth_list_update)
  then show ?case using Cons.IH[of "bumped c s"] Cons.prems by simp
qed simp

lemma notify_chunk_quiet:
  "g_reftrace s = None \<Longrightarrow> c < n_chunks (g_r s) \<Longrightarrow> notify_chunk K (Some c) s = notify_audit_maybe (bumped c s)"
  by (simp add: notify_chunk_def bumped_def Let_def)

lemma notify_after_audit:
  "g_reftrace s = None \<Longrightarrow> g_notify_audit_done s \<or> g_declared_seq (tbl s) = [] \<Longrightarrow> list_all (\<lambda>c. c < n_chunks (g_r s)) cs \<Longrightarrow>
   notify_chunks K cs s = Inr (fold bumped cs s)"
proof (induction cs arbitrary: s)
  case (Cons c cs)
  have "notify_chunk K (Some c) s = Inr (bumped c s)"
    using Cons.prems by (auto simp: notify_chunk_quiet notify_audit_maybe_def)
  with Cons.IH[of "bumped c s"] Cons.prems show ?case by simp
qed simp

lemma notify_before_audit:
  "g_reftrace s = None \<Longrightarrow> list_all (\<lambda>c. c < n_chunks (g_r s)) cs \<Longrightarrow> g_notify_seq s = word_of_nat j \<Longrightarrow>
   j + length cs < 2 * length (g_declared_seq (tbl s)) \<Longrightarrow> 2 * length (g_declared_seq (tbl s)) < 2 ^ 32 \<Longrightarrow>
   notify_chunks K cs s = Inr (fold bumped cs s)"
proof (induction cs arbitrary: s j)
  case (Cons c cs)
  let ?L = "length (g_declared_seq (tbl s))"
  have "word_of_nat (Suc j) < (word_of_nat (2 * ?L) :: u64)"
    using Cons.prems(4,5) by (simp add: word_less_nat_alt take_bit_nat_eq_self unat_of_nat del: of_nat_Suc of_nat_mult)
  then have "g_notify_seq (bumped c s) < word_of_nat ?L * 2" using Cons.prems(3) by (simp add: mult.commute add.commute)
  then have "notify_chunk K (Some c) s = Inr (bumped c s)"
    using Cons.prems(1,2) by (simp add: notify_chunk_quiet notify_audit_maybe_def Let_def)
  with Cons.IH[of "bumped c s" "Suc j"] Cons.prems show ?case by (simp add: add.commute)
qed simp

lemma bumped_done: "bumped c (s\<lparr>g_notify_audit_done := b\<rparr>) = (bumped c s)\<lparr>g_notify_audit_done := b\<rparr>"
  by (simp add: bumped_def)

lemma bumps_done: "fold bumped cs (s\<lparr>g_notify_audit_done := b\<rparr>) = (fold bumped cs s)\<lparr>g_notify_audit_done := b\<rparr>"
  by (induction cs arbitrary: s) (simp_all add: bumped_done)

lemma audit_at:
  assumes s: "g_reftrace s = None" "g_notify_seq s = 0" "g_chunk_notify_count s = replicate (n_chunks (g_r s)) 0" "\<not> g_notify_audit_done s"
    and cs: "list_all (\<lambda>c. c < n_chunks (g_r s)) cs" "length cs = 2 * length (g_declared_seq (tbl s))"
    and D: "list_all (\<lambda>c. c < n_chunks (g_r s)) (g_declared_seq (tbl s))" "2 * length (g_declared_seq (tbl s)) < 2 ^ 32"
      "g_declared_seq (tbl s) \<noteq> []"
  shows "notify_chunks K cs s = (if set (g_declared_seq (tbl s)) \<subseteq> set cs
    then Inr ((fold bumped cs s)\<lparr>g_notify_audit_done := True\<rparr>) else Inl Audit_failed)"
proof -
  let ?D = "g_declared_seq (tbl s)"
  have "cs \<noteq> []" using cs(2) D(3) by auto
  then obtain xs c where xc: "cs = xs @ [c]" by (metis rev_exhaust)
  have "notify_chunks K xs s = Inr (fold bumped xs s)"
    using s cs D(2) xc by (intro notify_before_audit[where j = 0]) simp_all
  moreover have "notify_chunks K [c] s' = notify_chunk K (Some c) s'" for s'
    by (cases "notify_chunk K (Some c) s'") simp_all
  ultimately have "notify_chunks K cs s = notify_audit_maybe (fold bumped cs s)"
    using s cs(1) by (simp add: xc notify_chunks_append notify_chunk_quiet del: notify_chunks.simps)
  moreover have "g_notify_seq (fold bumped cs s) = word_of_nat (length ?D) * 2"
    using s(2) cs(2) by (simp add: mult.commute)
  moreover have "(g_chunk_notify_count (fold bumped cs s) ! d = 0) = (d \<notin> set cs)" if "d \<in> set ?D" for d
  proof -
    have "d < n_chunks (g_r s)" using D(1) that by (simp add: list_all_iff)
    then have "g_chunk_notify_count (fold bumped cs s) ! d = word_of_nat (count_list cs d)" using bumps_count[of d s cs] s(3) by simp
    moreover have "count_list cs d < 2 ^ 32" using count_le_length[of cs d] cs(2) D(2) by simp
    then have "(word_of_nat (count_list cs d) = (0 :: u32)) = (count_list cs d = 0)"
      by (simp add: word_unat_eq_iff unat_of_nat take_bit_nat_eq_self)
    ultimately show ?thesis by (simp add: count_list_0_iff)
  qed
  then have "list_ex (\<lambda>c. c < n_chunks (g_r s) \<and> g_chunk_notify_count (fold bumped cs s) ! c = 0) ?D = (\<not> set ?D \<subseteq> set cs)"
    using D(1) unfolding list_ex_iff list_all_iff by blast
  ultimately show ?thesis using s(4) D(3) by (simp add: notify_audit_maybe_def Let_def)
qed

lemma audit_outcome:
  assumes s: "g_reftrace s = None" "g_notify_seq s = 0" "g_chunk_notify_count s = replicate (n_chunks (g_r s)) 0" "\<not> g_notify_audit_done s"
    and cs: "list_all (\<lambda>c. c < n_chunks (g_r s)) cs"
    and D: "list_all (\<lambda>c. c < n_chunks (g_r s)) (g_declared_seq (tbl s))" "2 * length (g_declared_seq (tbl s)) < 2 ^ 32"
      "g_declared_seq (tbl s) \<noteq> []" "L = 2 * length (g_declared_seq (tbl s))"
  shows "notify_chunks K cs s = (if L \<le> length cs \<and> \<not> set (g_declared_seq (tbl s)) \<subseteq> set (take L cs) then Inl Audit_failed
    else Inr ((fold bumped cs s)\<lparr>g_notify_audit_done := (L \<le> length cs)\<rparr>))"
proof (cases "L \<le> length cs")
  case False
  have "(fold bumped cs s)\<lparr>g_notify_audit_done := False\<rparr> = fold bumped cs (s\<lparr>g_notify_audit_done := False\<rparr>)" by (simp only: bumps_done)
  also have "s\<lparr>g_notify_audit_done := False\<rparr> = s" using s(4) by simp
  finally show ?thesis
    using notify_before_audit[OF s(1) cs, of 0 K] s(2) D False by simp
next
  case True
  have split: "notify_chunks K cs s = rbind (notify_chunks K (take L cs) s) (notify_chunks K (drop L cs))"
    by (metis append_take_drop_id notify_chunks_append)
  have t: "list_all (\<lambda>c. c < n_chunks (g_r s)) (take L cs)" "list_all (\<lambda>c. c < n_chunks (g_r s)) (drop L cs)"
    using cs by (metis append_take_drop_id list_all_append)+
  have "length (take L cs) = 2 * length (g_declared_seq (tbl s))" using True D(4) by simp
  note A = audit_at[OF s t(1) this D(1,2,3), of K]
  let ?s = "(fold bumped (take L cs) s)\<lparr>g_notify_audit_done := True\<rparr>"
  have "notify_chunks K (drop L cs) ?s = Inr (fold bumped (drop L cs) ?s)"
    using s(1) t(2) by (intro notify_after_audit) simp_all
  also have "fold bumped (drop L cs) ?s = (fold bumped cs s)\<lparr>g_notify_audit_done := True\<rparr>"
    by (simp add: bumps_done) (metis append_take_drop_id fold_append comp_apply)
  finally show ?thesis using split A True by simp
qed

section \<open>From the entry point\<close>

lemma explicit_loop_length: "explicit_loop ss off acc = Inr (cs, e) \<Longrightarrow> length cs = length acc + length ss"
  by (induction ss off acc rule: explicit_loop.induct) (auto split: if_splits)

lemma bnd_loop_nonempty: "acc \<noteq> [] \<Longrightarrow> bnd_loop acc cur ts \<noteq> []"
  by (induction acc cur ts rule: bnd_loop.induct) (simp_all add: Let_def)

lemma residctl_llama_n_chunks:
  assumes "build_inventory_and_table ctx fs = Inr t" "region_startup h (shim_cfg c t) = Inr (r, m)"
  shows "n_chunks r = length (g_chunk_group t)"
  using assms(1)
proof (cases rule: build_table)
  case (made g ts bs)
  have "bs \<noteq> []" using made(4) bnd_loop_nonempty by (auto simp: boundaries_def Let_def split: list.splits)
  then have "cfg_explicit_chunks (shim_cfg c t) \<noteq> []" using made(7) by (simp add: shim_cfg_def)
  then have "build_chunk_table_explicit (cfg_region_len (shim_cfg c t)) (g_specs t) = Inr (chunks r)"
    using startup_shape[OF assms(2)] by (auto simp: shim_cfg_def)
  then have "n_chunks r = length (g_specs t)"
    using explicit_loop_length by (fastforce simp: build_chunk_table_explicit_def rbind_Inr_iff split: if_splits)
  then show ?thesis using made(6,7) by simp
qed

text \<open>The shim as \<^verbatim>\<open>residctl_llama_mmap\<close> leaves it.\<close>

lemma mmap_fresh:
  assumes "residctl_llama_mmap h f read_gguf stat_size ws = Inr s"
  obtains (up) c ctx fs p where "load_config f = Inr c" "build_inventory_and_table ctx fs = Inr (tbl s)" "g_started s" "g_notify_seq s = 0"
    "g_chunk_notify_count s = replicate (n_chunks (g_r s)) 0" "\<not> g_notify_audit_done s"
    "n_chunks (g_r s) = length (g_chunk_group (tbl s))" "shim_policy (g_policy_name c) (n_chunks (g_r s)) = Inr p"
    "policy_of (g_r s) = policy_declare_sequence p (g_declared_seq (tbl s))"
proof -
  from assms obtain c where c: "load_config f = Inr c" by (auto simp: residctl_llama_mmap_def rbind_Inr_iff)
  note M = assms[unfolded residctl_llama_mmap_def c rbind_simps]
  from M obtain t where t: "build_inventory_and_table (read_gguf (g_model_path c)) (stat_size (g_model_path c)) = Inr t"
    by (auto simp: rbind_Inr_iff)
  note M = M[unfolded t rbind_simps]
  obtain r m where r: "region_startup h (shim_cfg c t) = Inr (r, m)" using M by (cases "region_startup h (shim_cfg c t)") auto
  note M = M[unfolded r map_sum.simps prod.case rbind_simps id_apply]
  obtain p where p: "shim_policy (g_policy_name c) (n_chunks r) = Inr p" using M by (cases "shim_policy (g_policy_name c) (n_chunks r)") auto
  note M = M[unfolded p rbind_simps]
  obtain rt where rt: "s = \<lparr>tbl = t,
          g_r = r\<lparr>policy_of := policy_declare_sequence p (g_declared_seq t), prefetch_enabled := g_prefetch_on c,
                  flags := \<lparr>g_lo_protect_current = g_protect_current c, g_lo_signal_pre = True\<rparr>,
                  metrics_of := Some metrics_init,
                  diag_fetch_trace := (if g_fetchtrace_path c = [] then diag_fetch_trace r else Some (fetch_trace_open 2000000)),
                  diag_policy_trace := (if g_policytrace_path c = [] then diag_policy_trace r else Some (policy_trace_open 2000000))\<rparr>,
          g_reftrace = rt, g_started = True, g_notify_seq = 0,
          g_chunk_notify_count = replicate (n_chunks r) 0, g_notify_audit_done = False\<rparr>"
    using M by (fastforce simp: rbind_Inr_iff)
  show thesis
    by (rule up[OF c]) (use t p residctl_llama_n_chunks[OF t r] in \<open>simp_all add: rt\<close>)
qed

lemma declared_in_range:
  assumes "build_inventory_and_table ctx fs = Inr t"
  shows "list_all (\<lambda>c. c < length (g_chunk_group t)) (g_declared_seq t)"
  using assms
proof (cases rule: build_table)
  case (made g ts bs)
  let ?gs = "g_chunk_group t"
  obtain E N Q where P: "declared_order (g_chunk_embd t) (g_layer_chunks t) (g_chunk_outnorm t) (g_chunk_output t) = E @ concat (g_layer_chunks t) @ N @ Q"
    and "\<forall>c\<in>set E. c < length ?gs \<and> ?gs ! c = GRP_EMBD" "\<forall>c\<in>set N. c < length ?gs \<and> ?gs ! c = GRP_OUTNORM"
      "\<forall>c\<in>set Q. c < length ?gs \<and> ?gs ! c = GRP_OUTPUT"
    by (rule declared_parts[OF made(10)[folded made(6)] made(12)[folded made(6)] made(11)[folded made(6)]])
  moreover have "\<forall>c\<in>set (concat (g_layer_chunks t)). c < length ?gs" unfolding made(9) made(6)[symmetric] using set_layers by blast
  ultimately show ?thesis unfolding made(13) P list_all_iff set_append by blast
qed

lemma audit_from_start:
  assumes "residctl_llama_mmap h f read_gguf stat_size ws = Inr s" and "g_reftrace s = None"
    and "list_all (\<lambda>c. c < n_chunks (g_r s)) cs" and "D = g_declared_seq (tbl s)" and "2 * length D < 2 ^ 32"
  shows "notify_chunks K cs s = (if D \<noteq> [] \<and> 2 * length D \<le> length cs \<and> \<not> set D \<subseteq> set (take (2 * length D) cs) then Inl Audit_failed
    else Inr ((fold bumped cs s)\<lparr>g_notify_audit_done := (D \<noteq> [] \<and> 2 * length D \<le> length cs)\<rparr>))"
  using assms(1)
proof (cases rule: mmap_fresh)
  case (up c ctx fs p)
  show ?thesis
  proof (cases "D = []")
    case True
    have "(fold bumped cs s)\<lparr>g_notify_audit_done := False\<rparr> = fold bumped cs (s\<lparr>g_notify_audit_done := False\<rparr>)" by (simp only: bumps_done)
    also have "s\<lparr>g_notify_audit_done := False\<rparr> = s" using up(6) by simp
    finally show ?thesis using True notify_after_audit[OF assms(2) _ assms(3)] assms(4) by simp
  next
    case False
    from audit_outcome[OF assms(2) up(4,5,6) assms(3) _ _ _ refl, of K] declared_in_range[OF up(2)] up(7) assms(4,5) False
    show ?thesis by simp
  qed
qed

text \<open>
  C33. The audit of the consumption signals decides exactly what it means to: in a shim that
  \<^verbatim>\<open>residctl_llama_mmap\<close> brought up without a reference trace, a sequence of notifications of
  chunks of the table aborts if and only if it is at least two declared passes long and its first two passes' worth leaves
  out a declared chunk; otherwise every notification is processed and reaches the policy.
\<close>

theorem audit_exact:
  assumes "residctl_llama_mmap h f read_gguf stat_size ws = Inr s" and "g_reftrace s = None"
    and "list_all (\<lambda>c. c < n_chunks (g_r s)) cs" and "D = g_declared_seq (tbl s)" and "2 * length D < 2 ^ 32"
  shows "if D \<noteq> [] \<and> 2 * length D \<le> length cs \<and> \<not> set D \<subseteq> set (take (2 * length D) cs)
    then notify_chunks K cs s = Inl Audit_failed
    else \<exists>s'. notify_chunks K cs s = Inr s' \<and> g_notify_seq s' = word_of_nat (length cs)
           \<and> policy_of (g_r s') = map_option (\<lambda>p. foldl policy_on_access p cs) (policy_of (g_r s))"
  using assms(1)
proof (cases rule: mmap_fresh)
  case (up c ctx fs p)
  show ?thesis using audit_from_start[OF assms, of K] up(4) by (simp add: bumps_policy)
qed

lemma fired_tokens:
  assumes "\<And>l. fired_by t l nodes = (l1, D)"
  shows "snd (fired_by t l (concat (replicate k nodes))) = concat (replicate k D)"
  using assms by (induction k arbitrary: l) (simp_all add: fired_by_append split_beta Let_def)

lemma declared_passes:
  assumes "D \<noteq> []"
  shows "foldl policy_on_access (Layer_order_declared (lo_declared_declare_sequence st D)) (concat (replicate k D))
    = Layer_order_declared (consumed D st (k * length D))"
proof -
  have f: "foldl policy_on_access (Layer_order_declared st) cs = Layer_order_declared (foldl lo_declared_on_access st cs)" for st cs
    by (induction cs arbitrary: st) simp_all
  have l: "length (concat (replicate k D)) = k * length D" by (induction k) simp_all
  have "concat (replicate k D) = map (ref_at D) [0..<k * length D]"
    by (rule nth_equalityI) (simp_all add: l ref_at_def nth_concat_replicate)
  then show ?thesis by (simp add: f consumed_def)
qed


section \<open>A concrete model\<close>

definition demo_blocks :: "string list list" where
  "demo_blocks = [[''attn_norm-0'', ''node_5'', ''ffn_out-0''], [''attn_norm-1'', ''l_out-1'']]"

lemma demo_shim_shape:
  "map_sum id (\<lambda>s. ((g_declared_seq (tbl s), n_chunks (g_r s), g_reftrace s), (g_chunk_embd (tbl s), g_chunk_outnorm (tbl s), g_chunk_output (tbl s)),
     length (g_layer_chunks (tbl s)))) demo_shim
   = Inr (([1, 3, 2, 4, 5], 6, None), (Some 1, Some 4, Some 5), 2)"
  by code_simp

lemma demo_blocks_ok:
  "length demo_blocks = 2"
  "list_all (\<lambda>j. list_ex (\<lambda>nm. node_layer nm = int j) (demo_blocks ! j) \<and> list_all (\<lambda>nm. node_layer nm = int j \<or> unnamed_node nm) (demo_blocks ! j)) [0..<2]"
  by code_simp+

theorem audit_exact_witness:
  "\<exists>s. demo_shim = Inr s \<and> notify_chunks demo_kernel [1, 3, 2, 4, 4, 1, 3, 2, 4, 4] s = Inl Audit_failed
     \<and> \<not> isl (notify_chunks demo_kernel [1, 3, 2, 4, 4, 1, 3, 2, 4, 5] s)"
proof -
  from demo_shim_up obtain s where s: "demo_shim = Inr s" by (rule not_islE)
  have sh: "g_declared_seq (tbl s) = [1, 3, 2, 4, 5]" "n_chunks (g_r s) = 6" "g_reftrace s = None"
    using demo_shim_shape[unfolded s] by simp_all
  note A = audit_exact[OF s[unfolded demo_shim_def] sh(3) _ refl, of _ demo_kernel]
  have "notify_chunks demo_kernel [1, 3, 2, 4, 4, 1, 3, 2, 4, 4] s = Inl Audit_failed"
    using A[of "[1, 3, 2, 4, 4, 1, 3, 2, 4, 4]"] sh(1,2) by simp
  moreover have "\<not> isl (notify_chunks demo_kernel [1, 3, 2, 4, 4, 1, 3, 2, 4, 5] s)"
    using A[of "[1, 3, 2, 4, 4, 1, 3, 2, 4, 5]"] sh(1,2) by auto
  ultimately show ?thesis using s by blast
qed


end
