(* ===== verification/Spec2Isabelle.thy ===== *)
theory Spec2Isabelle
  imports Simulation Replay_Main Wp2_Opt Signals
begin

text \<open>
  residctl keeps a memory region backed by a model file within a byte budget. The region is a memfd
  mapped twice; the mapping the application reads is registered with userfaultfd, so that the first
  touch of an absent chunk raises a fault. The pager answers a fault by making room (evicting chunks
  chosen by a policy), reading the chunk from the model file into the unregistered mapping and
  resolving the fault with UFFDIO_CONTINUE. Speculative fetches ahead of the application run under the
  same budget. Two programs drive it: a replay driver, which reads the region in a cycle from one or many
  threads, and a shim for llama.cpp, which cuts a model file into chunks by layer and tells the pager, from the
  names of the nodes being computed, what is read next. Two offline solvers compute the best possible number
  of fetches for a recorded trace or a declared sequence.

  \<^bold>\<open>Parts, theories and sources\<close> (all under \<^verbatim>\<open>src/src/\<close>)
  \<^item> \<open>Prelude\<close>: the C integer types (words of 8, 32 and 64 bits, naturals with \<open>wrap32\<close>
    where only a 32-bit count is needed), the result type \<open>failure + 'a\<close> in which every
    \<^verbatim>\<open>abort()\<close> and \<^verbatim>\<open>exit()\<close> of the program is a value, \<open>rbind\<close>, and \<open>pick\<close>, the scan
    for a first best element that all the victim selections are (locale \<open>pick_order\<close>).
  \<^item> \<open>Trace\<close> (\<^verbatim>\<open>trace.c\<close>, \<^verbatim>\<open>fetch_trace.c\<close>, \<^verbatim>\<open>policy_trace.c\<close>, the loader of
    \<^verbatim>\<open>belady_main.c\<close>), \<open>Metrics\<close> (\<^verbatim>\<open>metrics.c\<close>), \<open>Cgroup_Stat\<close> (\<^verbatim>\<open>cgroup_stat.c\<close>): what the
    pager records and reads.
  \<^item> \<open>Chunks\<close> (\<^verbatim>\<open>chunk_t\<close>, the table builders of \<^verbatim>\<open>region.c\<close>, \<^verbatim>\<open>pager_lookup\<close>), \<open>Ring\<close>
    (the array queues of \<^verbatim>\<open>prefetch_pool.c\<close> and \<^verbatim>\<open>budget.c\<close>), \<open>Policy\<close> (\<^verbatim>\<open>policy.c\<close>).
  \<^item> \<open>Region\<close> (\<^verbatim>\<open>region_t\<close>; the kernel as a record of functions) and \<open>Startup\<close>
    (\<^verbatim>\<open>region_startup\<close> and the checks it makes).
  \<^item> \<open>Budget\<close> (\<^verbatim>\<open>budget.c\<close>), \<open>Fetch\<close> (\<^verbatim>\<open>fetch.c\<close>), \<open>Prefetch\<close> (\<^verbatim>\<open>prefetch.c\<close> and the
    tail every fetch shares), \<open>Pool\<close> (\<^verbatim>\<open>prefetch_pool.c\<close>), \<open>Pager\<close> (\<^verbatim>\<open>pager.c\<close>).
  \<^item> \<open>Threads\<close> (the workers, the dispatcher and the application as interleaved steps, with the
    mutex of each chunk and \<^verbatim>\<open>budget_lock\<close>), \<open>Worker_Steps\<close>, \<open>Interleaving\<close>,
    \<open>Progress\<close>, \<open>Cooperation\<close>, \<open>Concurrency\<close> and \<open>Simulation\<close> (what is proved of them).
  \<^item> \<open>Replacement\<close> (page replacement in the abstract), \<open>Belady\<close> (\<^verbatim>\<open>belady.c\<close>,
    \<^verbatim>\<open>belady_main.c\<close>) and \<open>Wp2_Opt\<close> (\<^verbatim>\<open>wp2_opt.c\<close>).
  \<^item> \<open>Replay\<close> (\<^verbatim>\<open>replay_cyclic\<close> of \<^verbatim>\<open>replay.c\<close>), \<open>Lookahead\<close> (the threads of
    \<^verbatim>\<open>replay_cyclic_mt\<close>, their gate and their counts), \<open>Driver_Runs\<close> (whole runs of it) and \<open>Replay_Main\<close> (\<^verbatim>\<open>replay_main.c\<close>:
    options, set-up and exit code, and the composition of set-up, run and offline solver).
  \<^item> \<open>Text_Files\<close> (\<^verbatim>\<open>fgets\<close> and \<^verbatim>\<open>strtoull\<close>), \<open>Llama\<close> (\<^verbatim>\<open>residctl_llama.c\<close>
    up to \<^verbatim>\<open>residctl_llama_mmap\<close>), \<open>Llama_Table\<close> (what is proved of its chunk table),
    \<open>Llama_Startup\<close> (of its configuration and of the region it brings up) and \<open>Signals\<close> (its
    notifications and audit, and \<^verbatim>\<open>eval_cb\<close> of \<^verbatim>\<open>wp2_gen.cpp\<close>).

  \<^bold>\<open>State\<close>. \<open>region\<close> is \<^verbatim>\<open>region_t\<close> field by field: the chunk table, the two byte counters,
  the policy, the retention ring, the pool, the counters, the traces. To it are added what the kernel
  sees: the bytes of the memfd, the set of populated pages and the log of userfaultfd calls.
  \<open>kernel\<close> holds what the program cannot decide: the results of reads and of the ioctls, the cgroup
  figure, the clock, and \<open>k_others\<close>, what other threads do to the region while a demand worker has
  dropped every lock. It is an argument of every operation that makes such a call. No definition
  stands for the kernel's own code. \<open>replay\<close> and \<open>whole\<close> add to a region or to the machine of
  threads what the driver keeps (the sink, the counts of completed steps, the threads' places); \<open>shim\<close> is
  the state of \<^verbatim>\<open>residctl_llama.c\<close>, with the tables built from the model file in \<open>inventory_table\<close>. What
  the GGUF reader returns for a path is a parameter (\<open>gguf\<close>).

  \<^bold>\<open>Concurrency\<close>. The program is modelled twice. The first model (\<open>Budget\<close> to \<open>Pager\<close>) takes an
  operation in one go: a demand worker holds the lock of its chunk and releases the others between
  attempts to reserve; there the model applies \<open>k_others\<close>, which the theorems restrict by the
  relation \<open>rely\<close> (the invariant is kept and a chunk whose lock is held is left alone). The second
  (\<open>Threads\<close>) is a small-step machine: a worker is a program point with the locals of its job, and a
  step is what it does between two points where it may be delayed, in particular each critical section
  of \<^verbatim>\<open>budget_lock\<close> and each round of the eviction loops, where the lock is held while the
  worker waits for a victim's mutex. Steps of all workers, of the dispatcher with its watchdog, and of the
  application's notifications interleave freely. \<open>worker_round_refined\<close> ties the two. The watchdog
  steps are those that reclaim nothing; what a pass that reclaims would take is said in
  \<open>fetching_has_one_owner\<close> and is a fault of the program (\<open>watchdog_breaks_queued_job\<close>). The
  unlocked reads of a chunk's state in the policies and in the top-up, and the memory model of C, are
  taken as sequentially consistent; the pool's own mutex, which guards single calls, is not a step.
  The multi-threaded driver is a third machine over the second: its threads wait at the gate, announce, read page
  by page through the mapping (a read of an absent page waits for the pager), count and wake, interleaved with any
  steps of the pager's threads.

  \<^bold>\<open>What the lemmas show\<close>
  \<^item> \<open>Budget\<close>: \<open>budget_inv\<close> ties the two counters to the table (resident bytes are the sum of
    the RESIDENT chunks, reserved bytes the sum of the reservations in flight, together at most the
    budget), pins to the retention ring and to the pins held by workers, and the memfd to the model
    bytes of the chunks. Every operation keeps it; reservations are bounded, never break an outside
    pin and refuse only with a reason. The eviction loops end because each round makes one more chunk
    ABSENT.
  \<^item> \<open>Fetch\<close>, \<open>Prefetch\<close>, \<open>Pool\<close>, \<open>Pager\<close>: a fetch delivers exactly the bytes of
    the model; every path through a fault or a job ends with its chunk RESIDENT after one CONTINUE or
    ABSENT after one WAKE, so no reader is left asleep; assertions of the code are unreachable; the
    queues never overflow and never hold a chunk twice; the dispatcher keeps all this for ever.
  \<^item> \<open>Threads\<close> to \<open>Simulation\<close>: \<open>sys_ok\<close> gives each program point the state of its
    chunk and each chunk at most one owner; every step keeps it, so it holds in every reachable state:
    the byte bound, no lost or doubled fetch, no failed assertion, no deadlock over the two kinds of lock.
    A measure (\<open>load\<close>) falls with every step of a worker, so runs without new faults end, and with a
    cooperating kernel they end with every fault answered.
  \<^item> \<open>Policy\<close>: each policy picks an evictable chunk and the one its own rule names; for the
    declared order this is Belady's rule on the declared cycle.
  \<^item> \<open>Replacement\<close>, \<open>Belady\<close>: the solver's miss count is the optimum over all replacement
    policies, equals the naive reference, and passes its own floor check. \<open>Wp2_Opt\<close>: the byte-budget
    solver stays within its budget, for chunks of one size its misses are the same optimum, and its checks pass.
  \<^item> \<open>Replay\<close>, \<open>Driver_Runs\<close>: the single-threaded driver reads every page of every chunk once
    per pass and gets the model's bytes; the multi-threaded one, under every interleaving with the pager, ends with
    the same sink, result and trace, keeps at most window + 1 chunks in flight, loses no wake-up and takes a
    bounded number of steps. \<open>Replay_Main\<close>: from the command line on, every finished run exits with 0 and
    leaves a trace that the offline solver accepts as the passes made.
  \<^item> \<open>Llama_Table\<close>, \<open>Llama_Startup\<close>, \<open>Signals\<close>: the table built from a model file is accepted and
    tiles the region, tensors are found in chunks of their group, the declared sequence is sound, the shim brings
    up a region in which the theorems on the pager apply, its configuration file round-trips, its audit decides
    exactly, and the callback keeps the declared policy in step with the computation, token after token.
  \<^item> \<open>Chunks\<close>, \<open>Startup\<close>: the accepted tables tile the region, the lookup is exact, a
    successful startup establishes the invariant above.
  \<^item> \<open>Trace\<close>, \<open>Cgroup_Stat\<close>, \<open>Metrics\<close>: round trips and bounds.

  \<^bold>\<open>Interfaces\<close>. \<open>pick_order\<close> (scans; three orders), \<open>bounded_fifo\<close> and
  \<open>removable_fifo\<close> (queues; the ring arrays), \<open>victim_selector\<close> (every policy and the default
  scan), \<open>max_queue\<close> (the lazy heap), \<open>min_simulator\<close> (the heap simulation, the naive one and the
  byte-budget one), \<open>paged_memory\<close> (reads through the mapping; the synchronous pager).

  \<^bold>\<open>Bounds and fuel\<close>. \<open>pread_loop\<close> and the read loops of \<open>Cgroup_Stat\<close> recurse on the list
  of results the kernel gives, and fail when it is exhausted; \<open>fetch_chunk_returns\<close> says which lists
  are enough. \<open>read_records\<close> has the file's length as fuel, each round takes 24 bytes. A demand
  worker retries its reservation at most 200 times, as the code does. \<open>load\<close> bounds the steps of the
  workers and is proved enough. \<open>pager_loop\<close> runs over a list
  of poll outcomes; the theorem on it holds for every list. \<open>load_byte\<close> has as fuel the faults a read may
  take. \<open>evict_loop_bytes\<close> ends because every round frees a resident chunk, \<open>fgets_pieces\<close> because every
  piece takes a byte.

  \<^bold>\<open>Not modelled\<close>: thread creation and condition variables as such (scheduling, not state), the
  writers of reports, of the inventory and of the manifest, the teardown, the signal handler that dumps counters; the
  calibration of the compute phase of the replay (a measured time) and that phase in the multi-threaded driver,
  where it is off by default; the summary that
  \<^verbatim>\<open>replay_main.c\<close> prints; the rest of \<^verbatim>\<open>wp2_gen.cpp\<close>, which
  calls llama.cpp; the benchmarks, which drive the library from outside; the test programs.
\<close>

end
